(* ===== verification/Kvs_Prelude.thy ===== *)
theory Kvs_Prelude
  imports Main "HOL-Library.List_Lexorder" "HOL-Library.Char_ord" "HOL-Library.Word"
    "HOL-Library.Monad_Syntax"
begin

text \<open>
  Shared vocabulary of the lidis development: C strings and the parts of the C library the
  sources call (\<open>strcmp\<close>, \<open>memcmp\<close>, \<open>atoi\<close>, decimal printing), checked buffer access,
  and the environment of a call (which allocations succeed, what \<open>random()\<close> answers).

  A computation that may run into undefined behaviour (a NULL or dangling pointer, an access
  outside an allocation) has an \<open>option\<close> type: \<open>None\<close> says that the C program has no defined
  result.  Error returns of the sources are ordinary integer results, not \<open>None\<close>.
\<close>

named_theorems cstr_simps \<open>rewrite rules for C strings and buffers\<close>
named_theorems dec_simps \<open>rewrite rules for decimal numerals\<close>

subsection \<open>Characters and machine integers\<close>

abbreviation NUL :: char where "NUL \<equiv> CHR 0x00"
abbreviation CR :: char where "CR \<equiv> CHR 0x0D"
abbreviation LF :: char where "LF \<equiv> CHR 0x0A"
abbreviation CRLF :: string where "CRLF \<equiv> [CR, LF]"

definition INT_MAX :: int where "INT_MAX = 2147483647"
definition SIZE_MAX :: int where "SIZE_MAX = 18446744073709551615"

definition c_int :: "int \<Rightarrow> int" where
  "c_int n = (n + 2 ^ 31) mod 2 ^ 32 - 2 ^ 31"

definition c_size :: "int \<Rightarrow> int" where
  "c_size n = n mod 2 ^ 64"

lemma c_int_id: "- (2 ^ 31) \<le> n \<Longrightarrow> n < 2 ^ 31 \<Longrightarrow> c_int n = n"
  by (simp add: c_int_def)

lemma c_size_id: "0 \<le> n \<Longrightarrow> n < 2 ^ 64 \<Longrightarrow> c_size n = n"
  by (simp add: c_size_def)

text \<open>Addresses of the heap models; 0 is NULL.\<close>

type_synonym addr = nat

subsection \<open>C strings\<close>

definition cstring :: "string \<Rightarrow> bool" where
  "cstring s \<longleftrightarrow> NUL \<notin> set s"

lemma cstring_Nil [simp]: "cstring []"
  by (simp add: cstring_def)

lemma cstring_Cons [simp]: "cstring (c # s) \<longleftrightarrow> c \<noteq> NUL \<and> cstring s"
  by (auto simp: cstring_def)

lemma cstring_append [simp]: "cstring (s @ t) \<longleftrightarrow> cstring s \<and> cstring t"
  by (auto simp: cstring_def)

text \<open>\<open>strcmp\<close>: only the sign of its result is used by the sources.\<close>

fun strcmp :: "string \<Rightarrow> string \<Rightarrow> int" where
  "strcmp [] [] = 0"
| "strcmp [] (y # ys) = -1"
| "strcmp (x # xs) [] = 1"
| "strcmp (x # xs) (y # ys) = (if x = y then strcmp xs ys else if x < y then -1 else 1)"

lemma strcmp_eq_0 [simp]: "strcmp a b = 0 \<longleftrightarrow> a = b"
  by (induction a b rule: strcmp.induct) auto

lemma strcmp_neg [simp]: "strcmp a b < 0 \<longleftrightarrow> a < b"
  by (induction a b rule: strcmp.induct) auto

lemma strcmp_pos [simp]: "0 < strcmp a b \<longleftrightarrow> b < a"
  by (induction a b rule: strcmp.induct) auto

subsection \<open>Checked buffers\<close>

text \<open>A buffer is the list of bytes of one allocation; an access outside it has no result.\<close>

definition rd :: "char list \<Rightarrow> int \<Rightarrow> char option" where
  "rd b i = (if 0 \<le> i \<and> i < int (length b) then Some (b ! nat i) else None)"

definition wr :: "char list \<Rightarrow> int \<Rightarrow> char \<Rightarrow> char list option" where
  "wr b i c = (if 0 \<le> i \<and> i < int (length b) then Some (b[nat i := c]) else None)"

definition memrd :: "char list \<Rightarrow> int \<Rightarrow> nat \<Rightarrow> char list option" where
  "memrd b i n = (if 0 \<le> i \<and> i + int n \<le> int (length b) then Some (take n (drop (nat i) b))
                  else None)"

definition memwr :: "char list \<Rightarrow> int \<Rightarrow> char list \<Rightarrow> char list option" where
  "memwr b i s = (if 0 \<le> i \<and> i + int (length s) \<le> int (length b)
                  then Some (take (nat i) b @ s @ drop (nat i + length s) b) else None)"

lemma rd_eq_Some: "rd b i = Some c \<longleftrightarrow> 0 \<le> i \<and> i < int (length b) \<and> c = b ! nat i"
  by (auto simp: rd_def)

lemma wr_eq_Some: "wr b i c = Some b' \<longleftrightarrow> 0 \<le> i \<and> i < int (length b) \<and> b' = b[nat i := c]"
  by (auto simp: wr_def)

lemma memwr_length: "memwr b i s = Some b' \<Longrightarrow> length b' = length b"
  by (auto simp: memwr_def split: if_splits)

lemma rd_in [simp]: "0 \<le> i \<Longrightarrow> i < int (length b) \<Longrightarrow> rd b i = Some (b ! nat i)"
  by (simp add: rd_def)

lemma wr_in [simp]: "0 \<le> i \<Longrightarrow> i < int (length b) \<Longrightarrow> wr b i c = Some (b[nat i := c])"
  by (simp add: wr_def)

lemma memrd_in [simp]:
  "0 \<le> i \<Longrightarrow> i + int n \<le> int (length b) \<Longrightarrow> memrd b i n = Some (take n (drop (nat i) b))"
  by (simp add: memrd_def)

lemma rd_mid: "i = int (length pre) \<Longrightarrow> rd (pre @ c # post) i = Some c"
  by (simp add: rd_def)

lemma wr_mid: "i = int (length pre) \<Longrightarrow> wr (pre @ c # post) i d = Some (pre @ d # post)"
  by (simp add: wr_def)

text \<open>The C string that starts at index \<open>i\<close>: it runs to the first NUL, which has to lie
  inside the allocation.\<close>

definition cstr_at :: "char list \<Rightarrow> int \<Rightarrow> string option" where
  "cstr_at b i =
     (if 0 \<le> i \<and> i < int (length b) \<and> NUL \<in> set (drop (nat i) b)
      then Some (takeWhile (\<lambda>c. c \<noteq> NUL) (drop (nat i) b)) else None)"

lemma cstr_at_append:
  assumes "cstring s" and "drop i b = s @ NUL # r"
  shows "cstr_at b (int i) = Some s"
proof -
  have "i < length b" using assms(2) by (cases "i < length b") auto
  moreover have "takeWhile (\<lambda>c. c \<noteq> NUL) (s @ NUL # r) = s"
    using assms(1) by (induction s) auto
  ultimately show ?thesis using assms(2) by (simp add: cstr_at_def)
qed

text \<open>A NUL at or behind the start bounds the string.\<close>

lemma cstr_at_bound:
  assumes "i \<le> j" "j < length b" "b ! j = NUL"
  shows "\<exists>s. cstr_at b (int i) = Some s \<and> i + length s \<le> j"
proof -
  have d: "drop i b ! (j - i) = NUL" "j - i < length (drop i b)" using assms by simp_all
  then have "NUL \<in> set (drop i b)" by (metis nth_mem)
  moreover have "length (takeWhile (\<lambda>c. c \<noteq> NUL) (drop i b)) \<le> j - i"
    using d by (metis (mono_tags, lifting) linorder_not_less nth_mem set_takeWhileD takeWhile_nth)
  ultimately show ?thesis using assms by (auto simp: cstr_at_def)
qed

lemma cstr_at_cstring: "cstr_at b i = Some s \<Longrightarrow> cstring s"
  by (auto simp: cstr_at_def cstring_def split: if_splits dest: set_takeWhileD)

subsection \<open>Decimal numerals\<close>

definition is_digit :: "char \<Rightarrow> bool" where
  "is_digit c \<longleftrightarrow> CHR ''0'' \<le> c \<and> c \<le> CHR ''9''"

definition digit_val :: "char \<Rightarrow> int" where
  "digit_val c = int (of_char c) - 48"

definition digit_char :: "nat \<Rightarrow> char" where
  "digit_char d = char_of (48 + d)"

text \<open>What \<open>printf\<close> writes for \<open>%d\<close>, \<open>%zu\<close> of a non-negative number.\<close>

fun dec :: "nat \<Rightarrow> string" where
  "dec n = (if n < 10 then [digit_char n] else dec (n div 10) @ [digit_char (n mod 10)])"

declare dec.simps [simp del]

lemma of_digit_char: "d < 10 \<Longrightarrow> (of_char (digit_char d) :: nat) = 48 + d"
  by (simp add: digit_char_def)

lemma is_digit_iff: "is_digit c \<longleftrightarrow> 48 \<le> (of_char c :: nat) \<and> (of_char c :: nat) \<le> 57"
  by (simp add: is_digit_def less_eq_char_def)

lemma is_digit_digit_char [simp]: "d < 10 \<Longrightarrow> is_digit (digit_char d)"
  by (simp add: is_digit_iff of_digit_char)

lemma digit_val_digit_char [simp]: "d < 10 \<Longrightarrow> digit_val (digit_char d) = int d"
  by (simp add: digit_val_def of_digit_char)

lemma digit_val_range: "is_digit c \<Longrightarrow> 0 \<le> digit_val c \<and> digit_val c \<le> 9"
  by (auto simp: is_digit_iff digit_val_def)

lemma dec_nonempty [simp]: "dec n \<noteq> []"
  by (subst dec.simps) simp

lemma dec_digits: "c \<in> set (dec n) \<Longrightarrow> is_digit c"
proof (induction n rule: dec.induct)
  case (1 n)
  show ?case
  proof (cases "n < 10")
    case True
    then show ?thesis using "1.prems" by (simp add: dec.simps [of n])
  next
    case False
    then show ?thesis using 1 by (auto simp: dec.simps [of n])
  qed
qed

lemma dec_length: "n < 10 ^ k \<Longrightarrow> 0 < k \<Longrightarrow> length (dec n) \<le> k"
proof (induction k arbitrary: n)
  case (Suc k)
  show ?case
  proof (cases "n < 10")
    case False
    then have "n div 10 < 10 ^ k" "0 < k" using Suc.prems by (auto simp: less_mult_imp_div_less mult.commute intro: gr0I)
    then show ?thesis using Suc.IH [of "n div 10"] False by (simp add: dec.simps [of n])
  qed (simp add: dec.simps [of n])
qed simp

lemma not_digit_chars [simp]:
  "\<not> is_digit NUL" "\<not> is_digit CR" "\<not> is_digit LF" "\<not> is_digit (CHR ''^'')"
  "\<not> is_digit (CHR ''&'')" "\<not> is_digit (CHR ''$'')" "\<not> is_digit (CHR ''#'')"
  "\<not> is_digit (CHR ''*'')" "\<not> is_digit (CHR ''-'')"
  by (simp_all add: is_digit_iff)

lemma cstring_dec [simp]: "cstring (dec n)"
  unfolding cstring_def using dec_digits [of NUL n] by auto

text \<open>The value of a run of digits, most significant first.\<close>

definition dec_val :: "int \<Rightarrow> string \<Rightarrow> int" where
  "dec_val acc s = foldl (\<lambda>a c. 10 * a + digit_val c) acc s"

lemma dec_val_Nil [simp]: "dec_val acc [] = acc"
  by (simp add: dec_val_def)

lemma dec_val_Cons [simp]: "dec_val acc (c # s) = dec_val (10 * acc + digit_val c) s"
  by (simp add: dec_val_def)

lemma dec_val_snoc: "dec_val acc (s @ [c]) = 10 * dec_val acc s + digit_val c"
  by (simp add: dec_val_def)

lemma dec_val_dec [simp]: "dec_val 0 (dec n) = int n"
proof (induction n rule: dec.induct)
  case (1 n)
  show ?case
  proof (cases "n < 10")
    case True
    then show ?thesis by (simp add: dec.simps [of n])
  next
    case False
    then have "dec_val 0 (dec n) = 10 * int (n div 10) + int (n mod 10)"
      using 1 by (simp add: dec.simps [of n] dec_val_snoc)
    then show ?thesis by (simp flip: of_nat_mult of_nat_add add: zdiv_int zmod_int)
  qed
qed

lemma dec_val_mono:
  assumes "0 \<le> acc" and "\<forall>c \<in> set s. is_digit c"
  shows "acc \<le> dec_val acc s"
  using assms
proof (induction s arbitrary: acc)
  case Nil
  then show ?case by simp
next
  case (Cons c s)
  have d: "0 \<le> digit_val c" using Cons.prems(2) digit_val_range by simp
  then have "10 * acc + digit_val c \<le> dec_val (10 * acc + digit_val c) s"
    using Cons by simp
  then show ?case using Cons.prems(1) d by simp
qed

subsection \<open>atoi\<close>

definition c_isspace :: "char \<Rightarrow> bool" where
  "c_isspace c \<longleftrightarrow> c = CHR '' '' \<or> (9 \<le> (of_char c :: nat) \<and> (of_char c :: nat) \<le> 13)"

text \<open>\<open>atoi\<close> on the suffix of a buffer: \<open>(int) strtol(p, NULL, 10)\<close>, where \<open>strtol\<close> skips
  white space, takes a sign and saturates at the range of \<open>long\<close>.  A scan that reaches the end of
  the allocation reads outside it.\<close>

fun atoi_digits :: "int \<Rightarrow> char list \<Rightarrow> int option" where
  "atoi_digits acc [] = None"
| "atoi_digits acc (c # s) = (if is_digit c then atoi_digits (10 * acc + digit_val c) s
                               else Some acc)"

definition strtol_sat :: "int \<Rightarrow> int" where
  "strtol_sat n = max (- (2 ^ 63)) (min (2 ^ 63 - 1) n)"

fun atoi :: "char list \<Rightarrow> int option" where
  "atoi [] = None"
| "atoi (c # s) =
     (if c_isspace c then atoi s
      else if c = CHR ''-'' then map_option (\<lambda>n. c_int (strtol_sat (- n))) (atoi_digits 0 s)
      else if c = CHR ''+'' then map_option (\<lambda>n. c_int (strtol_sat n)) (atoi_digits 0 s)
      else map_option (\<lambda>n. c_int (strtol_sat n)) (atoi_digits 0 (c # s)))"

lemma atoi_digits_run:
  assumes "\<forall>c \<in> set s. is_digit c" and "\<not> is_digit d"
  shows "atoi_digits acc (s @ d # r) = Some (dec_val acc s)"
  using assms by (induction s arbitrary: acc) auto

lemma atoi_dec:
  assumes "\<not> is_digit d" and "int n \<le> INT_MAX"
  shows "atoi (dec n @ d # r) = Some (int n)"
proof -
  obtain c s where cs: "dec n = c # s" by (cases "dec n") auto
  have dig: "\<forall>x \<in> set (c # s). is_digit x" using dec_digits [of _ n] cs by auto
  then have "is_digit c" by simp
  then have "\<not> c_isspace c" "c \<noteq> CHR ''-''" "c \<noteq> CHR ''+''"
    by (auto simp: is_digit_iff c_isspace_def)
  moreover have "atoi_digits 0 (c # s @ d # r) = Some (int n)"
    using atoi_digits_run [of "c # s" d 0 r] dig assms(1) dec_val_dec [of n] cs by simp
  moreover have "c_int (strtol_sat (int n)) = int n"
    using assms(2) by (simp add: strtol_sat_def c_int_def INT_MAX_def)
  ultimately show ?thesis by (simp add: cs)
qed

subsection \<open>Loops that may fail\<close>

text \<open>\<open>for\<close> over the indices \<open>xs\<close> with a body that may have no defined result.\<close>

fun ofold :: "('b \<Rightarrow> 'a \<Rightarrow> 'a option) \<Rightarrow> 'b list \<Rightarrow> 'a \<Rightarrow> 'a option" where
  "ofold f [] a = Some a"
| "ofold f (x # xs) a = Option.bind (f x a) (ofold f xs)"

lemma ofold_Some:
  assumes "\<forall>x \<in> set xs. \<forall>a. P a \<longrightarrow> (\<exists>a'. f x a = Some a' \<and> P a')" and "P a"
  shows "\<exists>a'. ofold f xs a = Some a' \<and> P a'"
  using assms
proof (induction xs arbitrary: a)
  case (Cons x xs)
  then obtain a1 where "f x a = Some a1" "P a1" by auto
  then show ?case using Cons by simp
qed simp

lemma ofold_append: "ofold f (xs @ ys) a = Option.bind (ofold f xs a) (ofold f ys)"
  by (induction xs arbitrary: a) (auto split: bind_splits)

subsection \<open>Association lists around one entry\<close>

lemma map_of_insert_mid:
  "k \<notin> fst ` set xs \<Longrightarrow> map_of (xs @ (k, v) # ys) = (map_of (xs @ ys))(k \<mapsto> v)"
  by (induction xs) (auto simp: fun_eq_iff)

lemma map_of_update_mid:
  assumes "k \<notin> fst ` set xs"
  shows "map_of (xs @ (k, v) # ys) = (map_of (xs @ (k, w) # ys))(k \<mapsto> v)"
  by (simp only: map_of_insert_mid [OF assms] fun_upd_upd)

lemma map_of_delete_mid:
  assumes "distinct (map fst (xs @ (k, v) # ys))"
  shows "map_of (xs @ ys) = (map_of (xs @ (k, v) # ys))(k := None)"
proof -
  have k: "k \<notin> fst ` set xs" and n: "map_of (xs @ ys) k = None"
    using assms by (auto simp: map_of_eq_None_iff)
  have "(map_of (xs @ ys))(k := None) = map_of (xs @ ys)" using n by (rule fun_upd_idem)
  then show ?thesis by (simp only: map_of_insert_mid [OF k] fun_upd_upd)
qed

subsection \<open>The environment of a call\<close>

text \<open>
  \<open>mem e i\<close>: the \<open>i\<close>-th \<open>kvs_malloc\<close>/\<open>kvs_realloc\<close> of the call returns memory (otherwise
  NULL).  \<open>rnd e i\<close>: the \<open>i\<close>-th result of \<open>random()\<close>.  \<open>junk e\<close>: the word left over in
  memory that is handed out uninitialised.
\<close>

record env =
  mem :: "nat \<Rightarrow> bool"
  rnd :: "nat \<Rightarrow> int"
  junk :: nat

definition env_skip :: "nat \<Rightarrow> env \<Rightarrow> env" where
  "env_skip n e = e\<lparr>mem := (\<lambda>i. mem e (i + n))\<rparr>"

definition mem_ok :: "env \<Rightarrow> bool" where
  "mem_ok e \<longleftrightarrow> (\<forall>i. mem e i)"

definition env0 :: env where
  "env0 = \<lparr>mem = (\<lambda>_. True), rnd = (\<lambda>_. 0), junk = 0\<rparr>"

lemma mem_okD [simp]: "mem_ok e \<Longrightarrow> mem e i"
  by (simp add: mem_ok_def)

lemma mem_ok_skip [simp]: "mem_ok e \<Longrightarrow> mem_ok (env_skip n e)"
  by (simp add: mem_ok_def env_skip_def)

lemma mem_ok_env0 [simp]: "mem_ok env0"
  by (simp add: mem_ok_def env0_def)

lemma mem_env_skip [simp]: "mem (env_skip n e) i = mem e (i + n)"
  by (simp add: env_skip_def)

text \<open>\<open>realloc\<close>: the contents up to the smaller size stay, new bytes are left over.\<close>

definition c_realloc :: "env \<Rightarrow> char list \<Rightarrow> nat \<Rightarrow> char list" where
  "c_realloc e b n = take n (b @ replicate n (char_of (junk e)))"

lemma c_realloc_length [simp]: "length (c_realloc e b n) = n"
  by (simp add: c_realloc_def)

lemma those_Some [simp]: "those (map Some xs) = Some xs"
  by (induction xs) simp_all

end
