(* ===== verification/Kvs_Agent_DS.thy ===== *)
theory Kvs_Agent_DS
  imports Kvs_Prelude "HOL-Library.Multiset"
begin

text \<open>
  The data structures of the replication agent, \<^verbatim>\<open>kvs-ebpf/kvs_agent_ds.c\<close>: the table of
  connected slaves and the ring buffer that queues messages between the threads.  The ring stores
  each message behind its length (a \<open>size_t\<close> in the byte order of the machine); \<open>memcpy\<close> is
  a checked copy, so a copy outside the ring or the message has no result.
\<close>

subsection \<open>Slaves\<close>

record kvs_slaves =
  sl_table :: "int list option"
  sl_total :: nat
  sl_size :: nat

text \<open>\<open>memset\<close> with \<open>-1\<close> makes every descriptor \<open>-1\<close>.\<close>

definition kvs_slaves_create :: "env \<Rightarrow> kvs_slaves \<Rightarrow> nat \<Rightarrow> int \<times> kvs_slaves" where
  "kvs_slaves_create e inst n =
     (if sl_table inst \<noteq> None then (0, inst)
      else if \<not> mem e 0 then (-2, inst\<lparr>sl_table := None\<rparr>)
      else (0, inst\<lparr>sl_table := Some (replicate n (-1)), sl_total := 0, sl_size := n\<rparr>))"

text \<open>The loop over the table: the first entry that satisfies \<open>p\<close> is overwritten; \<open>n\<close> bounds
  the scan and an index outside the table has no result.\<close>

fun slaves_scan :: "(int \<Rightarrow> bool) \<Rightarrow> int \<Rightarrow> nat \<Rightarrow> int list \<Rightarrow> (bool \<times> int list) option" where
  "slaves_scan p v 0 t = Some (False, t)"
| "slaves_scan p v (Suc n) [] = None"
| "slaves_scan p v (Suc n) (x # t) =
     (if p x then Some (True, v # t)
      else do { (b, t') \<leftarrow> slaves_scan p v n t; Some (b, x # t') })"

definition kvs_slaves_insert :: "kvs_slaves \<Rightarrow> int \<Rightarrow> (int \<times> kvs_slaves) option" where
  "kvs_slaves_insert inst fd =
     (case sl_table inst of None \<Rightarrow> Some (-1, inst)
      | Some t \<Rightarrow>
          if sl_total inst = sl_size inst then Some (-2, inst)
          else do { (b, t') \<leftarrow> slaves_scan (\<lambda>x. x < 0) fd (sl_size inst) t;
                    Some (0, inst\<lparr>sl_table := Some t', sl_total := (if b then sl_total inst + 1 else sl_total inst)\<rparr>) })"

definition kvs_slaves_delete :: "kvs_slaves \<Rightarrow> int \<Rightarrow> (int \<times> kvs_slaves) option" where
  "kvs_slaves_delete inst fd =
     (case sl_table inst of None \<Rightarrow> Some (-1, inst)
      | Some t \<Rightarrow>
          if sl_total inst = 0 then Some (0, inst)
          else do { (b, t') \<leftarrow> slaves_scan (\<lambda>x. x = fd) (-1) (sl_size inst) t;
                    Some (0, inst\<lparr>sl_table := Some t', sl_total := (if b then sl_total inst - 1 else sl_total inst)\<rparr>) })"

text \<open>Destruction also yields the descriptors it closes.\<close>

definition kvs_slaves_destroy :: "kvs_slaves \<Rightarrow> int \<times> int list \<times> kvs_slaves" where
  "kvs_slaves_destroy inst =
     (0, (case sl_table inst of None \<Rightarrow> [] | Some t \<Rightarrow> filter (\<lambda>fd. fd > 0) (take (sl_size inst) t)),
      inst\<lparr>sl_table := None, sl_total := 0\<rparr>)"

subsection \<open>The ring buffer\<close>

record agent_cache =
  read_pos :: nat
  write_pos :: nat
  capacity :: nat
  used :: nat
  cache :: "char list option"

text \<open>Subtraction of \<open>size_t\<close> values, and the bytes of a \<open>size_t\<close> (8, least significant
  first).\<close>

definition SIZEOF_SIZE_T :: nat where "SIZEOF_SIZE_T = 8"

definition sz_sub :: "nat \<Rightarrow> nat \<Rightarrow> nat" where
  "sz_sub a b = (if b \<le> a then a - b else 2 ^ 64 + a - b)"

definition size_bytes :: "nat \<Rightarrow> char list" where
  "size_bytes n = map (\<lambda>i. char_of (n div 256 ^ i)) [0..<8]"

fun size_val :: "char list \<Rightarrow> nat" where
  "size_val [] = 0"
| "size_val (c # cs) = of_char c + 256 * size_val cs"

definition kvs_agent_cache_create :: "env \<Rightarrow> agent_cache \<Rightarrow> nat \<Rightarrow> int \<times> agent_cache" where
  "kvs_agent_cache_create e ac n =
     (if n = 0 then (-1, ac)
      else if \<not> mem e 0 then (-2, ac\<lparr>cache := None\<rparr>)
      else (0, ac\<lparr>cache := Some (replicate n (char_of (junk e))), capacity := n, read_pos := 0, write_pos := 0, used := 0\<rparr>))"

definition kvs_agent_cache_destroy :: "agent_cache \<Rightarrow> agent_cache" where
  "kvs_agent_cache_destroy ac = ac\<lparr>cache := None\<rparr>"

text \<open>\<open>buf\<close> is the source of the copy, \<open>None\<close> for NULL.\<close>

definition cache_write_bytes :: "agent_cache \<Rightarrow> char list option \<Rightarrow> nat \<Rightarrow> (int \<times> agent_cache) option" where
  "cache_write_bytes ac buf buf_len =
     (case (cache ac, buf) of
        (Some c, Some b) \<Rightarrow>
          if buf_len = 0 then Some (-1, ac)
          else if sz_sub (capacity ac) (used ac) < buf_len then Some (-2, ac)
          else do {
            ac \<leftarrow> (if sz_sub (capacity ac) (write_pos ac) \<ge> buf_len
                   then do {
                     d \<leftarrow> memrd b 0 buf_len;
                     c \<leftarrow> memwr c (int (write_pos ac)) d;
                     Some (ac\<lparr>cache := Some c, write_pos := (write_pos ac + buf_len) mod capacity ac\<rparr>) }
                   else do {
                     let last_copy_len = sz_sub (capacity ac) (write_pos ac);
                     d \<leftarrow> memrd b 0 last_copy_len;
                     c \<leftarrow> memwr c (int (write_pos ac)) d;
                     let ac = ac\<lparr>cache := Some c, write_pos := (write_pos ac + last_copy_len) mod capacity ac\<rparr>;
                     d \<leftarrow> memrd b (int last_copy_len) (sz_sub buf_len last_copy_len);
                     c \<leftarrow> memwr c (int (write_pos ac)) d;
                     Some (ac\<lparr>cache := Some c, write_pos := (write_pos ac + sz_sub buf_len last_copy_len) mod capacity ac\<rparr>) });
            Some (0, ac\<lparr>used := used ac + buf_len\<rparr>) }
      | _ \<Rightarrow> Some (-1, ac))"

definition kvs_agent_cache_write :: "agent_cache \<Rightarrow> char list option \<Rightarrow> nat \<Rightarrow> (int \<times> agent_cache) option" where
  "kvs_agent_cache_write ac buf buf_len =
     (if cache ac = None \<or> buf = None \<or> buf_len = 0 then Some (-1, ac)
      else if buf_len > 2 ^ 64 - 1 - SIZEOF_SIZE_T then Some (-2, ac)
      else if sz_sub (capacity ac) (used ac) < SIZEOF_SIZE_T + buf_len then Some (-2, ac)
      else do {
        (ret, ac) \<leftarrow> cache_write_bytes ac (Some (size_bytes buf_len)) SIZEOF_SIZE_T;
        if ret \<noteq> 0 then Some (-3, ac)
        else do {
          (ret, ac) \<leftarrow> cache_write_bytes ac buf buf_len;
          if ret \<noteq> 0 then Some (-3, ac) else Some (0, ac) } })"

text \<open>Reading copies into a buffer of the length asked for; the copied bytes are the result.\<close>

definition cache_read_bytes :: "agent_cache \<Rightarrow> nat \<Rightarrow> (int \<times> char list \<times> agent_cache) option" where
  "cache_read_bytes ac buf_len =
     (case cache ac of None \<Rightarrow> Some (-1, [], ac)
      | Some c \<Rightarrow>
          if buf_len = 0 then Some (-1, [], ac)
          else if used ac < buf_len then Some (-2, [], ac)
          else if sz_sub (capacity ac) (read_pos ac) \<ge> buf_len
          then do {
            d \<leftarrow> memrd c (int (read_pos ac)) buf_len;
            Some (0, d, ac\<lparr>read_pos := (read_pos ac + buf_len) mod capacity ac, used := used ac - buf_len\<rparr>) }
          else do {
            let last_copy_len = sz_sub (capacity ac) (read_pos ac);
            d \<leftarrow> memrd c (int (read_pos ac)) last_copy_len;
            let ac = ac\<lparr>read_pos := (read_pos ac + last_copy_len) mod capacity ac\<rparr>;
            d' \<leftarrow> memrd c (int (read_pos ac)) (sz_sub buf_len last_copy_len);
            Some (0, d @ d', ac\<lparr>read_pos := (read_pos ac + sz_sub buf_len last_copy_len) mod capacity ac, used := used ac - buf_len\<rparr>) })"

definition cache_peek_len :: "agent_cache \<Rightarrow> (int \<times> char list) option" where
  "cache_peek_len ac =
     (case cache ac of None \<Rightarrow> Some (-1, [])
      | Some c \<Rightarrow>
          if used ac < SIZEOF_SIZE_T then Some (-2, [])
          else if sz_sub (capacity ac) (read_pos ac) \<ge> SIZEOF_SIZE_T
          then do { d \<leftarrow> memrd c (int (read_pos ac)) SIZEOF_SIZE_T; Some (0, d) }
          else do {
            let last_copy_len = sz_sub (capacity ac) (read_pos ac);
            d \<leftarrow> memrd c (int (read_pos ac)) last_copy_len;
            let tmp_read_pos = (read_pos ac + last_copy_len) mod capacity ac;
            d' \<leftarrow> memrd c (int tmp_read_pos) (sz_sub SIZEOF_SIZE_T last_copy_len);
            Some (0, d @ d') })"

text \<open>The result is the returned buffer (NULL is \<open>None\<close>) and \<open>*buf_len\<close>, which the caller
  initialised to 0.\<close>

definition kvs_agent_cache_read :: "env \<Rightarrow> agent_cache \<Rightarrow> (char list option \<times> nat \<times> agent_cache) option" where
  "kvs_agent_cache_read e ac =
     (if cache ac = None then Some (None, 0, ac)
      else if used ac < SIZEOF_SIZE_T then Some (None, 0, ac)
      else do {
        (ret, d) \<leftarrow> cache_peek_len ac;
        let len = size_val d;
        if ret \<noteq> 0 then Some (None, 0, ac)
        else if len > sz_sub (used ac) SIZEOF_SIZE_T \<or> len = 0 then Some (None, len, ac)
        else if \<not> mem e 0 then Some (None, len, ac)
        else do {
          let ac = ac\<lparr>read_pos := (read_pos ac + SIZEOF_SIZE_T) mod capacity ac, used := used ac - SIZEOF_SIZE_T\<rparr>;
          (ret, buf, ac) \<leftarrow> cache_read_bytes ac len;
          if ret \<noteq> 0 then Some (None, len, ac) else Some (Some buf, len, ac) } })"

subsection \<open>The ring as a byte sequence\<close>

definition ring_ok :: "agent_cache \<Rightarrow> bool" where
  "ring_ok ac \<longleftrightarrow> (\<exists>b. cache ac = Some b \<and> length b = capacity ac) \<and> 0 < capacity ac \<and> capacity ac < 2 ^ 64 \<and>
     read_pos ac < capacity ac \<and> used ac \<le> capacity ac \<and> write_pos ac = (read_pos ac + used ac) mod capacity ac"

definition ring_bytes :: "agent_cache \<Rightarrow> char list" where
  "ring_bytes ac = map (\<lambda>i. the (cache ac) ! ((read_pos ac + i) mod capacity ac)) [0..<used ac]"

lemma ring_bytes_length [simp]: "length (ring_bytes ac) = used ac"
  by (simp add: ring_bytes_def)

lemma ring_bytes_nth: "i < used ac \<Longrightarrow> ring_bytes ac ! i = the (cache ac) ! ((read_pos ac + i) mod capacity ac)"
  by (simp add: ring_bytes_def)

lemma sz_sub_le [simp]: "b \<le> a \<Longrightarrow> sz_sub a b = a - b"
  by (simp add: sz_sub_def)

lemma memwr_nth:
  assumes "memwr b (int i) s = Some b'" "j < length b"
  shows "b' ! j = (if i \<le> j \<and> j < i + length s then s ! (j - i) else b ! j)"
  using assms by (auto simp: memwr_def nth_append split: if_splits)

lemma mod_wrap:
  fixes a b c :: nat
  assumes "a < c" "b \<le> c"
  shows "(a + b) mod c = (if a + b < c then a + b else a + b - c)"
  using assms by (simp add: mod_if)

text \<open>Writing \<open>d\<close> into a ring at position \<open>w\<close>: the byte at ring distance \<open>i\<close> is \<open>d ! i\<close>.\<close>

definition ring_written :: "char list \<Rightarrow> nat \<Rightarrow> char list \<Rightarrow> char list \<Rightarrow> bool" where
  "ring_written c w d c' \<longleftrightarrow> length c' = length c \<and> (\<forall>i < length d. c' ! ((w + i) mod length c) = d ! i) \<and>
     (\<forall>j < length c. (\<forall>i < length d. j \<noteq> (w + i) mod length c) \<longrightarrow> c' ! j = c ! j)"

lemma write_once:
  assumes "w + length d \<le> length c" "w < length c"
  shows "\<exists>c'. memwr c (int w) d = Some c' \<and> ring_written c w d c'"
proof -
  obtain c' where c': "memwr c (int w) d = Some c'" using assms by (auto simp: memwr_def)
  have n: "c' ! j = (if w \<le> j \<and> j < w + length d then d ! (j - w) else c ! j)" if "j < length c" for j
    using memwr_nth [OF c' that] .
  have "c' ! j = c ! j" if "j < length c" "\<forall>i < length d. j \<noteq> (w + i) mod length c" for j
  proof (cases "w \<le> j \<and> j < w + length d")
    case True
    then have "j - w < length d" "(w + (j - w)) mod length c = j" using that(1) by auto
    with that(2) show ?thesis by fastforce
  qed (use n that(1) in auto)
  moreover have "c' ! ((w + i) mod length c) = d ! i" if "i < length d" for i using that assms n by simp
  ultimately show ?thesis using c' memwr_length [OF c'] by (auto simp: ring_written_def)
qed

lemma write_twice:
  assumes w: "w < length c" and d: "length d \<le> length c" "length c < w + length d"
  defines "k \<equiv> length c - w"
  shows "\<exists>c1 c'. memwr c (int w) (take k d) = Some c1 \<and> memwr c1 0 (drop k d) = Some c' \<and> ring_written c w d c'"
proof -
  have k: "length (take k d) = k" "w + k = length c" "length (drop k d) = length d - k" "length d - k \<le> w" using w d by (auto simp: k_def)
  obtain c1 where c1: "memwr c (int w) (take k d) = Some c1" using k by (auto simp: memwr_def)
  have l1: "length c1 = length c" using memwr_length [OF c1] .
  obtain c' where c': "memwr c1 (int 0) (drop k d) = Some c'" using k w l1 by (auto simp: memwr_def)
  have l2: "length c' = length c" using memwr_length [OF c'] l1 by simp
  have n: "c' ! j = (if j < length d - k then d ! (j + k) else if w \<le> j then d ! (j - w) else c ! j)" if "j < length c" for j
    using memwr_nth [OF c', of j] memwr_nth [OF c1 that] that l1 k by (auto simp: add.commute)
  have idx: "(w + i) mod length c = (if i < k then w + i else i - k)" if "i < length d" for i
    using that mod_wrap [of w "length c" i] w d k by auto
  have "c' ! ((w + i) mod length c) = d ! i" if "i < length d" for i
  proof -
    have "(w + i) mod length c < length c" using w by (intro mod_less_divisor) linarith
    from n [OF this] show ?thesis using idx [OF that] that k by auto
  qed
  moreover have "c' ! j = c ! j" if j: "j < length c" "\<forall>i < length d. j \<noteq> (w + i) mod length c" for j
  proof -
    have "\<not> j < length d - k"
    proof
      assume "j < length d - k"
      then have "j + k < length d" "(w + (j + k)) mod length c = j" using idx [of "j + k"] by auto
      with j(2) show False by metis
    qed
    moreover have "\<not> w \<le> j"
    proof
      assume "w \<le> j"
      then have "j - w < k" using j(1) k(2) by simp
      moreover from this have "j - w < length d" using k(1) by simp
      ultimately have "(w + (j - w)) mod length c = j" using idx [of "j - w"] \<open>w \<le> j\<close> by simp
      with j(2) \<open>j - w < length d\<close> show False by metis
    qed
    ultimately show ?thesis using n [OF j(1)] by simp
  qed
  ultimately show ?thesis using c1 c' l2 by (auto simp: ring_written_def)
qed

lemma cache_write_bytes_ok:
  assumes ok: "ring_ok ac" and n: "0 < length d" "used ac + length d \<le> capacity ac"
  shows "\<exists>ac'. cache_write_bytes ac (Some d) (length d) = Some (0, ac') \<and> ring_ok ac' \<and>
    capacity ac' = capacity ac \<and> used ac' = used ac + length d \<and> ring_bytes ac' = ring_bytes ac @ d"
proof -
  obtain c where c: "cache ac = Some c" "length c = capacity ac" using ok by (auto simp: ring_ok_def)
  let ?w = "write_pos ac" and ?cap = "capacity ac" and ?r = "read_pos ac"
  have w: "?w < ?cap" and w2: "?w = (?r + used ac) mod ?cap" using ok by (simp_all add: ring_ok_def)
  have "\<exists>c'. cache_write_bytes ac (Some d) (length d) =
      Some (0, ac\<lparr>cache := Some c', write_pos := (?w + length d) mod ?cap, used := used ac + length d\<rparr>) \<and> ring_written c ?w d c'"
  proof (cases "?w + length d \<le> ?cap")
    case True
    with write_once [of ?w d c] w c obtain c' where "memwr c (int ?w) d = Some c'" "ring_written c ?w d c'" by auto
    moreover have "length d \<le> ?cap - ?w" "\<not> ?cap - used ac < length d" using True n by simp_all
    ultimately show ?thesis using c n w by (intro exI [of _ c']) (simp add: cache_write_bytes_def)
  next
    case False
    with write_twice [of ?w c d] w c n obtain c1 c' where
      m: "memwr c (int ?w) (take (?cap - ?w) d) = Some c1" "memwr c1 0 (drop (?cap - ?w) d) = Some c'" "ring_written c ?w d c'" by auto
    have "(length d - (?cap - ?w)) mod ?cap = (?w + length d) mod ?cap"
      using False w n by (simp add: mod_if add.commute)
    moreover have "(?w + (?cap - ?w)) mod ?cap = 0" using w by simp
    moreover have "\<not> length d \<le> ?cap - ?w" "?cap - ?w \<le> length d" "\<not> ?cap - used ac < length d" using False n w by simp_all
    ultimately show ?thesis using c n w m by (intro exI [of _ c']) (simp add: cache_write_bytes_def Let_def del: of_nat_diff)
  qed
  then obtain c' where run: "cache_write_bytes ac (Some d) (length d) =
      Some (0, ac\<lparr>cache := Some c', write_pos := (?w + length d) mod ?cap, used := used ac + length d\<rparr>)"
    and wr: "ring_written c ?w d c'" by blast
  let ?ac = "ac\<lparr>cache := Some c', write_pos := (?w + length d) mod ?cap, used := used ac + length d\<rparr>"
  have "(?w + length d) mod ?cap = (?r + (used ac + length d)) mod ?cap"
    unfolding w2 by (simp add: mod_add_left_eq add.assoc)
  then have "ring_ok ?ac" using ok c n wr by (simp add: ring_ok_def ring_written_def)
  moreover have "ring_bytes ?ac = ring_bytes ac @ d"
  proof (rule nth_equalityI)
    fix i assume i: "i < length (ring_bytes ?ac)"
    show "ring_bytes ?ac ! i = (ring_bytes ac @ d) ! i"
    proof (cases "i < used ac")
      case True
      have "(?r + i) mod ?cap \<noteq> (?w + j) mod ?cap" if "j < length d" for j
      proof
        assume e: "(?r + i) mod ?cap = (?w + j) mod ?cap"
        have "(?w + j) mod ?cap = (?r + (used ac + j)) mod ?cap" unfolding w2 by (simp add: mod_add_left_eq add.assoc)
        moreover have "i < used ac + j" "used ac + j < ?cap" using True that n by auto
        ultimately show False using e mod_wrap [of ?r ?cap i] mod_wrap [of ?r ?cap "used ac + j"] ok
          by (auto simp: ring_ok_def split: if_splits)
      qed
      then show ?thesis using True i wr c ok by (auto simp: ring_bytes_nth nth_append ring_written_def ring_ok_def)
    next
      case False
      then have "(?r + i) mod ?cap = (?w + (i - used ac)) mod ?cap" unfolding w2 mod_add_left_eq by simp
      moreover have "c' ! ((?w + (i - used ac)) mod ?cap) = d ! (i - used ac)"
        using False i wr c by (simp add: ring_written_def del: add_diff_assoc)
      ultimately show ?thesis using False i by (simp add: ring_bytes_nth nth_append)
    qed
  qed simp
  ultimately show ?thesis using run by auto
qed

lemma ring_read:
  assumes ok: "ring_ok ac" and n: "n \<le> used ac" and c: "cache ac = Some c"
  shows "if n \<le> capacity ac - read_pos ac then memrd c (int (read_pos ac)) n = Some (take n (ring_bytes ac))
    else memrd c (int (read_pos ac)) (capacity ac - read_pos ac) = Some (take (capacity ac - read_pos ac) (ring_bytes ac)) \<and>
      memrd c 0 (n - (capacity ac - read_pos ac)) = Some (drop (capacity ac - read_pos ac) (take n (ring_bytes ac)))"
proof -
  let ?r = "read_pos ac" and ?cap = "capacity ac"
  have l: "length c = ?cap" "?r < ?cap" "used ac \<le> ?cap" using ok c by (auto simp: ring_ok_def)
  have b: "ring_bytes ac ! i = c ! ((?r + i) mod ?cap)" if "i < used ac" for i using that c by (simp add: ring_bytes_nth)
  have first: "memrd c (int ?r) m = Some (take m (ring_bytes ac))" if "m \<le> ?cap - ?r" "m \<le> used ac" for m
  proof -
    have "take m (drop ?r c) = take m (ring_bytes ac)"
      by (rule nth_equalityI) (use that l b in \<open>auto simp: mod_less\<close>)
    then show ?thesis using that l by (simp add: memrd_def)
  qed
  show ?thesis
  proof (cases "n \<le> ?cap - ?r")
    case True
    then show ?thesis using first [OF True n] by simp
  next
    case False
    have "take (n - (?cap - ?r)) c = drop (?cap - ?r) (take n (ring_bytes ac))"
    proof (rule nth_equalityI)
      fix i assume "i < length (take (n - (?cap - ?r)) c)"
      then have i: "i < n - (?cap - ?r)" "i < ?cap" using l by auto
      then have "(?r + (?cap - ?r + i)) mod ?cap = i" "?cap - ?r + i < n" using l by auto
      then show "take (n - (?cap - ?r)) c ! i = drop (?cap - ?r) (take n (ring_bytes ac)) ! i"
        using i n b [of "?cap - ?r + i"] by simp
    qed (use l n False in auto)
    moreover have "n - (?cap - ?r) \<le> length c" using l n by auto
    ultimately show ?thesis using first [of "?cap - ?r"] False n l by (simp add: memrd_def)
  qed
qed

lemma ring_advance:
  assumes "ring_ok ac" "n \<le> used ac"
  shows "ring_ok (ac\<lparr>read_pos := (read_pos ac + n) mod capacity ac, used := used ac - n\<rparr>) \<and>
    ring_bytes (ac\<lparr>read_pos := (read_pos ac + n) mod capacity ac, used := used ac - n\<rparr>) = drop n (ring_bytes ac)"
proof
  have "((read_pos ac + n) mod capacity ac + (used ac - n)) mod capacity ac = (read_pos ac + used ac) mod capacity ac"
    unfolding mod_add_left_eq using assms(2) by simp
  then show "ring_ok (ac\<lparr>read_pos := (read_pos ac + n) mod capacity ac, used := used ac - n\<rparr>)"
    using assms(1) by (auto simp: ring_ok_def)
  show "ring_bytes (ac\<lparr>read_pos := (read_pos ac + n) mod capacity ac, used := used ac - n\<rparr>) = drop n (ring_bytes ac)"
    by (rule nth_equalityI) (use assms(2) in \<open>auto simp: ring_bytes_nth mod_add_left_eq add.assoc\<close>)
qed

lemma cache_read_bytes_ok:
  assumes ok: "ring_ok ac" and n: "0 < n" "n \<le> used ac"
  shows "cache_read_bytes ac n =
    Some (0, take n (ring_bytes ac), ac\<lparr>read_pos := (read_pos ac + n) mod capacity ac, used := used ac - n\<rparr>)"
proof -
  obtain c where c: "cache ac = Some c" and r: "read_pos ac < capacity ac" "used ac \<le> capacity ac" using ok by (auto simp: ring_ok_def)
  note rd = ring_read [OF ok n(2) c]
  show ?thesis
  proof (cases "n \<le> capacity ac - read_pos ac")
    case True
    then show ?thesis using rd c n r by (simp add: cache_read_bytes_def)
  next
    case False
    have "(n - (capacity ac - read_pos ac)) mod capacity ac = (read_pos ac + n) mod capacity ac"
      using False r n by (simp add: mod_if add.commute)
    moreover have "take (capacity ac - read_pos ac) (ring_bytes ac) @ drop (capacity ac - read_pos ac) (take n (ring_bytes ac))
      = take n (ring_bytes ac)" using False by (metis append_take_drop_id min.absorb1 nle_le take_take)
    ultimately show ?thesis using rd c n r False by (simp add: cache_read_bytes_def Let_def)
  qed
qed

lemma cache_peek_len_ok:
  assumes ok: "ring_ok ac" and n: "8 \<le> used ac"
  shows "cache_peek_len ac = Some (0, take 8 (ring_bytes ac))"
proof -
  obtain c where c: "cache ac = Some c" and r: "read_pos ac < capacity ac" "used ac \<le> capacity ac" using ok by (auto simp: ring_ok_def)
  note rd = ring_read [OF ok n c]
  show ?thesis
  proof (cases "8 \<le> capacity ac - read_pos ac")
    case True
    then show ?thesis using rd c n r by (simp add: cache_peek_len_def SIZEOF_SIZE_T_def)
  next
    case False
    have "take (capacity ac - read_pos ac) (ring_bytes ac) @ drop (capacity ac - read_pos ac) (take 8 (ring_bytes ac))
      = take 8 (ring_bytes ac)" using False by (metis append_take_drop_id min.absorb1 nle_le take_take)
    then show ?thesis using rd c n r False by (simp add: cache_peek_len_def Let_def SIZEOF_SIZE_T_def)
  qed
qed

subsection \<open>The ring as a queue of messages\<close>

lemma size_val_bytes: "size_val (map (\<lambda>i. char_of (n div 256 ^ i)) [0..<k]) = n mod 256 ^ k"
proof (induction k arbitrary: n)
  case (Suc k)
  have "map (\<lambda>i. char_of (n div 256 ^ i)) [0..<Suc k] = char_of n # map (\<lambda>i. char_of (n div 256 div 256 ^ i)) [0..<k]"
    by (simp add: upt_conv_Cons map_Suc_upt [symmetric] div_mult2_eq del: upt_Suc)
  then show ?case using Suc [of "n div 256"]
    by (simp add: mod_mult2_eq of_char_of del: upt_Suc)
qed simp

lemma size_round_trip: "n < 2 ^ 64 \<Longrightarrow> size_val (size_bytes n) = n"
  unfolding size_bytes_def size_val_bytes by simp

lemma size_bytes_length [simp]: "length (size_bytes n) = 8"
  by (simp add: size_bytes_def)

definition pack_msg :: "char list \<Rightarrow> char list" where
  "pack_msg m = size_bytes (length m) @ m"

definition ring_holds :: "agent_cache \<Rightarrow> char list list \<Rightarrow> bool" where
  "ring_holds ac ms \<longleftrightarrow> ring_ok ac \<and> ring_bytes ac = concat (map pack_msg ms) \<and> [] \<notin> set ms"

lemma pack_msg_length [simp]: "length (pack_msg m) = 8 + length m"
  by (simp add: pack_msg_def)

lemma ring_holds_used: "ring_holds ac ms \<Longrightarrow> used ac = sum_list (map (\<lambda>m. 8 + length m) ms)"
proof -
  assume "ring_holds ac ms"
  then have "length (ring_bytes ac) = length (concat (map pack_msg ms))" by (simp add: ring_holds_def)
  then show ?thesis by (simp add: length_concat comp_def)
qed

lemma ring_create:
  assumes "kvs_agent_cache_create e ac n = (0, ac')" "n < 2 ^ 64"
  shows "ring_holds ac' [] \<and> capacity ac' = n"
  using assms by (auto simp: kvs_agent_cache_create_def ring_holds_def ring_ok_def ring_bytes_def split: if_splits)

lemma ring_write_fits:
  assumes h: "ring_holds ac ms" and m: "m \<noteq> []" "used ac + 8 + length m \<le> capacity ac"
  shows "\<exists>ac'. kvs_agent_cache_write ac (Some m) (length m) = Some (0, ac') \<and> ring_holds ac' (ms @ [m]) \<and>
    capacity ac' = capacity ac"
proof -
  have ok: "ring_ok ac" using h by (simp add: ring_holds_def)
  then have g: "cache ac \<noteq> None" "used ac \<le> capacity ac" "capacity ac < 2 ^ 64" by (auto simp: ring_ok_def)
  from cache_write_bytes_ok [OF ok, of "size_bytes (length m)"] m obtain ac1 where
    1: "cache_write_bytes ac (Some (size_bytes (length m))) 8 = Some (0, ac1)" "ring_ok ac1" "capacity ac1 = capacity ac"
    "used ac1 = used ac + 8" "ring_bytes ac1 = ring_bytes ac @ size_bytes (length m)" by auto
  from cache_write_bytes_ok [OF 1(2), of m] 1 m obtain ac2 where
    2: "cache_write_bytes ac1 (Some m) (length m) = Some (0, ac2)" "ring_ok ac2" "capacity ac2 = capacity ac"
    "ring_bytes ac2 = ring_bytes ac1 @ m" by auto
  have "kvs_agent_cache_write ac (Some m) (length m) = Some (0, ac2)"
    using g m 1 2 by (simp add: kvs_agent_cache_write_def SIZEOF_SIZE_T_def)
  moreover have "ring_holds ac2 (ms @ [m])" using h m 1 2 by (simp add: ring_holds_def pack_msg_def)
  ultimately show ?thesis using 2 by blast
qed

lemma ring_write_full:
  assumes h: "ring_holds ac ms" and m: "m \<noteq> []" "length m < 2 ^ 64" "\<not> used ac + 8 + length m \<le> capacity ac"
  shows "kvs_agent_cache_write ac (Some m) (length m) = Some (-2, ac)"
  using assms by (auto simp: ring_holds_def ring_ok_def kvs_agent_cache_write_def SIZEOF_SIZE_T_def)

lemma ring_read_empty: "ring_holds ac [] \<Longrightarrow> kvs_agent_cache_read e ac = Some (None, 0, ac)"
  using ring_holds_used [of ac "[]"] by (simp add: kvs_agent_cache_read_def SIZEOF_SIZE_T_def)

lemma ring_peek:
  assumes h: "ring_holds ac (m # ms)"
  shows "8 + length m \<le> used ac" "cache_peek_len ac = Some (0, size_bytes (length m))"
    "size_val (size_bytes (length m)) = length m" "cache ac \<noteq> None"
proof -
  have ok: "ring_ok ac" and b: "ring_bytes ac = size_bytes (length m) @ m @ concat (map pack_msg ms)"
    using h by (simp_all add: ring_holds_def pack_msg_def)
  have "length (ring_bytes ac) \<ge> 8 + length m" unfolding b by simp
  then show u: "8 + length m \<le> used ac" by simp
  then show "cache_peek_len ac = Some (0, size_bytes (length m))" using cache_peek_len_ok [OF ok] b by simp
  show "size_val (size_bytes (length m)) = length m"
    by (rule size_round_trip) (use u ok in \<open>auto simp: ring_ok_def\<close>)
  show "cache ac \<noteq> None" using ok by (auto simp: ring_ok_def)
qed

lemma ring_read_first:
  assumes h: "ring_holds ac (m # ms)" and e: "mem e 0"
  shows "\<exists>ac'. kvs_agent_cache_read e ac = Some (Some m, length m, ac') \<and> ring_holds ac' ms \<and> capacity ac' = capacity ac"
proof -
  have ok: "ring_ok ac" and m: "m \<noteq> []" and b: "ring_bytes ac = size_bytes (length m) @ m @ concat (map pack_msg ms)"
    using h by (auto simp: ring_holds_def pack_msg_def)
  note p = ring_peek [OF h]
  define ac1 where "ac1 = ac\<lparr>read_pos := (read_pos ac + 8) mod capacity ac, used := used ac - 8\<rparr>"
  have 1: "ring_ok ac1" "ring_bytes ac1 = m @ concat (map pack_msg ms)" "capacity ac1 = capacity ac" "used ac1 = used ac - 8"
    using ring_advance [OF ok, of 8] p b by (simp_all add: ac1_def)
  define ac2 where "ac2 = ac1\<lparr>read_pos := (read_pos ac1 + length m) mod capacity ac1, used := used ac1 - length m\<rparr>"
  have "ring_ok ac2" "ring_bytes ac2 = concat (map pack_msg ms)" "capacity ac2 = capacity ac"
    using ring_advance [OF 1(1), of "length m"] p 1 by (simp_all add: ac2_def)
  moreover have "cache_read_bytes ac1 (length m) = Some (0, m, ac2)"
    using cache_read_bytes_ok [OF 1(1), of "length m"] p m 1 by (simp add: ac2_def)
  ultimately show ?thesis using p e m h by (auto simp: kvs_agent_cache_read_def Let_def SIZEOF_SIZE_T_def ac1_def [symmetric] ring_holds_def)
qed

text \<open>When the copy cannot be allocated the message stays in the ring.\<close>

lemma ring_read_nomem:
  assumes h: "ring_holds ac (m # ms)" and e: "\<not> mem e 0"
  shows "kvs_agent_cache_read e ac = Some (None, length m, ac)"
  using ring_peek [OF h] e h by (auto simp: kvs_agent_cache_read_def Let_def SIZEOF_SIZE_T_def ring_holds_def)

subsection \<open>The contract of a message queue\<close>

text \<open>What the threads of the agent rely on: a bounded first-in first-out queue of non-empty
  messages, which refuses a message that does not fit and loses none.\<close>

datatype q_op = Enq "char list" | Deq env

locale msg_queue =
  fixes holds :: "'s \<Rightarrow> char list list \<Rightarrow> bool"
    and fits :: "'s \<Rightarrow> char list \<Rightarrow> bool"
    and enq :: "'s \<Rightarrow> char list \<Rightarrow> (int \<times> 's) option"
    and deq :: "env \<Rightarrow> 's \<Rightarrow> (char list option \<times> 's) option"
  assumes enq_fits: "holds s ms \<Longrightarrow> m \<noteq> [] \<Longrightarrow> fits s m \<Longrightarrow> \<exists>s'. enq s m = Some (0, s') \<and> holds s' (ms @ [m])"
    and enq_full: "holds s ms \<Longrightarrow> m \<noteq> [] \<Longrightarrow> length m < 2 ^ 64 \<Longrightarrow> \<not> fits s m \<Longrightarrow> \<exists>r. enq s m = Some (r, s) \<and> r \<noteq> 0"
    and deq_empty: "holds s [] \<Longrightarrow> deq e s = Some (None, s)"
    and deq_first: "holds s (m # ms) \<Longrightarrow> mem e 0 \<Longrightarrow> \<exists>s'. deq e s = Some (Some m, s') \<and> holds s' ms"
    and deq_nomem: "holds s ms \<Longrightarrow> \<not> mem e 0 \<Longrightarrow> deq e s = Some (None, s)"
begin

lemma enq_holds:
  assumes "holds s ms" "m \<noteq> []" "length m < 2 ^ 64"
  shows "\<exists>r s'. enq s m = Some (r, s') \<and> holds s' (ms @ (if r = 0 then [m] else []))"
  using enq_fits [OF assms(1,2)] enq_full [OF assms] assms(1) by (cases "fits s m") fastforce+

lemma deq_holds:
  assumes "holds s ms"
  shows "\<exists>o' s' ms'. deq e s = Some (o', s') \<and> holds s' ms' \<and> ms = (case o' of None \<Rightarrow> [] | Some m \<Rightarrow> [m]) @ ms'"
proof (cases "mem e 0")
  case True
  then show ?thesis
  proof (cases ms)
    case Nil
    then show ?thesis using deq_empty [of s e] assms by auto
  next
    case (Cons m ms')
    then obtain s' where "deq e s = Some (Some m, s')" "holds s' ms'" using deq_first [of s m ms' e] assms True by auto
    then show ?thesis using Cons by auto
  qed
qed (use deq_nomem [OF assms] assms in auto)

end

text \<open>A schedule of the producer and the consumer: what was accepted and what was delivered.\<close>

fun q_run :: "('s \<Rightarrow> char list \<Rightarrow> (int \<times> 's) option) \<Rightarrow> (env \<Rightarrow> 's \<Rightarrow> (char list option \<times> 's) option) \<Rightarrow>
  's \<Rightarrow> q_op list \<Rightarrow> (char list list \<times> char list list \<times> 's) option" where
  "q_run enq deq s [] = Some ([], [], s)"
| "q_run enq deq s (Enq m # ops) = do {
     (r, s) \<leftarrow> enq s m;
     (ins, outs, s) \<leftarrow> q_run enq deq s ops;
     Some (if r = 0 then m # ins else ins, outs, s) }"
| "q_run enq deq s (Deq e # ops) = do {
     (m, s) \<leftarrow> deq e s;
     (ins, outs, s) \<leftarrow> q_run enq deq s ops;
     Some (ins, (case m of None \<Rightarrow> outs | Some m \<Rightarrow> m # outs), s) }"

context msg_queue
begin

text \<open>No message is lost, duplicated or reordered: what was delivered, followed by what is still
  queued, is what was queued at first followed by what was accepted.\<close>

lemma run_fifo:
  assumes "holds s ms" "\<forall>m. Enq m \<in> set ops \<longrightarrow> m \<noteq> [] \<and> length m < 2 ^ 64"
  shows "\<exists>ins outs s' ms'. q_run enq deq s ops = Some (ins, outs, s') \<and> holds s' ms' \<and> ms @ ins = outs @ ms'"
  using assms
proof (induction ops arbitrary: s ms)
  case (Cons x ops)
  show ?case
  proof (cases x)
    case (Enq m)
    then have "m \<noteq> []" "length m < 2 ^ 64" using Cons.prems(2) by auto
    from enq_holds [OF Cons.prems(1) this] obtain r s1 where
      1: "enq s m = Some (r, s1)" "holds s1 (ms @ (if r = 0 then [m] else []))" by blast
    with Cons.IH [OF 1(2)] Cons.prems(2) obtain ins outs s' ms' where
      "q_run enq deq s1 ops = Some (ins, outs, s')" "holds s' ms'" "(ms @ (if r = 0 then [m] else [])) @ ins = outs @ ms'" by auto
    then show ?thesis using 1 Enq by (cases "r = 0") auto
  next
    case (Deq e)
    from deq_holds [OF Cons.prems(1), of e] obtain m s1 ms1 where
      1: "deq e s = Some (m, s1)" "holds s1 ms1" "ms = (case m of None \<Rightarrow> [] | Some m \<Rightarrow> [m]) @ ms1" by blast
    with Cons.IH [OF 1(2)] Cons.prems(2) obtain ins outs s' ms' where
      "q_run enq deq s1 ops = Some (ins, outs, s')" "holds s' ms'" "ms1 @ ins = outs @ ms'" by auto
    then show ?thesis using 1 Deq by (cases m) auto
  qed
qed auto

text \<open>Every queued message comes out: as many reads as there are messages deliver them all.\<close>

lemma drain:
  assumes "holds s ms" "\<forall>e \<in> set es. mem e 0" "length es = length ms"
  shows "\<exists>s'. q_run enq deq s (map Deq es) = Some ([], ms, s') \<and> holds s' []"
  using assms
proof (induction es arbitrary: s ms)
  case (Cons e es)
  then obtain m ms' where ms: "ms = m # ms'" by (cases ms) auto
  with deq_first [of s m ms' e] Cons.prems obtain s1 where "deq e s = Some (Some m, s1)" "holds s1 ms'" by auto
  with Cons.IH [of s1 ms'] Cons.prems ms show ?case by auto
qed auto

end

definition ring_fits :: "agent_cache \<Rightarrow> char list \<Rightarrow> bool" where
  "ring_fits ac m \<longleftrightarrow> used ac + 8 + length m \<le> capacity ac"

text \<open>The two calls of the threads.\<close>

definition cache_put :: "agent_cache \<Rightarrow> char list \<Rightarrow> (int \<times> agent_cache) option" where
  "cache_put ac m = kvs_agent_cache_write ac (Some m) (length m)"

definition cache_take :: "env \<Rightarrow> agent_cache \<Rightarrow> (char list option \<times> agent_cache) option" where
  "cache_take e ac = map_option (\<lambda>(m, n, ac'). (m, ac')) (kvs_agent_cache_read e ac)"

lemma ring_take_nomem: "ring_holds ac ms \<Longrightarrow> \<not> mem e 0 \<Longrightarrow> cache_take e ac = Some (None, ac)"
  using ring_read_empty [of ac e] ring_read_nomem [of ac "hd ms" "tl ms" e]
  by (cases ms) (auto simp: cache_take_def)

interpretation rq: msg_queue ring_holds ring_fits cache_put cache_take
proof
  fix ac ms m assume "ring_holds ac ms" "m \<noteq> []" "ring_fits ac m"
  then show "\<exists>ac'. cache_put ac m = Some (0, ac') \<and> ring_holds ac' (ms @ [m])"
    using ring_write_fits [of ac ms m] by (auto simp: ring_fits_def cache_put_def)
next
  fix ac ms m assume "ring_holds ac ms" "m \<noteq> []" "length m < 2 ^ 64" "\<not> ring_fits ac m"
  then show "\<exists>r. cache_put ac m = Some (r, ac) \<and> r \<noteq> 0"
    using ring_write_full [of ac ms m] by (auto simp: ring_fits_def cache_put_def)
next
  fix ac m ms and e :: env assume "ring_holds ac (m # ms)" "mem e 0"
  then show "\<exists>ac'. cache_take e ac = Some (Some m, ac') \<and> ring_holds ac' ms"
    using ring_read_first [of ac m ms e] by (auto simp: cache_take_def)
qed (auto simp: cache_take_def ring_read_empty ring_take_nomem [unfolded cache_take_def])

text \<open>C22: the ring buffer of the agent is a first-in first-out queue: starting from a fresh ring,
  any schedule of writes of non-empty messages and reads (with arbitrary allocation failures of the
  reader) runs without a copy outside the ring, and the delivered messages followed by the messages
  still in the ring are exactly the accepted messages, in order.\<close>

theorem agent_ring_fifo:
  assumes "kvs_agent_cache_create e ac n = (0, ac0)" "n < 2 ^ 64"
    and "\<forall>m. Enq m \<in> set ops \<longrightarrow> m \<noteq> [] \<and> length m < 2 ^ 64"
  shows "\<exists>ins outs ac' ms. q_run cache_put cache_take ac0 ops = Some (ins, outs, ac') \<and>
    ring_holds ac' ms \<and> ins = outs @ ms"
  using rq.run_fifo [of ac0 "[]" ops] ring_create [OF assms(1,2)] assms(3) by simp

lemma agent_ring_fifo_witness:
  "\<exists>ins outs ac' ms. q_run cache_put cache_take
      (snd (kvs_agent_cache_create env0 \<lparr>read_pos = 0, write_pos = 0, capacity = 0, used = 0, cache = None\<rparr> 24))
      [Enq ''abc'', Enq ''de'', Enq ''too long'', Deq env0, Enq ''fghij'', Deq env0] = Some (ins, outs, ac') \<and>
    ring_holds ac' ms \<and> ins = outs @ ms"
  by (rule agent_ring_fifo [of env0 "\<lparr>read_pos = 0, write_pos = 0, capacity = 0, used = 0, cache = None\<rparr>" 24])
    (auto simp: kvs_agent_cache_create_def env0_def)

text \<open>C23: every message in the ring reaches its reader: once the reader can allocate its copies, as
  many reads as there are messages deliver all of them, in order, and leave the ring empty.\<close>

theorem agent_ring_drains:
  assumes "ring_holds ac ms" "\<forall>e \<in> set es. mem e 0" "length es = length ms"
  shows "\<exists>ac'. q_run cache_put cache_take ac (map Deq es) = Some ([], ms, ac') \<and> used ac' = 0"
  using rq.drain [OF assms] ring_holds_used [of _ "[]"] by auto

lemma agent_ring_drains_witness:
  "\<exists>ac'. q_run cache_put cache_take
      \<lparr>read_pos = 10, write_pos = 7, capacity = 12, used = 9, cache = Some (map char_of [0, 0, 0, 0, 0, 0, 65, 9, 9, 9, 1, 0 :: nat])\<rparr>
      (map Deq [env0]) = Some ([], [''A''], ac') \<and> used ac' = 0"
  by (rule agent_ring_drains)
    (simp_all add: ring_holds_def ring_ok_def ring_bytes_def pack_msg_def size_bytes_def upt_rec env0_def char_of_def bit_0)

subsection \<open>The table of slaves\<close>

text \<open>The connected slaves are the non-negative entries of the table.\<close>

definition slaves_ok :: "kvs_slaves \<Rightarrow> bool" where
  "slaves_ok s \<longleftrightarrow> (\<exists>t. sl_table s = Some t \<and> length t = sl_size s \<and> sl_total s = length (filter (\<lambda>x. 0 \<le> x) t))"

definition slave_fds :: "kvs_slaves \<Rightarrow> int multiset" where
  "slave_fds s = (case sl_table s of None \<Rightarrow> {#} | Some t \<Rightarrow> mset (filter (\<lambda>x. 0 \<le> x) t))"

lemma slaves_scan_hit:
  assumes "\<exists>x \<in> set t. p x"
  shows "\<exists>a x b. t = a @ x # b \<and> p x \<and> slaves_scan p v (length t) t = Some (True, a @ v # b)"
  using assms
proof (induction t)
  case (Cons x t)
  show ?case
  proof (cases "p x")
    case True
    then show ?thesis by (intro exI [of _ "[]"]) auto
  next
    case False
    then obtain a y b where "t = a @ y # b" "p y" "slaves_scan p v (length t) t = Some (True, a @ v # b)"
      using Cons by auto
    then show ?thesis using False by (intro exI [of _ "x # a"] exI [of _ y] exI [of _ b]) simp
  qed
qed simp

lemma slaves_scan_miss: "\<forall>x \<in> set t. \<not> p x \<Longrightarrow> slaves_scan p v (length t) t = Some (False, t)"
  by (induction t) auto

lemma slaves_ok_total: "slaves_ok s \<Longrightarrow> sl_total s = size (slave_fds s) \<and> sl_total s \<le> sl_size s"
proof -
  assume "slaves_ok s"
  then obtain t where t: "sl_table s = Some t" "length t = sl_size s" "sl_total s = length (filter (\<lambda>x. 0 \<le> x) t)"
    by (auto simp: slaves_ok_def)
  have "size (slave_fds s) = length (filter (\<lambda>x. 0 \<le> x) t)" using t(1) by (simp only: slave_fds_def option.case size_mset)
  then show ?thesis using t length_filter_le [of "\<lambda>x. 0 \<le> x" t] by simp
qed

lemma kvs_slaves_insert_ok:
  assumes "slaves_ok s" "0 \<le> fd"
  shows "\<exists>s'. kvs_slaves_insert s fd = Some (if sl_total s < sl_size s then 0 else -2, s') \<and> slaves_ok s' \<and>
    slave_fds s' = (if sl_total s < sl_size s then add_mset fd (slave_fds s) else slave_fds s)"
proof -
  obtain t where t: "sl_table s = Some t" "length t = sl_size s" "sl_total s = length (filter (\<lambda>x. 0 \<le> x) t)"
    using assms(1) by (auto simp: slaves_ok_def)
  show ?thesis
  proof (cases "sl_total s < sl_size s")
    case True
    then have "\<exists>x \<in> set t. x < 0" using t length_filter_less [of _ t] by (metis filter_True linorder_not_le nat_neq_iff)
    from slaves_scan_hit [OF this, of fd] obtain a x b where
      "t = a @ x # b" "x < 0" "slaves_scan (\<lambda>x. x < 0) fd (length t) t = Some (True, a @ fd # b)" by auto
    then show ?thesis using True t assms(2) by (auto simp: kvs_slaves_insert_def slaves_ok_def slave_fds_def)
  next
    case False
    then have "sl_total s = sl_size s" using slaves_ok_total [OF assms(1)] by simp
    then show ?thesis using assms(1) t by (simp add: kvs_slaves_insert_def)
  qed
qed

lemma kvs_slaves_delete_ok:
  assumes "slaves_ok s" "0 \<le> fd"
  shows "\<exists>s'. kvs_slaves_delete s fd = Some (0, s') \<and> slaves_ok s' \<and> slave_fds s' = slave_fds s - {#fd#} \<and> sl_size s' = sl_size s"
proof -
  obtain t where t: "sl_table s = Some t" "length t = sl_size s" "sl_total s = length (filter (\<lambda>x. 0 \<le> x) t)"
    using assms(1) by (auto simp: slaves_ok_def)
  show ?thesis
  proof (cases "fd \<in> set t")
    case True
    with slaves_scan_hit [of t "\<lambda>x. x = fd" "-1"] obtain a b where
      ab: "t = a @ fd # b" "slaves_scan (\<lambda>x. x = fd) (-1) (length t) t = Some (True, a @ (-1) # b)" by auto
    then show ?thesis using t assms(2) by (auto simp: kvs_slaves_delete_def slaves_ok_def slave_fds_def)
  next
    case False
    then have "slaves_scan (\<lambda>x. x = fd) (-1) (length t) t = Some (False, t)" by (intro slaves_scan_miss) auto
    moreover have "fd \<notin># slave_fds s" using False t by (auto simp: slave_fds_def)
    ultimately have "kvs_slaves_delete s fd = Some (0, s)" "slave_fds s - {#fd#} = slave_fds s"
      using t(1,2) by (simp_all add: kvs_slaves_delete_def diff_single_trivial)
    then show ?thesis using assms(1) by simp
  qed
qed

text \<open>C37: the table of slaves is a bounded multiset of descriptors with an exact count: a fresh
  table is empty; connecting a slave adds its descriptor or, when the table is full, answers -2 and
  changes nothing; disconnecting removes one occurrence of the descriptor and ignores an unknown one.\<close>

theorem slaves_table_counts:
  assumes "slaves_ok s" "0 \<le> fd"
  shows "(\<exists>s'. kvs_slaves_insert s fd = Some (if sl_total s < sl_size s then 0 else -2, s') \<and> slaves_ok s' \<and>
        slave_fds s' = (if sl_total s < sl_size s then add_mset fd (slave_fds s) else slave_fds s)) \<and>
    (\<exists>s'. kvs_slaves_delete s fd = Some (0, s') \<and> slaves_ok s' \<and> slave_fds s' = slave_fds s - {#fd#}) \<and>
    sl_total s = size (slave_fds s)"
  using kvs_slaves_insert_ok [OF assms] kvs_slaves_delete_ok [OF assms] slaves_ok_total [OF assms(1)] by blast

lemma slaves_table_counts_witness:
  "let s = \<lparr>sl_table = Some [4, -1, 7], sl_total = 2, sl_size = 3\<rparr> in
   (\<exists>s'. kvs_slaves_insert s 9 = Some (if sl_total s < sl_size s then 0 else -2, s') \<and> slaves_ok s' \<and>
        slave_fds s' = (if sl_total s < sl_size s then add_mset 9 (slave_fds s) else slave_fds s)) \<and>
    (\<exists>s'. kvs_slaves_delete s 9 = Some (0, s') \<and> slaves_ok s' \<and> slave_fds s' = slave_fds s - {#9#}) \<and>
    sl_total s = size (slave_fds s)"
  unfolding Let_def by (rule slaves_table_counts) (simp_all add: slaves_ok_def)

end
