(* ===== verification/Kvs_Protocol.thy ===== *)
theory Kvs_Protocol
  imports Kvs_Prelude
begin

text \<open>
  The wire protocols, \<^verbatim>\<open>kvs-protocol/kvs_protocol.c\<close>: recognising a request in the receive
  buffer (KVSP and RESP), splitting it into tokens in place, and building KVSP frames.

  A buffer is the byte list of its allocation, and a pointer into it is an index; an access outside
  it makes the result \<open>None\<close>.  \<open>*head_len\<close> is passed in and handed back.  The tokens of
  \<open>kvs_split_token\<close> are indices into the receive buffer, in the order they are stored.  The
  NULL guards on pointers that every caller passes as addresses are not modelled.
\<close>

subsection \<open>Data\<close>

definition KVS_MAX_TOKENS :: nat where "KVS_MAX_TOKENS = 128"
definition KVSP_START_STR :: string where "KVSP_START_STR = ''#''"
definition KVSP_HEAD_TAIL_STR :: string where "KVSP_HEAD_TAIL_STR = CRLF"
definition KVSP_END_STR :: string where "KVSP_END_STR = CRLF"
definition KVSP_TOK_LEN_START_CHAR :: char where "KVSP_TOK_LEN_START_CHAR = CHR ''^''"
definition KVSP_TOK_START_CHAR :: char where "KVSP_TOK_START_CHAR = CHR ''&''"

lemmas kvsp_consts = KVSP_START_STR_def KVSP_HEAD_TAIL_STR_def KVSP_END_STR_def
  KVSP_TOK_LEN_START_CHAR_def KVSP_TOK_START_CHAR_def

datatype kvs_protocol_t = PROTO_UNKNOWN | PROTO_RESP | PROTO_KVSP

text \<open>The two functions \<open>recv_protocol\<close> can point to.\<close>

datatype kvs_recv_protocol = Recv_resp | Recv_kvsp

record client_info =
  fd :: int
  rbuf :: "char list"
  r_cap :: int
  r_pos :: int
  cmd_tl :: int
  cmd_hl :: int
  wbuf :: "char list"
  w_cap :: int
  w_pos :: int
  role :: int
  protocol :: kvs_protocol_t
  recv_protocol :: "kvs_recv_protocol option"

subsection \<open>Sizes of requests\<close>

text \<open>The digit loop of \<open>kvsp_parse_bulk_size\<close> and of \<open>kvs_split_token\<close>, on the bytes
  \<open>base + pos\<close> with \<open>pos < limit\<close>: it stops with the position behind the digits, their value and
  \<open>has_digit\<close>, or refuses a value that would overflow an \<open>int\<close>.\<close>

datatype digits_result = Digits_overflow | Digits_end int int bool

function parse_digits :: "char list \<Rightarrow> int \<Rightarrow> int \<Rightarrow> int \<Rightarrow> int \<Rightarrow> bool \<Rightarrow> digits_result option" where
  "parse_digits buf base limit pos acc has_digit =
     (if pos < limit then
        do { c \<leftarrow> rd buf (base + pos);
             if is_digit c then
               (let digit = digit_val c in
                if acc > (INT_MAX - digit) div 10 then Some Digits_overflow
                else parse_digits buf base limit (pos + 1) (10 * acc + digit) True)
             else Some (Digits_end pos acc has_digit) }
      else Some (Digits_end pos acc has_digit))"
  by pat_completeness auto
termination
  by (relation "measure (\<lambda>(buf, base, limit, pos, acc, h). nat (limit - pos))") auto

declare parse_digits.simps [simp del]

text \<open>The loop moves forward and its value only grows.\<close>

lemma parse_digits_mono:
  assumes "parse_digits buf base limit pos acc h = Some (Digits_end p v h')" and "0 \<le> acc"
  shows "pos \<le> p \<and> acc \<le> v"
  using assms
proof (induction buf base limit pos acc h rule: parse_digits.induct)
  case (1 buf base limit pos acc h)
  show ?case
  proof (cases "\<exists>c. pos < limit \<and> rd buf (base + pos) = Some c \<and> is_digit c")
    case True
    then obtain c where c: "pos < limit" "rd buf (base + pos) = Some c" "is_digit c" by blast
    have d: "0 \<le> digit_val c" using c digit_val_range by simp
    have "\<not> acc > (INT_MAX - digit_val c) div 10"
      and "parse_digits buf base limit (pos + 1) (10 * acc + digit_val c) True = Some (Digits_end p v h')"
      using "1.prems" c by (auto simp: parse_digits.simps [of _ _ _ pos] Let_def split: if_splits)
    then have "pos + 1 \<le> p \<and> 10 * acc + digit_val c \<le> v"
      using "1.IH" [of c "digit_val c"] c d "1.prems"(2) by auto
    then show ?thesis using d "1.prems"(2) by linarith
  next
    case False
    then show ?thesis
      using "1.prems" by (auto simp: parse_digits.simps [of _ _ _ pos] bind_eq_Some_conv split: if_splits)
  qed
qed

definition kvsp_parse_bulk_size :: "char list \<Rightarrow> int \<Rightarrow> int \<Rightarrow> (int \<times> int) option" where
  "kvsp_parse_bulk_size buf buf_size head_len =
     (if buf_size \<le> 0 then Some (-1, head_len)
      else if buf_size < int (length KVSP_START_STR) then Some (0, head_len)
      else do {
        s \<leftarrow> memrd buf 0 (length KVSP_START_STR);
        if s \<noteq> KVSP_START_STR then Some (-2, head_len)
        else do {
          d \<leftarrow> parse_digits buf 0 buf_size (int (length KVSP_START_STR)) 0 False;
          (case d of
             Digits_overflow \<Rightarrow> Some (-2, head_len)
           | Digits_end pos body_len has_digit \<Rightarrow>
               if \<not> has_digit then Some (if pos \<ge> buf_size then 0 else -2, head_len)
               else if pos \<ge> buf_size \<or> buf_size - pos < int (length KVSP_HEAD_TAIL_STR)
               then Some (0, head_len)
               else do {
                 t \<leftarrow> memrd buf pos (length KVSP_HEAD_TAIL_STR);
                 if t \<noteq> KVSP_HEAD_TAIL_STR then Some (-2, head_len)
                 else (let pos = pos + int (length KVSP_HEAD_TAIL_STR) in
                       if body_len > INT_MAX - pos then Some (-2, head_len)
                       else (let total_len = body_len + pos in
                             Some (if total_len > buf_size then 0 else total_len, pos))) }) } })"

text \<open>RESP.  \<open>pos\<close> is a \<open>size_t\<close>: adding a negative length to it wraps around.\<close>

function resp_find_nl :: "char list \<Rightarrow> int \<Rightarrow> int \<Rightarrow> int option" where
  "resp_find_nl buf buf_size pos =
     (if pos < buf_size then
        do { c \<leftarrow> rd buf pos;
             if c = LF then
               do { c' \<leftarrow> rd buf (pos - 1);
                    if c' = CR then Some pos else resp_find_nl buf buf_size (pos + 1) }
             else resp_find_nl buf buf_size (pos + 1) }
      else Some pos)"
  by pat_completeness auto
termination
  by (relation "measure (\<lambda>(buf, n, pos). nat (n - pos))") auto

declare resp_find_nl.simps [simp del]

function resp_bulks :: "char list \<Rightarrow> int \<Rightarrow> int \<Rightarrow> int \<Rightarrow> int \<Rightarrow> int option" where
  "resp_bulks buf buf_size argc i pos =
     (if i < argc then
        (let pos = c_size (pos + 1) in
         if pos \<ge> buf_size then Some 0
         else do {
           c \<leftarrow> rd buf pos;
           if c \<noteq> CHR ''$'' then Some (-2)
           else do {
             let pc_pos = pos;
             pos \<leftarrow> resp_find_nl buf buf_size pos;
             pos \<leftarrow> (if pos < buf_size
                     then do { bs_len \<leftarrow> atoi (drop (nat (pc_pos + 1)) buf);
                               Some (c_size (pos + c_int (bs_len + 2))) }
                     else Some pos);
             if pos \<ge> buf_size then Some 0 else resp_bulks buf buf_size argc (i + 1) pos } })
      else Some (c_int (pos + 1)))"
  by pat_completeness auto
termination
  by (relation "measure (\<lambda>(buf, n, argc, i, pos). nat (argc - i))") auto

declare resp_bulks.simps [simp del]

definition resp_parse_bulk_size :: "char list \<Rightarrow> int \<Rightarrow> int \<Rightarrow> (int \<times> int) option" where
  "resp_parse_bulk_size buf buf_size head_len =
     (if buf_size \<le> 0 then Some (-1, head_len)
      else do {
        c \<leftarrow> rd buf 0;
        if c \<noteq> CHR ''*'' then Some (-2, head_len)
        else do {
          pos \<leftarrow> resp_find_nl buf buf_size 1;
          if pos \<ge> buf_size then Some (0, head_len)
          else do {
            argc \<leftarrow> atoi (drop 1 buf);
            r \<leftarrow> resp_bulks buf buf_size argc 0 pos;
            Some (r, pos + 1) } } })"

definition kvs_detect_protocol :: "client_info \<Rightarrow> (int \<times> client_info) option" where
  "kvs_detect_protocol cli_info =
     (if r_pos cli_info = 0 then Some (1, cli_info)
      else do {
        c \<leftarrow> rd (rbuf cli_info) 0;
        if c = CHR ''*''
        then Some (0, cli_info\<lparr>protocol := PROTO_RESP, recv_protocol := Some Recv_resp\<rparr>)
        else if r_pos cli_info < int (length KVSP_START_STR) then Some (1, cli_info)
        else do {
          s \<leftarrow> memrd (rbuf cli_info) 0 (length KVSP_START_STR);
          if s = KVSP_START_STR
          then Some (0, cli_info\<lparr>protocol := PROTO_KVSP, recv_protocol := Some Recv_kvsp\<rparr>)
          else Some (-2, cli_info) } })"

text \<open>A call through \<open>cli_info->recv_protocol\<close>.\<close>

definition call_recv_protocol :: "kvs_recv_protocol \<Rightarrow> char list \<Rightarrow> int \<Rightarrow> int \<Rightarrow> (int \<times> int) option" where
  "call_recv_protocol f = (case f of Recv_resp \<Rightarrow> resp_parse_bulk_size | Recv_kvsp \<Rightarrow> kvsp_parse_bulk_size)"

subsection \<open>Tokens\<close>

text \<open>The KVSP loop of \<open>kvs_split_token\<close>: \<open>b\<close> is the receive buffer, \<open>body\<close> the index where the
  body starts, \<open>toks\<close> the token pointers stored so far.  It returns the result, the buffer and the
  tokens.  Every round moves \<open>pos\<close> forward.\<close>

function kvsp_split_loop ::
  "char list \<Rightarrow> int \<Rightarrow> int \<Rightarrow> int \<Rightarrow> int list \<Rightarrow> (int \<times> char list \<times> int list) option" where
  "kvsp_split_loop b body parse_end pos toks =
     (if pos < parse_end then
        do {
          c \<leftarrow> rd b (body + pos);
          if c \<noteq> KVSP_TOK_LEN_START_CHAR then Some (-2, b, toks)
          else do {
            b \<leftarrow> (if toks \<noteq> [] then wr b (body + pos) NUL else Some b);
            d \<leftarrow> parse_digits b body parse_end (pos + 1) 0 False;
            (case d of
               Digits_overflow \<Rightarrow> Some (-2, b, toks)
             | Digits_end p tok_len has_digit \<Rightarrow>
                 if \<not> has_digit then Some (-2, b, toks)
                 else if p \<ge> parse_end then Some (-2, b, toks)
                 else do {
                   c \<leftarrow> rd b (body + p);
                   if c \<noteq> KVSP_TOK_START_CHAR then Some (-2, b, toks)
                   else if tok_len > parse_end - (p + 1) then Some (-2, b, toks)
                   else if length toks \<ge> KVS_MAX_TOKENS then Some (-2, b, toks)
                   else kvsp_split_loop b body parse_end (p + 1 + tok_len) (toks @ [body + p + 1]) }) } }
      else if pos \<noteq> parse_end then Some (-2, b, toks)
      else do { b \<leftarrow> wr b (body + parse_end) NUL; Some (int (length toks), b, toks) })"
  by pat_completeness auto
termination
  by (relation "measure (\<lambda>(b, body, e, pos, toks). nat (e - pos))")
     (auto dest!: parse_digits_mono)

declare kvsp_split_loop.simps [simp del]

text \<open>\<open>while(body[pos] != '\r') pos++\<close>: runs off the allocation when there is no CR.\<close>

function resp_find_cr :: "char list \<Rightarrow> int \<Rightarrow> int option" where
  "resp_find_cr b i =
     (if 0 \<le> i \<and> i < int (length b) then
        (if b ! nat i = CR then Some i else resp_find_cr b (i + 1))
      else None)"
  by pat_completeness auto
termination
  by (relation "measure (\<lambda>(b, i). nat (int (length b) - i))") auto

declare resp_find_cr.simps [simp del]

text \<open>The RESP loop.  \<open>tokens\<close> has \<open>KVS_MAX_TOKENS\<close> entries and \<open>idx\<close> is not checked: storing
  one more token writes behind the array.\<close>

function resp_split_loop ::
  "char list \<Rightarrow> int \<Rightarrow> int \<Rightarrow> int list \<Rightarrow> (int \<times> char list \<times> int list) option" where
  "resp_split_loop b body pos toks =
     do {
       c \<leftarrow> rd b (body + pos);
       if c = NUL then Some (int (length toks), b, toks)
       else if c = CHR ''$'' then
         do {
           bs_len \<leftarrow> atoi (drop (nat (body + pos + 1)) b);
           i \<leftarrow> resp_find_cr b (body + pos + 1);
           let pos = i - body + 2;
           if length toks \<ge> KVS_MAX_TOKENS then None
           else do {
             b \<leftarrow> wr b (body + pos + bs_len) NUL;
             resp_split_loop b body (pos + bs_len + 2) (toks @ [body + pos]) } }
       else Some (-2, b, toks) }"
  by pat_completeness auto
termination
  by (relation "measure (\<lambda>(b, body, pos, toks). KVS_MAX_TOKENS - length toks)") auto

declare resp_split_loop.simps [simp del]

definition kvs_split_token :: "client_info \<Rightarrow> (int \<times> client_info \<times> int list) option" where
  "kvs_split_token cli =
     (case protocol cli of
        PROTO_KVSP \<Rightarrow>
          (let body_len = cmd_tl cli - cmd_hl cli in
           if body_len < int (length KVSP_END_STR) then Some (-2, cli, [])
           else (let parse_end = body_len - int (length KVSP_END_STR) in
             do {
               s \<leftarrow> memrd (rbuf cli) (cmd_hl cli + parse_end) (length KVSP_END_STR);
               if s \<noteq> KVSP_END_STR then Some (-2, cli, [])
               else do { (r, b, toks) \<leftarrow> kvsp_split_loop (rbuf cli) (cmd_hl cli) parse_end 0 [];
                         Some (r, cli\<lparr>rbuf := b\<rparr>, toks) } }))
      | PROTO_RESP \<Rightarrow>
          do { (r, b, toks) \<leftarrow> resp_split_loop (rbuf cli) (cmd_hl cli) 0 [];
               Some (r, cli\<lparr>rbuf := b\<rparr>, toks) }
      | PROTO_UNKNOWN \<Rightarrow> Some (-3, cli, []))"

subsection \<open>Building frames\<close>

text \<open>\<open>snprintf(..., "^%zu&%s", strlen(str), str)\<close>.\<close>

definition kvsp_tok :: "string \<Rightarrow> string" where
  "kvsp_tok s = ''^'' @ dec (length s) @ ''&'' @ s"

text \<open>The first loop: the sum of the token lengths.  \<open>snprintf\<close> answers a negative number when the
  length does not fit an \<open>int\<close>, and the inner \<open>None\<close> is \<open>return NULL\<close>; a sum that overflows has no
  result.\<close>

fun kvsp_body_len :: "string option list \<Rightarrow> int \<Rightarrow> int option option" where
  "kvsp_body_len [] acc = Some (Some acc)"
| "kvsp_body_len (None # as) acc = Some None"
| "kvsp_body_len (Some s # as) acc =
     (let ret = int (length (kvsp_tok s)) in
      if ret > INT_MAX then Some None
      else if acc + ret > INT_MAX then None
      else kvsp_body_len as (acc + ret))"

definition kvs_build_kvsp_frame :: "env \<Rightarrow> string option list \<Rightarrow> (string \<times> int) option option" where
  "kvs_build_kvsp_frame e argv =
     (if argv = [] then Some None
      else do {
        bl \<leftarrow> kvsp_body_len argv 0;
        (case bl of None \<Rightarrow> Some None
         | Some n \<Rightarrow>
             (let body_len = n + int (length KVSP_END_STR) in
              if body_len > INT_MAX then None
              else (let head = ''#'' @ dec (nat body_len) @ CRLF;
                        total_len = int (length head) + body_len in
                    if total_len + 1 > INT_MAX then None
                    else if \<not> mem e 0 then Some None
                    else (let buf = head @ concat (map (\<lambda>a. kvsp_tok (the a)) argv) @ KVSP_END_STR in
                          if int (length buf) \<noteq> total_len then Some None
                          else Some (Some (buf, total_len)))))) })"

text \<open>\<open>send\<close> is answered by \<open>sent\<close>, the number it returns for the bytes it is given.\<close>

definition kvs_send_single_command :: "env \<Rightarrow> (string \<Rightarrow> int) \<Rightarrow> int \<Rightarrow> string option \<Rightarrow> (int \<times> string) option" where
  "kvs_send_single_command e sent sockfd cmd =
     (if sockfd < 0 \<or> cmd = None then Some (-1, [])
      else do {
        f \<leftarrow> kvs_build_kvsp_frame e [cmd];
        (case f of
           None \<Rightarrow> Some (-2, [])
         | Some (send_msg, msg_len) \<Rightarrow>
             if msg_len \<le> 0 then Some (-2, [])
             else if sent send_msg \<noteq> msg_len then Some (-2, send_msg) else Some (0, send_msg)) })"

text \<open>\<open>recv\<close> stores the bytes \<open>got\<close> at the start of \<open>buf\<close> (\<open>None\<close>: it failed).\<close>

definition kvs_recv_single_command ::
  "string option \<Rightarrow> int \<Rightarrow> char list \<Rightarrow> (int \<times> char list \<times> int list) option" where
  "kvs_recv_single_command got sockfd buf =
     (if sockfd < 0 \<or> buf = [] then Some (-1, buf, [])
      else case got of
        None \<Rightarrow> Some (-2, buf, [])
      | Some bytes \<Rightarrow>
          if bytes = [] then Some (-2, buf, [])
          else do {
            buf \<leftarrow> memwr buf 0 bytes;
            (total_len, head_len) \<leftarrow> kvsp_parse_bulk_size buf (int (length bytes)) 0;
            if total_len \<le> 0 then Some (-2, buf, [])
            else do {
              (count, cli, toks) \<leftarrow> kvs_split_token
                 \<lparr>fd = 0, rbuf = buf, r_cap = 0, r_pos = 0, cmd_tl = total_len, cmd_hl = head_len,
                  wbuf = [], w_cap = 0, w_pos = 0, role = 0, protocol = PROTO_KVSP,
                  recv_protocol = None\<rparr>;
              Some (if count < 0 then -2 else count, rbuf cli, toks) } })"

lemma kvsp_lens:
  "length KVSP_START_STR = 1" "length KVSP_HEAD_TAIL_STR = 2" "length KVSP_END_STR = 2"
  by (simp_all add: kvsp_consts)

subsection \<open>The digit loop\<close>

lemma digit_overflow_iff: "acc > (INT_MAX - d) div 10 \<longleftrightarrow> 10 * acc + d > INT_MAX"
  by linarith

lemma parse_digits_run:
  assumes "0 \<le> base + pos" "pos \<le> limit" "base + limit \<le> int (length buf)" "0 \<le> acc" "acc \<le> INT_MAX"
    and "s = takeWhile is_digit (take (nat (limit - pos)) (drop (nat (base + pos)) buf))"
  shows "parse_digits buf base limit pos acc h =
    Some (if dec_val acc s \<le> INT_MAX then Digits_end (pos + int (length s)) (dec_val acc s) (h \<or> s \<noteq> [])
          else Digits_overflow)"
  using assms
proof (induction "nat (limit - pos)" arbitrary: pos acc h s)
  case 0
  then show ?case by (simp add: parse_digits.simps [of _ _ _ pos])
next
  case (Suc n)
  then have lt: "pos < limit" by simp
  define i c where "i = nat (base + pos)" and "c = buf ! i"
  have i: "i < length buf" "base + pos = int i" using Suc.prems lt by (auto simp: i_def)
  have seg: "take (nat (limit - pos)) (drop i buf)
      = c # take (nat (limit - (pos + 1))) (drop (nat (base + (pos + 1))) buf)"
  proof -
    have "drop i buf = c # drop (Suc i) buf" using i(1) by (simp add: c_def Cons_nth_drop_Suc)
    moreover have "nat (limit - pos) = Suc (nat (limit - (pos + 1)))" using lt by simp
    moreover have "nat (base + (pos + 1)) = Suc i" using i(2) by simp
    ultimately show ?thesis by simp
  qed
  have c: "rd buf (base + pos) = Some c" using i by (simp add: c_def)
  show ?case
  proof (cases "is_digit c")
    case False
    then have "s = []" using Suc.prems(6) seg by (simp add: i_def)
    then show ?thesis using False lt c Suc.prems by (simp add: parse_digits.simps [of _ _ _ pos])
  next
    case True
    define s' where "s' = takeWhile is_digit (take (nat (limit - (pos + 1))) (drop (nat (base + (pos + 1))) buf))"
    have s: "s = c # s'" using Suc.prems(6) seg True by (simp add: i_def s'_def)
    have d: "0 \<le> digit_val c" using True digit_val_range by simp
    have dig: "\<forall>x \<in> set s'. is_digit x" unfolding s'_def by (auto dest: set_takeWhileD)
    show ?thesis
    proof (cases "10 * acc + digit_val c > INT_MAX")
      case over: True
      have "INT_MAX < dec_val acc s"
        using over dec_val_mono [OF _ dig, of "10 * acc + digit_val c"] d Suc.prems(4) s by simp
      then show ?thesis using over True lt c
        by (simp add: parse_digits.simps [of _ _ _ pos] Let_def digit_overflow_iff)
    next
      case fits: False
      have "parse_digits buf base limit pos acc h
          = parse_digits buf base limit (pos + 1) (10 * acc + digit_val c) True"
        using fits True lt c by (simp add: parse_digits.simps [of _ _ _ pos] Let_def digit_overflow_iff)
      also have "\<dots> = Some (if dec_val (10 * acc + digit_val c) s' \<le> INT_MAX
          then Digits_end (pos + 1 + int (length s')) (dec_val (10 * acc + digit_val c) s') (True \<or> s' \<noteq> [])
          else Digits_overflow)"
        by (rule Suc.hyps(1)) (use Suc.prems Suc.hyps(2) lt d fits in \<open>auto simp: s'_def\<close>)
      finally show ?thesis by (simp add: s)
    qed
  qed
qed

subsection \<open>What the KVSP size function computes\<close>

text \<open>The declarative reading of a partial KVSP request: the bytes received so far decide whether
  it is malformed (\<open>-2\<close>), incomplete (\<open>0\<close>) or complete (its total length).\<close>

definition kvsp_measure :: "string \<Rightarrow> int \<Rightarrow> int \<times> int" where
  "kvsp_measure xs hl =
     (case xs of [] \<Rightarrow> (-1, hl)
      | c # rest \<Rightarrow>
          if c \<noteq> CHR ''#'' then (-2, hl)
          else (let ds = takeWhile is_digit rest; tl = dropWhile is_digit rest; v = dec_val 0 ds;
                    p = 3 + int (length ds) in
                if v > INT_MAX then (-2, hl)
                else if ds = [] then (if tl = [] then 0 else -2, hl)
                else if length tl < 2 then (0, hl)
                else if take 2 tl \<noteq> CRLF then (-2, hl)
                else if v + p > INT_MAX then (-2, hl)
                else (if v + p > int (length xs) then 0 else v + p, p)))"

lemma kvsp_parse_measure:
  assumes "n \<le> int (length buf)"
  shows "kvsp_parse_bulk_size buf n hl = Some (kvsp_measure (take (nat n) buf) hl)"
proof (cases "n \<le> 0")
  case True
  then show ?thesis by (simp add: kvsp_parse_bulk_size_def kvsp_measure_def)
next
  case False
  then obtain c rest where b: "buf = c # rest" using assms by (cases buf) auto
  define m where "m = nat (n - 1)"
  have m: "nat n = Suc m" "n = int m + 1" "m \<le> length rest" using False assms b by (auto simp: m_def)
  define r where "r = take m rest"
  have r: "take (nat n) buf = c # r" "length r = m" using m b by (auto simp: r_def)
  define ds where "ds = takeWhile is_digit r"
  have "length ds + length (dropWhile is_digit r) = length (takeWhile is_digit r @ dropWhile is_digit r)"
    unfolding ds_def length_append ..
  then have len: "length ds + length (dropWhile is_digit r) = m" using r(2) by simp
  have tl: "dropWhile is_digit r = drop (length ds) r" by (simp add: ds_def dropWhile_eq_drop)
  have dig: "parse_digits buf 0 n 1 0 False =
      Some (if dec_val 0 ds \<le> INT_MAX then Digits_end (1 + int (length ds)) (dec_val 0 ds) (ds \<noteq> [])
            else Digits_overflow)"
    using parse_digits_run [of 0 1 n buf 0 ds False] m b
    by (simp add: ds_def r_def INT_MAX_def)
  define tl where "tl = drop (length ds) r"
  have tl: "dropWhile is_digit r = tl" "length ds + length tl = m" "tl = [] \<longleftrightarrow> length tl = 0"
    using len by (simp_all add: tl_def ds_def dropWhile_eq_drop)
  have mem: "memrd buf (1 + int (length ds)) 2 = Some (take 2 tl)" if "2 \<le> length tl"
  proof -
    have "tl = take (m - length ds) (drop (length ds) rest)" by (simp add: tl_def r_def drop_take)
    then have "take 2 tl = take 2 (drop (length ds) rest)" using that tl(2) by (simp add: min_def)
    moreover have "1 + int (length ds) + int 2 \<le> int (length buf)" using that tl(2) m b by simp
    ultimately show ?thesis by (simp add: b nat_add_distrib)
  qed
  have start: "memrd buf 0 1 = Some [c]" using b by simp
  have measure: "kvsp_measure (take (nat n) buf) hl = (if c \<noteq> CHR ''#'' then (-2, hl)
      else if dec_val 0 ds > INT_MAX then (-2, hl)
      else if ds = [] then (if tl = [] then 0 else -2, hl)
      else if length tl < 2 then (0, hl)
      else if take 2 tl \<noteq> CRLF then (-2, hl)
      else if dec_val 0 ds + (3 + int (length ds)) > INT_MAX then (-2, hl)
      else (if dec_val 0 ds + (3 + int (length ds)) > n then 0
            else dec_val 0 ds + (3 + int (length ds)), 3 + int (length ds)))"
    unfolding r(1) kvsp_measure_def list.case Let_def ds_def [symmetric] tl(1) using r(2) m by simp
  have p3: "1 + int (length ds) + int 2 = 3 + int (length ds)" by simp
  have parse: "kvsp_parse_bulk_size buf n hl = (if c \<noteq> CHR ''#'' then Some (-2, hl)
      else if dec_val 0 ds > INT_MAX then Some (-2, hl)
      else if ds = [] then Some (if 1 + int (length ds) \<ge> n then 0 else -2, hl)
      else if n - (1 + int (length ds)) < 2 then Some (0, hl)
      else do { t \<leftarrow> memrd buf (1 + int (length ds)) 2;
                if t \<noteq> CRLF then Some (-2, hl)
                else if dec_val 0 ds > INT_MAX - (3 + int (length ds)) then Some (-2, hl)
                else Some (if dec_val 0 ds + (3 + int (length ds)) > n then 0
                           else dec_val 0 ds + (3 + int (length ds)), 3 + int (length ds)) })"
    unfolding kvsp_parse_bulk_size_def kvsp_lens
    unfolding kvsp_consts Let_def
    using False start dig
    by (simp cong: if_cong add: p3 del: of_nat_numeral)
  have "1 + int (length ds) \<ge> n \<longleftrightarrow> tl = []" if "ds = []" using tl m that by auto
  moreover have "n - (1 + int (length ds)) < 2 \<longleftrightarrow> length tl < 2" using tl(2) m by auto
  moreover have "dec_val 0 ds > INT_MAX - (3 + int (length ds)) \<longleftrightarrow>
      dec_val 0 ds + (3 + int (length ds)) > INT_MAX" by linarith
  ultimately show ?thesis unfolding parse measure using mem by simp
qed

lemma digits_val_nonneg: "\<forall>c \<in> set s. is_digit c \<Longrightarrow> 0 \<le> dec_val 0 s"
  using dec_val_mono [of 0 s] by simp

lemma kvsp_measure_range:
  assumes "kvsp_measure xs hl = (r, p)"
  shows "r = -2 \<or> r = -1 \<and> xs = [] \<or> r = 0 \<or> (3 < p \<and> p \<le> r \<and> r \<le> int (length xs))"
proof (cases xs)
  case (Cons c rest)
  have "0 \<le> dec_val 0 (takeWhile is_digit rest)"
    by (rule digits_val_nonneg) (auto dest: set_takeWhileD)
  then show ?thesis using assms Cons
    by (auto simp: kvsp_measure_def Let_def split: if_splits)
qed (use assms in \<open>simp add: kvsp_measure_def\<close>)

lemma dec_val_append: "dec_val a (s @ t) = dec_val (dec_val a s) t"
  by (simp add: dec_val_def)

lemma kvsp_measure_append:
  assumes "xs \<noteq> []" "kvsp_measure xs hl = (r, p)" "r \<noteq> 0"
  shows "kvsp_measure (xs @ ys) hl = (r, p)"
proof -
  obtain c rest where xs: "xs = c # rest" using assms(1) by (cases xs) auto
  show ?thesis
  proof (cases "dropWhile is_digit rest")
    case Nil
    then have all: "\<forall>x \<in> set rest. is_digit x" by (simp add: dropWhile_eq_Nil_conv)
    then have tw: "takeWhile is_digit rest = rest" by simp
    have "c \<noteq> CHR ''#'' \<or> INT_MAX < dec_val 0 rest"
      using assms(2,3) unfolding xs kvsp_measure_def list.case Let_def Nil tw by (auto split: if_splits)
    moreover have "dec_val 0 rest \<le> dec_val 0 (rest @ takeWhile is_digit ys)"
      using dec_val_mono [OF digits_val_nonneg [OF all], of "takeWhile is_digit ys"]
      by (auto simp: dec_val_append dest: set_takeWhileD)
    moreover have "takeWhile is_digit (rest @ ys) = rest @ takeWhile is_digit ys"
      using all by (simp add: takeWhile_append2)
    ultimately show ?thesis using assms(2,3)
      unfolding xs append_Cons kvsp_measure_def list.case Let_def Nil tw by (auto split: if_splits)
  next
    case (Cons d tl)
    then have d: "d \<in> set rest" "\<not> is_digit d"
      by (metis list.set_intros(1) set_dropWhileD, metis hd_dropWhile list.distinct(1) list.sel(1))
    have 1: "takeWhile is_digit (rest @ ys) = takeWhile is_digit rest"
        "dropWhile is_digit (rest @ ys) = dropWhile is_digit rest @ ys"
      using d by (simp_all add: takeWhile_append1 dropWhile_append1)
    have 2: "take 2 (dropWhile is_digit rest @ ys) = take 2 (dropWhile is_digit rest)"
      if "\<not> length (dropWhile is_digit rest) < 2" using that by simp
    have 3: "dec_val 0 (takeWhile is_digit rest) + (3 + int (length (takeWhile is_digit rest))) > int (length xs)"
      if "dec_val 0 (takeWhile is_digit rest) + (3 + int (length (takeWhile is_digit rest))) > int (length (xs @ ys))"
      using that by simp
    show ?thesis using assms(2,3) 2 3 unfolding xs append_Cons kvsp_measure_def list.case Let_def 1
      by (auto simp: Cons split: if_splits)
  qed
qed

subsection \<open>Frames\<close>

definition kvsp_body :: "string list \<Rightarrow> string" where
  "kvsp_body ts = concat (map kvsp_tok ts)"

definition kvsp_head :: "string list \<Rightarrow> string" where
  "kvsp_head ts = ''#'' @ dec (length (kvsp_body ts) + 2) @ CRLF"

definition kvsp_frame :: "string list \<Rightarrow> string" where
  "kvsp_frame ts = kvsp_head ts @ kvsp_body ts @ CRLF"

lemma kvsp_body_simps [simp]:
  "kvsp_body [] = []" "kvsp_body (t # ts) = kvsp_tok t @ kvsp_body ts"
  by (simp_all add: kvsp_body_def)

lemma kvsp_body_len_frame:
  assumes "0 \<le> acc" "acc + int (length (kvsp_body ts)) \<le> INT_MAX"
  shows "kvsp_body_len (map Some ts) acc = Some (Some (acc + int (length (kvsp_body ts))))"
  using assms by (induction ts arbitrary: acc) (auto simp: Let_def)

lemma kvs_build_frame:
  assumes "ts \<noteq> []" "int (length (kvsp_frame ts)) < INT_MAX" "mem e 0"
  shows "kvs_build_kvsp_frame e (map Some ts) = Some (Some (kvsp_frame ts, int (length (kvsp_frame ts))))"
proof -
  have "int (length (kvsp_body ts)) \<le> INT_MAX" using assms(2) by (simp add: kvsp_frame_def)
  then have "kvsp_body_len (map Some ts) 0 = Some (Some (int (length (kvsp_body ts))))"
    using kvsp_body_len_frame [of 0 ts] by simp
  moreover have "nat (int (length (kvsp_body ts)) + 2) = length (kvsp_body ts) + 2" by simp
  ultimately show ?thesis
    using assms unfolding kvs_build_kvsp_frame_def kvsp_lens
    by (simp add: kvsp_consts kvsp_frame_def kvsp_head_def kvsp_body_def comp_def)
qed

lemma takeWhile_dec: "takeWhile is_digit (dec n @ CR # r) = dec n"
  "dropWhile is_digit (dec n @ CR # r) = CR # r"
  using dec_digits [of _ n] by (simp_all add: takeWhile_append2 dropWhile_append2)

lemma kvsp_measure_frame:
  assumes "int (length (kvsp_frame ts)) \<le> INT_MAX"
  shows "kvsp_measure (kvsp_frame ts @ rest) hl = (int (length (kvsp_frame ts)), int (length (kvsp_head ts)))"
proof -
  have "kvsp_frame ts @ rest = CHR ''#'' # dec (length (kvsp_body ts) + 2) @ CR # LF # kvsp_body ts @ CRLF @ rest"
    by (simp add: kvsp_frame_def kvsp_head_def)
  moreover have "int (length (kvsp_frame ts)) = int (length (kvsp_body ts) + 2) + (3 + int (length (dec (length (kvsp_body ts) + 2))))"
    by (simp add: kvsp_frame_def kvsp_head_def)
  ultimately show ?thesis using assms
    by (simp add: kvsp_measure_def Let_def takeWhile_dec kvsp_head_def)
qed

subsection \<open>Splitting is safe on arbitrary input\<close>

text \<open>What the KVSP loop does to the buffer, whatever its contents: it stays inside the body, and
  a successful split leaves all tokens inside the body, which is terminated at its end.\<close>

lemma kvsp_split_loop_safe:
  assumes "0 \<le> body" "0 \<le> pos" "pos \<le> parse_end" "body + parse_end < int (length b)"
    and "length toks \<le> KVS_MAX_TOKENS" "\<forall>t \<in> set toks. body \<le> t \<and> t \<le> body + parse_end"
  shows "\<exists>r b' toks'. kvsp_split_loop b body parse_end pos toks = Some (r, b', toks') \<and>
    length b' = length b \<and>
    (\<forall>j. int j < body \<or> body + parse_end < int j \<longrightarrow> b' ! j = b ! j) \<and>
    (r = -2 \<or> r = int (length toks') \<and> length toks' \<le> KVS_MAX_TOKENS \<and>
      b' ! nat (body + parse_end) = NUL \<and>
      (\<forall>t \<in> set toks'. body \<le> t \<and> t \<le> body + parse_end))"
  using assms
proof (induction b body parse_end pos toks rule: kvsp_split_loop.induct)
  case (1 b body parse_end pos toks)
  show ?case
  proof (cases "pos < parse_end")
    case False
    then have "kvsp_split_loop b body parse_end pos toks
        = Some (int (length toks), b[nat (body + parse_end) := NUL], toks)"
      using "1.prems" by (subst kvsp_split_loop.simps) simp
    then show ?thesis using "1.prems" by (auto simp: nth_list_update)
  next
    case lt: True
    define c where "c = b ! nat (body + pos)"
    have c: "rd b (body + pos) = Some c" using "1.prems" lt by (simp add: c_def)
    define b1 where "b1 = (if toks \<noteq> [] then b[nat (body + pos) := NUL] else b)"
    have b1: "(if toks \<noteq> [] then wr b (body + pos) NUL else Some b) = Some b1" "length b1 = length b"
      using "1.prems" lt by (simp_all add: b1_def)
    have same: "\<forall>j. int j < body \<or> body + parse_end < int j \<longrightarrow> b1 ! j = b ! j"
      using "1.prems" lt by (auto simp: b1_def nth_list_update)
    define s where "s = takeWhile is_digit (take (nat (parse_end - (pos + 1))) (drop (nat (body + (pos + 1))) b1))"
    have dig: "parse_digits b1 body parse_end (pos + 1) 0 False =
        Some (if dec_val 0 s \<le> INT_MAX then Digits_end (pos + 1 + int (length s)) (dec_val 0 s) (False \<or> s \<noteq> [])
              else Digits_overflow)"
      by (rule parse_digits_run) (use "1.prems" lt b1 in \<open>auto simp: s_def INT_MAX_def\<close>)
    let ?p = "pos + 1 + int (length s)"
    have v: "0 \<le> dec_val 0 s" by (rule digits_val_nonneg) (auto simp: s_def dest: set_takeWhileD)
    show ?thesis
    proof (cases "c = KVSP_TOK_LEN_START_CHAR \<and> dec_val 0 s \<le> INT_MAX \<and> s \<noteq> [] \<and> ?p < parse_end \<and>
        b1 ! nat (body + ?p) = KVSP_TOK_START_CHAR \<and> dec_val 0 s \<le> parse_end - (?p + 1) \<and>
        length toks < KVS_MAX_TOKENS")
      case False
      then have "\<exists>b''. kvsp_split_loop b body parse_end pos toks = Some (-2, b'', toks) \<and> (b'' = b \<or> b'' = b1)"
        using lt c b1 dig "1.prems" by (simp add: kvsp_split_loop.simps [of _ _ _ pos]) linarith
      then show ?thesis using b1(2) same by auto
    next
      case True
      have d: "parse_digits b1 body parse_end (pos + 1) 0 False = Some (Digits_end ?p (dec_val 0 s) True)"
        using dig True by simp
      have rdp: "rd b1 (body + ?p) = Some KVSP_TOK_START_CHAR"
        using True "1.prems" b1(2) by simp
      have step: "kvsp_split_loop b body parse_end pos toks
          = kvsp_split_loop b1 body parse_end (?p + 1 + dec_val 0 s) (toks @ [body + ?p + 1])"
        using lt c b1 d rdp True by (simp add: kvsp_split_loop.simps [of _ _ _ pos])
      have "\<exists>r b' toks'. kvsp_split_loop b1 body parse_end (?p + 1 + dec_val 0 s) (toks @ [body + ?p + 1]) = Some (r, b', toks') \<and>
          length b' = length b1 \<and>
          (\<forall>j. int j < body \<or> body + parse_end < int j \<longrightarrow> b' ! j = b1 ! j) \<and>
          (r = -2 \<or> r = int (length toks') \<and> length toks' \<le> KVS_MAX_TOKENS \<and>
            b' ! nat (body + parse_end) = NUL \<and>
            (\<forall>t \<in> set toks'. body \<le> t \<and> t \<le> body + parse_end))"
        by (rule "1.IH" [OF lt c _ b1(1) d refl _ _ rdp]) (use True "1.prems" b1(2) v in auto)
      then show ?thesis using same unfolding step b1(2) by fastforce
    qed
  qed
qed

subsection \<open>Splitting a frame\<close>

text \<open>The body after the split: the \<open>^\<close> of every token but the first is overwritten, and the
  positions the tokens start at.\<close>

fun kvsp_cut :: "bool \<Rightarrow> string list \<Rightarrow> string" where
  "kvsp_cut later [] = []"
| "kvsp_cut later (t # ts) =
     (if later then NUL else CHR ''^'') # dec (length t) @ ''&'' @ t @ kvsp_cut True ts"

fun kvsp_offs :: "nat \<Rightarrow> string list \<Rightarrow> nat list" where
  "kvsp_offs i [] = []"
| "kvsp_offs i (t # ts) =
     (i + 2 + length (dec (length t))) # kvsp_offs (i + 2 + length (dec (length t)) + length t) ts"

lemma length_kvsp_tok: "length (kvsp_tok t) = 2 + length (dec (length t)) + length t"
  by (simp add: kvsp_tok_def)

lemma length_kvsp_offs [simp]: "length (kvsp_offs i ts) = length ts"
  by (induction ts arbitrary: i) simp_all

lemma kvsp_split_loop_run:
  assumes "b = pre @ kvsp_body ts @ z # post" and "int (length pre) = body + pos" "0 \<le> body" "0 \<le> pos"
    and "parse_end = pos + int (length (kvsp_body ts))" "parse_end \<le> INT_MAX"
    and "length toks + length ts \<le> KVS_MAX_TOKENS"
  shows "kvsp_split_loop b body parse_end pos toks =
    Some (int (length toks + length ts), pre @ kvsp_cut (toks \<noteq> []) ts @ NUL # post,
          toks @ map int (kvsp_offs (length pre) ts))"
  using assms
proof (induction ts arbitrary: b pre pos toks)
  case Nil
  then have "nat (body + pos) = length pre" by simp
  then show ?case using Nil by (subst kvsp_split_loop.simps) simp
next
  case (Cons t ts)
  define n where "n = dec (length t)"
  define q where "q = length pre"
  define rest where "rest = t @ kvsp_body ts @ z # post"
  have b: "b = pre @ CHR ''^'' # n @ CHR ''&'' # rest"
    using Cons.prems(1) by (simp add: kvsp_tok_def n_def rest_def)
  have q: "body + pos = int q" "nat (body + pos) = q" using Cons.prems(2) by (simp_all add: q_def)
  define c1 where "c1 = (if toks \<noteq> [] then NUL else CHR ''^'')"
  define b1 where "b1 = pre @ c1 # n @ CHR ''&'' # rest"
  have pe: "parse_end = pos + 2 + int (length n) + int (length t) + int (length (kvsp_body ts))"
    using Cons.prems(5) by (simp add: length_kvsp_tok n_def)
  then have lt: "pos < parse_end" by simp
  have rd0: "rd b (body + pos) = Some CHR ''^''" using q by (simp add: b q_def rd_mid)
  have wr0: "(if toks \<noteq> [] then wr b (body + pos) NUL else Some b) = Some b1"
    using q by (simp add: b b1_def c1_def q_def wr_mid)
  have seg: "take (nat (parse_end - (pos + 1))) (drop (nat (body + (pos + 1))) b1)
      = n @ CHR ''&'' # t @ kvsp_body ts"
  proof -
    have "nat (body + (pos + 1)) = Suc q" using q(1) by simp
    moreover have "nat (parse_end - (pos + 1)) = length (n @ CHR ''&'' # t @ kvsp_body ts)"
      using pe by simp
    moreover have "drop (Suc q) b1 = (n @ CHR ''&'' # t @ kvsp_body ts) @ z # post"
      by (simp add: b1_def q_def rest_def)
    ultimately show ?thesis by (simp only: take_append) simp
  qed
  have ds: "takeWhile is_digit (n @ CHR ''&'' # t @ kvsp_body ts) = n"
    using dec_digits [of _ "length t"] by (simp add: takeWhile_append2 n_def)
  have tl: "int (length t) \<le> INT_MAX" using pe Cons.prems by simp
  have len1: "int (length b1) = body + parse_end + 1 + int (length post)"
    using q(1) pe by (simp add: b1_def rest_def q_def)
  have "parse_digits b1 body parse_end (pos + 1) 0 False =
      Some (if dec_val 0 n \<le> INT_MAX then Digits_end (pos + 1 + int (length n)) (dec_val 0 n) (False \<or> n \<noteq> [])
            else Digits_overflow)"
    by (rule parse_digits_run) (use Cons.prems(3,4) pe len1 seg ds in \<open>simp_all add: INT_MAX_def\<close>)
  then have dig: "parse_digits b1 body parse_end (pos + 1) 0 False
      = Some (Digits_end (pos + 1 + int (length n)) (int (length t)) True)"
    using tl by (simp add: n_def)
  have rd1: "rd b1 (body + (pos + 1 + int (length n))) = Some KVSP_TOK_START_CHAR"
    using rd_mid [of "body + (pos + 1 + int (length n))" "pre @ c1 # n" "CHR ''&''" rest] q(1)
    by (simp add: b1_def q_def kvsp_consts)
  have step: "kvsp_split_loop b body parse_end pos toks
      = kvsp_split_loop b1 body parse_end (pos + 1 + int (length n) + 1 + int (length t))
          (toks @ [body + (pos + 1 + int (length n)) + 1])"
    using lt rd0 wr0 dig rd1 Cons.prems(7) pe
    by (simp add: kvsp_split_loop.simps [of _ _ _ pos] kvsp_consts del: rd_in)
  show ?case unfolding step
    by (subst Cons.IH [where pre = "pre @ c1 # n @ CHR ''&'' # t"])
       (use Cons.prems q pe in \<open>simp_all add: b1_def rest_def n_def c1_def q_def algebra_simps\<close>)
qed

lemma kvsp_cut_strings:
  assumes "\<forall>t \<in> set ts. cstring t" and "b = pre @ kvsp_cut later ts @ NUL # post"
  shows "map (\<lambda>i. cstr_at b (int i)) (kvsp_offs (length pre) ts) = map Some ts"
  using assms
proof (induction ts arbitrary: pre later)
  case (Cons t ts)
  define c where "c = (if later then NUL else CHR ''^'')"
  define pre' where "pre' = pre @ c # dec (length t) @ ''&'' @ t"
  obtain r where r: "kvsp_cut True ts @ NUL # post = NUL # r" by (cases ts) auto
  have b: "b = pre' @ kvsp_cut True ts @ NUL # post" using Cons.prems(2) by (simp add: pre'_def c_def)
  then have "drop (length pre + 2 + length (dec (length t))) b = t @ NUL # r"
    using r by (simp add: pre'_def)
  then have "cstr_at b (int (length pre + 2 + length (dec (length t)))) = Some t"
    using Cons.prems(1) by (intro cstr_at_append) simp_all
  moreover have "map (\<lambda>i. cstr_at b (int i)) (kvsp_offs (length pre') ts) = map Some ts"
    using Cons.IH [OF _ b] Cons.prems(1) by simp
  ultimately show ?case by (simp add: pre'_def algebra_simps)
qed simp

lemma length_kvsp_cut [simp]: "length (kvsp_cut later ts) = length (kvsp_body ts)"
  by (induction later ts rule: kvsp_cut.induct) (simp_all add: length_kvsp_tok)

lemma kvs_split_kvsp_frame:
  assumes "rbuf cli = kvsp_frame ts @ rest" "protocol cli = PROTO_KVSP"
    "cmd_hl cli = int (length (kvsp_head ts))" "cmd_tl cli = int (length (kvsp_frame ts))"
    and "\<forall>t \<in> set ts. cstring t" "length ts \<le> KVS_MAX_TOKENS" "int (length (kvsp_frame ts)) \<le> INT_MAX"
  shows "\<exists>f toks. kvs_split_token cli = Some (int (length ts), cli\<lparr>rbuf := f @ rest\<rparr>, toks) \<and>
    length f = length (kvsp_frame ts) \<and> map (cstr_at (f @ rest)) toks = map Some ts"
proof -
  let ?f = "kvsp_head ts @ kvsp_cut False ts @ [NUL, LF]"
  let ?toks = "map int (kvsp_offs (length (kvsp_head ts)) ts)"
  have len: "cmd_tl cli - cmd_hl cli = int (length (kvsp_body ts)) + 2"
    using assms(3,4) by (simp add: kvsp_frame_def)
  have buf: "rbuf cli = kvsp_head ts @ kvsp_body ts @ CR # LF # rest"
    using assms(1) by (simp add: kvsp_frame_def)
  have "kvsp_split_loop (rbuf cli) (cmd_hl cli) (int (length (kvsp_body ts))) 0 []
      = Some (int (length ([] :: int list) + length ts), kvsp_head ts @ kvsp_cut (([] :: int list) \<noteq> []) ts @ NUL # LF # rest, [] @ ?toks)"
    by (rule kvsp_split_loop_run) (use assms(3,6,7) buf in \<open>simp_all add: kvsp_frame_def\<close>)
  moreover have "memrd (rbuf cli) (cmd_hl cli + int (length (kvsp_body ts))) 2 = Some CRLF"
    using assms(3) by (simp add: buf memrd_def nat_add_distrib)
  ultimately have "kvs_split_token cli = Some (int (length ts), cli\<lparr>rbuf := ?f @ rest\<rparr>, ?toks)"
    using assms(2) unfolding kvs_split_token_def kvsp_lens
    by (simp add: len Let_def kvsp_consts)
  moreover have "map (cstr_at (?f @ rest)) ?toks = map Some ts"
    using kvsp_cut_strings [OF assms(5) refl, of "kvsp_head ts" False "LF # rest"] by (simp add: comp_def)
  moreover have "length ?f = length (kvsp_frame ts)" by (simp add: kvsp_frame_def)
  ultimately show ?thesis by blast
qed

subsection \<open>RESP requests\<close>

definition resp_bulk :: "string \<Rightarrow> string" where
  "resp_bulk t = ''$'' @ dec (length t) @ CRLF @ t @ CRLF"

definition resp_body :: "string list \<Rightarrow> string" where
  "resp_body ts = concat (map resp_bulk ts)"

definition resp_head :: "string list \<Rightarrow> string" where
  "resp_head ts = ''*'' @ dec (length ts) @ CRLF"

definition resp_request :: "string list \<Rightarrow> string" where
  "resp_request ts = resp_head ts @ resp_body ts"

lemma resp_body_simps [simp]: "resp_body [] = []" "resp_body (t # ts) = resp_bulk t @ resp_body ts"
  by (simp_all add: resp_body_def)

lemma resp_find_nl_run:
  assumes "b = pre @ mid @ CR # LF # post" "LF \<notin> set mid" "pos = int (length pre)"
    "int (length pre + length mid + 1) < n"
  shows "resp_find_nl b n pos = Some (pos + int (length mid) + 1)"
  using assms
proof (induction mid arbitrary: pre pos)
  case Nil
  have 1: "rd b pos = Some CR" using Nil by (simp add: rd_mid)
  have 2: "rd b (pos + 1) = Some LF"
    using Nil rd_mid [of "pos + 1" "pre @ [CR]" LF post] by simp
  have "resp_find_nl b n (pos + 1) = Some (pos + 1)"
    using Nil(4) 1 2 Nil(3) by (subst resp_find_nl.simps) (simp del: rd_in)
  then show ?case using Nil(3,4) 1 by (subst resp_find_nl.simps) (simp del: rd_in)
next
  case (Cons c mid)
  have 1: "rd b pos = Some c" using Cons.prems by (simp add: rd_mid)
  have "resp_find_nl b n (pos + 1) = Some (pos + 1 + int (length mid) + 1)"
    by (rule Cons.IH [of "pre @ [c]"]) (use Cons.prems in auto)
  then show ?case using Cons.prems(2-4) 1 by (subst resp_find_nl.simps) (auto simp del: rd_in)
qed

lemma LF_notin_dec [simp]: "LF \<notin> set (dec n)" "CR \<notin> set (dec n)"
  using dec_digits [of LF n] dec_digits [of CR n] by auto

lemma resp_bulks_run:
  assumes "b = pre @ resp_body ts @ post" "pos = int (length pre) - 1" "pre \<noteq> []"
    "int (length (pre @ resp_body ts)) \<le> n" "n \<le> INT_MAX" "argc = i + int (length ts)"
  shows "resp_bulks b n argc i pos = Some (int (length (pre @ resp_body ts)))"
  using assms
proof (induction ts arbitrary: pre pos i)
  case Nil
  then have "c_int (pos + 1) = pos + 1" by (intro c_int_id) (auto simp: INT_MAX_def)
  then show ?case using Nil by (simp add: resp_bulks.simps)
next
  case (Cons t ts)
  define d where "d = dec (length t)"
  define r where "r = t @ CRLF @ resp_body ts @ post"
  have b: "b = pre @ CHR ''$'' # d @ CR # LF # r"
    using Cons.prems(1) by (simp add: resp_bulk_def d_def r_def)
  have lens: "int (length pre) + 5 + int (length d) + int (length t) + int (length (resp_body ts)) \<le> n"
    using Cons.prems(4) by (simp add: resp_bulk_def d_def)
  have tn: "int (length t) \<le> INT_MAX" using lens Cons.prems(5) by simp
  have p1: "c_size (pos + 1) = int (length pre)"
    using Cons.prems(2) lens Cons.prems(5) c_size_id [of "int (length pre)"] by (simp add: INT_MAX_def)
  have rd0: "rd b (int (length pre)) = Some (CHR ''$'')" by (simp add: b rd_mid)
  have nl: "resp_find_nl b n (int (length pre)) = Some (int (length pre) + int (length (CHR ''$'' # d)) + 1)"
    by (rule resp_find_nl_run) (use b lens in \<open>auto simp: d_def\<close>)
  have at: "atoi (drop (nat (int (length pre) + 1)) b) = Some (int (length t))"
  proof -
    have "drop (nat (int (length pre) + 1)) b = dec (length t) @ CR # LF # r"
      by (simp add: b d_def nat_add_distrib)
    then show ?thesis using tn by (simp only: atoi_dec not_digit_chars not_False_eq_True)
  qed
  let ?pos' = "int (length pre) + int (length d) + 2 + (int (length t) + 2)"
  have c: "c_int (int (length t) + 2) = int (length t) + 2" "c_size ?pos' = ?pos'"
    using lens Cons.prems(5) by (auto intro!: c_int_id c_size_id simp: INT_MAX_def)
  have step: "resp_bulks b n argc i pos = resp_bulks b n argc (i + 1) ?pos'"
    using Cons.prems(6) p1 rd0 nl at c lens
    by (simp add: resp_bulks.simps [of _ _ _ i] Let_def algebra_simps del: rd_in)
  show ?case unfolding step
    by (subst Cons.IH [where pre = "pre @ resp_bulk t"])
       (use Cons.prems lens in \<open>simp_all add: resp_bulk_def d_def algebra_simps\<close>)
qed

lemma resp_parse_request:
  assumes "int (length (resp_request ts)) \<le> n" "n \<le> INT_MAX"
  shows "resp_parse_bulk_size (resp_request ts @ rest) n hl
    = Some (int (length (resp_request ts)), int (length (resp_head ts)))"
proof -
  let ?b = "resp_request ts @ rest"
  have b: "?b = [CHR ''*''] @ dec (length ts) @ CR # LF # resp_body ts @ rest"
    by (simp add: resp_request_def resp_head_def)
  have lens: "int (length (resp_head ts)) + int (length (resp_body ts)) \<le> n"
      "length (resp_head ts) = length (dec (length ts)) + 3"
    using assms(1) by (simp_all add: resp_request_def resp_head_def)
  have "length ts \<le> length (resp_body ts)" by (induction ts) (auto simp: resp_bulk_def)
  then have "int (length ts) \<le> INT_MAX" using lens assms(2) by simp
  then have at: "atoi (drop 1 ?b) = Some (int (length ts))"
    by (simp add: resp_request_def resp_head_def atoi_dec)
  have nl: "resp_find_nl ?b n 1 = Some (1 + int (length (dec (length ts))) + 1)"
    by (rule resp_find_nl_run [OF b]) (use lens in simp_all)
  have "resp_bulks ?b n (int (length ts)) 0 (int (length (resp_head ts)) - 1)
      = Some (int (length (resp_head ts @ resp_body ts)))"
    by (rule resp_bulks_run) (use lens assms(2) in \<open>auto simp: resp_request_def\<close>)
  then show ?thesis using lens at nl rd_mid [of 0 "[]" "CHR ''*''"]
    by (simp add: resp_parse_bulk_size_def b resp_request_def [symmetric])
qed

text \<open>The body after the split, and where the tokens start.\<close>

fun resp_cut :: "string list \<Rightarrow> string" where
  "resp_cut [] = []"
| "resp_cut (t # ts) = ''$'' @ dec (length t) @ CRLF @ t @ [NUL, LF] @ resp_cut ts"

fun resp_offs :: "nat \<Rightarrow> string list \<Rightarrow> nat list" where
  "resp_offs i [] = []"
| "resp_offs i (t # ts) =
     (i + 3 + length (dec (length t))) # resp_offs (i + 3 + length (dec (length t)) + length t + 2) ts"

lemma length_resp_offs [simp]: "length (resp_offs i ts) = length ts"
  by (induction ts arbitrary: i) simp_all

lemma resp_find_cr_run:
  assumes "b = pre @ mid @ CR # post" "CR \<notin> set mid" "i = int (length pre)"
  shows "resp_find_cr b i = Some (i + int (length mid))"
  using assms
proof (induction mid arbitrary: pre i)
  case Nil
  then show ?case by (subst resp_find_cr.simps) simp
next
  case (Cons c mid)
  have "resp_find_cr b (i + 1) = Some (i + 1 + int (length mid))"
    by (rule Cons.IH [of "pre @ [c]"]) (use Cons.prems in auto)
  then show ?case using Cons.prems by (subst resp_find_cr.simps) auto
qed

text \<open>One round of the loop, on a well-formed bulk string.\<close>

lemma resp_split_step:
  assumes "int (length pre) = body + pos" "int (length t) \<le> INT_MAX"
  shows "resp_split_loop (pre @ resp_bulk t @ r) body pos toks =
    (if length toks \<ge> KVS_MAX_TOKENS then None
     else resp_split_loop (pre @ resp_cut [t] @ r) body (pos + int (length (resp_bulk t)))
            (toks @ [int (length pre + 3 + length (dec (length t)))]))"
proof -
  define d where "d = dec (length t)"
  define b where "b = pre @ CHR ''$'' # d @ CR # LF # t @ CR # LF # r"
  have q: "body + pos = int (length pre)" using assms(1) by simp
  have rd0: "rd b (body + pos) = Some (CHR ''$'')" by (simp add: b_def q rd_mid)
  have at: "atoi (drop (nat (body + pos + 1)) b) = Some (int (length t))"
  proof -
    have "drop (nat (body + pos + 1)) b = dec (length t) @ CR # LF # t @ CR # LF # r"
      by (simp add: b_def d_def nat_add_distrib q)
    then show ?thesis using assms(2) by (simp only: atoi_dec not_digit_chars not_False_eq_True)
  qed
  have cr: "resp_find_cr b (body + pos + 1) = Some (body + pos + 1 + int (length d))"
    by (rule resp_find_cr_run [of _ "pre @ [CHR ''$'']" _ "LF # t @ CR # LF # r"])
       (use q in \<open>simp_all add: b_def d_def\<close>)
  have wr1: "wr b (body + pos + 1 + int (length d) + 2 + int (length t)) NUL
      = Some (pre @ CHR ''$'' # d @ CR # LF # t @ NUL # LF # r)"
    using wr_mid [of "body + pos + 1 + int (length d) + 2 + int (length t)"
        "pre @ CHR ''$'' # d @ CR # LF # t" CR "LF # r" NUL] q by (simp add: b_def)
  have eq: "body + (body + pos + 1 + int (length d) - body + 2) = body + pos + 1 + int (length d) + 2"
    "body + pos + 1 + int (length d) - body + 2 + int (length t) + 2 = pos + int (length (resp_bulk t))"
    by (simp_all add: d_def resp_bulk_def)
  have tok: "body + pos + 1 + int (length d) + 2 = int (length pre + 3 + length (dec (length t)))"
    using q by (simp add: d_def)
  have b: "pre @ resp_bulk t @ r = b" "pre @ resp_cut [t] @ r = pre @ CHR ''$'' # d @ CR # LF # t @ NUL # LF # r"
    by (simp_all add: b_def resp_bulk_def d_def)
  have "resp_split_loop b body pos toks = (if length toks \<ge> KVS_MAX_TOKENS then None
      else resp_split_loop (pre @ CHR ''$'' # d @ CR # LF # t @ NUL # LF # r) body
            (pos + int (length (resp_bulk t))) (toks @ [body + pos + 1 + int (length d) + 2]))"
    by (subst resp_split_loop.simps) (simp only: rd0 at cr wr1 Option.bind.simps Let_def eq, simp)
  then show ?thesis by (simp only: b tok)
qed

lemma resp_body_bound: "t \<in> set ts \<Longrightarrow> length t \<le> length (resp_body ts)"
  by (induction ts) (auto simp: resp_bulk_def)

lemma resp_split_loop_run:
  assumes "b = pre @ resp_body ts @ NUL # post" "int (length pre) = body + pos"
    and "\<forall>t \<in> set ts. int (length t) \<le> INT_MAX" "length toks \<le> KVS_MAX_TOKENS"
  shows "resp_split_loop b body pos toks =
    (if length toks + length ts > KVS_MAX_TOKENS then None
     else Some (int (length toks + length ts), pre @ resp_cut ts @ NUL # post,
          toks @ map int (resp_offs (length pre) ts)))"
  using assms
proof (induction ts arbitrary: b pre pos toks)
  case Nil
  then have "rd b (body + pos) = Some NUL" by (simp add: rd_mid del: rd_in)
  then show ?case using Nil by (subst resp_split_loop.simps) simp
next
  case (Cons t ts)
  let ?tok = "int (length pre + 3 + length (dec (length t)))"
  have b: "b = pre @ resp_bulk t @ resp_body ts @ NUL # post" using Cons.prems(1) by simp
  have step: "resp_split_loop b body pos toks = (if length toks \<ge> KVS_MAX_TOKENS then None
     else resp_split_loop (pre @ resp_cut [t] @ resp_body ts @ NUL # post) body
            (pos + int (length (resp_bulk t))) (toks @ [?tok]))"
    unfolding b by (rule resp_split_step) (use Cons.prems in simp_all)
  show ?case
  proof (cases "length toks \<ge> KVS_MAX_TOKENS")
    case True
    then show ?thesis using step by simp
  next
    case False
    have "length (pre @ resp_cut [t]) = length pre + length (resp_bulk t)" by (simp add: resp_bulk_def)
    then have "resp_split_loop (pre @ resp_cut [t] @ resp_body ts @ NUL # post) body
            (pos + int (length (resp_bulk t))) (toks @ [?tok])
        = (if length (toks @ [?tok]) + length ts > KVS_MAX_TOKENS then None
           else Some (int (length (toks @ [?tok]) + length ts),
             (pre @ resp_cut [t]) @ resp_cut ts @ NUL # post,
             (toks @ [?tok]) @ map int (resp_offs (length (pre @ resp_cut [t])) ts)))"
      using False Cons.prems by (intro Cons.IH) simp_all
    moreover have "length (pre @ resp_cut [t]) = length pre + 3 + length (dec (length t)) + length t + 2"
      by simp
    ultimately show ?thesis using step False by (simp only: resp_offs.simps) simp
  qed
qed

lemma resp_cut_strings:
  assumes "\<forall>t \<in> set ts. cstring t" and "b = pre @ resp_cut ts @ post"
  shows "map (\<lambda>i. cstr_at b (int i)) (resp_offs (length pre) ts) = map Some ts"
  using assms
proof (induction ts arbitrary: pre)
  case (Cons t ts)
  define pre' where "pre' = pre @ ''$'' @ dec (length t) @ CRLF @ t @ [NUL, LF]"
  have b: "b = pre' @ resp_cut ts @ post" using Cons.prems(2) by (simp add: pre'_def)
  then have "drop (length pre + 3 + length (dec (length t))) b = t @ NUL # LF # resp_cut ts @ post"
    by (simp add: pre'_def numeral_3_eq_3)
  then have "cstr_at b (int (length pre + 3 + length (dec (length t)))) = Some t"
    using Cons.prems(1) by (intro cstr_at_append) simp_all
  moreover have "map (\<lambda>i. cstr_at b (int i)) (resp_offs (length pre') ts) = map Some ts"
    using Cons.IH [OF _ b] Cons.prems(1) by simp
  moreover have "length pre' = length pre + 3 + length (dec (length t)) + length t + 2"
    by (simp add: pre'_def)
  ultimately show ?case by simp
qed simp

lemma length_resp_cut [simp]: "length (resp_cut ts) = length (resp_body ts)"
  by (induction ts) (simp_all add: resp_bulk_def)

lemma kvs_split_resp_request:
  assumes "rbuf cli = resp_request ts @ NUL # rest" "protocol cli = PROTO_RESP" "cmd_hl cli = int (length (resp_head ts))"
    and "\<forall>t \<in> set ts. cstring t" "length ts \<le> KVS_MAX_TOKENS" "int (length (resp_request ts)) \<le> INT_MAX"
  shows "\<exists>f toks. kvs_split_token cli = Some (int (length ts), cli\<lparr>rbuf := f @ NUL # rest\<rparr>, toks) \<and>
    length f = length (resp_request ts) \<and> map (cstr_at (f @ NUL # rest)) toks = map Some ts"
proof -
  let ?f = "resp_head ts @ resp_cut ts"
  have "\<forall>t \<in> set ts. int (length t) \<le> INT_MAX"
    using resp_body_bound [of _ ts] assms(6) by (fastforce simp: resp_request_def)
  then have "resp_split_loop (rbuf cli) (cmd_hl cli) 0 [] = Some (int (length ts), ?f @ NUL # rest,
      map int (resp_offs (length (resp_head ts)) ts))"
    using resp_split_loop_run [of "rbuf cli" "resp_head ts" ts rest "cmd_hl cli" 0 "[]"] assms
    by (simp add: resp_request_def)
  then have "kvs_split_token cli = Some (int (length ts), cli\<lparr>rbuf := ?f @ NUL # rest\<rparr>,
      map int (resp_offs (length (resp_head ts)) ts))"
    using assms(2) by (simp add: kvs_split_token_def)
  moreover have "length ?f = length (resp_request ts)" by (simp add: resp_request_def)
  moreover have "map (cstr_at (?f @ NUL # rest)) (map int (resp_offs (length (resp_head ts)) ts)) = map Some ts"
    using resp_cut_strings [OF assms(4) refl, of "resp_head ts" "NUL # rest"] by (simp add: comp_def)
  ultimately show ?thesis by blast
qed

subsection \<open>Arbitrary frames\<close>

lemma kvs_split_any:
  assumes "protocol cli = PROTO_KVSP" and "0 \<le> cmd_hl cli" and "cmd_hl cli \<le> cmd_tl cli"
    and "cmd_tl cli \<le> int (length (rbuf cli))"
  shows "\<exists>r b toks. kvs_split_token cli = Some (r, cli\<lparr>rbuf := b\<rparr>, toks)
    \<and> length b = length (rbuf cli)
    \<and> (\<forall>j. int j < cmd_hl cli \<or> cmd_tl cli \<le> int j \<longrightarrow> b ! j = rbuf cli ! j)
    \<and> (r = -2 \<or> r = int (length toks) \<and> length toks \<le> KVS_MAX_TOKENS \<and>
        (\<forall>t \<in> set toks. \<exists>s. cstr_at b t = Some s \<and> cmd_hl cli \<le> t
            \<and> t + int (length s) < cmd_tl cli))"
proof (cases "cmd_tl cli - cmd_hl cli < 2 \<or>
    memrd (rbuf cli) (cmd_hl cli + (cmd_tl cli - cmd_hl cli - 2)) 2 \<noteq> Some CRLF")
  case True
  then have "kvs_split_token cli = Some (-2, cli, [])"
    using assms unfolding kvs_split_token_def kvsp_lens by (auto simp: kvsp_consts Let_def)
  moreover have "cli = cli\<lparr>rbuf := rbuf cli\<rparr>" by simp
  ultimately have "kvs_split_token cli = Some (-2, cli\<lparr>rbuf := rbuf cli\<rparr>, [])" by simp
  then show ?thesis by blast
next
  case False
  define e where "e = cmd_tl cli - cmd_hl cli - 2"
  have "\<exists>r b' toks'. kvsp_split_loop (rbuf cli) (cmd_hl cli) e 0 [] = Some (r, b', toks') \<and>
    length b' = length (rbuf cli) \<and>
    (\<forall>j. int j < cmd_hl cli \<or> cmd_hl cli + e < int j \<longrightarrow> b' ! j = rbuf cli ! j) \<and>
    (r = -2 \<or> r = int (length toks') \<and> length toks' \<le> KVS_MAX_TOKENS \<and>
      b' ! nat (cmd_hl cli + e) = NUL \<and>
      (\<forall>t \<in> set toks'. cmd_hl cli \<le> t \<and> t \<le> cmd_hl cli + e))"
    by (rule kvsp_split_loop_safe) (use assms False in \<open>auto simp: e_def\<close>)
  then obtain r b' toks where l: "kvsp_split_loop (rbuf cli) (cmd_hl cli) e 0 [] = Some (r, b', toks)"
    "length b' = length (rbuf cli)"
    "\<forall>j. int j < cmd_hl cli \<or> cmd_hl cli + e < int j \<longrightarrow> b' ! j = rbuf cli ! j"
    "r = -2 \<or> r = int (length toks) \<and> length toks \<le> KVS_MAX_TOKENS \<and> b' ! nat (cmd_hl cli + e) = NUL \<and>
      (\<forall>t \<in> set toks. cmd_hl cli \<le> t \<and> t \<le> cmd_hl cli + e)" by blast
  have "kvs_split_token cli = Some (r, cli\<lparr>rbuf := b'\<rparr>, toks)"
    using assms False l(1) unfolding kvs_split_token_def kvsp_lens
    by (auto simp: kvsp_consts Let_def e_def)
  moreover have "\<exists>s. cstr_at b' t = Some s \<and> cmd_hl cli \<le> t \<and> t + int (length s) < cmd_tl cli"
    if "t \<in> set toks" "r \<noteq> -2" for t
  proof -
    have t: "cmd_hl cli \<le> t" "t \<le> cmd_hl cli + e" "b' ! nat (cmd_hl cli + e) = NUL"
      using l(4) that by auto
    have "nat (cmd_hl cli + e) < length b'" using assms(2,4) l(2) False unfolding e_def by linarith
    then obtain s where "cstr_at b' (int (nat t)) = Some s" "nat t + length s \<le> nat (cmd_hl cli + e)"
      using cstr_at_bound [OF nat_mono [OF t(2)] _ t(3)] by blast
    moreover have "t + int (length s) < cmd_tl cli"
      using calculation(2) t assms(2) by (simp add: e_def)
    ultimately show ?thesis using t assms(2) by auto
  qed
  ultimately show ?thesis using l by (auto simp: e_def)
qed

subsection \<open>Properties\<close>

definition client0 :: client_info where
  "client0 = \<lparr>fd = 0, rbuf = [], r_cap = 0, r_pos = 0, cmd_tl = 0, cmd_hl = 0, wbuf = [], w_cap = 0,
              w_pos = 0, role = 0, protocol = PROTO_UNKNOWN, recv_protocol = None\<rparr>"

text \<open>C20: The KVSP size function is memory safe on arbitrary bytes: it reads only the \<open>buf_size\<close>
  bytes received, always terminates with an answer, and a positive answer is a length that lies
  inside the received bytes behind a header of at least four bytes.\<close>

theorem kvsp_parse_safe:
  assumes "buf_size \<le> int (length buf)"
  shows "\<exists>r p. kvsp_parse_bulk_size buf buf_size hl = Some (r, p) \<and>
    (r = -2 \<or> r = -1 \<and> buf_size \<le> 0 \<or> r = 0 \<or> (3 < p \<and> p \<le> r \<and> r \<le> buf_size))"
proof -
  obtain r p where rp: "kvsp_measure (take (nat buf_size) buf) hl = (r, p)" by fastforce
  have "take (nat buf_size) buf = [] \<longrightarrow> buf_size \<le> 0" using assms by auto
  moreover have "int (length (take (nat buf_size) buf)) \<le> max 0 buf_size" using assms by simp
  ultimately show ?thesis
    using kvsp_measure_range [OF rp] kvsp_parse_measure [OF assms, of hl] rp by auto
qed

theorem kvsp_parse_safe_witness:
  "\<exists>r p. kvsp_parse_bulk_size (''#12'' @ CRLF @ ''garbage'') 12 0 = Some (r, p) \<and>
    (r = -2 \<or> r = -1 \<and> (12 :: int) \<le> 0 \<or> r = 0 \<or> (3 < p \<and> p \<le> r \<and> r \<le> 12))"
  by (rule kvsp_parse_safe) simp

text \<open>C21: The verdict of the KVSP size function never changes when more bytes arrive: once a
  prefix of the stream has been judged malformed or complete, every longer prefix gets the same
  answer and the same header length.\<close>

theorem kvsp_parse_stable:
  assumes "0 < n" and "n \<le> m" and "n \<le> int (length buf)" and "m \<le> int (length buf')"
    and "take (nat n) buf' = take (nat n) buf"
    and "kvsp_parse_bulk_size buf n hl = Some (r, p)" and "r \<noteq> 0"
  shows "kvsp_parse_bulk_size buf' m hl = Some (r, p)"
proof -
  have "take (nat m) buf' = take (nat n) buf' @ take (nat m - nat n) (drop (nat n) buf')"
    using assms(2) by (metis le_add_diff_inverse nat_mono take_add)
  moreover have "take (nat n) buf \<noteq> []" using assms(1,3) by auto
  moreover have "kvsp_measure (take (nat n) buf) hl = (r, p)"
    using kvsp_parse_measure [OF assms(3), of hl] assms(6) by simp
  ultimately have "kvsp_measure (take (nat m) buf') hl = (r, p)"
    using kvsp_measure_append assms(5,7) by metis
  then show ?thesis using kvsp_parse_measure [OF assms(4), of hl] by simp
qed

theorem kvsp_parse_stable_witness:
  "kvsp_parse_bulk_size (''#2'' @ CRLF @ CRLF @ ''#9'') 8 0 = Some (6, 4)"
proof -
  have m: "kvsp_measure (''#2'' @ CRLF @ CRLF) 0 = (6, 4)" by code_simp
  have "kvsp_parse_bulk_size (''#2'' @ CRLF @ CRLF) 6 0 = Some (6, 4)"
    using kvsp_parse_measure [of 6 "''#2'' @ CRLF @ CRLF" 0] m by simp
  then show ?thesis by (intro kvsp_parse_stable [of 6 8 "''#2'' @ CRLF @ CRLF"]) simp_all
qed

text \<open>C19: Splitting a KVSP request is memory safe whatever the client sent: every access stays
  inside the frame, at most \<open>KVS_MAX_TOKENS\<close> token pointers are stored, nothing outside the frame
  is modified, and on success every token is a C string that ends inside the frame.\<close>

theorem kvs_split_kvsp_safe:
  assumes "protocol cli = PROTO_KVSP" and "0 \<le> cmd_hl cli" and "cmd_hl cli \<le> cmd_tl cli"
    and "cmd_tl cli \<le> int (length (rbuf cli))"
  shows "\<exists>r cli' toks. kvs_split_token cli = Some (r, cli', toks)
    \<and> length (rbuf cli') = length (rbuf cli)
    \<and> (\<forall>j. int j < cmd_hl cli \<or> cmd_tl cli \<le> int j \<longrightarrow> rbuf cli' ! j = rbuf cli ! j)
    \<and> (r = -2 \<or> r = int (length toks) \<and> length toks \<le> KVS_MAX_TOKENS \<and>
        (\<forall>t \<in> set toks. \<exists>s. cstr_at (rbuf cli') t = Some s \<and> cmd_hl cli \<le> t
            \<and> t + int (length s) < cmd_tl cli))"
  using kvs_split_any [OF assms] by fastforce

theorem kvs_split_kvsp_safe_witness:
  "\<exists>r cli' toks. kvs_split_token (client0\<lparr>rbuf := ''#9'' @ CRLF @ ''^99&a'' @ CRLF,
      protocol := PROTO_KVSP, cmd_hl := 4, cmd_tl := 11\<rparr>) = Some (r, cli', toks)
    \<and> length (rbuf cli') = 11"
  using kvs_split_kvsp_safe [of "client0\<lparr>rbuf := ''#9'' @ CRLF @ ''^99&a'' @ CRLF,
      protocol := PROTO_KVSP, cmd_hl := 4, cmd_tl := 11\<rparr>"]
  by (auto simp: client0_def)

text \<open>C17: KVSP frames round-trip.  A frame built by \<open>kvs_build_kvsp_frame\<close> from up to
  \<open>KVS_MAX_TOKENS\<close> C strings is recognised with its exact length whatever bytes follow it, and
  splitting it yields exactly those strings again, in order.\<close>

theorem kvsp_roundtrip:
  assumes "ts \<noteq> []" and "length ts \<le> KVS_MAX_TOKENS" and "\<forall>t \<in> set ts. cstring t"
    and "int (length (kvsp_frame ts)) < INT_MAX" and "mem e 0"
  shows "\<exists>f n h. kvs_build_kvsp_frame e (map Some ts) = Some (Some (f, n)) \<and> n = int (length f)
    \<and> (\<forall>rest hl m. n \<le> m \<and> m \<le> int (length (f @ rest)) \<longrightarrow>
          kvsp_parse_bulk_size (f @ rest) m hl = Some (n, h))
    \<and> (\<forall>cli rest. rbuf cli = f @ rest \<and> protocol cli = PROTO_KVSP \<and> cmd_hl cli = h \<and> cmd_tl cli = n \<longrightarrow>
          (\<exists>cli' toks. kvs_split_token cli = Some (int (length ts), cli', toks)
             \<and> map (cstr_at (rbuf cli')) toks = map Some ts))"
proof (rule exI [of _ "kvsp_frame ts"], rule exI [of _ "int (length (kvsp_frame ts))"],
    rule exI [of _ "int (length (kvsp_head ts))"], intro conjI allI impI)
  let ?f = "kvsp_frame ts"
  show "kvs_build_kvsp_frame e (map Some ts) = Some (Some (?f, int (length ?f)))"
    by (rule kvs_build_frame) (use assms in auto)
  show "int (length ?f) = int (length ?f)" ..
  show "kvsp_parse_bulk_size (?f @ rest) m hl = Some (int (length ?f), int (length (kvsp_head ts)))"
    if "int (length ?f) \<le> m \<and> m \<le> int (length (?f @ rest))" for rest hl m
  proof -
    have "take (nat m) (?f @ rest) = ?f @ take (nat m - length ?f) rest" using that by auto
    then show ?thesis
      using kvsp_parse_measure [of m "?f @ rest" hl] that assms(4) kvsp_measure_frame [of ts _ hl] by simp
  qed
  show "\<exists>cli' toks. kvs_split_token cli = Some (int (length ts), cli', toks)
      \<and> map (cstr_at (rbuf cli')) toks = map Some ts"
    if "rbuf cli = ?f @ rest \<and> protocol cli = PROTO_KVSP \<and> cmd_hl cli = int (length (kvsp_head ts))
        \<and> cmd_tl cli = int (length ?f)" for cli rest
    using kvs_split_kvsp_frame [of cli ts rest] that assms by fastforce
qed

theorem kvsp_roundtrip_witness:
  "\<exists>f n. kvs_build_kvsp_frame env0 [Some ''SET'', Some ''k'', Some ''v''] = Some (Some (f, n))
     \<and> kvsp_parse_bulk_size (f @ ''#'') n 0 = Some (n, 5)"
proof -
  have "length (kvsp_frame [''SET'', ''k'', ''v'']) = 21" "length (kvsp_head [''SET'', ''k'', ''v'']) = 5"
    by code_simp+
  moreover have "kvsp_parse_bulk_size (kvsp_frame [''SET'', ''k'', ''v''] @ ''#'') 21 0 = Some (21, 5)"
    by code_simp
  ultimately show ?thesis
    using kvsp_roundtrip [of "[''SET'', ''k'', ''v'']" env0] kvs_build_frame [of "[''SET'', ''k'', ''v'']" env0]
    by (auto simp: KVS_MAX_TOKENS_def INT_MAX_def)
qed

text \<open>C18: RESP requests round-trip.  A well-formed RESP array of up to \<open>KVS_MAX_TOKENS\<close> C
  strings is recognised with its exact length, and splitting it (with the NUL the server stores
  behind it) yields exactly those strings.\<close>

theorem resp_roundtrip:
  assumes "length ts \<le> KVS_MAX_TOKENS" and "\<forall>t \<in> set ts. cstring t"
    and "int (length (resp_request ts)) \<le> n" and "n \<le> INT_MAX"
    and "rbuf cli = resp_request ts @ NUL # rest" and "protocol cli = PROTO_RESP"
    and "resp_parse_bulk_size (rbuf cli) n hl = Some (cmd_tl cli, cmd_hl cli)"
  shows "cmd_tl cli = int (length (resp_request ts)) \<and>
    (\<exists>cli' toks. kvs_split_token cli = Some (int (length ts), cli', toks)
      \<and> map (cstr_at (rbuf cli')) toks = map Some ts)"
proof -
  have tl: "cmd_tl cli = int (length (resp_request ts))" "cmd_hl cli = int (length (resp_head ts))"
    using resp_parse_request [OF assms(3,4), of "NUL # rest" hl] assms(5,7) by simp_all
  then show ?thesis using kvs_split_resp_request [of cli ts rest] assms by fastforce
qed

theorem resp_roundtrip_witness:
  "\<exists>cli' toks. kvs_split_token (client0\<lparr>rbuf := resp_request [''GET'', ''k''] @ [NUL],
      protocol := PROTO_RESP, cmd_hl := 4, cmd_tl := 20\<rparr>) = Some (2, cli', toks)
    \<and> map (cstr_at (rbuf cli')) toks = [Some ''GET'', Some ''k'']"
proof -
  let ?cli = "client0\<lparr>rbuf := resp_request [''GET'', ''k''] @ [NUL],
      protocol := PROTO_RESP, cmd_hl := 4, cmd_tl := 20\<rparr>"
  have "length (resp_request [''GET'', ''k'']) = 20" by code_simp
  moreover have "resp_parse_bulk_size (resp_request [''GET'', ''k''] @ [NUL]) 20 0 = Some (20, 4)"
    by code_simp
  ultimately show ?thesis
    using resp_roundtrip [of "[''GET'', ''k'']" 20 ?cli "[]" 0]
    by (simp add: KVS_MAX_TOKENS_def INT_MAX_def)
qed

text \<open>C28: RESP requests with more than \<open>KVS_MAX_TOKENS\<close> strings are accepted by the size function
  but overrun the token array when they are split: no bound on \<open>idx\<close> is checked.\<close>

theorem resp_too_many_tokens:
  assumes "length ts > KVS_MAX_TOKENS" and "int (length (resp_request ts)) \<le> INT_MAX"
    and "rbuf cli = resp_request ts @ NUL # rest" and "protocol cli = PROTO_RESP"
    and "cmd_hl cli = int (length (resp_head ts))"
  shows "resp_parse_bulk_size (rbuf cli) (int (length (resp_request ts))) hl
      = Some (int (length (resp_request ts)), cmd_hl cli)
    \<and> kvs_split_token cli = None"
proof
  show "resp_parse_bulk_size (rbuf cli) (int (length (resp_request ts))) hl
      = Some (int (length (resp_request ts)), cmd_hl cli)"
    using resp_parse_request [OF order_refl assms(2)] assms by simp
  have "\<forall>t \<in> set ts. int (length t) \<le> INT_MAX"
    using resp_body_bound [of _ ts] assms(2) by (fastforce simp: resp_request_def)
  then have "resp_split_loop (rbuf cli) (cmd_hl cli) 0 [] = None"
    using resp_split_loop_run [of "rbuf cli" "resp_head ts" ts rest "cmd_hl cli" 0 "[]"] assms
    by (simp add: resp_request_def)
  then show "kvs_split_token cli = None" using assms(4) by (simp add: kvs_split_token_def)
qed

theorem resp_too_many_tokens_witness:
  "kvs_split_token (client0\<lparr>rbuf := resp_request (replicate 129 []) @ [NUL],
      protocol := PROTO_RESP, cmd_hl := 6\<rparr>) = None"
proof -
  let ?ts = "replicate 129 [] :: string list"
  have "length (resp_head ?ts) = 6" by code_simp
  moreover have "length (resp_request ?ts) = 780" by code_simp
  ultimately show ?thesis
    using resp_too_many_tokens [of ?ts "client0\<lparr>rbuf := resp_request ?ts @ [NUL],
      protocol := PROTO_RESP, cmd_hl := 6\<rparr>" "[]"]
    by (simp add: KVS_MAX_TOKENS_def INT_MAX_def)
qed


end
