(* ===== verification/Kvs_Agent.thy ===== *)
theory Kvs_Agent
  imports Kvs_Agent_DS Kvs_Protocol
begin

text \<open>
  The replication agent, \<^verbatim>\<open>kvs-ebpf/kvs_agent.c\<close>: the event handler that queues captured payloads,
  the server thread's bookkeeping of slaves, and the agent thread that cuts the captured byte stream
  into KVSP frames and relays the writes to the slaves, holding them back while a full
  synchronisation runs.

  The kernel's \<open>send\<close> is a parameter: \<open>answers\<close> says what each call returns, in the order of the
  calls, and \<open>wire\<close> collects the bytes that left for each descriptor.  The state shared by the
  threads is the record \<open>agent_world\<close>; every access to a shared structure is under its mutex in the
  source, so the threads interleave by the steps of \<open>agent_step\<close>.
\<close>

subsection \<open>State\<close>

datatype kvs_slave_state = KVS_SLAVE_UNKNOWN | KVS_SLAVE_FULL_SYNC | KVS_SLAVE_INCR_SYNC

record agent_info =
  ag_buf :: "char list"
  buf_cap :: nat
  buf_pos :: nat
  ag_tl :: int
  ag_hl :: int
  ag_state :: kvs_slave_state
  fullsync_cache :: agent_cache

text \<open>What \<open>send\<close> answers: a number of bytes, \<open>EAGAIN\<close>/\<open>EWOULDBLOCK\<close>, or another error.\<close>

datatype send_res = Sent nat | Again | Failed

record net =
  answers :: "nat \<Rightarrow> send_res"
  calls :: nat
  wire :: "int \<Rightarrow> string"

record agent_world =
  w_env :: env
  w_net :: net
  global_slaves :: kvs_slaves
  global_agent_cache :: agent_cache
  existing :: bool

record tcp_event =
  payload :: "char list"
  payload_len :: int
  ev_ret :: int

definition BUFFER_SIZE :: nat where "BUFFER_SIZE = 1024"
definition MAX_AGENT_CACHE_SIZE :: nat where "MAX_AGENT_CACHE_SIZE = 1024 * 1024 * 256"
definition MAX_FULLSYNC_CACHE_SIZE :: nat where "MAX_FULLSYNC_CACHE_SIZE = 1024 * 1024 * 512"
definition MAX_SLAVE_COUNT :: nat where "MAX_SLAVE_COUNT = 4"

definition kvs_command :: "string list" where
  "kvs_command = [''SET'', ''DEL'', ''MOD'', ''RSET'', ''RDEL'', ''RMOD'', ''HSET'', ''HDEL'', ''HMOD'',
     ''LSET'', ''LDEL'', ''LMOD'', ''SYNC'', ''FULLSYNC FINISHED'', ''FULLSYNC ERROR'']"

definition KVS_CMD_FLAG :: nat where "KVS_CMD_FLAG = 12"
definition KVS_CMD_SYNC :: nat where "KVS_CMD_SYNC = KVS_CMD_FLAG"
definition KVS_CMD_FULLSYNC_FINISHED :: nat where "KVS_CMD_FULLSYNC_FINISHED = 13"
definition KVS_CMD_FULLSYNC_ERROR :: nat where "KVS_CMD_FULLSYNC_ERROR = 14"
definition KVS_CMD_COUNT :: nat where "KVS_CMD_COUNT = 15"
definition KVS_ALLOWED_SEND :: nat where "KVS_ALLOWED_SEND = 16"

lemmas agent_cmd_defs = KVS_CMD_FLAG_def KVS_CMD_SYNC_def KVS_CMD_FULLSYNC_FINISHED_def
  KVS_CMD_FULLSYNC_ERROR_def KVS_CMD_COUNT_def KVS_ALLOWED_SEND_def

subsection \<open>The event handler\<close>

text \<open>The length is passed on as a \<open>size_t\<close>.\<close>

definition handle_event :: "agent_world \<Rightarrow> tcp_event \<Rightarrow> (int \<times> agent_world) option" where
  "handle_event w e =
     (if ev_ret e \<le> 0 then Some (0, w)
      else do {
        (ret, ac) \<leftarrow> kvs_agent_cache_write (global_agent_cache w) (Some (payload e)) (nat (c_size (payload_len e)));
        let w = w\<lparr>global_agent_cache := ac\<rparr>;
        Some (0, if ret \<noteq> 0 then w\<lparr>existing := True\<rparr> else w) })"

subsection \<open>Sending\<close>

text \<open>One call of \<open>send\<close>: it takes at most the bytes it is given.\<close>

definition net_send :: "net \<Rightarrow> int \<Rightarrow> char list \<Rightarrow> send_res \<times> net" where
  "net_send n sfd bs =
     (case answers n (calls n) of
        Sent k \<Rightarrow> (let k = min k (length bs) in
                   (Sent k, n\<lparr>calls := calls n + 1, wire := (wire n)(sfd := wire n sfd @ take k bs)\<rparr>))
      | r \<Rightarrow> (r, n\<lparr>calls := calls n + 1\<rparr>))"

text \<open>The loop of \<open>send_all\<close>; it does not end while every call answers \<open>EAGAIN\<close>.\<close>

partial_function (option) send_loop :: "int \<Rightarrow> char list \<Rightarrow> nat \<Rightarrow> net \<Rightarrow> (int \<times> net) option" where
  "send_loop sfd buf pos n =
     (if pos < length buf then
        (case net_send n sfd (drop pos buf) of
           (Again, n) \<Rightarrow> send_loop sfd buf pos n
         | (Failed, n) \<Rightarrow> Some (-2, n)
         | (Sent k, n) \<Rightarrow> if k = 0 then Some (-2, n) else send_loop sfd buf (pos + k) n)
      else Some (0, n))"

definition send_all :: "int \<Rightarrow> char list \<Rightarrow> net \<Rightarrow> (int \<times> net) option" where
  "send_all sfd buf n = (if sfd < 0 \<or> buf = [] then Some (-1, n) else send_loop sfd buf 0 n)"

text \<open>The loop over the table of slaves; a slave whose connection fails is taken off it.\<close>

definition agent_send_one :: "char list \<Rightarrow> nat \<Rightarrow> agent_world \<Rightarrow> agent_world option" where
  "agent_send_one buf i w = do {
     t \<leftarrow> sl_table (global_slaves w);
     if i < length t then
       (let sfd = t ! i in
        if sfd > 0 then do {
          (ret, n) \<leftarrow> send_all sfd buf (w_net w);
          let w = w\<lparr>w_net := n\<rparr>;
          if ret \<noteq> 0 then do { (_, s) \<leftarrow> kvs_slaves_delete (global_slaves w) sfd; Some (w\<lparr>global_slaves := s\<rparr>) }
          else Some w }
        else Some w)
     else None }"

definition kvs_agent_send :: "agent_world \<Rightarrow> char list \<Rightarrow> (int \<times> agent_world) option" where
  "kvs_agent_send w buf =
     (if buf = [] then Some (-1, w)
      else do { w \<leftarrow> ofold (agent_send_one buf) [0..<sl_size (global_slaves w)] w; Some (0, w) })"

partial_function (option) kvs_agent_send_cache ::
  "agent_world \<Rightarrow> agent_cache \<Rightarrow> (int \<times> agent_world \<times> agent_cache) option" where
  "kvs_agent_send_cache w ac =
     (if used ac > 0 then
        Option.bind (kvs_agent_cache_read (w_env w) ac) (\<lambda>(buf, buf_len, ac).
          let w = w\<lparr>w_env := env_skip 1 (w_env w)\<rparr> in
          if buf_len = 0 \<or> buf = None then Some (-2, w, ac)
          else Option.bind (kvs_agent_send w (the buf)) (\<lambda>(ret, w).
            if ret \<noteq> 0 then Some (ret, w, ac) else kvs_agent_send_cache w ac))
      else Some (0, w, ac))"

subsection \<open>Commands\<close>

text \<open>The agent's own size function takes the length as a \<open>size_t\<close>; \<open>pos\<close> is a \<open>size_t\<close> too, so
  the overflow test and the sum are computed modulo \<open>2 ^ 64\<close>.\<close>

definition agent_parse_bulk_size :: "char list \<Rightarrow> int \<Rightarrow> int \<Rightarrow> (int \<times> int) option" where
  "agent_parse_bulk_size buf buf_size head_len =
     (if buf_size = 0 then Some (-1, head_len)
      else if buf_size < int (length KVSP_START_STR) then Some (0, head_len)
      else do {
        s \<leftarrow> memrd buf 0 (length KVSP_START_STR);
        if s \<noteq> KVSP_START_STR then Some (-2, head_len)
        else do {
          d \<leftarrow> parse_digits buf 0 buf_size (int (length KVSP_START_STR)) 0 False;
          (case d of
             Digits_overflow \<Rightarrow> Some (-2, head_len)
           | Digits_end pos body_len has_digit \<Rightarrow>
               if \<not> has_digit then Some (if pos \<ge> buf_size then 0 else -2, head_len)
               else if pos \<ge> buf_size \<or> buf_size - pos < int (length KVSP_HEAD_TAIL_STR)
               then Some (0, head_len)
               else do {
                 t \<leftarrow> memrd buf pos (length KVSP_HEAD_TAIL_STR);
                 if t \<noteq> KVSP_HEAD_TAIL_STR then Some (-2, head_len)
                 else (let pos = pos + int (length KVSP_HEAD_TAIL_STR) in
                       if c_size body_len > c_size (INT_MAX - pos) then Some (-2, head_len)
                       else (let total_len = c_int (c_size (body_len + pos)) in
                             Some (if c_size total_len > buf_size then 0 else total_len, c_int pos))) }) } })"

text \<open>The first token of the frame at the start of the buffer, copied into an allocation of its
  length and one: the result is the copy (\<open>None\<close> is NULL) and the allocations left.\<close>

definition kvs_agent_parse_command :: "env \<Rightarrow> agent_info \<Rightarrow> (char list option \<times> env) option" where
  "kvs_agent_parse_command e agent =
     (let body = ag_hl agent; body_len = ag_tl agent - ag_hl agent in
      if body_len < int (length KVSP_END_STR) then Some (None, e)
      else (let parse_end = body_len - int (length KVSP_END_STR) in
        do {
          s \<leftarrow> memrd (ag_buf agent) (body + parse_end) (length KVSP_END_STR);
          if s \<noteq> KVSP_END_STR then Some (None, e)
          else do {
            c \<leftarrow> rd (ag_buf agent) body;
            if c \<noteq> KVSP_TOK_LEN_START_CHAR then Some (None, e)
            else do {
              d \<leftarrow> parse_digits (ag_buf agent) body parse_end 1 0 False;
              (case d of
                 Digits_overflow \<Rightarrow> Some (None, e)
               | Digits_end pos tok_len has_digit \<Rightarrow>
                   if \<not> has_digit then Some (None, e)
                   else if pos \<ge> parse_end then Some (None, e)
                   else do {
                     c \<leftarrow> rd (ag_buf agent) (body + pos);
                     if c \<noteq> KVSP_TOK_START_CHAR then Some (None, e)
                     else if tok_len > parse_end - (pos + 1) then Some (None, e)
                     else if \<not> mem e 0 then Some (None, env_skip 1 e)
                     else do {
                       t \<leftarrow> memrd (ag_buf agent) (body + (pos + 1)) (nat tok_len);
                       Some (Some (t @ [NUL]), env_skip 1 e) } }) } } }))"

text \<open>The loop over \<open>kvs_command\<close>.\<close>

fun agent_cmd_from :: "nat \<Rightarrow> string list \<Rightarrow> string \<Rightarrow> nat" where
  "agent_cmd_from cmd [] command = cmd"
| "agent_cmd_from cmd (c # cs) command =
     (if strcmp command c = 0 then (if cmd < KVS_CMD_FLAG then KVS_ALLOWED_SEND else cmd)
      else agent_cmd_from (cmd + 1) cs command)"

definition kvs_agent_handler :: "agent_world \<Rightarrow> agent_info \<Rightarrow> (int \<times> agent_world \<times> agent_info) option" where
  "kvs_agent_handler w agent = do {
     (copy, e) \<leftarrow> kvs_agent_parse_command (w_env w) agent;
     let w = w\<lparr>w_env := e\<rparr>;
     (case copy of
        None \<Rightarrow> Some (-2, w, agent)
      | Some b \<Rightarrow> do {
          command \<leftarrow> cstr_at b 0;
          let cmd = agent_cmd_from 0 kvs_command command;
          if cmd = KVS_CMD_SYNC then Some (0, w, agent\<lparr>ag_state := KVS_SLAVE_FULL_SYNC\<rparr>)
          else if cmd = KVS_CMD_FULLSYNC_FINISHED \<or> cmd = KVS_CMD_FULLSYNC_ERROR then
            (if ag_state agent = KVS_SLAVE_FULL_SYNC then do {
               let agent = agent\<lparr>ag_state := KVS_SLAVE_INCR_SYNC\<rparr>;
               (ret, w, ac) \<leftarrow> kvs_agent_send_cache w (fullsync_cache agent);
               Some (ret, w, agent\<lparr>fullsync_cache := ac\<rparr>) }
             else Some (0, w, agent))
          else if cmd = KVS_ALLOWED_SEND then
            (if ag_state agent = KVS_SLAVE_FULL_SYNC then do {
               (ret, ac) \<leftarrow> kvs_agent_cache_write (fullsync_cache agent) (Some (ag_buf agent)) (nat (ag_tl agent));
               Some (ret, w, agent\<lparr>fullsync_cache := ac\<rparr>) }
             else do {
               b \<leftarrow> memrd (ag_buf agent) 0 (nat (ag_tl agent));
               (ret, w) \<leftarrow> kvs_agent_send w b;
               Some (ret, w, agent) })
          else Some (0, w, agent) }) }"

subsection \<open>The agent thread\<close>

text \<open>The loop that cuts frames off the front of the buffer.\<close>

partial_function (option) agent_frames :: "agent_world \<Rightarrow> agent_info \<Rightarrow> (int \<times> agent_world \<times> agent_info) option" where
  "agent_frames w agent =
     (if buf_pos agent > 0 then
        Option.bind (agent_parse_bulk_size (ag_buf agent) (int (buf_pos agent)) 0) (\<lambda>(total_len, head_len).
          if total_len = 0 then Some (0, w, agent)
          else if total_len < 0 then Some (-2, w, agent)
          else Option.bind (kvs_agent_handler w (agent\<lparr>ag_hl := head_len, ag_tl := total_len\<rparr>)) (\<lambda>(ret, w, agent).
            if ret \<noteq> 0 then Some (-2, w, agent)
            else let n = sz_sub (buf_pos agent) (nat total_len) in
              Option.bind (memrd (ag_buf agent) total_len n) (\<lambda>rest.
              Option.bind (memwr (ag_buf agent) 0 rest) (\<lambda>b.
                agent_frames w (agent\<lparr>ag_buf := b, buf_pos := n\<rparr>)))))
      else Some (0, w, agent))"

text \<open>\<open>realloc\<close> keeps the contents up to the smaller size.\<close>

definition kvs_agent_send_to_slave ::
  "agent_world \<Rightarrow> agent_info \<Rightarrow> char list \<Rightarrow> (int \<times> agent_world \<times> agent_info) option" where
  "kvs_agent_send_to_slave w agent buf =
     (if buf = [] then Some (-1, w, agent)
      else if (buf_pos agent + length buf) mod 2 ^ 64 > buf_cap agent \<and> \<not> mem (w_env w) 0
      then Some (-2, w\<lparr>w_env := env_skip 1 (w_env w)\<rparr>, agent)
      else (let n = (buf_pos agent + length buf) mod 2 ^ 64;
                (w, agent) = (if n > buf_cap agent
                  then (w\<lparr>w_env := env_skip 1 (w_env w)\<rparr>,
                        agent\<lparr>ag_buf := take n (ag_buf agent @ replicate n (char_of (junk (w_env w)))), buf_cap := n\<rparr>)
                  else (w, agent)) in
        do {
          b \<leftarrow> memwr (ag_buf agent) (int (buf_pos agent)) buf;
          agent_frames w (agent\<lparr>ag_buf := b, buf_pos := n\<rparr>) }))"

text \<open>One round of \<open>kvs_agent\<close>, entered when the queue is not empty; \<open>False\<close> means the thread
  returned.\<close>

definition kvs_agent :: "agent_world \<Rightarrow> agent_info \<Rightarrow> (bool \<times> agent_world \<times> agent_info) option" where
  "kvs_agent w agent = do {
     (buf, buf_len, ac) \<leftarrow> kvs_agent_cache_read (w_env w) (global_agent_cache w);
     let w = w\<lparr>w_env := env_skip 1 (w_env w), global_agent_cache := ac\<rparr>;
     if buf_len = 0 \<or> buf = None then Some (False, w\<lparr>existing := True\<rparr>, agent)
     else do {
       (ret, w, agent) \<leftarrow> kvs_agent_send_to_slave w agent (the buf);
       if ret \<noteq> 0 then Some (False, w\<lparr>existing := True\<rparr>, agent) else Some (True, w, agent) } }"

subsection \<open>Start and stop\<close>

definition zero_cache :: agent_cache where
  "zero_cache = \<lparr>read_pos = 0, write_pos = 0, capacity = 0, used = 0, cache = None\<rparr>"

text \<open>\<open>memset(agent, 0, ...)\<close> first; a failed allocation leaves the other fields zero.\<close>

definition kvs_agent_info_init :: "env \<Rightarrow> agent_info \<Rightarrow> nat \<Rightarrow> nat \<Rightarrow> int \<times> agent_info" where
  "kvs_agent_info_init e agent buf_size cache_size =
     (if buf_size = 0 \<or> cache_size = 0 then (-1, agent)
      else (let agent = \<lparr>ag_buf = [], buf_cap = 0, buf_pos = 0, ag_tl = 0, ag_hl = 0,
                         ag_state = KVS_SLAVE_UNKNOWN, fullsync_cache = zero_cache\<rparr> in
        if \<not> mem e 0 then (-2, agent)
        else (case kvs_agent_cache_create (env_skip 1 e) (fullsync_cache agent) cache_size of (ret, ac) \<Rightarrow>
          if ret \<noteq> 0 then (-2, agent\<lparr>fullsync_cache := ac\<rparr>)
          else (0, agent\<lparr>fullsync_cache := ac, ag_buf := replicate buf_size (char_of (junk e)),
                         buf_cap := buf_size, ag_state := KVS_SLAVE_UNKNOWN\<rparr>))))"

definition kvs_agent_info_deinit :: "agent_info \<Rightarrow> int \<times> agent_info" where
  "kvs_agent_info_deinit agent =
     (0, agent\<lparr>ag_buf := [], fullsync_cache := kvs_agent_cache_destroy (fullsync_cache agent)\<rparr>)"

text \<open>\<open>kvs_agent_init\<close> up to the creation of the mutexes and threads, whose results are \<open>thr\<close>.\<close>

definition kvs_agent_init :: "bool \<Rightarrow> agent_world \<Rightarrow> agent_info \<Rightarrow> int \<times> agent_world \<times> agent_info" where
  "kvs_agent_init thr w agent =
     (case kvs_agent_info_init (w_env w) agent BUFFER_SIZE MAX_FULLSYNC_CACHE_SIZE of (ret, agent) \<Rightarrow>
        if ret \<noteq> 0 then (-2, w, agent)
        else (case kvs_slaves_create (env_skip 2 (w_env w)) (global_slaves w) MAX_SLAVE_COUNT of (ret, s) \<Rightarrow>
          let w = w\<lparr>global_slaves := s\<rparr> in
          if ret \<noteq> 0 then (-2, w, agent)
          else (case kvs_agent_cache_create (env_skip 3 (w_env w)) (global_agent_cache w) MAX_AGENT_CACHE_SIZE of (ret, ac) \<Rightarrow>
            let w = w\<lparr>global_agent_cache := ac\<rparr> in
            if ret \<noteq> 0 then (-2, w, agent)
            else if \<not> thr then (-2, w, agent)
            else (0, w\<lparr>w_env := env_skip 4 (w_env w)\<rparr>, agent))))"

definition kvs_agent_deinit :: "agent_world \<Rightarrow> agent_info \<Rightarrow> int \<times> int list \<times> agent_world \<times> agent_info" where
  "kvs_agent_deinit w agent =
     (let agent = snd (kvs_agent_info_deinit agent) in
      case kvs_slaves_destroy (global_slaves w) of (_, closed, s) \<Rightarrow>
        (0, closed, w\<lparr>existing := True, global_slaves := s,
                     global_agent_cache := kvs_agent_cache_destroy (global_agent_cache w)\<rparr>, agent))"

subsection \<open>Sending is complete\<close>

text \<open>The network may fail in any way, but does not answer \<open>EAGAIN\<close> forever.\<close>

definition live_net :: "(nat \<Rightarrow> send_res) \<Rightarrow> bool" where
  "live_net ans \<longleftrightarrow> (\<forall>i. \<exists>j \<ge> i. ans j \<noteq> Again)"

lemma live_net_first:
  assumes "live_net ans"
  obtains d where "\<forall>j < d. ans (i + j) = Again" "ans (i + d) \<noteq> Again"
proof -
  obtain j where "i \<le> j" "ans j \<noteq> Again" using assms by (auto simp: live_net_def)
  then have ex: "\<exists>d. ans (i + d) \<noteq> Again" by (metis le_Suc_ex)
  show thesis by (rule that [of "LEAST d. ans (i + d) \<noteq> Again"]) (use not_less_Least LeastI_ex [OF ex] in blast)+
qed

text \<open>A network that keeps taking bytes: no call fails, and \<open>EAGAIN\<close> does not go on forever.\<close>

definition good_net :: "(nat \<Rightarrow> send_res) \<Rightarrow> bool" where
  "good_net ans \<longleftrightarrow> (\<forall>i. ans i \<noteq> Failed \<and> ans i \<noteq> Sent 0) \<and> (\<forall>i. \<exists>j \<ge> i. ans j \<noteq> Again)"

lemma good_net_first:
  assumes "good_net ans"
  obtains d k where "\<forall>j < d. ans (i + j) = Again" "ans (i + d) = Sent k" "0 < k"
proof -
  have "live_net ans" using assms by (simp add: good_net_def live_net_def)
  then obtain d where d: "\<forall>j < d. ans (i + j) = Again" "ans (i + d) \<noteq> Again" using live_net_first by blast
  moreover have "ans (i + d) \<noteq> Failed" "ans (i + d) \<noteq> Sent 0" using assms by (auto simp: good_net_def)
  ultimately show thesis using that by (cases "ans (i + d)") auto
qed

lemma send_loop_again:
  assumes "\<forall>j < d. answers n (calls n + j) = Again" "pos < length buf"
  shows "send_loop sfd buf pos n = send_loop sfd buf pos (n\<lparr>calls := calls n + d\<rparr>)"
  using assms(1)
proof (induction d arbitrary: n)
  case (Suc d)
  have "answers n (calls n) = Again" using Suc.prems by (metis add_0_right zero_less_Suc)
  then have "send_loop sfd buf pos n = send_loop sfd buf pos (n\<lparr>calls := calls n + 1\<rparr>)"
    using assms(2) by (subst send_loop.simps) (simp add: net_send_def)
  also have "\<dots> = send_loop sfd buf pos (n\<lparr>calls := calls n + 1\<rparr>\<lparr>calls := calls (n\<lparr>calls := calls n + 1\<rparr>) + d\<rparr>)"
  proof (rule Suc.IH)
    show "\<forall>j < d. answers (n\<lparr>calls := calls n + 1\<rparr>) (calls (n\<lparr>calls := calls n + 1\<rparr>) + j) = Again"
      using Suc.prems by (auto simp: add.assoc [symmetric])
  qed
  finally show ?case by simp
qed simp

lemma send_loop_ok:
  assumes "good_net (answers n)" "pos \<le> length buf"
  shows "\<exists>c. send_loop sfd buf pos n = Some (0, n\<lparr>calls := c, wire := (wire n)(sfd := wire n sfd @ drop pos buf)\<rparr>)"
  using assms
proof (induction "length buf - pos" arbitrary: pos n rule: less_induct)
  case less
  show ?case
  proof (cases "pos < length buf")
    case False
    then show ?thesis by (subst send_loop.simps) (auto intro!: exI [of _ "calls n"])
  next
    case True
    obtain d k where d: "\<forall>j < d. answers n (calls n + j) = Again" "answers n (calls n + d) = Sent k" "0 < k"
      using good_net_first [OF less.prems(1), of "calls n"] by blast
    define k' where "k' = min k (length buf - pos)"
    have k': "0 < k'" "pos + k' \<le> length buf" using d True by (auto simp: k'_def)
    define n1 where "n1 = n\<lparr>calls := calls n + d + 1, wire := (wire n)(sfd := wire n sfd @ take k' (drop pos buf))\<rparr>"
    have "send_loop sfd buf pos n = send_loop sfd buf (pos + k') n1"
      unfolding send_loop_again [OF d(1) True] using True d k'
      by (subst send_loop.simps) (simp add: net_send_def Let_def k'_def [symmetric] n1_def)
    moreover have "length buf - (pos + k') < length buf - pos" "good_net (answers n1)"
      using k' True less.prems(1) by (auto simp: n1_def)
    with less.hyps [of "pos + k'" n1] k'(2) obtain c where "send_loop sfd buf (pos + k') n1 =
        Some (0, n1\<lparr>calls := c, wire := (wire n1)(sfd := wire n1 sfd @ drop (pos + k') buf)\<rparr>)" by blast
    moreover have "take k' (drop pos buf) @ drop (pos + k') buf = drop pos buf"
      by (metis append_take_drop_id drop_drop add.commute)
    ultimately show ?thesis by (auto simp: n1_def intro!: exI [of _ c])
  qed
qed

lemma send_all_ok:
  assumes "good_net (answers n)" "0 \<le> sfd" "buf \<noteq> []"
  shows "\<exists>c. send_all sfd buf n = Some (0, n\<lparr>calls := c, wire := (wire n)(sfd := wire n sfd @ buf)\<rparr>)"
  using send_loop_ok [OF assms(1), of 0 buf sfd] assms(2,3) by (simp add: send_all_def)

text \<open>Whatever the network answers, a send that reports success delivered the whole message and a
  send that fails delivered a proper prefix; nothing else changes.\<close>

definition sent_prefix :: "int \<Rightarrow> string \<Rightarrow> net \<Rightarrow> int \<times> net \<Rightarrow> bool" where
  "sent_prefix sfd bs n y \<longleftrightarrow> (\<exists>s. wire (snd y) = (wire n)(sfd := wire n sfd @ s) \<and>
     (if fst y = 0 then s = bs else fst y = -2 \<and> (\<exists>t. t \<noteq> [] \<and> bs = s @ t)))"

lemma send_loop_prefix:
  assumes "send_loop sfd buf pos n = Some y"
  shows "sent_prefix sfd (drop pos buf) n y"
proof (rule send_loop.raw_induct [OF _ assms])
  fix f sfd buf pos n y
  assume IH: "\<And>sfd buf pos n y. f sfd buf pos n = Some y \<Longrightarrow> sent_prefix sfd (drop pos buf) n y"
    and prem: "(if pos < length buf then (case net_send n sfd (drop pos buf) of
           (Again, n) \<Rightarrow> f sfd buf pos n
         | (Failed, n) \<Rightarrow> Some (-2, n)
         | (Sent k, n) \<Rightarrow> if k = 0 then Some (-2, n) else f sfd buf (pos + k) n)
      else Some (0, n)) = Some y"
  show "sent_prefix sfd (drop pos buf) n y"
  proof (cases "pos < length buf")
    case False
    then show ?thesis using prem by (auto simp: sent_prefix_def)
  next
    case True
    then have ne: "drop pos buf \<noteq> []" by simp
    show ?thesis
    proof (cases "answers n (calls n)")
      case (Sent k)
      define k' where "k' = min k (length buf - pos)"
      define n1 where "n1 = n\<lparr>calls := calls n + 1, wire := (wire n)(sfd := wire n sfd @ take k' (drop pos buf))\<rparr>"
      have ns: "net_send n sfd (drop pos buf) = (Sent k', n1)" using Sent by (simp add: net_send_def k'_def n1_def Let_def)
      have y: "(if k' = 0 then Some (-2, n1) else f sfd buf (pos + k') n1) = Some y"
        using prem True by (simp add: ns)
      show ?thesis
      proof (cases "k' = 0")
        case True
        then show ?thesis using y ne unfolding sent_prefix_def by (intro exI [of _ "[]"]) (auto simp: n1_def)
      next
        case False
        then have "sent_prefix sfd (drop (pos + k') buf) n1 y" using y IH by simp
        then obtain s where s: "wire (snd y) = (wire n1)(sfd := wire n1 sfd @ s)"
          "if fst y = 0 then s = drop (pos + k') buf else fst y = -2 \<and> (\<exists>t. t \<noteq> [] \<and> drop (pos + k') buf = s @ t)"
          unfolding sent_prefix_def by blast
        have d: "drop pos buf = take k' (drop pos buf) @ drop (pos + k') buf"
          by (metis append_take_drop_id drop_drop add.commute)
        show ?thesis unfolding sent_prefix_def
          by (rule exI [of _ "take k' (drop pos buf) @ s"], subst (2 3) d) (use s in \<open>auto simp: n1_def split: if_splits\<close>)
      qed
    next
      case Again
      then have "f sfd buf pos (n\<lparr>calls := calls n + 1\<rparr>) = Some y" using prem True by (simp add: net_send_def)
      from IH [OF this] show ?thesis by (simp add: sent_prefix_def)
    next
      case Failed
      then show ?thesis using prem True ne unfolding sent_prefix_def
        by (intro exI [of _ "[]"]) (auto simp: net_send_def)
    qed
  qed
qed

subsection \<open>Broadcasting\<close>

text \<open>Every connected slave gets the message.\<close>

definition bcast :: "kvs_slaves \<Rightarrow> string \<Rightarrow> (int \<Rightarrow> string) \<Rightarrow> int \<Rightarrow> string" where
  "bcast s m W = (\<lambda>sfd. if 0 < sfd \<and> sfd \<in># slave_fds s then W sfd @ m else W sfd)"

lemma bcast_Nil [simp]: "bcast s [] W = W"
  by (auto simp: bcast_def)

lemma bcast_bcast [simp]: "bcast s b (bcast s a W) = bcast s (a @ b) W"
  by (auto simp: bcast_def)

definition slaves_distinct :: "kvs_slaves \<Rightarrow> bool" where
  "slaves_distinct s \<longleftrightarrow> slaves_ok s \<and> (\<forall>sfd. count (slave_fds s) sfd \<le> 1)"

lemma slaves_distinct_table:
  assumes "slaves_distinct s"
  obtains t where "sl_table s = Some t" "length t = sl_size s" "distinct (filter (\<lambda>x. 0 < x) t)"
    "\<And>x. x \<in># slave_fds s \<longleftrightarrow> x \<in> set t \<and> 0 \<le> x"
proof -
  obtain t where t: "sl_table s = Some t" "length t = sl_size s" using assms by (auto simp: slaves_distinct_def slaves_ok_def)
  have c: "count_list (filter (\<lambda>x. 0 \<le> x) t) y \<le> 1" for y
    using assms t(1) by (auto simp: slaves_distinct_def slave_fds_def count_mset simp flip: mset_filter)
  have "distinct (filter (\<lambda>x. 0 \<le> x) t)"
    using c by (metis One_nat_def count_mset count_greater_zero_iff distinct_count_atmost_1 le_eq_less_or_eq less_Suc0 not_gr_zero set_mset_mset)
  then have "distinct (filter (\<lambda>x. 0 < x) (filter (\<lambda>x. 0 \<le> x) t))" by (rule distinct_filter)
  then have d: "distinct (filter (\<lambda>x. 0 < x) t)" by (simp add: conj_commute order_less_le cong: conj_cong)
  show thesis by (rule that [OF t d]) (use t in \<open>auto simp: slave_fds_def\<close>)
qed

lemma agent_send_fold:
  assumes "good_net (answers (w_net w))" "sl_table (global_slaves w) = Some t" "m \<noteq> []" "k \<le> length t"
    "distinct (filter (\<lambda>x. 0 < x) t)"
  shows "\<exists>c. ofold (agent_send_one m) [0..<k] w = Some (w\<lparr>w_net := (w_net w)\<lparr>calls := c,
    wire := (\<lambda>sfd. if 0 < sfd \<and> sfd \<in> set (take k t) then wire (w_net w) sfd @ m else wire (w_net w) sfd)\<rparr>\<rparr>)"
  using assms(4)
proof (induction k)
  case 0
  show ?case by (rule exI [of _ "calls (w_net w)"]) simp
next
  case (Suc k)
  then obtain c where IH: "ofold (agent_send_one m) [0..<k] w = Some (w\<lparr>w_net := (w_net w)\<lparr>calls := c,
    wire := (\<lambda>sfd. if 0 < sfd \<and> sfd \<in> set (take k t) then wire (w_net w) sfd @ m else wire (w_net w) sfd)\<rparr>\<rparr>)"
    (is "_ = Some ?w") by auto
  have tk: "take (Suc k) t = take k t @ [t ! k]" using Suc.prems by (simp add: take_Suc_conv_app_nth)
  show ?case
  proof (cases "0 < t ! k")
    case False
    then have "agent_send_one m k ?w = Some ?w" using Suc.prems assms(2) by (simp add: agent_send_one_def)
    moreover have "0 < sfd \<and> sfd \<in> set (take (Suc k) t) \<longleftrightarrow> 0 < sfd \<and> sfd \<in> set (take k t)" for sfd
      using False by (auto simp: tk)
    ultimately show ?thesis using IH by (auto simp: ofold_append intro!: exI [of _ c])
  next
    case True
    have fresh: "t ! k \<notin> set (take k t)"
    proof
      assume "t ! k \<in> set (take k t)"
      moreover have "filter (\<lambda>x. 0 < x) t = filter (\<lambda>x. 0 < x) (take k t) @ filter (\<lambda>x. 0 < x) (t ! k # drop (Suc k) t)"
        using Suc.prems by (metis Cons_nth_drop_Suc Suc_le_lessD append_take_drop_id filter_append)
      ultimately show False using assms(5) True by auto
    qed
    obtain c' where "send_all (t ! k) m (w_net ?w) = Some (0, (w_net ?w)\<lparr>calls := c', wire := (wire (w_net ?w))(t ! k := wire (w_net ?w) (t ! k) @ m)\<rparr>)"
      using send_all_ok [of "w_net ?w" "t ! k" m] assms(1,3) True by auto
    then have "agent_send_one m k ?w = Some (?w\<lparr>w_net := (w_net ?w)\<lparr>calls := c', wire := (wire (w_net ?w))(t ! k := wire (w_net ?w) (t ! k) @ m)\<rparr>\<rparr>)"
      using Suc.prems assms(2) True by (simp add: agent_send_one_def Let_def)
    moreover have "(wire (w_net ?w))(t ! k := wire (w_net ?w) (t ! k) @ m) =
       (\<lambda>sfd. if 0 < sfd \<and> sfd \<in> set (take (Suc k) t) then wire (w_net w) sfd @ m else wire (w_net w) sfd)"
      using fresh True by (auto simp: tk)
    ultimately show ?thesis using IH by (auto simp: ofold_append intro!: exI [of _ c'])
  qed
qed

lemma kvs_agent_send_ok:
  assumes "good_net (answers (w_net w))" "slaves_distinct (global_slaves w)" "m \<noteq> []"
  shows "\<exists>c. kvs_agent_send w m = Some (0, w\<lparr>w_net := (w_net w)\<lparr>calls := c, wire := bcast (global_slaves w) m (wire (w_net w))\<rparr>\<rparr>)"
proof -
  obtain t where t: "sl_table (global_slaves w) = Some t" "length t = sl_size (global_slaves w)" "distinct (filter (\<lambda>x. 0 < x) t)"
    "\<And>x. x \<in># slave_fds (global_slaves w) \<longleftrightarrow> x \<in> set t \<and> 0 \<le> x" using slaves_distinct_table [OF assms(2)] by blast
  have "(\<lambda>sfd. if 0 < sfd \<and> sfd \<in> set (take (length t) t) then wire (w_net w) sfd @ m else wire (w_net w) sfd) =
    bcast (global_slaves w) m (wire (w_net w))" using t(4) by (auto simp: bcast_def)
  then show ?thesis using agent_send_fold [OF assms(1) t(1) assms(3) order_refl t(3)] assms(3) t(2)
    by (auto simp: kvs_agent_send_def)
qed

subsection \<open>The held-back writes\<close>

lemma kvs_agent_send_cache_ok:
  assumes "good_net (answers (w_net w))" "slaves_distinct (global_slaves w)" "mem_ok (w_env w)" "ring_holds ac ms"
  shows "\<exists>c e ac'. kvs_agent_send_cache w ac = Some (0, w\<lparr>w_env := e, w_net := (w_net w)\<lparr>calls := c,
      wire := bcast (global_slaves w) (concat ms) (wire (w_net w))\<rparr>\<rparr>, ac') \<and>
    mem_ok e \<and> ring_holds ac' [] \<and> capacity ac' = capacity ac"
  using assms
proof (induction ms arbitrary: w ac)
  case Nil
  then have "used ac = 0" using ring_holds_used by fastforce
  then show ?case using Nil by (subst kvs_agent_send_cache.simps)
    (auto intro!: exI [of _ "calls (w_net w)"] exI [of _ "w_env w"])
next
  case (Cons m ms)
  have m: "m \<noteq> []" "used ac > 0" using Cons.prems(4) ring_holds_used [OF Cons.prems(4)] by (auto simp: ring_holds_def)
  obtain ac1 where r: "kvs_agent_cache_read (w_env w) ac = Some (Some m, length m, ac1)" "ring_holds ac1 ms" "capacity ac1 = capacity ac"
    using ring_read_first [OF Cons.prems(4), of "w_env w"] Cons.prems(3) by auto
  let ?w0 = "w\<lparr>w_env := env_skip 1 (w_env w)\<rparr>"
  obtain c where s: "kvs_agent_send ?w0 m = Some (0, ?w0\<lparr>w_net := (w_net w)\<lparr>calls := c, wire := bcast (global_slaves w) m (wire (w_net w))\<rparr>\<rparr>)"
    (is "_ = Some (0, ?w1)") using kvs_agent_send_ok [of ?w0 m] Cons.prems m by auto
  have "kvs_agent_send_cache w ac = kvs_agent_send_cache ?w1 ac1"
    using m r s by (subst kvs_agent_send_cache.simps) (simp add: Let_def)
  moreover have "\<exists>c e ac'. kvs_agent_send_cache ?w1 ac1 = Some (0, ?w1\<lparr>w_env := e, w_net := (w_net ?w1)\<lparr>calls := c,
      wire := bcast (global_slaves ?w1) (concat ms) (wire (w_net ?w1))\<rparr>\<rparr>, ac') \<and>
    mem_ok e \<and> ring_holds ac' [] \<and> capacity ac' = capacity ac1"
    by (rule Cons.IH) (use Cons.prems r in auto)
  ultimately show ?case using r by simp
qed

subsection \<open>The size function of the agent\<close>

text \<open>Up to \<open>INT_MAX\<close> received bytes the \<open>size_t\<close> arithmetic cannot wrap and the agent cuts the
  stream exactly where the server does.\<close>

lemma agent_parse_eq:
  assumes "0 \<le> n" "n \<le> INT_MAX" "n \<le> int (length buf)"
  shows "agent_parse_bulk_size buf n hl = kvsp_parse_bulk_size buf n hl"
proof (cases "n \<le> 0")
  case True
  then show ?thesis using assms by (simp add: agent_parse_bulk_size_def kvsp_parse_bulk_size_def)
next
  case False
  define s where "s = takeWhile is_digit (take (nat (n - 1)) (drop 1 buf))"
  have dig: "parse_digits buf 0 n 1 0 False =
      Some (if dec_val 0 s \<le> INT_MAX then Digits_end (1 + int (length s)) (dec_val 0 s) (s \<noteq> []) else Digits_overflow)"
    using parse_digits_run [of 0 1 n buf 0 s False] False assms by (simp add: s_def INT_MAX_def)
  have v: "0 \<le> dec_val 0 s" unfolding s_def by (rule digits_val_nonneg) (auto dest: set_takeWhileD)
  have w: "c_size (dec_val 0 s) = dec_val 0 s" "c_size (INT_MAX - (1 + int (length s) + 2)) = INT_MAX - (1 + int (length s) + 2)"
      "c_int (1 + int (length s) + 2) = 1 + int (length s) + 2"
      "dec_val 0 s \<le> INT_MAX - (1 + int (length s) + 2) \<Longrightarrow> c_int (c_size (dec_val 0 s + (1 + int (length s) + 2))) = dec_val 0 s + (1 + int (length s) + 2)"
      "dec_val 0 s \<le> INT_MAX - (1 + int (length s) + 2) \<Longrightarrow> c_size (dec_val 0 s + (1 + int (length s) + 2)) = dec_val 0 s + (1 + int (length s) + 2)"
    if "dec_val 0 s \<le> INT_MAX" "\<not> (1 + int (length s) \<ge> n \<or> n - (1 + int (length s)) < 2)"
    using that v assms by (auto simp: c_size_def c_int_def INT_MAX_def)
  show ?thesis unfolding agent_parse_bulk_size_def kvsp_parse_bulk_size_def kvsp_lens
    using False dig w by (auto simp: Let_def cong: if_cong intro!: Option.bind_cong)
qed

subsection \<open>What the agent relays\<close>

definition write_commands :: "string set" where
  "write_commands = {''SET'', ''DEL'', ''MOD'', ''RSET'', ''RDEL'', ''RMOD'', ''HSET'', ''HDEL'', ''HMOD'',
     ''LSET'', ''LDEL'', ''LMOD''}"

text \<open>The specification: the synchronisation state, the frames held back, and what a request sends.\<close>

definition relay_step :: "kvs_slave_state \<times> string list \<Rightarrow> string list \<Rightarrow> (kvs_slave_state \<times> string list) \<times> string" where
  "relay_step sp ts = (case sp of (st, pend) \<Rightarrow>
     if hd ts = ''SYNC'' then ((KVS_SLAVE_FULL_SYNC, pend), [])
     else if hd ts = ''FULLSYNC FINISHED'' \<or> hd ts = ''FULLSYNC ERROR''
     then (if st = KVS_SLAVE_FULL_SYNC then ((KVS_SLAVE_INCR_SYNC, []), concat pend) else ((st, pend), []))
     else if hd ts \<in> write_commands
     then (if st = KVS_SLAVE_FULL_SYNC then ((st, pend @ [kvsp_frame ts]), []) else ((st, pend), kvsp_frame ts))
     else ((st, pend), []))"

fun relay_run :: "kvs_slave_state \<times> string list \<Rightarrow> string list list \<Rightarrow> (kvs_slave_state \<times> string list) \<times> string" where
  "relay_run sp [] = (sp, [])"
| "relay_run sp (ts # fs) = (case relay_step sp ts of (sp1, o1) \<Rightarrow>
     case relay_run sp1 fs of (sp2, o2) \<Rightarrow> (sp2, o1 @ o2))"

lemma relay_run_append:
  "relay_run sp (fs @ gs) = (case relay_run sp fs of (sp1, o1) \<Rightarrow> case relay_run sp1 gs of (sp2, o2) \<Rightarrow> (sp2, o1 @ o2))"
  by (induction fs arbitrary: sp) (auto split: prod.splits)

lemma agent_cmd_index:
  "agent_cmd_from 0 kvs_command c =
     (if c = ''SYNC'' then KVS_CMD_SYNC else if c = ''FULLSYNC FINISHED'' then KVS_CMD_FULLSYNC_FINISHED
      else if c = ''FULLSYNC ERROR'' then KVS_CMD_FULLSYNC_ERROR
      else if c \<in> write_commands then KVS_ALLOWED_SEND else KVS_CMD_COUNT)"
  by (simp add: kvs_command_def agent_cmd_defs write_commands_def)

lemma kvsp_frame_nonempty [simp]: "kvsp_frame ts \<noteq> []"
  by (simp add: kvsp_frame_def kvsp_head_def)

definition request_ok :: "string list \<Rightarrow> bool" where
  "request_ok ts \<longleftrightarrow> ts \<noteq> [] \<and> cstring (hd ts) \<and> int (length (kvsp_frame ts)) \<le> INT_MAX"

lemma parse_command_frame:
  assumes "ag_buf a = kvsp_frame ts @ rest" "ag_hl a = int (length (kvsp_head ts))" "ag_tl a = int (length (kvsp_frame ts))"
    "request_ok ts" "mem e 0"
  shows "kvs_agent_parse_command e a = Some (Some (hd ts @ [NUL]), env_skip 1 e)"
proof -
  obtain t us where ts: "ts = t # us" using assms(4) by (cases ts) (auto simp: request_ok_def)
  define n where "n = dec (length t)"
  define h where "h = int (length (kvsp_head ts))"
  have buf: "ag_buf a = kvsp_head ts @ CHR ''^'' # n @ CHR ''&'' # t @ kvsp_body us @ CRLF @ rest"
    using assms(1) by (simp add: kvsp_frame_def ts kvsp_tok_def n_def)
  have pe: "ag_tl a - ag_hl a - 2 = 2 + int (length n) + int (length t) + int (length (kvsp_body us))" (is "_ = ?pe")
    using assms(2,3) by (simp add: kvsp_frame_def ts kvsp_tok_def n_def)
  have tail: "memrd (ag_buf a) (h + ?pe) 2 = Some CRLF"
    by (simp add: buf memrd_def h_def nat_add_distrib)
  have rd0: "rd (ag_buf a) h = Some (CHR ''^'')" unfolding buf by (rule rd_mid) (simp add: h_def)
  have "takeWhile is_digit (take (nat (?pe - 1)) (drop (nat (h + 1)) (ag_buf a))) = n"
  proof -
    have "drop (nat (h + 1)) (ag_buf a) = n @ CHR ''&'' # t @ kvsp_body us @ CRLF @ rest"
      by (simp add: buf h_def nat_add_distrib)
    moreover have "nat (?pe - 1) = Suc (length n + length t + length (kvsp_body us))" by simp
    ultimately show ?thesis using dec_digits [of _ "length t"] by (simp add: takeWhile_append2 n_def)
  qed
  moreover have "int (length t) \<le> INT_MAX" using assms(4) by (simp add: request_ok_def ts kvsp_frame_def kvsp_tok_def)
  ultimately have dig: "parse_digits (ag_buf a) h ?pe 1 0 False = Some (Digits_end (1 + int (length n)) (int (length t)) True)"
    using parse_digits_run [of h 1 ?pe "ag_buf a" 0 n False] by (simp add: n_def INT_MAX_def h_def buf)
  have rd1: "rd (ag_buf a) (h + (1 + int (length n))) = Some (CHR ''&'')"
    unfolding buf using rd_mid [of "h + (1 + int (length n))" "kvsp_head ts @ CHR ''^'' # n" "CHR ''&''"] by (simp add: h_def)
  have tok: "memrd (ag_buf a) (h + (1 + int (length n) + 1)) (length t) = Some t"
    by (simp add: buf memrd_def h_def nat_add_distrib)
  obtain P where P: "?pe = P" "1 + int (length n) < P" "int (length t) \<le> P - (1 + int (length n) + 1)" by simp
  have hd: "ag_tl a - h - int 2 = P" "\<not> ag_tl a - h < int 2" using pe P assms(2) by (simp_all add: h_def)
  show ?thesis unfolding kvs_agent_parse_command_def Let_def assms(2) h_def [symmetric] kvsp_lens hd(1)
    using assms(5) hd(2) tail [unfolded P(1)] rd0 dig [unfolded P(1)] rd1 tok P(2,3)
    by (simp add: kvsp_consts ts)
qed

text \<open>The agent is in step with the specification; \<open>bs\<close> are the received bytes not yet consumed.\<close>

definition agent_in :: "agent_info \<Rightarrow> kvs_slave_state \<times> string list \<Rightarrow> string \<Rightarrow> bool" where
  "agent_in a sp bs \<longleftrightarrow> ag_state a = fst sp \<and> ring_holds (fullsync_cache a) (snd sp) \<and> length (ag_buf a) = buf_cap a \<and>
     buf_pos a = length bs \<and> buf_pos a \<le> buf_cap a \<and> take (length bs) (ag_buf a) = bs"

definition world_ok :: "agent_world \<Rightarrow> bool" where
  "world_ok w \<longleftrightarrow> good_net (answers (w_net w)) \<and> slaves_distinct (global_slaves w) \<and> mem_ok (w_env w)"

text \<open>The world after the bytes \<open>out\<close> went to every slave.\<close>

definition sent_to_all :: "agent_world \<Rightarrow> string \<Rightarrow> agent_world \<Rightarrow> bool" where
  "sent_to_all w out w' \<longleftrightarrow> (\<exists>e c. mem_ok e \<and> w' = w\<lparr>w_env := e, w_net := (w_net w)\<lparr>calls := c,
     wire := bcast (global_slaves w) out (wire (w_net w))\<rparr>\<rparr>)"

lemma sent_to_all_trans: "sent_to_all w a w1 \<Longrightarrow> sent_to_all w1 b w2 \<Longrightarrow> sent_to_all w (a @ b) w2"
  unfolding sent_to_all_def by (elim exE conjE) (simp, blast)

lemma sent_to_all_ok: "sent_to_all w a w1 \<Longrightarrow> world_ok w \<Longrightarrow> world_ok w1"
  by (auto simp: sent_to_all_def world_ok_def)

lemma sent_to_all_refl: "mem_ok e \<Longrightarrow> sent_to_all w [] (w\<lparr>w_env := e\<rparr>)"
  unfolding sent_to_all_def by (intro exI [of _ e] exI [of _ "calls (w_net w)"]) simp

lemma cache_write_bytes_take:
  assumes "n \<le> length b"
  shows "cache_write_bytes ac (Some (take n b)) n = cache_write_bytes ac (Some b) n"
proof -
  have 1: "memrd (take n b) 0 k = memrd b 0 k" if "k \<le> n" for k using that assms by (simp add: memrd_def min_def)
  have 2: "memrd (take n b) (int i) (n - i) = memrd b (int i) (n - i)" if "i \<le> n" for i
    using that assms by (simp add: memrd_def drop_take min_def)
  have "sz_sub (capacity ac) (write_pos ac) \<le> n" if "\<not> n \<le> sz_sub (capacity ac) (write_pos ac)" using that by simp
  then show ?thesis using 1 2 by (simp add: cache_write_bytes_def Let_def split: option.split)
qed

lemma ring_write_prefix:
  assumes "ring_holds ac ms" "m \<noteq> []" "used ac + 8 + length m \<le> capacity ac"
  shows "\<exists>ac'. kvs_agent_cache_write ac (Some (m @ rest)) (length m) = Some (0, ac') \<and> ring_holds ac' (ms @ [m]) \<and>
    capacity ac' = capacity ac"
proof -
  have "kvs_agent_cache_write ac (Some (m @ rest)) (length m) = kvs_agent_cache_write ac (Some m) (length m)"
    using cache_write_bytes_take [of "length m" "m @ rest"] by (simp add: kvs_agent_cache_write_def cong: if_cong)
  then show ?thesis using ring_write_fits [OF assms] by simp
qed

text \<open>The room the held-back writes of the requests need in the ring.\<close>

definition hold_room :: "agent_info \<Rightarrow> string list \<Rightarrow> string list list \<Rightarrow> bool" where
  "hold_room a pend fs \<longleftrightarrow> (\<Sum>m\<leftarrow>pend. 8 + length m) + (\<Sum>ts\<leftarrow>fs. 8 + length (kvsp_frame ts)) \<le> capacity (fullsync_cache a)"

text \<open>The handler on a complete request, by the command it names.\<close>

lemma kvs_agent_handler_run:
  assumes w: "world_ok w" and a: "ag_state a = st" "ring_holds (fullsync_cache a) pend" and ts: "request_ok ts"
    and f: "ag_buf a = kvsp_frame ts @ rest" "ag_hl a = int (length (kvsp_head ts))" "ag_tl a = int (length (kvsp_frame ts))"
    and room: "used (fullsync_cache a) + 8 + length (kvsp_frame ts) \<le> capacity (fullsync_cache a)"
  obtains w0 w1 w2 ac1 ac2 where
    "sent_to_all w [] w0" "sent_to_all w (kvsp_frame ts) w1" "sent_to_all w (concat pend) w2"
    "ring_holds ac1 (pend @ [kvsp_frame ts])" "ring_holds ac2 []"
    "capacity ac1 = capacity (fullsync_cache a)" "capacity ac2 = capacity (fullsync_cache a)"
    "kvs_agent_handler w a = (let cmd = agent_cmd_from 0 kvs_command (hd ts) in
       if cmd = KVS_CMD_SYNC then Some (0, w0, a\<lparr>ag_state := KVS_SLAVE_FULL_SYNC\<rparr>)
       else if cmd = KVS_CMD_FULLSYNC_FINISHED \<or> cmd = KVS_CMD_FULLSYNC_ERROR
       then (if st = KVS_SLAVE_FULL_SYNC then Some (0, w2, a\<lparr>ag_state := KVS_SLAVE_INCR_SYNC, fullsync_cache := ac2\<rparr>) else Some (0, w0, a))
       else if cmd = KVS_ALLOWED_SEND
       then (if st = KVS_SLAVE_FULL_SYNC then Some (0, w0, a\<lparr>fullsync_cache := ac1\<rparr>) else Some (0, w1, a))
       else Some (0, w0, a))"
proof -
  have me: "mem_ok (w_env w)" using w by (simp add: world_ok_def)
  let ?w = "w\<lparr>w_env := env_skip 1 (w_env w)\<rparr>"
  have me': "mem_ok (w_env ?w)" using me by simp
  have refl: "sent_to_all w [] ?w" using sent_to_all_refl me by simp
  have p: "kvs_agent_parse_command (w_env w) a = Some (Some (hd ts @ [NUL]), env_skip 1 (w_env w))"
    using parse_command_frame [OF f ts] me by simp
  have c: "cstr_at (hd ts @ [NUL]) 0 = Some (hd ts)"
    using cstr_at_append [of "hd ts" 0 "hd ts @ [NUL]" "[]"] ts by (simp add: request_ok_def)
  obtain ac1 where hold: "kvs_agent_cache_write (fullsync_cache a) (Some (ag_buf a)) (length (kvsp_frame ts)) = Some (0, ac1)"
    "ring_holds ac1 (pend @ [kvsp_frame ts])" "capacity ac1 = capacity (fullsync_cache a)"
    using ring_write_prefix [OF a(2) _ room, of rest] f(1) by auto
  obtain w2 ac2 where flush: "kvs_agent_send_cache ?w (fullsync_cache a) = Some (0, w2, ac2)" "sent_to_all w (concat pend) w2"
    "ring_holds ac2 []" "capacity ac2 = capacity (fullsync_cache a)"
    using kvs_agent_send_cache_ok [of ?w "fullsync_cache a" pend] w me' a(2) by (auto simp: world_ok_def sent_to_all_def)
  obtain w1 where send: "kvs_agent_send ?w (kvsp_frame ts) = Some (0, w1)" "sent_to_all w (kvsp_frame ts) w1"
  proof -
    obtain c where "kvs_agent_send ?w (kvsp_frame ts) = Some (0, ?w\<lparr>w_net := (w_net ?w)\<lparr>calls := c,
        wire := bcast (global_slaves ?w) (kvsp_frame ts) (wire (w_net ?w))\<rparr>\<rparr>)"
      using kvs_agent_send_ok [of ?w "kvsp_frame ts"] w by (auto simp: world_ok_def)
    then show thesis by (rule that)
      (unfold sent_to_all_def, rule exI [of _ "w_env ?w"], rule exI [of _ c], use me' in simp)
  qed
  have rd: "memrd (ag_buf a) 0 (length (kvsp_frame ts)) = Some (kvsp_frame ts)" using f(1) by simp
  show thesis
    by (rule that [OF refl send(2) flush(2) hold(2) flush(3) hold(3) flush(4)])
       (use c flush(1) hold(1) send(1) rd f(3) a(1) in \<open>simp add: kvs_agent_handler_def p Let_def\<close>)
qed

lemma kvs_agent_handler_step:
  assumes w: "world_ok w" and a: "ag_state a = st" "ring_holds (fullsync_cache a) pend" and ts: "request_ok ts"
    and f: "ag_buf a = kvsp_frame ts @ rest" "ag_hl a = int (length (kvsp_head ts))" "ag_tl a = int (length (kvsp_frame ts))"
    and room: "hold_room a pend (ts # fs)"
    and step: "relay_step (st, pend) ts = ((st', pend'), out)"
  shows "\<exists>w' ac'. kvs_agent_handler w a = Some (0, w', a\<lparr>ag_state := st', fullsync_cache := ac'\<rparr>) \<and> sent_to_all w out w' \<and>
    ring_holds ac' pend' \<and> hold_room (a\<lparr>fullsync_cache := ac'\<rparr>) pend' fs"
proof -
  have u: "used (fullsync_cache a) + 8 + length (kvsp_frame ts) \<le> capacity (fullsync_cache a)"
    using room ring_holds_used [OF a(2)] by (simp add: hold_room_def)
  obtain w0 w1 w2 ac1 ac2 where
    w': "sent_to_all w [] w0" "sent_to_all w (kvsp_frame ts) w1" "sent_to_all w (concat pend) w2"
    and ac: "ring_holds ac1 (pend @ [kvsp_frame ts])" "ring_holds ac2 []"
      "capacity ac1 = capacity (fullsync_cache a)" "capacity ac2 = capacity (fullsync_cache a)"
    and run: "kvs_agent_handler w a = (let cmd = agent_cmd_from 0 kvs_command (hd ts) in
       if cmd = KVS_CMD_SYNC then Some (0, w0, a\<lparr>ag_state := KVS_SLAVE_FULL_SYNC\<rparr>)
       else if cmd = KVS_CMD_FULLSYNC_FINISHED \<or> cmd = KVS_CMD_FULLSYNC_ERROR
       then (if st = KVS_SLAVE_FULL_SYNC then Some (0, w2, a\<lparr>ag_state := KVS_SLAVE_INCR_SYNC, fullsync_cache := ac2\<rparr>) else Some (0, w0, a))
       else if cmd = KVS_ALLOWED_SEND
       then (if st = KVS_SLAVE_FULL_SYNC then Some (0, w0, a\<lparr>fullsync_cache := ac1\<rparr>) else Some (0, w1, a))
       else Some (0, w0, a))" by (rule kvs_agent_handler_run [OF w a ts f u]) blast
  have hr: "hold_room a pend fs" "hold_room (a\<lparr>fullsync_cache := ac2\<rparr>) [] fs"
      "hold_room (a\<lparr>fullsync_cache := ac1\<rparr>) (pend @ [kvsp_frame ts]) fs"
    using room ac by (simp_all add: hold_room_def)
  have idle: ?thesis if "kvs_agent_handler w a = Some (0, x, a\<lparr>ag_state := st'\<rparr>)" "sent_to_all w out x" "pend' = pend" for x
    using that a hr by (intro exI [of _ x] exI [of _ "fullsync_cache a"]) simp
  have st: "a\<lparr>ag_state := st\<rparr> = a" using a(1) by simp
  consider "hd ts = ''SYNC''" | "hd ts \<noteq> ''SYNC''" "hd ts = ''FULLSYNC FINISHED'' \<or> hd ts = ''FULLSYNC ERROR''"
    | "hd ts \<noteq> ''SYNC''" "\<not> (hd ts = ''FULLSYNC FINISHED'' \<or> hd ts = ''FULLSYNC ERROR'')" "hd ts \<in> write_commands"
    | "hd ts \<noteq> ''SYNC''" "\<not> (hd ts = ''FULLSYNC FINISHED'' \<or> hd ts = ''FULLSYNC ERROR'')" "hd ts \<notin> write_commands" by blast
  then show ?thesis
  proof cases
    case 1
    then show ?thesis using step run w' by (intro idle [of w0]) (auto simp: agent_cmd_index relay_step_def)
  next
    case 2
    then show ?thesis using step run w' ac hr st idle [of w0]
      by (cases "st = KVS_SLAVE_FULL_SYNC") (auto simp: agent_cmd_index agent_cmd_defs relay_step_def)
  next
    case 3
    then show ?thesis using step run w' ac hr st idle [of w1]
      by (cases "st = KVS_SLAVE_FULL_SYNC") (auto simp: agent_cmd_index agent_cmd_defs relay_step_def)
  next
    case 4
    then show ?thesis using step run w' st by (intro idle [of w0]) (auto simp: agent_cmd_index agent_cmd_defs relay_step_def)
  qed
qed

lemma agent_in_measure:
  assumes "agent_in a sp bs" "int (length bs) \<le> INT_MAX"
  shows "agent_parse_bulk_size (ag_buf a) (int (buf_pos a)) 0 = Some (kvsp_measure bs 0)"
proof -
  have "buf_pos a = length bs" "length bs \<le> length (ag_buf a)" "take (length bs) (ag_buf a) = bs"
    using assms(1) by (auto simp: agent_in_def)
  then show ?thesis using agent_parse_eq [of "int (length bs)" "ag_buf a" 0] kvsp_parse_measure [of "int (length bs)" "ag_buf a" 0] assms(2)
    by simp
qed

text \<open>One round of the loop on a complete request.\<close>

lemma agent_frames_step:
  assumes w: "world_ok w" and a: "agent_in a sp (kvsp_frame ts @ bs)" and ts: "request_ok ts"
    and room: "hold_room a (snd sp) (ts # fs)" and len: "int (length (kvsp_frame ts @ bs)) \<le> INT_MAX"
  shows "\<exists>w' a'. agent_frames w a = agent_frames w' a' \<and> sent_to_all w (snd (relay_step sp ts)) w' \<and>
    agent_in a' (fst (relay_step sp ts)) bs \<and> hold_room a' (snd (fst (relay_step sp ts))) fs"
proof -
  let ?bs = "kvsp_frame ts @ bs"
  have in': "ag_state a = fst sp" "ring_holds (fullsync_cache a) (snd sp)" "length (ag_buf a) = buf_cap a" "buf_pos a = length ?bs"
    "length ?bs \<le> buf_cap a" "take (length ?bs) (ag_buf a) = ?bs" using a by (simp_all add: agent_in_def)
  have pm: "agent_parse_bulk_size (ag_buf a) (int (buf_pos a)) 0 = Some (int (length (kvsp_frame ts)), int (length (kvsp_head ts)))"
    using agent_in_measure [OF a len] kvsp_measure_frame [of ts bs 0] len by simp
  define rest where "rest = drop (length ?bs) (ag_buf a)"
  have buf: "ag_buf a = kvsp_frame ts @ bs @ rest" using in'(6) by (metis append_assoc append_take_drop_id rest_def)
  define a1 where "a1 = a\<lparr>ag_hl := int (length (kvsp_head ts)), ag_tl := int (length (kvsp_frame ts))\<rparr>"
  obtain st1 pend1 o1 where st: "relay_step (fst sp, snd sp) ts = ((st1, pend1), o1)" by (metis surj_pair)
  obtain w1 ac1 where h: "kvs_agent_handler w a1 = Some (0, w1, a1\<lparr>ag_state := st1, fullsync_cache := ac1\<rparr>)" "sent_to_all w o1 w1"
    "ring_holds ac1 pend1" "hold_room (a1\<lparr>fullsync_cache := ac1\<rparr>) pend1 fs"
    using kvs_agent_handler_step [OF w _ _ ts, of a1 "fst sp" "snd sp" "bs @ rest" fs st1 pend1 o1] st in' buf room
    by (auto simp: a1_def hold_room_def)
  let ?b = "bs @ drop (length bs) (ag_buf a)"
  define a2 where "a2 = a1\<lparr>ag_state := st1, fullsync_cache := ac1, ag_buf := ?b, buf_pos := length bs\<rparr>"
  have "memrd (ag_buf a) (int (length (kvsp_frame ts))) (length bs) = Some bs" "memwr (ag_buf a) 0 bs = Some ?b"
    by (simp_all add: buf memwr_def)
  then have "agent_frames w a = agent_frames w1 a2"
    using pm h(1) in'(4) by (subst agent_frames.simps) (simp add: a1_def [symmetric] Let_def, simp add: a1_def a2_def)
  moreover have "agent_in a2 (st1, pend1) bs" using in' h(3) by (auto simp: agent_in_def a2_def a1_def)
  moreover have "hold_room a2 pend1 fs" using h(4) by (simp add: hold_room_def a2_def)
  ultimately show ?thesis using st h(2) by auto
qed

text \<open>A stream of requests cut anywhere: the bytes received so far are incomplete or start with the
  first request.\<close>

lemma stream_first:
  assumes "bs @ future = concat (map kvsp_frame fs)" "\<forall>ts \<in> set fs. request_ok ts" "bs \<noteq> []" "fst (kvsp_measure bs 0) \<noteq> 0"
  obtains ts fs' bs' where "fs = ts # fs'" "bs = kvsp_frame ts @ bs'"
proof -
  obtain ts fs' where fs: "fs = ts # fs'" using assms(1,3) by (cases fs) auto
  have m: "kvsp_measure bs 0 = (int (length (kvsp_frame ts)), int (length (kvsp_head ts)))"
    using kvsp_measure_append [OF assms(3), of 0 _ _ future] assms fs kvsp_measure_frame [of ts "concat (map kvsp_frame fs')" 0]
    by (cases "kvsp_measure bs 0") (auto simp: request_ok_def)
  have le: "length (kvsp_frame ts) \<le> length bs" using kvsp_measure_range [OF m] by auto
  have "take (length (kvsp_frame ts)) (bs @ future) = kvsp_frame ts" using assms(1) fs by simp
  then have "bs = kvsp_frame ts @ drop (length (kvsp_frame ts)) bs"
    using le by (metis append_take_drop_id take_append diff_is_0_eq take0 append_Nil2)
  then show thesis by (rule that [OF fs])
qed

text \<open>The loop consumes the complete requests at the front and stops at an incomplete one.\<close>

lemma agent_frames_run:
  assumes "world_ok w" "agent_in a sp bs" "\<forall>ts \<in> set fs. request_ok ts" "bs @ future = concat (map kvsp_frame fs)"
    "hold_room a (snd sp) fs" "int (length bs) \<le> INT_MAX"
  shows "\<exists>j w' a' bs'. agent_frames w a = Some (0, w', a') \<and> bs' @ future = concat (map kvsp_frame (drop j fs)) \<and>
    (bs' = [] \<or> fst (kvsp_measure bs' 0) = 0) \<and> sent_to_all w (snd (relay_run sp (take j fs))) w' \<and>
    agent_in a' (fst (relay_run sp (take j fs))) bs' \<and> hold_room a' (snd (fst (relay_run sp (take j fs)))) (drop j fs)"
  using assms
proof (induction "length bs" arbitrary: w a sp bs fs rule: less_induct)
  case less
  have pos: "buf_pos a = length bs" using less.prems(2) by (simp add: agent_in_def)
  have pm: "agent_parse_bulk_size (ag_buf a) (int (buf_pos a)) 0 = Some (kvsp_measure bs 0)"
    by (rule agent_in_measure [OF less.prems(2,6)])
  show ?case
  proof (cases "bs = [] \<or> fst (kvsp_measure bs 0) = 0")
    case True
    then have "agent_frames w a = Some (0, w, a)" using pm pos
      by (auto simp: agent_frames.simps [of w a] split: prod.splits)
    then show ?thesis using True less.prems sent_to_all_refl [of "w_env w" w]
      by (intro exI [of _ 0] exI [of _ w] exI [of _ a] exI [of _ bs]) (auto simp: world_ok_def)
  next
    case False
    then obtain ts fs' bs1 where fs: "fs = ts # fs'" and bs: "bs = kvsp_frame ts @ bs1"
      using stream_first [OF less.prems(4,3)] by blast
    obtain w1 a1 where 1: "agent_frames w a = agent_frames w1 a1" "sent_to_all w (snd (relay_step sp ts)) w1"
      "agent_in a1 (fst (relay_step sp ts)) bs1" "hold_room a1 (snd (fst (relay_step sp ts))) fs'"
      using agent_frames_step [of w a sp ts bs1 fs'] less.prems fs bs by auto
    obtain j w' a' bs' where IH: "agent_frames w1 a1 = Some (0, w', a')" "bs' @ future = concat (map kvsp_frame (drop j fs'))"
      "bs' = [] \<or> fst (kvsp_measure bs' 0) = 0" "sent_to_all w1 (snd (relay_run (fst (relay_step sp ts)) (take j fs'))) w'"
      "agent_in a' (fst (relay_run (fst (relay_step sp ts)) (take j fs'))) bs'"
      "hold_room a' (snd (fst (relay_run (fst (relay_step sp ts)) (take j fs')))) (drop j fs')"
      using less.hyps [of bs1 w1 a1 "fst (relay_step sp ts)" fs'] sent_to_all_ok [OF 1(2) less.prems(1)] less.prems fs bs 1 by auto
    have "relay_run sp (take (Suc j) fs) = (fst (relay_run (fst (relay_step sp ts)) (take j fs')),
        snd (relay_step sp ts) @ snd (relay_run (fst (relay_step sp ts)) (take j fs')))"
      using fs by (simp add: case_prod_unfold)
    then show ?thesis using 1(1) IH sent_to_all_trans [OF 1(2) IH(4)] fs
      by (intro exI [of _ "Suc j"] exI [of _ w'] exI [of _ a'] exI [of _ bs']) (simp del: take_Suc_Cons)
  qed
qed

text \<open>Receiving one chunk, and a sequence of chunks.\<close>

lemma kvs_agent_send_to_slave_run:
  assumes w: "world_ok w" and a: "agent_in a sp bs" and fs: "\<forall>ts \<in> set fs. request_ok ts"
    and str: "bs @ c @ future = concat (map kvsp_frame fs)" and room: "hold_room a (snd sp) fs"
    and len: "int (length bs + length c) \<le> INT_MAX" and c: "c \<noteq> []"
  shows "\<exists>j w' a' bs'. kvs_agent_send_to_slave w a c = Some (0, w', a') \<and> bs' @ future = concat (map kvsp_frame (drop j fs)) \<and>
    (bs' = [] \<or> fst (kvsp_measure bs' 0) = 0) \<and> sent_to_all w (snd (relay_run sp (take j fs))) w' \<and>
    agent_in a' (fst (relay_run sp (take j fs))) bs' \<and> hold_room a' (snd (fst (relay_run sp (take j fs)))) (drop j fs)"
proof -
  have in': "ag_state a = fst sp" "ring_holds (fullsync_cache a) (snd sp)" "length (ag_buf a) = buf_cap a" "buf_pos a = length bs"
    "length bs \<le> buf_cap a" "take (length bs) (ag_buf a) = bs" using a by (simp_all add: agent_in_def)
  have me: "mem_ok (w_env w)" using w by (simp add: world_ok_def)
  define n where "n = length bs + length c"
  have n: "(buf_pos a + length c) mod 2 ^ 64 = n" using len in'(4) by (simp add: n_def INT_MAX_def)
  define w1 where "w1 = (if n > buf_cap a then w\<lparr>w_env := env_skip 1 (w_env w)\<rparr> else w)"
  define a1 where "a1 = (if n > buf_cap a then a\<lparr>ag_buf := take n (ag_buf a @ replicate n (char_of (junk (w_env w)))), buf_cap := n\<rparr> else a)"
  have w1: "sent_to_all w [] w1" "world_ok w1" using sent_to_all_refl [of "w_env w1" w] w me by (auto simp: w1_def world_ok_def)
  have a1: "length (ag_buf a1) = buf_cap a1" "n \<le> buf_cap a1" "take (length bs) (ag_buf a1) = bs" "buf_pos a1 = length bs"
      "ag_state a1 = ag_state a" "fullsync_cache a1 = fullsync_cache a"
    using in' by (auto simp: a1_def n_def min_def)
  obtain b where b: "memwr (ag_buf a1) (int (buf_pos a1)) c = Some b" "b = bs @ c @ drop n (ag_buf a1)"
    using a1 by (simp add: memwr_def n_def)
  define a2 where "a2 = a1\<lparr>ag_buf := b, buf_pos := n\<rparr>"
  have run: "kvs_agent_send_to_slave w a c = agent_frames w1 a2"
    using c me b(1) unfolding kvs_agent_send_to_slave_def n
    by (cases "buf_cap a < n") (simp_all add: w1_def a1_def a2_def Let_def)
  have "agent_in a2 sp (bs @ c)" using in' a1 b(2) by (auto simp: agent_in_def a2_def n_def)
  moreover have "hold_room a2 (snd sp) fs" using room a1 by (simp add: hold_room_def a2_def)
  ultimately obtain j w' a' bs' where "agent_frames w1 a2 = Some (0, w', a')" "bs' @ future = concat (map kvsp_frame (drop j fs))"
    "bs' = [] \<or> fst (kvsp_measure bs' 0) = 0" and s: "sent_to_all w1 (snd (relay_run sp (take j fs))) w'"
    "agent_in a' (fst (relay_run sp (take j fs))) bs'" "hold_room a' (snd (fst (relay_run sp (take j fs)))) (drop j fs)"
    using agent_frames_run [of w1 a2 sp "bs @ c" fs future] w1 fs str len by auto
  then show ?thesis using run sent_to_all_trans [OF w1(1) s(1)] by auto
qed

fun agent_feed :: "agent_world \<Rightarrow> agent_info \<Rightarrow> char list list \<Rightarrow> (int list \<times> agent_world \<times> agent_info) option" where
  "agent_feed w a [] = Some ([], w, a)"
| "agent_feed w a (c # cs) = do {
     (r, w, a) \<leftarrow> kvs_agent_send_to_slave w a c;
     (rs, w, a) \<leftarrow> agent_feed w a cs;
     Some (r # rs, w, a) }"

lemma agent_feed_run:
  assumes "world_ok w" "agent_in a sp bs" "\<forall>ts \<in> set fs. request_ok ts" "bs @ concat cs = concat (map kvsp_frame fs)"
    "hold_room a (snd sp) fs" "int (length bs + length (concat cs)) \<le> INT_MAX" "[] \<notin> set cs"
    "bs = [] \<or> fst (kvsp_measure bs 0) = 0"
  shows "\<exists>w' a'. agent_feed w a cs = Some (map (\<lambda>_. 0) cs, w', a') \<and> sent_to_all w (snd (relay_run sp fs)) w' \<and>
    agent_in a' (fst (relay_run sp fs)) []"
  using assms
proof (induction cs arbitrary: w a sp bs fs)
  case Nil
  have "fs = []"
  proof (cases fs)
    case (Cons ts fs')
    then have "fst (kvsp_measure bs 0) = int (length (kvsp_frame ts))"
      using kvsp_measure_frame [of ts "concat (map kvsp_frame fs')" 0] Nil.prems by (simp add: request_ok_def)
    then show ?thesis using Nil.prems Cons by auto
  qed simp
  then show ?case using Nil.prems sent_to_all_refl [of "w_env w" w] by (auto simp: world_ok_def)
next
  case (Cons c cs)
  obtain j w1 a1 bs1 where 1: "kvs_agent_send_to_slave w a c = Some (0, w1, a1)" "bs1 @ concat cs = concat (map kvsp_frame (drop j fs))"
    "bs1 = [] \<or> fst (kvsp_measure bs1 0) = 0" "sent_to_all w (snd (relay_run sp (take j fs))) w1"
    "agent_in a1 (fst (relay_run sp (take j fs))) bs1" "hold_room a1 (snd (fst (relay_run sp (take j fs)))) (drop j fs)"
    using kvs_agent_send_to_slave_run [of w a sp bs fs c "concat cs"] Cons.prems by auto
  have "length (bs1 @ concat cs) \<le> length (concat (map kvsp_frame fs))" unfolding 1(2)
    by (metis append_take_drop_id concat_append le_add2 length_append map_append)
  then have len: "int (length bs1 + length (concat cs)) \<le> INT_MAX" using Cons.prems(4,6) by (simp add: Cons.prems(4) [symmetric])
  obtain w' a' where 2: "agent_feed w1 a1 cs = Some (map (\<lambda>_. 0) cs, w', a')"
    "sent_to_all w1 (snd (relay_run (fst (relay_run sp (take j fs))) (drop j fs))) w'"
    "agent_in a' (fst (relay_run (fst (relay_run sp (take j fs))) (drop j fs))) []"
    using Cons.IH [OF sent_to_all_ok [OF 1(4) Cons.prems(1)] 1(5) _ 1(2,6) len _ 1(3)] Cons.prems(3,7)
    by (auto dest: in_set_dropD)
  have "relay_run sp fs = (fst (relay_run (fst (relay_run sp (take j fs))) (drop j fs)),
      snd (relay_run sp (take j fs)) @ snd (relay_run (fst (relay_run sp (take j fs))) (drop j fs)))"
    using relay_run_append [of sp "take j fs" "drop j fs"] by (simp add: case_prod_unfold)
  then show ?case using 1(1) 2 sent_to_all_trans [OF 1(4) 2(2)] by auto
qed

subsection \<open>Properties\<close>

definition agent0 :: agent_info where
  "agent0 = \<lparr>ag_buf = replicate 8 NUL, buf_cap = 8, buf_pos = 0, ag_tl = 0, ag_hl = 0, ag_state = KVS_SLAVE_UNKNOWN,
     fullsync_cache = \<lparr>read_pos = 0, write_pos = 0, capacity = 100, used = 0, cache = Some (replicate 100 NUL)\<rparr>\<rparr>"

definition world0 :: agent_world where
  "world0 = \<lparr>w_env = env0, w_net = \<lparr>answers = (\<lambda>i. if even i then Again else Sent 3), calls = 0, wire = (\<lambda>_. [])\<rparr>,
     global_slaves = \<lparr>sl_table = Some [5, -1, 6], sl_total = 2, sl_size = 3\<rparr>, global_agent_cache = zero_cache, existing = False\<rparr>"

lemma agent0_in: "agent_in agent0 (KVS_SLAVE_UNKNOWN, []) []"
  by (simp add: agent_in_def agent0_def ring_holds_def ring_ok_def ring_bytes_def)

lemma world0_ok: "world_ok world0"
proof -
  have "\<exists>j \<ge> i. \<not> even j" for i :: nat by (rule exI [of _ "2 * i + 1"]) simp
  then have "good_net (answers (w_net world0))" by (auto simp: good_net_def world0_def)
  moreover have "slaves_distinct (global_slaves world0)" by (auto simp: slaves_distinct_def slaves_ok_def slave_fds_def world0_def)
  ultimately show ?thesis by (simp add: world_ok_def world0_def)
qed

text \<open>C7: the agent relays the write stream faithfully.  Take any requests and any cut of their byte
  stream into chunks (the captured payloads).  Over a network that keeps taking bytes and with room
  for the held-back writes, the agent accepts every chunk; each connected slave gets exactly the bytes
  the specification sends: the write requests in their order, none lost, doubled or cut, those that
  arrive during a full synchronisation after its end.  The synchronisation state and the held-back
  writes agree with the specification afterwards.\<close>

theorem agent_relays_stream:
  assumes "world_ok w" "agent_in a sp []" "\<forall>ts \<in> set fs. request_ok ts"
    and "concat cs = concat (map kvsp_frame fs)" "[] \<notin> set cs" "int (length (concat cs)) \<le> INT_MAX"
    and "hold_room a (snd sp) fs"
  shows "\<exists>w' a'. agent_feed w a cs = Some (map (\<lambda>_. 0) cs, w', a') \<and>
    wire (w_net w') = bcast (global_slaves w) (snd (relay_run sp fs)) (wire (w_net w)) \<and>
    ag_state a' = fst (fst (relay_run sp fs)) \<and> ring_holds (fullsync_cache a') (snd (fst (relay_run sp fs)))"
  using agent_feed_run [of w a sp "[]" fs cs] assms by (auto simp: sent_to_all_def agent_in_def)

lemma agent_relays_stream_witness:
  "\<exists>w' a'. agent_feed world0 agent0 [''#9'' @ [CR], LF # ''^4&SYNC'' @ CRLF @ ''#'', ''8'' @ CRLF @ ''^3&SET'' @ CRLF] =
      Some (map (\<lambda>_. 0) [''#9'' @ [CR], LF # ''^4&SYNC'' @ CRLF @ ''#'', ''8'' @ CRLF @ ''^3&SET'' @ CRLF], w', a') \<and>
    wire (w_net w') = bcast (global_slaves world0) (snd (relay_run (KVS_SLAVE_UNKNOWN, []) [[''SYNC''], [''SET'']])) (wire (w_net world0)) \<and>
    ag_state a' = fst (fst (relay_run (KVS_SLAVE_UNKNOWN, []) [[''SYNC''], [''SET'']])) \<and>
    ring_holds (fullsync_cache a') (snd (fst (relay_run (KVS_SLAVE_UNKNOWN, []) [[''SYNC''], [''SET'']])))"
  by (rule agent_relays_stream [OF world0_ok agent0_in])
    (simp_all add: request_ok_def kvsp_frame_def kvsp_head_def kvsp_tok_def INT_MAX_def hold_room_def agent0_def dec.simps digit_char_def char_of_def bit_0)

subsection \<open>Safety on arbitrary input\<close>

lemma send_loop_total:
  assumes "live_net (answers n)"
  shows "\<exists>r n'. send_loop sfd buf pos n = Some (r, n') \<and> answers n' = answers n"
  using assms
proof (induction "length buf - pos" arbitrary: pos n rule: less_induct)
  case less
  show ?case
  proof (cases "pos < length buf")
    case False
    then show ?thesis by (subst send_loop.simps) simp
  next
    case True
    obtain d where d: "\<forall>j < d. answers n (calls n + j) = Again" "answers n (calls n + d) \<noteq> Again"
      using live_net_first [OF less.prems, of "calls n"] by blast
    define n1 where "n1 = n\<lparr>calls := calls n + d\<rparr>"
    have eq: "send_loop sfd buf pos n = send_loop sfd buf pos n1" unfolding n1_def by (rule send_loop_again [OF d(1) True])
    have n1: "answers n1 (calls n1) \<noteq> Again" "answers n1 = answers n" using d by (simp_all add: n1_def)
    show ?thesis
    proof (cases "answers n1 (calls n1)")
      case (Sent k)
      define k' where "k' = min k (length buf - pos)"
      define n2 where "n2 = n1\<lparr>calls := calls n1 + 1, wire := (wire n1)(sfd := wire n1 sfd @ take k' (drop pos buf))\<rparr>"
      have ns: "net_send n1 sfd (drop pos buf) = (Sent k', n2)" using Sent by (simp add: net_send_def k'_def n2_def Let_def)
      have "answers n2 = answers n" using n1(2) by (simp add: n2_def)
      moreover have "\<exists>r n'. send_loop sfd buf (pos + k') n2 = Some (r, n') \<and> answers n' = answers n2" if "k' \<noteq> 0"
        by (rule less.hyps) (use that True less.prems n1(2) in \<open>auto simp: n2_def\<close>)
      ultimately show ?thesis unfolding eq using True ns by (subst send_loop.simps) auto
    next
      case Failed
      then have "net_send n1 sfd (drop pos buf) = (Failed, n1\<lparr>calls := calls n1 + 1\<rparr>)" by (simp add: net_send_def)
      then show ?thesis unfolding eq using True n1(2) by (subst send_loop.simps) simp
    qed (use n1 in simp)
  qed
qed

text \<open>What every step keeps of the shared state.\<close>

definition world_wf :: "agent_world \<Rightarrow> bool" where
  "world_wf w \<longleftrightarrow> live_net (answers (w_net w)) \<and> slaves_ok (global_slaves w)"

definition world_same :: "agent_world \<Rightarrow> agent_world \<Rightarrow> bool" where
  "world_same w w' \<longleftrightarrow> world_wf w' \<and> global_agent_cache w' = global_agent_cache w \<and> existing w' = existing w \<and>
     sl_size (global_slaves w') = sl_size (global_slaves w)"

lemma world_same_trans: "world_same w w1 \<Longrightarrow> world_same w1 w2 \<Longrightarrow> world_same w w2"
  by (simp add: world_same_def)

lemma agent_send_one_safe:
  assumes "world_same w0 w" "i < sl_size (global_slaves w0)" "m \<noteq> []"
  shows "\<exists>w'. agent_send_one m i w = Some w' \<and> world_same w0 w'"
proof -
  obtain t where t: "sl_table (global_slaves w) = Some t" "length t = sl_size (global_slaves w0)"
    using assms(1) by (auto simp: world_same_def world_wf_def slaves_ok_def)
  show ?thesis
  proof (cases "t ! i > 0")
    case True
    then obtain r n where s: "send_all (t ! i) m (w_net w) = Some (r, n)" "answers n = answers (w_net w)"
      using send_loop_total [of "w_net w" "t ! i" m 0] assms by (auto simp: send_all_def world_same_def world_wf_def)
    obtain s' where "kvs_slaves_delete (global_slaves w) (t ! i) = Some (0, s')" "slaves_ok s'" "sl_size s' = sl_size (global_slaves w)"
      using kvs_slaves_delete_ok [of "global_slaves w" "t ! i"] True assms(1) by (auto simp: world_same_def world_wf_def)
    then show ?thesis using t s True assms by (auto simp: agent_send_one_def Let_def world_same_def world_wf_def)
  qed (use t assms in \<open>auto simp: agent_send_one_def Let_def\<close>)
qed

lemma kvs_agent_send_safe:
  assumes "world_wf w" "m \<noteq> []"
  shows "\<exists>w'. kvs_agent_send w m = Some (0, w') \<and> world_same w w'"
proof -
  have "\<exists>w'. ofold (agent_send_one m) [0..<sl_size (global_slaves w)] w = Some w' \<and> world_same w w'"
    by (rule ofold_Some) (use agent_send_one_safe [of w] assms in \<open>auto simp: world_same_def\<close>)
  then show ?thesis using assms(2) by (auto simp: kvs_agent_send_def)
qed

lemma kvs_agent_send_cache_safe:
  assumes "world_wf w" "ring_holds ac ms"
  shows "\<exists>r w' ac' ms'. kvs_agent_send_cache w ac = Some (r, w', ac') \<and> world_same w w' \<and> ring_holds ac' ms'"
  using assms
proof (induction ms arbitrary: w ac)
  case Nil
  then have "used ac = 0" using ring_holds_used by fastforce
  then show ?case using Nil by (subst kvs_agent_send_cache.simps) (auto simp: world_same_def)
next
  case (Cons m ms)
  have m: "m \<noteq> []" "used ac > 0" using Cons.prems(2) ring_holds_used [OF Cons.prems(2)] by (auto simp: ring_holds_def)
  let ?w0 = "w\<lparr>w_env := env_skip 1 (w_env w)\<rparr>"
  have w0: "world_wf ?w0" "world_same w ?w0" using Cons.prems(1) by (simp_all add: world_wf_def world_same_def)
  show ?case
  proof (cases "mem (w_env w) 0")
    case False
    then show ?thesis using ring_read_nomem [OF Cons.prems(2) False] m w0 Cons.prems
      by (subst kvs_agent_send_cache.simps) (auto simp: Let_def)
  next
    case True
    then obtain ac1 where r: "kvs_agent_cache_read (w_env w) ac = Some (Some m, length m, ac1)" "ring_holds ac1 ms"
      using ring_read_first [OF Cons.prems(2), of "w_env w"] by auto
    obtain w1 where s: "kvs_agent_send ?w0 m = Some (0, w1)" "world_same ?w0 w1" using kvs_agent_send_safe [OF w0(1) m(1)] by blast
    then have "world_wf w1" by (simp add: world_same_def)
    then obtain r w' ac' ms' where "kvs_agent_send_cache w1 ac1 = Some (r, w', ac')" "world_same w1 w'" "ring_holds ac' ms'"
      using Cons.IH [OF _ \<open>ring_holds ac1 ms\<close>] by blast
    moreover have "kvs_agent_send_cache w ac = kvs_agent_send_cache w1 ac1"
      using m r s by (subst kvs_agent_send_cache.simps) (simp add: Let_def)
    ultimately show ?thesis using world_same_trans [OF world_same_trans [OF w0(2) s(2)]] by auto
  qed
qed

lemma parse_digits_inside:
  assumes "0 \<le> base + pos" "base + limit \<le> int (length buf)"
  shows "parse_digits buf base limit pos 0 False = Some Digits_overflow \<or>
    (\<exists>p v h. parse_digits buf base limit pos 0 False = Some (Digits_end p v h) \<and> pos \<le> p \<and> 0 \<le> v)"
proof (cases "pos \<le> limit")
  case True
  then show ?thesis
    using parse_digits_run [OF assms(1) True assms(2), of 0 _ False] parse_digits_mono [of buf base limit pos 0 False]
    by (auto simp: INT_MAX_def)
next
  case False
  then have "parse_digits buf base limit pos 0 False = Some (Digits_end pos 0 False)" by (simp add: parse_digits.simps [of _ _ _ pos])
  then show ?thesis by (intro disjI2 exI [of _ pos] exI [of _ 0] exI [of _ False]) simp
qed

lemma kvs_agent_parse_command_safe:
  assumes "0 \<le> ag_hl a" "ag_tl a \<le> int (length (ag_buf a))"
  shows "\<exists>e'. kvs_agent_parse_command e a = Some (None, e') \<or> (\<exists>t. kvs_agent_parse_command e a = Some (Some (t @ [NUL]), e'))"
proof -
  define P where "P = ag_tl a - ag_hl a - 2"
  show ?thesis
  proof (cases "ag_tl a - ag_hl a < 2")
    case True
    then show ?thesis by (auto simp: kvs_agent_parse_command_def kvsp_lens)
  next
    case False
    then have r: "memrd (ag_buf a) (ag_hl a + P) 2 = Some (take 2 (drop (nat (ag_hl a + P)) (ag_buf a)))"
        "rd (ag_buf a) (ag_hl a) = Some (ag_buf a ! nat (ag_hl a))"
      using assms by (simp_all add: P_def)
    have tok: "rd (ag_buf a) (ag_hl a + p) = Some (ag_buf a ! nat (ag_hl a + p))"
        "v \<le> P - (p + 1) \<Longrightarrow> 0 \<le> v \<Longrightarrow> memrd (ag_buf a) (ag_hl a + (p + 1)) (nat v) = Some (take (nat v) (drop (nat (ag_hl a + (p + 1))) (ag_buf a)))"
      if "1 \<le> p" "p < P" for p v using that assms by (simp_all add: P_def)
    have "ag_hl a + P \<le> int (length (ag_buf a))" "0 \<le> ag_hl a + 1" using assms by (simp_all add: P_def)
    from parse_digits_inside [OF this(2,1)] show ?thesis
      unfolding kvs_agent_parse_command_def Let_def kvsp_lens of_nat_numeral P_def [symmetric]
      using False r tok by (elim disjE exE conjE) auto
  qed
qed

definition agent_wf :: "agent_info \<Rightarrow> bool" where
  "agent_wf a \<longleftrightarrow> length (ag_buf a) = buf_cap a \<and> buf_pos a \<le> buf_cap a \<and> (\<exists>ms. ring_holds (fullsync_cache a) ms)"

lemma ring_write_safe:
  assumes "ring_holds ac ms" "0 < n" "n \<le> length b" "n < 2 ^ 64"
  shows "\<exists>r ac' ms'. kvs_agent_cache_write ac (Some b) n = Some (r, ac') \<and> ring_holds ac' ms' \<and> set ms' \<subseteq> insert (take n b) (set ms)"
proof -
  let ?m = "take n b"
  have m: "?m \<noteq> []" "length ?m = n" "?m @ drop n b = b" using assms by auto
  show ?thesis
  proof (cases "used ac + 8 + length ?m \<le> capacity ac")
    case True
    then obtain ac' where "kvs_agent_cache_write ac (Some b) n = Some (0, ac')" "ring_holds ac' (ms @ [?m])"
      using ring_write_prefix [OF assms(1) m(1) True, of "drop n b"] m by auto
    then show ?thesis by (intro exI [of _ 0] exI [of _ ac'] exI [of _ "ms @ [?m]"]) auto
  next
    case False
    have "kvs_agent_cache_write ac (Some b) n = kvs_agent_cache_write ac (Some ?m) n"
      using cache_write_bytes_take [of n b] assms(3) by (simp add: kvs_agent_cache_write_def cong: if_cong)
    then show ?thesis using ring_write_full [OF assms(1) m(1) _ False] assms m(2)
      by (intro exI [of _ "-2"] exI [of _ ac] exI [of _ ms]) auto
  qed
qed

lemma kvs_agent_handler_safe:
  assumes "world_wf w" "agent_wf a" "0 \<le> ag_hl a" "0 < ag_tl a" "ag_tl a \<le> int (length (ag_buf a))" "ag_tl a \<le> INT_MAX"
  shows "\<exists>r w' st ac. kvs_agent_handler w a = Some (r, w', a\<lparr>ag_state := st, fullsync_cache := ac\<rparr>) \<and> world_same w w' \<and>
    (\<exists>ms. ring_holds ac ms)"
proof -
  obtain ms where ms: "ring_holds (fullsync_cache a) ms" using assms(2) by (auto simp: agent_wf_def)
  let ?Q = "\<lambda>x. \<exists>r w' st ac. x = Some (r, w', a\<lparr>ag_state := st, fullsync_cache := ac\<rparr>) \<and> world_same w w' \<and> (\<exists>ms. ring_holds ac ms)"
  have q: "?Q (Some (r, v, a\<lparr>ag_state := st, fullsync_cache := ac\<rparr>))" if "world_same w v" "ring_holds ac ms" for r v st ac ms
    using that by blast
  have ws: "world_same w (w\<lparr>w_env := e\<rparr>)" "world_wf (w\<lparr>w_env := e\<rparr>)" for e using assms(1) by (simp_all add: world_same_def world_wf_def)
  obtain r1 ac1 ms1 where hold: "kvs_agent_cache_write (fullsync_cache a) (Some (ag_buf a)) (nat (ag_tl a)) = Some (r1, ac1)" "ring_holds ac1 ms1"
  proof -
    have "0 < nat (ag_tl a)" "nat (ag_tl a) \<le> length (ag_buf a)" "nat (ag_tl a) < 2 ^ 64" using assms by (auto simp: INT_MAX_def)
    from ring_write_safe [OF ms this] show thesis using that by blast
  qed
  obtain m where m: "memrd (ag_buf a) 0 (nat (ag_tl a)) = Some m" "m \<noteq> []" using assms(4,5) by (cases "ag_buf a") auto
  consider e' where "kvs_agent_parse_command (w_env w) a = Some (None, e')"
    | e' t where "kvs_agent_parse_command (w_env w) a = Some (Some (t @ [NUL]), e')"
    using kvs_agent_parse_command_safe [OF assms(3,5), of "w_env w"] by blast
  then show ?thesis
  proof cases
    case 1
    then have "kvs_agent_handler w a = Some (-2, w\<lparr>w_env := e'\<rparr>, a)" by (simp add: kvs_agent_handler_def)
    then show ?thesis using ms ws(1)
      by (intro exI [of _ "-2"] exI [of _ "w\<lparr>w_env := e'\<rparr>"] exI [of _ "ag_state a"] exI [of _ "fullsync_cache a"]) auto
  next
    case (2 e' t)
    let ?w = "w\<lparr>w_env := e'\<rparr>"
    obtain c where c: "cstr_at (t @ [NUL]) 0 = Some c" by (simp add: cstr_at_def)
    obtain r2 w2 ac2 ms2 where flush: "kvs_agent_send_cache ?w (fullsync_cache a) = Some (r2, w2, ac2)" "world_same ?w w2" "ring_holds ac2 ms2"
      using kvs_agent_send_cache_safe [OF ws(2) ms] by blast
    obtain w3 where send: "kvs_agent_send ?w m = Some (0, w3)" "world_same ?w w3" using kvs_agent_send_safe [OF ws(2) m(2)] by blast
    have w23: "world_same w w2" "world_same w w3" using world_same_trans [OF ws(1)] flush send by blast+
    have "kvs_agent_handler w a \<in> {Some (0, ?w, a\<lparr>ag_state := KVS_SLAVE_FULL_SYNC\<rparr>),
        Some (r2, w2, a\<lparr>ag_state := KVS_SLAVE_INCR_SYNC, fullsync_cache := ac2\<rparr>), Some (0, ?w, a),
        Some (r1, ?w, a\<lparr>fullsync_cache := ac1\<rparr>), Some (0, w3, a)}"
      unfolding kvs_agent_handler_def 2 using c flush(1) hold(1) send(1) m by (simp add: Let_def)
    moreover have "?Q (Some (0, ?w, a\<lparr>ag_state := KVS_SLAVE_FULL_SYNC\<rparr>))" "?Q (Some (0, ?w, a))" "?Q (Some (0, w3, a))"
        "?Q (Some (r1, ?w, a\<lparr>fullsync_cache := ac1\<rparr>))"
      using q [OF ws(1) ms, of 0 e' KVS_SLAVE_FULL_SYNC] q [OF ws(1) ms, of 0 e' "ag_state a"] q [OF w23(2) ms, of 0 "ag_state a"]
        q [OF ws(1) hold(2), of r1 e' "ag_state a"] by simp_all
    moreover note q [OF w23(1) flush(3), of r2 KVS_SLAVE_INCR_SYNC]
    ultimately show ?thesis by (elim insertE emptyE) (simp only:)+
  qed
qed

lemma agent_frames_safe:
  assumes "world_wf w" "agent_wf a" "int (buf_pos a) \<le> INT_MAX"
  shows "\<exists>r w' a'. agent_frames w a = Some (r, w', a') \<and> world_same w w' \<and> agent_wf a' \<and> buf_pos a' \<le> buf_pos a"
  using assms
proof (induction "buf_pos a" arbitrary: w a rule: less_induct)
  case less
  define bs where "bs = take (buf_pos a) (ag_buf a)"
  have b: "length (ag_buf a) = buf_cap a" "buf_pos a \<le> buf_cap a" "length bs = buf_pos a" using less.prems(2) by (auto simp: agent_wf_def bs_def)
  have pm: "agent_parse_bulk_size (ag_buf a) (int (buf_pos a)) 0 = Some (kvsp_measure bs 0)"
    using agent_parse_eq [of "int (buf_pos a)" "ag_buf a" 0] kvsp_parse_measure [of "int (buf_pos a)" "ag_buf a" 0] b less.prems(3)
    by (simp add: bs_def)
  have refl: "world_same w w" using less.prems(1) by (simp add: world_same_def)
  show ?case
  proof (cases "buf_pos a > 0 \<and> fst (kvsp_measure bs 0) > 0")
    case False
    then have "\<exists>r. agent_frames w a = Some (r, w, a)" using pm by (subst agent_frames.simps) (auto simp: case_prod_unfold)
    then show ?thesis using less.prems refl by auto
  next
    case True
    obtain tl hl where m: "kvsp_measure bs 0 = (tl, hl)" by fastforce
    have r: "3 < hl" "hl \<le> tl" "tl \<le> int (buf_pos a)" using kvsp_measure_range [OF m] True m b(3) by auto
    define a1 where "a1 = a\<lparr>ag_hl := hl, ag_tl := tl\<rparr>"
    have a1: "agent_wf a1" "0 \<le> ag_hl a1" "0 < ag_tl a1" "ag_tl a1 \<le> int (length (ag_buf a1))" "ag_tl a1 \<le> INT_MAX"
      using less.prems b r by (auto simp: a1_def agent_wf_def)
    obtain ret w1 st ac where h: "kvs_agent_handler w a1 = Some (ret, w1, a1\<lparr>ag_state := st, fullsync_cache := ac\<rparr>)" "world_same w w1"
      "\<exists>ms. ring_holds ac ms" using kvs_agent_handler_safe [OF less.prems(1) a1] by blast
    define a2 where "a2 = a1\<lparr>ag_state := st, fullsync_cache := ac\<rparr>"
    have a2: "agent_wf a2" "buf_pos a2 = buf_pos a" "ag_buf a2 = ag_buf a" using h(3) b by (auto simp: a2_def a1_def agent_wf_def)
    define n where "n = buf_pos a - nat tl"
    have n: "sz_sub (buf_pos a) (nat tl) = n" "n < buf_pos a" "nat tl + n = buf_pos a" using r by (auto simp: n_def)
    obtain rest where rest: "memrd (ag_buf a) tl n = Some rest" "length rest = n" using n b r by (auto simp: memrd_def)
    obtain bf where bf: "memwr (ag_buf a) 0 rest = Some bf" using rest n b by (auto simp: memwr_def)
    let ?a3 = "a2\<lparr>ag_buf := bf, buf_pos := n\<rparr>"
    have run: "agent_frames w a = (if ret \<noteq> 0 then Some (-2, w1, a2) else agent_frames w1 ?a3)"
      using True pm m r h(1) n(1) rest(1) bf a2 by (subst agent_frames.simps) (simp add: a1_def [symmetric] a2_def [symmetric] Let_def)
    have w1: "world_wf w1" using h(2) by (simp add: world_same_def)
    have "agent_wf ?a3" "buf_pos ?a3 < buf_pos a" "int (buf_pos ?a3) \<le> INT_MAX"
      using a2 memwr_length [OF bf] n less.prems(3) by (auto simp: agent_wf_def)
    from less.hyps [OF this(2) w1 this(1,3)] show ?thesis
      using run h(2) a2 \<open>buf_pos ?a3 < buf_pos a\<close> world_same_trans [OF h(2)] by (cases "ret = 0") fastforce+
  qed
qed

lemma kvs_agent_send_to_slave_safe:
  assumes "world_wf w" "agent_wf a" "int (buf_pos a + length c) \<le> INT_MAX"
  shows "\<exists>r w' a'. kvs_agent_send_to_slave w a c = Some (r, w', a') \<and> world_same w w' \<and> agent_wf a' \<and> buf_pos a' \<le> buf_pos a + length c"
proof -
  define n where "n = buf_pos a + length c"
  have n: "(buf_pos a + length c) mod 2 ^ 64 = n" using assms(3) by (simp add: n_def INT_MAX_def)
  define w1 where "w1 = (if n > buf_cap a then w\<lparr>w_env := env_skip 1 (w_env w)\<rparr> else w)"
  define a1 where "a1 = (if n > buf_cap a then a\<lparr>ag_buf := take n (ag_buf a @ replicate n (char_of (junk (w_env w)))), buf_cap := n\<rparr> else a)"
  have w1: "world_same w w1" "world_wf w1" using assms(1) by (auto simp: w1_def world_wf_def world_same_def)
  have a1: "agent_wf a1" "n \<le> buf_cap a1" "buf_pos a1 = buf_pos a" using assms(2) by (auto simp: a1_def agent_wf_def n_def)
  obtain b where b: "memwr (ag_buf a1) (int (buf_pos a)) c = Some b" using a1 by (auto simp: memwr_def agent_wf_def n_def)
  let ?a2 = "a1\<lparr>ag_buf := b, buf_pos := n\<rparr>"
  have "agent_wf ?a2" "int (buf_pos ?a2) \<le> INT_MAX" using a1 memwr_length [OF b] assms(3) by (auto simp: agent_wf_def n_def)
  from agent_frames_safe [OF w1(2) this] obtain r w' a' where
    f: "agent_frames w1 ?a2 = Some (r, w', a')" "world_same w1 w'" "agent_wf a'" "buf_pos a' \<le> n" by auto
  have ne: "world_same w w" "world_same w (w\<lparr>w_env := env_skip 1 (w_env w)\<rparr>)" using assms(1) by (simp_all add: world_same_def world_wf_def)
  have run: "kvs_agent_send_to_slave w a c = (if c = [] then Some (-1, w, a) else if n > buf_cap a \<and> \<not> mem (w_env w) 0
      then Some (-2, w\<lparr>w_env := env_skip 1 (w_env w)\<rparr>, a) else agent_frames w1 ?a2)"
    using b a1(3) unfolding kvs_agent_send_to_slave_def n
    by (cases "buf_cap a < n") (simp_all add: w1_def a1_def Let_def)
  show ?thesis unfolding run using f world_same_trans [OF w1(1) f(2)] assms(2) ne by (auto simp: n_def)
qed

subsection \<open>The threads\<close>

text \<open>The captured payloads.  The entry probe \<open>tcp_recvmsg\<close> of the BPF program remembers, for a thread of
  the server, where the received bytes will be (\<open>h_map\<close>, by thread; \<open>room\<close> says whether the map takes another
  entry); the exit probe \<open>tcp_recvmsg_exit\<close> forgets it and reports at most \<open>KVS_AGENT_PAYLOAD_SIZE\<close> of them.
  \<open>user\<close> reads the memory of the process, \<open>None\<close> when it cannot be read, which leaves zeros;
  \<open>reserved\<close> is the event reserved in the kernel's ring buffer, with its old content.\<close>

definition KVS_AGENT_PAYLOAD_SIZE :: nat where "KVS_AGENT_PAYLOAD_SIZE = 4 * 1024"

definition tcp_recvmsg :: "string \<Rightarrow> nat \<Rightarrow> bool \<Rightarrow> nat \<Rightarrow> bool \<Rightarrow> (nat \<rightharpoonup> nat) \<Rightarrow> (nat \<rightharpoonup> nat)" where
  "tcp_recvmsg comm pid iter_ubuf ubuf room h_map =
     (if take 7 comm \<noteq> ''kvstore'' \<or> \<not> iter_ubuf then h_map
      else if ubuf \<noteq> 0 \<and> (room \<or> h_map pid \<noteq> None) then h_map(pid \<mapsto> ubuf) else h_map)"

definition tcp_recvmsg_exit ::
  "nat \<Rightarrow> int \<Rightarrow> (nat \<Rightarrow> nat \<Rightarrow> char list option) \<Rightarrow> char list option \<Rightarrow> (nat \<rightharpoonup> nat) \<Rightarrow> tcp_event option \<times> (nat \<rightharpoonup> nat)" where
  "tcp_recvmsg_exit pid ret user reserved h_map =
     (case h_map pid of
        None \<Rightarrow> (None, h_map)
      | Some ubuf \<Rightarrow>
          (let h_map = h_map(pid := None) in
           if ret \<le> 0 then (None, h_map)
           else (case reserved of
               None \<Rightarrow> (None, h_map)
             | Some old \<Rightarrow>
                 (let payload_len = (if ret \<ge> int KVS_AGENT_PAYLOAD_SIZE then int KVS_AGENT_PAYLOAD_SIZE
                                     else ret mod int KVS_AGENT_PAYLOAD_SIZE);
                      n = nat payload_len;
                      bytes = (case user ubuf n of None \<Rightarrow> replicate n NUL | Some b \<Rightarrow> b) in
                  (Some \<lparr>payload = bytes @ drop n old, payload_len = payload_len, ev_ret = ret\<rparr>, h_map)))))"

definition event_ok :: "tcp_event \<Rightarrow> bool" where
  "event_ok e \<longleftrightarrow> length (payload e) = KVS_AGENT_PAYLOAD_SIZE \<and> 0 < payload_len e \<and> payload_len e \<le> int KVS_AGENT_PAYLOAD_SIZE"

lemma tcp_recvmsg_exit_ok:
  assumes "tcp_recvmsg_exit pid ret user (Some old) h_map = (Some e, h')" "length old = KVS_AGENT_PAYLOAD_SIZE" "\<And>u n b. user u n = Some b \<Longrightarrow> length b = n"
  shows "event_ok e"
  using assms by (auto simp: tcp_recvmsg_exit_def event_ok_def KVS_AGENT_PAYLOAD_SIZE_def Let_def split: if_splits option.splits)

text \<open>What the server receives in one call reaches the agent, cut to \<open>KVS_AGENT_PAYLOAD_SIZE\<close> bytes.\<close>

lemma recvmsg_captured:
  assumes "take 7 comm = ''kvstore''" "ubuf \<noteq> 0" "0 < ret" "length old = KVS_AGENT_PAYLOAD_SIZE"
    and "nat ret = length bytes" "\<And>n. n \<le> length bytes \<Longrightarrow> user ubuf n = Some (take n bytes)"
  shows "\<exists>e. tcp_recvmsg_exit pid ret user (Some old) (tcp_recvmsg comm pid True ubuf True h_map) = (Some e, h_map(pid := None)) \<and>
    take (nat (payload_len e)) (payload e) = take KVS_AGENT_PAYLOAD_SIZE bytes"
proof (cases "ret \<ge> int KVS_AGENT_PAYLOAD_SIZE")
  case True
  then have "user ubuf KVS_AGENT_PAYLOAD_SIZE = Some (take KVS_AGENT_PAYLOAD_SIZE bytes)" using assms(5,6) by simp
  moreover have "KVS_AGENT_PAYLOAD_SIZE \<le> length bytes" using True assms(5) by simp
  ultimately show ?thesis using True assms(1-4) by (simp add: tcp_recvmsg_def tcp_recvmsg_exit_def Let_def)
next
  case False
  then have "ret mod int KVS_AGENT_PAYLOAD_SIZE = ret" using assms(3) by simp
  moreover have "user ubuf (nat ret) = Some bytes" using assms(5,6) by simp
  ultimately show ?thesis using False assms(1-5) by (simp add: tcp_recvmsg_def tcp_recvmsg_exit_def Let_def)
qed

text \<open>The interleavings of the event loop, the agent thread and the server thread.\<close>

inductive agent_step :: "agent_world \<times> agent_info \<Rightarrow> agent_world \<times> agent_info \<Rightarrow> bool" where
  event: "event_ok ev \<Longrightarrow> handle_event w ev = Some (r, w') \<Longrightarrow> agent_step (w, a) (w', a)"
| relay: "\<not> existing w \<Longrightarrow> used (global_agent_cache w) \<noteq> 0 \<Longrightarrow> kvs_agent w a = Some (go, w', a') \<Longrightarrow> agent_step (w, a) (w', a')"
| join: "0 \<le> sfd \<Longrightarrow> kvs_slaves_insert (global_slaves w) sfd = Some (r, s) \<Longrightarrow> agent_step (w, a) (w\<lparr>global_slaves := s\<rparr>, a)"
| leave: "0 \<le> sfd \<Longrightarrow> kvs_slaves_delete (global_slaves w) sfd = Some (r, s) \<Longrightarrow> agent_step (w, a) (w\<lparr>global_slaves := s\<rparr>, a)"

definition ring_small :: "agent_cache \<Rightarrow> bool" where
  "ring_small ac \<longleftrightarrow> (\<exists>ms. ring_holds ac ms \<and> (\<forall>m \<in> set ms. length m \<le> KVS_AGENT_PAYLOAD_SIZE))"

definition agents_wf :: "agent_world \<times> agent_info \<Rightarrow> bool" where
  "agents_wf x \<longleftrightarrow> world_wf (fst x) \<and> agent_wf (snd x) \<and> ring_small (global_agent_cache (fst x))"

lemma handle_event_safe:
  assumes "agents_wf (w, a)" "event_ok ev"
  shows "\<exists>w'. handle_event w ev = Some (0, w') \<and> agents_wf (w', a)"
proof (cases "ev_ret ev \<le> 0")
  case False
  let ?n = "nat (payload_len ev)"
  obtain ms where ms: "ring_holds (global_agent_cache w) ms" "\<forall>m \<in> set ms. length m \<le> KVS_AGENT_PAYLOAD_SIZE"
    using assms(1) by (auto simp: agents_wf_def ring_small_def)
  have n: "nat (c_size (payload_len ev)) = ?n" "0 < ?n" "?n \<le> length (payload ev)" "?n < 2 ^ 64" "?n \<le> KVS_AGENT_PAYLOAD_SIZE"
    using assms(2) by (auto simp: event_ok_def KVS_AGENT_PAYLOAD_SIZE_def c_size_def)
  obtain r ac' ms' where w: "kvs_agent_cache_write (global_agent_cache w) (Some (payload ev)) ?n = Some (r, ac')" "ring_holds ac' ms'"
      "set ms' \<subseteq> insert (take ?n (payload ev)) (set ms)" using ring_write_safe [OF ms(1) n(2,3,4)] by blast
  then have "ring_small ac'" using ms(2) n(5) unfolding ring_small_def by (intro exI [of _ ms']) auto
  then show ?thesis using w(1) n(1) False assms(1) by (auto simp: handle_event_def Let_def agents_wf_def world_wf_def)
qed (use assms in \<open>simp add: handle_event_def\<close>)

lemma kvs_agent_safe:
  assumes "agents_wf (w, a)" "buf_pos a + KVS_AGENT_PAYLOAD_SIZE \<le> nat INT_MAX" "used (global_agent_cache w) \<noteq> 0"
  shows "\<exists>go w' a'. kvs_agent w a = Some (go, w', a') \<and> agents_wf (w', a')"
proof -
  obtain ms where ms: "ring_holds (global_agent_cache w) ms" "\<forall>m \<in> set ms. length m \<le> KVS_AGENT_PAYLOAD_SIZE"
    using assms(1) by (auto simp: agents_wf_def ring_small_def)
  obtain m ms' where m: "ms = m # ms'" using ring_holds_used [OF ms(1)] assms(3) by (cases ms) auto
  show ?thesis
  proof (cases "mem (w_env w) 0")
    case False
    then show ?thesis using ring_read_nomem [of "global_agent_cache w" m ms'] ms m assms(1)
      by (auto simp: kvs_agent_def Let_def agents_wf_def world_wf_def)
  next
    case True
    then obtain ac where r: "kvs_agent_cache_read (w_env w) (global_agent_cache w) = Some (Some m, length m, ac)" "ring_holds ac ms'"
      using ring_read_first [of "global_agent_cache w" m ms' "w_env w"] ms m by auto
    let ?w = "w\<lparr>w_env := env_skip 1 (w_env w), global_agent_cache := ac\<rparr>"
    have "world_wf ?w" "agent_wf a" using assms(1) by (simp_all add: agents_wf_def world_wf_def)
    moreover have "int (buf_pos a + length m) \<le> INT_MAX" using assms(2) ms(2) m by (simp add: INT_MAX_def)
    ultimately obtain rr w' a' where s: "kvs_agent_send_to_slave ?w a m = Some (rr, w', a')" "world_same ?w w'" "agent_wf a'"
      using kvs_agent_send_to_slave_safe by blast
    moreover have "ring_small ac" using r(2) ms(2) m by (auto simp: ring_small_def)
    moreover have "m \<noteq> []" using ms(1) m by (auto simp: ring_holds_def)
    ultimately show ?thesis using r(1) by (auto simp: kvs_agent_def Let_def agents_wf_def world_same_def world_wf_def)
  qed
qed

lemma agent_step_wf:
  assumes "agent_step x y" "agents_wf x" "buf_pos (snd x) + KVS_AGENT_PAYLOAD_SIZE \<le> nat INT_MAX"
  shows "agents_wf y"
  using assms
proof (induction rule: agent_step.induct)
  case (event ev w r w' a)
  then show ?case using handle_event_safe [of w a ev] by auto
next
  case (relay w a go w' a')
  then show ?case using kvs_agent_safe [of w a] by auto
next
  case (join sfd w r s a)
  then show ?case using kvs_slaves_insert_ok [of "global_slaves w" sfd] by (auto simp: agents_wf_def world_wf_def)
next
  case (leave sfd w r s a)
  then show ?case using kvs_slaves_delete_ok [of "global_slaves w" sfd] by (auto simp: agents_wf_def world_wf_def)
qed

lemma agents_reach_wf:
  assumes "(\<lambda>x y. agent_step x y \<and> buf_pos (snd x) + KVS_AGENT_PAYLOAD_SIZE \<le> nat INT_MAX)\<^sup>*\<^sup>* x y" "agents_wf x"
  shows "agents_wf y"
  using assms by (induction rule: rtranclp_induct) (auto intro: agent_step_wf)

lemma kvs_agent_init_wf:
  assumes "kvs_agent_init True w a = (0, w', a')" "live_net (answers (w_net w))" "sl_table (global_slaves w) = None"
  shows "agents_wf (w', a')"
proof -
  obtain a1 where a1: "kvs_agent_info_init (w_env w) a BUFFER_SIZE MAX_FULLSYNC_CACHE_SIZE = (0, a1)"
    using assms(1) by (auto simp: kvs_agent_init_def split: prod.splits if_splits)
  obtain s where s: "kvs_slaves_create (env_skip 2 (w_env w)) (global_slaves w) MAX_SLAVE_COUNT = (0, s)"
    using assms(1) a1 by (auto simp: kvs_agent_init_def Let_def split: prod.splits if_splits)
  obtain ac where ac: "kvs_agent_cache_create (env_skip 3 (w_env w)) (global_agent_cache w) MAX_AGENT_CACHE_SIZE = (0, ac)"
    using assms(1) a1 s by (auto simp: kvs_agent_init_def Let_def split: prod.splits if_splits)
  have eq: "w' = w\<lparr>global_slaves := s, global_agent_cache := ac, w_env := env_skip 4 (w_env w)\<rparr>" "a' = a1"
    using assms(1) a1 s ac by (simp_all add: kvs_agent_init_def Let_def)
  have "ring_holds ac []" by (rule ring_create [OF ac, THEN conjunct1]) (simp add: MAX_AGENT_CACHE_SIZE_def)
  moreover have "slaves_ok s" using s assms(3) by (auto simp: kvs_slaves_create_def slaves_ok_def split: if_splits)
  moreover have "agent_wf a1"
  proof -
    obtain c where c: "kvs_agent_cache_create (env_skip 1 (w_env w)) zero_cache MAX_FULLSYNC_CACHE_SIZE = (0, c)"
      "a1 = \<lparr>ag_buf = replicate BUFFER_SIZE (char_of (junk (w_env w))), buf_cap = BUFFER_SIZE, buf_pos = 0, ag_tl = 0, ag_hl = 0,
         ag_state = KVS_SLAVE_UNKNOWN, fullsync_cache = c\<rparr>"
      using a1 by (auto simp: kvs_agent_info_init_def Let_def split: prod.splits if_splits)
    have "ring_holds c []" by (rule ring_create [OF c(1), THEN conjunct1]) (simp add: MAX_FULLSYNC_CACHE_SIZE_def)
    then show ?thesis using c(2) by (auto simp: agent_wf_def)
  qed
  ultimately show ?thesis using eq assms(2) by (auto simp: agents_wf_def world_wf_def ring_small_def)
qed





end
