(* ===== verification/Kv_Spec.thy ===== *)
theory Kv_Spec
  imports Kvs_Prelude
begin

text \<open>
  What every storage engine of lidis promises.  The four engines (array, red-black tree, hash
  table, skip list) offer the same five operations; a client sees a finite map from C strings to
  C strings and the integer result of each call.  The locale \<open>kv_engine\<close> states the contract
  under a working allocator, \<open>kv_engine_atomic\<close> adds what happens when an allocation fails.
  The parameter \<open>del_absent\<close> is the result of deleting a key that is not stored (the engines
  disagree on it), and \<open>room\<close> says when one more key fits.
\<close>

type_synonym kvmap = "string \<rightharpoonup> string"

datatype kv_op = OpSet string string | OpDel string | OpMod string string

text \<open>The effect of a write on the abstract map.\<close>

fun kv_apply :: "kv_op \<Rightarrow> kvmap \<Rightarrow> kvmap" where
  "kv_apply (OpSet k v) m = (case m k of None \<Rightarrow> m(k \<mapsto> v) | Some _ \<Rightarrow> m)"
| "kv_apply (OpDel k) m = m(k := None)"
| "kv_apply (OpMod k v) m = (case m k of None \<Rightarrow> m | Some _ \<Rightarrow> m(k \<mapsto> v))"

text \<open>Whether a write takes effect: the engines then answer 0.\<close>

fun kv_applies :: "kv_op \<Rightarrow> kvmap \<Rightarrow> bool" where
  "kv_applies (OpSet k v) m \<longleftrightarrow> m k = None"
| "kv_applies (OpDel k) m \<longleftrightarrow> m k \<noteq> None"
| "kv_applies (OpMod k v) m \<longleftrightarrow> m k \<noteq> None"

lemma kv_apply_noop: "\<not> kv_applies w m \<Longrightarrow> kv_apply w m = m"
  by (cases w) (auto simp: fun_eq_iff)

text \<open>A write as the command layer issues it to an engine with the operations \<open>eset\<close>, \<open>edel\<close>,
  \<open>emod\<close>, and a sequence of writes with the results it returns.  Every call has its own
  environment.\<close>

definition kv_write ::
  "(env \<Rightarrow> 's \<Rightarrow> string option \<Rightarrow> string option \<Rightarrow> (int \<times> 's) option) \<Rightarrow>
   ('s \<Rightarrow> string option \<Rightarrow> (int \<times> 's) option) \<Rightarrow>
   (env \<Rightarrow> 's \<Rightarrow> string option \<Rightarrow> string option \<Rightarrow> (int \<times> 's) option) \<Rightarrow>
   env \<Rightarrow> 's \<Rightarrow> kv_op \<Rightarrow> (int \<times> 's) option" where
  "kv_write eset edel emod e s w = (case w of
     OpSet k v \<Rightarrow> eset e s (Some k) (Some v)
   | OpDel k \<Rightarrow> edel s (Some k)
   | OpMod k v \<Rightarrow> emod e s (Some k) (Some v))"

fun kv_writes ::
  "(env \<Rightarrow> 's \<Rightarrow> kv_op \<Rightarrow> (int \<times> 's) option) \<Rightarrow> 's \<Rightarrow> (env \<times> kv_op) list \<Rightarrow> (int list \<times> 's) option"
where
  "kv_writes step s [] = Some ([], s)"
| "kv_writes step s ((e, w) # ws) =
     do { (r, s') \<leftarrow> step e s w; (rs, s'') \<leftarrow> kv_writes step s' ws; Some (r # rs, s'') }"

text \<open>The map after a sequence of writes, and which of them take effect.\<close>

fun kv_spec_run :: "kvmap \<Rightarrow> kv_op list \<Rightarrow> bool list \<times> kvmap" where
  "kv_spec_run m [] = ([], m)"
| "kv_spec_run m (w # ws) =
     (case kv_spec_run (kv_apply w m) ws of (bs, m') \<Rightarrow> (kv_applies w m # bs, m'))"

locale kv_engine =
  fixes invar :: "'s \<Rightarrow> bool"
    and lookup :: "'s \<Rightarrow> kvmap"
    and room :: "'s \<Rightarrow> bool"
    and del_absent :: int
    and eset :: "env \<Rightarrow> 's \<Rightarrow> string option \<Rightarrow> string option \<Rightarrow> (int \<times> 's) option"
    and eget :: "'s \<Rightarrow> string option \<Rightarrow> string option option"
    and edel :: "'s \<Rightarrow> string option \<Rightarrow> (int \<times> 's) option"
    and emod :: "env \<Rightarrow> 's \<Rightarrow> string option \<Rightarrow> string option \<Rightarrow> (int \<times> 's) option"
    and eexist :: "'s \<Rightarrow> string option \<Rightarrow> int option"
  assumes finite_lookup: "invar s \<Longrightarrow> finite (dom (lookup s))"
    and set_fresh: "invar s \<Longrightarrow> mem_ok e \<Longrightarrow> room s \<Longrightarrow> lookup s k = None \<Longrightarrow>
      \<exists>s'. eset e s (Some k) (Some v) = Some (0, s') \<and> invar s' \<and> lookup s' = (lookup s)(k \<mapsto> v)"
    and set_present: "invar s \<Longrightarrow> room s \<Longrightarrow> lookup s k = Some w \<Longrightarrow>
      eset e s (Some k) (Some v) = Some (1, s)"
    and get_lookup: "invar s \<Longrightarrow> eget s (Some k) = Some (lookup s k)"
    and del_present: "invar s \<Longrightarrow> lookup s k = Some w \<Longrightarrow>
      \<exists>s'. edel s (Some k) = Some (0, s') \<and> invar s' \<and> lookup s' = (lookup s)(k := None)"
    and del_missing: "invar s \<Longrightarrow> lookup s k = None \<Longrightarrow> edel s (Some k) = Some (del_absent, s)"
    and del_absent_ne: "del_absent \<noteq> 0"
    and mod_present: "invar s \<Longrightarrow> mem_ok e \<Longrightarrow> lookup s k = Some w \<Longrightarrow>
      \<exists>s'. emod e s (Some k) (Some v) = Some (0, s') \<and> invar s' \<and> lookup s' = (lookup s)(k \<mapsto> v)"
    and mod_missing: "invar s \<Longrightarrow> lookup s k = None \<Longrightarrow>
      \<exists>r. emod e s (Some k) (Some v) = Some (r, s) \<and> 0 < r"
    and exist_lookup: "invar s \<Longrightarrow>
      eexist s (Some k) = Some (if lookup s k = None then 1 else 0)"
begin

text \<open>Every write of a well-formed engine is defined, keeps it well-formed and has the effect
  the specification gives it; it answers 0 exactly when the map changed as asked.\<close>

lemma write_refines:
  assumes "invar s" and "mem_ok e" and "room s"
  shows "\<exists>r s'. kv_write eset edel emod e s w = Some (r, s') \<and> invar s' \<and> lookup s' = kv_apply w (lookup s) \<and>
    (r = 0 \<longleftrightarrow> kv_applies w (lookup s))"
proof (cases w)
  case (OpSet k v)
  show ?thesis
  proof (cases "lookup s k")
    case None
    with set_fresh [OF assms None, of v] None OpSet show ?thesis by (auto simp: kv_write_def)
  next
    case (Some x)
    with set_present [OF assms(1,3) Some, of e v] Some OpSet assms(1) show ?thesis
      by (auto simp: kv_write_def)
  qed
next
  case (OpDel k)
  show ?thesis
  proof (cases "lookup s k")
    case None
    then have "(lookup s)(k := None) = lookup s" by (auto simp: fun_eq_iff)
    with del_missing [OF assms(1) None] del_absent_ne OpDel assms(1) None show ?thesis
      by (auto simp: kv_write_def)
  next
    case (Some x)
    with del_present [OF assms(1) Some] Some OpDel show ?thesis by (auto simp: kv_write_def)
  qed
next
  case (OpMod k v)
  show ?thesis
  proof (cases "lookup s k")
    case None
    with mod_missing [OF assms(1) None, of e v] None OpMod assms(1) show ?thesis
      by (auto simp: kv_write_def)
  next
    case (Some x)
    with mod_present [OF assms(1,2) Some, of v] Some OpMod show ?thesis by (auto simp: kv_write_def)
  qed
qed

text \<open>In an engine that never runs out of room, a sequence of writes does what the map
  specification says: it always has a result, ends in a well-formed engine that stores the specified
  map, and the \<open>i\<close>-th answer is 0 exactly when the \<open>i\<close>-th write took effect.\<close>

lemma writes_refine:
  assumes "\<forall>s. invar s \<longrightarrow> room s" and "invar s" and "\<forall>(e, w) \<in> set ws. mem_ok e"
  shows "\<exists>rs s'. kv_writes (kv_write eset edel emod) s ws = Some (rs, s') \<and> invar s' \<and>
    kv_spec_run (lookup s) (map snd ws) = (map (\<lambda>r. r = 0) rs, lookup s')"
  using assms(2,3)
proof (induction ws arbitrary: s)
  case (Cons ew ws)
  obtain e w where ew: "ew = (e, w)" by (cases ew)
  have "mem_ok e" "room s" using Cons.prems assms(1) ew by auto
  then obtain r s1 where 1: "kv_write eset edel emod e s w = Some (r, s1)" "invar s1"
    "lookup s1 = kv_apply w (lookup s)" "r = 0 \<longleftrightarrow> kv_applies w (lookup s)"
    using write_refines [OF Cons.prems(1), of e w] by blast
  moreover obtain rs s2 where "kv_writes (kv_write eset edel emod) s1 ws = Some (rs, s2)" "invar s2"
    "kv_spec_run (lookup s1) (map snd ws) = (map (\<lambda>r. r = 0) rs, lookup s2)"
    using Cons.IH [OF 1(2)] Cons.prems(2) by auto
  ultimately show ?case using ew by auto
qed simp

lemma get_after_set:
  assumes "invar s" "mem_ok e" "room s" "lookup s k = None"
    and "eset e s (Some k) (Some v) = Some (r, s')"
  shows "eget s' (Some k') = Some (if k' = k then Some v else lookup s k')"
  using set_fresh [OF assms(1-4), of v] assms(5) by (auto simp: get_lookup)

lemma get_after_del:
  assumes "invar s" and "edel s (Some k) = Some (r, s')"
  shows "eget s' (Some k') = Some (if k' = k then None else lookup s k')"
proof (cases "lookup s k")
  case None
  with del_missing [OF assms(1) None] assms show ?thesis by (auto simp: get_lookup)
next
  case (Some w)
  with del_present [OF assms(1) Some] assms(2) show ?thesis by (auto simp: get_lookup)
qed

end

text \<open>A failed allocation leaves the engine as it was and answers \<open>-2\<close>.\<close>

locale kv_engine_atomic = kv_engine +
  assumes set_nomem: "invar s \<Longrightarrow> room s \<Longrightarrow> lookup s k = None \<Longrightarrow>
      eset e s (Some k) (Some v) = Some (r, s') \<Longrightarrow> r \<noteq> 0 \<Longrightarrow> r = -2 \<and> s' = s"
    and mod_nomem: "invar s \<Longrightarrow> lookup s k = Some w \<Longrightarrow>
      emod e s (Some k) (Some v) = Some (r, s') \<Longrightarrow> r \<noteq> 0 \<Longrightarrow> r = -2 \<and> s' = s"
begin

text \<open>Whatever the allocator does, a write that does not answer 0 changes nothing.\<close>

lemma write_all_or_nothing:
  assumes "invar s" and "room s" and "kv_write eset edel emod e s w = Some (r, s')" and "r \<noteq> 0"
  shows "s' = s"
proof (cases w)
  case (OpSet k v)
  with assms show ?thesis
    using set_present [OF assms(1,2), of k _ e v] set_nomem [OF assms(1,2), of k e v r s']
    by (cases "lookup s k") (auto simp: kv_write_def)
next
  case (OpDel k)
  with assms show ?thesis
    using del_present [OF assms(1), of k] del_missing [OF assms(1), of k]
    by (cases "lookup s k") (auto simp: kv_write_def)
next
  case (OpMod k v)
  with assms show ?thesis
    using mod_missing [OF assms(1), of k e v] mod_nomem [OF assms(1), of k _ e v r s']
    by (cases "lookup s k") (auto simp: kv_write_def)
qed

end

end
