(* ===== verification/Kvs_Array.thy ===== *)
theory Kvs_Array
  imports Kv_Spec
begin

text \<open>
  The array engine, \<^verbatim>\<open>kvs-engine/kvs_array.c\<close>: a table of \<open>KVS_ARRAY_SIZE\<close> slots searched
  linearly.  A slot is free when its key pointer is NULL.  The table is a list of slots; every loop
  of the source runs over the indices below \<open>KVS_ARRAY_SIZE\<close> and an index outside the table has no
  defined result.  The instance pointer is always the address of the static \<open>global_array\<close>, so
  the \<open>inst == NULL\<close> guards are not modelled.
\<close>

subsection \<open>Data\<close>

definition KVS_ARRAY_SIZE :: nat where "KVS_ARRAY_SIZE = 102400"

record kvs_array_item_t =
  ai_key :: "string option"
  ai_value :: "string option"

record kvs_array_t =
  table :: "kvs_array_item_t list option"
  idx :: int
  total :: int

definition array_null_item :: kvs_array_item_t where
  "array_null_item = \<lparr>ai_key = None, ai_value = None\<rparr>"

definition lget :: "'a list \<Rightarrow> nat \<Rightarrow> 'a option" where
  "lget xs i = (if i < length xs then Some (xs ! i) else None)"

subsection \<open>Operations\<close>

text \<open>The \<open>for\<close> loop every operation shares: the first index whose slot satisfies \<open>P\<close>, or
  no index when the loop runs to the end.\<close>

function array_scan ::
  "(kvs_array_item_t \<Rightarrow> bool) \<Rightarrow> kvs_array_item_t list \<Rightarrow> nat \<Rightarrow> nat option option" where
  "array_scan P t i =
     (if i < KVS_ARRAY_SIZE then
        do { it \<leftarrow> lget t i;
             if P it then Some (Some i) else array_scan P t (Suc i) }
      else Some None)"
  by pat_completeness auto
termination
  by (relation "measure (\<lambda>(P, t, i). KVS_ARRAY_SIZE - i)") auto

declare array_scan.simps [simp del]

definition array_key_is :: "string \<Rightarrow> kvs_array_item_t \<Rightarrow> bool" where
  "array_key_is key it = (case ai_key it of None \<Rightarrow> False | Some k \<Rightarrow> strcmp k key = 0)"

definition kvs_array_create ::
  "env \<Rightarrow> kvs_array_item_t list \<Rightarrow> kvs_array_t \<Rightarrow> int \<times> kvs_array_t" where
  "kvs_array_create e fresh inst =
     (if table inst \<noteq> None then (-1, inst)
      else if \<not> mem e 0 then (-1, inst)
      else (0, inst\<lparr>table := Some fresh, total := 0\<rparr>))"

fun array_free_items :: "kvs_array_item_t list \<Rightarrow> nat \<Rightarrow> nat option" where
  "array_free_items t 0 = Some 0"
| "array_free_items t (Suc n) =
     do { it \<leftarrow> lget t n;
          f \<leftarrow> array_free_items t n;
          Some (f + (if ai_key it = None then 0 else 1) + (if ai_value it = None then 0 else 1)) }"

text \<open>\<open>kvs_array_destory\<close> frees the strings of all slots (their number is returned) and the
  table.\<close>

definition kvs_array_destory :: "kvs_array_t \<Rightarrow> (nat \<times> kvs_array_t) option" where
  "kvs_array_destory inst =
     (case table inst of
        None \<Rightarrow> Some (0, inst\<lparr>table := None\<rparr>)
      | Some t \<Rightarrow> do { n \<leftarrow> array_free_items t KVS_ARRAY_SIZE;
                      Some (n, inst\<lparr>table := None\<rparr>) })"

definition kvs_array_get :: "kvs_array_t \<Rightarrow> string option \<Rightarrow> string option option" where
  "kvs_array_get inst key =
     (case key of None \<Rightarrow> Some None
      | Some k \<Rightarrow>
          do { t \<leftarrow> table inst;
               r \<leftarrow> array_scan (array_key_is k) t 0;
               (case r of Some i \<Rightarrow> Some (ai_value (t ! i)) | None \<Rightarrow> Some None) })"

definition kvs_array_set ::
  "env \<Rightarrow> kvs_array_t \<Rightarrow> string option \<Rightarrow> string option \<Rightarrow> (int \<times> kvs_array_t) option" where
  "kvs_array_set e inst key value =
     (case (key, value) of
        (Some k, Some v) \<Rightarrow>
          if total inst = int KVS_ARRAY_SIZE then Some (-1, inst)
          else do { str \<leftarrow> kvs_array_get inst (Some k);
            if str \<noteq> None then Some (1, inst)
            else if \<not> mem e 0 then Some (-2, inst)
            else if \<not> mem e 1 then Some (-2, inst)
            else do { t \<leftarrow> table inst;
              r \<leftarrow> array_scan (\<lambda>it. ai_key it = None) t 0;
              (case r of
                 Some i \<Rightarrow> Some (0, inst\<lparr>table := Some (t[i := \<lparr>ai_key = Some k, ai_value = Some v\<rparr>]),
                                        total := total inst + 1\<rparr>)
               | None \<Rightarrow> Some (0, inst)) } }
      | _ \<Rightarrow> Some (-1, inst))"

definition kvs_array_del :: "kvs_array_t \<Rightarrow> string option \<Rightarrow> (int \<times> kvs_array_t) option" where
  "kvs_array_del inst key =
     (case key of None \<Rightarrow> Some (-1, inst)
      | Some k \<Rightarrow>
          do { t \<leftarrow> table inst;
               r \<leftarrow> array_scan (array_key_is k) t 0;
               (case r of
                  Some i \<Rightarrow> Some (0, inst\<lparr>table := Some (t[i := array_null_item]),
                                         total := total inst - 1\<rparr>)
                | None \<Rightarrow> Some (int KVS_ARRAY_SIZE, inst)) })"

definition kvs_array_mod ::
  "env \<Rightarrow> kvs_array_t \<Rightarrow> string option \<Rightarrow> string option \<Rightarrow> (int \<times> kvs_array_t) option" where
  "kvs_array_mod e inst key value =
     (case (key, value) of
        (Some k, Some v) \<Rightarrow>
          if total inst = 0 then Some (int KVS_ARRAY_SIZE, inst)
          else do { t \<leftarrow> table inst;
            r \<leftarrow> array_scan (array_key_is k) t 0;
            (case r of
               Some i \<Rightarrow> if \<not> mem e 0 then Some (-2, inst)
                         else Some (0, inst\<lparr>table := Some (t[i := (t ! i)\<lparr>ai_value := Some v\<rparr>])\<rparr>)
             | None \<Rightarrow> Some (int KVS_ARRAY_SIZE, inst)) }
      | _ \<Rightarrow> Some (-1, inst))"

definition kvs_array_exist :: "kvs_array_t \<Rightarrow> string option \<Rightarrow> int option" where
  "kvs_array_exist inst key =
     (if key = None then Some (-1)
      else do { str \<leftarrow> kvs_array_get inst key;
                Some (if str = None then 1 else 0) })"

subsection \<open>The stored map and the invariant\<close>

definition array_entry :: "kvs_array_item_t \<Rightarrow> (string \<times> string) option" where
  "array_entry it = (case (ai_key it, ai_value it) of (Some k, Some v) \<Rightarrow> Some (k, v) | _ \<Rightarrow> None)"

definition array_entries :: "kvs_array_item_t list \<Rightarrow> (string \<times> string) list" where
  "array_entries t = List.map_filter array_entry t"

definition array_lookup :: "kvs_array_t \<Rightarrow> kvmap" where
  "array_lookup inst = (case table inst of None \<Rightarrow> Map.empty | Some t \<Rightarrow> map_of (array_entries t))"

definition array_invar :: "kvs_array_t \<Rightarrow> bool" where
  "array_invar inst = (case table inst of None \<Rightarrow> False | Some t \<Rightarrow>
     length t = KVS_ARRAY_SIZE
     \<and> list_all (\<lambda>it. ai_key it = None \<longleftrightarrow> ai_value it = None) t
     \<and> distinct (map fst (array_entries t))
     \<and> total inst = int (length (array_entries t)))"

definition array_room :: "kvs_array_t \<Rightarrow> bool" where
  "array_room inst \<longleftrightarrow> total inst < int KVS_ARRAY_SIZE"

subsection \<open>Lemmas on the loop and on the slots\<close>

lemma array_scan_total:
  assumes "length t = KVS_ARRAY_SIZE"
  shows "\<exists>r. array_scan P t i = Some r \<and>
    (case r of Some j \<Rightarrow> i \<le> j \<and> j < KVS_ARRAY_SIZE \<and> P (t ! j)
     | None \<Rightarrow> \<forall>j. i \<le> j \<and> j < KVS_ARRAY_SIZE \<longrightarrow> \<not> P (t ! j))"
  using assms
proof (induction P t i rule: array_scan.induct)
  case (1 P t i)
  show ?case
  proof (cases "i < KVS_ARRAY_SIZE \<and> \<not> P (t ! i)")
    case True
    then have eq: "array_scan P t i = array_scan P t (Suc i)"
      using "1.prems" by (simp add: array_scan.simps [of P t i] lget_def)
    have "lget t i = Some (t ! i)" using True "1.prems" by (simp add: lget_def)
    with 1 True obtain r where r: "array_scan P t (Suc i) = Some r"
      "case r of Some j \<Rightarrow> Suc i \<le> j \<and> j < KVS_ARRAY_SIZE \<and> P (t ! j)
       | None \<Rightarrow> \<forall>j. Suc i \<le> j \<and> j < KVS_ARRAY_SIZE \<longrightarrow> \<not> P (t ! j)" by blast
    have step: "\<not> P (t ! j)" if "r = None" "i \<le> j" "j < KVS_ARRAY_SIZE" for j
      using r(2) True that by (cases "j = i") auto
    show ?thesis using r step by (cases r) (auto simp: eq)
  next
    case False
    then show ?thesis using "1.prems" by (auto simp: array_scan.simps [of P t i] lget_def)
  qed
qed

lemma array_scan_cases:
  assumes "length t = KVS_ARRAY_SIZE"
  obtains (found) j where "array_scan P t 0 = Some (Some j)" "j < length t" "P (t ! j)"
  | (none) "array_scan P t 0 = Some None" "\<forall>it \<in> set t. \<not> P it"
proof -
  obtain r where r: "array_scan P t 0 = Some r"
    "case r of Some j \<Rightarrow> 0 \<le> j \<and> j < KVS_ARRAY_SIZE \<and> P (t ! j)
     | None \<Rightarrow> \<forall>j. 0 \<le> j \<and> j < KVS_ARRAY_SIZE \<longrightarrow> \<not> P (t ! j)"
    using array_scan_total [OF assms] by blast
  show thesis
  proof (cases r)
    case None
    then have "\<forall>it \<in> set t. \<not> P it" using r(2) assms by (auto simp: in_set_conv_nth)
    then show ?thesis using r(1) None that(2) by simp
  next
    case (Some j)
    then show ?thesis using r assms that(1) by simp
  qed
qed

lemma array_entries_append [simp]: "array_entries (xs @ ys) = array_entries xs @ array_entries ys"
  by (simp add: array_entries_def List.map_filter_def)

lemma array_entries_Nil [simp]: "array_entries [] = []"
  by (simp add: array_entries_def List.map_filter_def)

lemma array_entries_Cons [simp]: "array_entries (it # ys) =
    (case array_entry it of None \<Rightarrow> [] | Some kv \<Rightarrow> [kv]) @ array_entries ys"
  by (simp add: array_entries_def List.map_filter_def split: option.splits)

lemma array_entry_make [simp]: "array_entry \<lparr>ai_key = Some k, ai_value = Some v\<rparr> = Some (k, v)"
  by (simp add: array_entry_def)

lemma array_entry_null [simp]: "array_entry array_null_item = None"
  by (simp add: array_entry_def array_null_item_def)

lemma array_entry_free: "ai_key it = None \<Longrightarrow> array_entry it = None"
  by (simp add: array_entry_def)

lemma array_entry_Some: "array_entry it = Some (k, v) \<longleftrightarrow> ai_key it = Some k \<and> ai_value it = Some v"
  by (auto simp: array_entry_def split: option.splits)

lemma array_key_is_Some: "array_key_is k it \<longleftrightarrow> ai_key it = Some k"
  by (auto simp: array_key_is_def split: option.splits)

text \<open>The entries around one slot.\<close>

lemma array_entries_split:
  assumes "i < length t"
  obtains xs ys where "array_entries t = xs @ (case array_entry (t ! i) of None \<Rightarrow> [] | Some kv \<Rightarrow> [kv]) @ ys"
    and "\<And>it. array_entries (t[i := it]) = xs @ (case array_entry it of None \<Rightarrow> [] | Some kv \<Rightarrow> [kv]) @ ys"
proof
  show "array_entries t = array_entries (take i t) @
      (case array_entry (t ! i) of None \<Rightarrow> [] | Some kv \<Rightarrow> [kv]) @ array_entries (drop (Suc i) t)"
    using arg_cong [OF id_take_nth_drop [OF assms], of array_entries] by simp
  show "array_entries (t[i := it]) = array_entries (take i t) @
      (case array_entry it of None \<Rightarrow> [] | Some kv \<Rightarrow> [kv]) @ array_entries (drop (Suc i) t)" for it
    using arg_cong [OF upd_conv_take_nth_drop [OF assms, of it], of array_entries] by simp
qed

lemma array_invarE:
  assumes "array_invar inst"
  obtains t where "table inst = Some t" "length t = KVS_ARRAY_SIZE"
    "\<And>it. it \<in> set t \<Longrightarrow> ai_key it = None \<longleftrightarrow> ai_value it = None"
    "distinct (map fst (array_entries t))" "total inst = int (length (array_entries t))"
    "array_lookup inst = map_of (array_entries t)"
  using assms that
  by (auto simp: array_invar_def array_lookup_def list_all_iff split: option.splits)

lemma array_invarI:
  assumes "table inst = Some t" "length t = KVS_ARRAY_SIZE"
    "\<And>it. it \<in> set t \<Longrightarrow> ai_key it = None \<longleftrightarrow> ai_value it = None"
    "distinct (map fst (array_entries t))" "total inst = int (length (array_entries t))"
  shows "array_invar inst" "array_lookup inst = map_of (array_entries t)"
  using assms by (auto simp: array_invar_def array_lookup_def list_all_iff)

lemma array_key_in_entries:
  assumes "it \<in> set t" "ai_key it = Some k" "ai_value it = Some v"
  shows "(k, v) \<in> set (array_entries t)"
proof -
  obtain xs ys where "t = xs @ it # ys" using assms(1) by (meson split_list)
  with assms show ?thesis by (simp add: array_entry_def)
qed

lemma array_entries_lookup_None:
  assumes "\<forall>it \<in> set t. ai_key it \<noteq> Some k"
  shows "map_of (array_entries t) k = None"
  using assms by (induction t) (auto simp: array_entry_def split: option.splits)

lemma array_entries_length: "length (array_entries t) \<le> length t"
  by (induction t) (auto split: option.splits)

lemma array_entries_full:
  assumes "\<forall>it \<in> set t. ai_key it \<noteq> None" "\<And>it. it \<in> set t \<Longrightarrow> ai_key it = None \<longleftrightarrow> ai_value it = None"
  shows "length (array_entries t) = length t"
  using assms by (induction t) (auto simp: array_entry_def split: option.splits)

subsection \<open>Each operation against the stored map\<close>

lemma kvs_array_get_lookup:
  assumes "array_invar inst"
  shows "kvs_array_get inst (Some k) = Some (array_lookup inst k)"
proof -
  obtain t where t: "table inst = Some t" "length t = KVS_ARRAY_SIZE"
    "\<And>it. it \<in> set t \<Longrightarrow> ai_key it = None \<longleftrightarrow> ai_value it = None"
    "distinct (map fst (array_entries t))"
    "array_lookup inst = map_of (array_entries t)" using assms by (elim array_invarE) blast
  from t(2) show ?thesis
  proof (cases rule: array_scan_cases [where P = "array_key_is k"])
    case (found j)
    then have k: "ai_key (t ! j) = Some k" by (simp add: array_key_is_Some)
    then obtain v where v: "ai_value (t ! j) = Some v" using t(3) [of "t ! j"] found(2) by auto
    then have "(k, v) \<in> set (array_entries t)"
      using array_key_in_entries found(2) k nth_mem by metis
    then show ?thesis using t found v by (simp add: kvs_array_get_def map_of_eq_Some_iff)
  next
    case none
    then have "map_of (array_entries t) k = None"
      by (intro array_entries_lookup_None) (simp add: array_key_is_Some)
    then show ?thesis using t none by (simp add: kvs_array_get_def)
  qed
qed

lemma kvs_array_set_fresh:
  assumes inv: "array_invar inst" and "mem_ok e" "array_room inst" "array_lookup inst k = None"
  shows "\<exists>inst'. kvs_array_set e inst (Some k) (Some v) = Some (0, inst') \<and>
    array_invar inst' \<and> array_lookup inst' = (array_lookup inst)(k \<mapsto> v)"
proof -
  obtain t where t: "table inst = Some t" "length t = KVS_ARRAY_SIZE"
    "\<And>it. it \<in> set t \<Longrightarrow> ai_key it = None \<longleftrightarrow> ai_value it = None"
    "distinct (map fst (array_entries t))" "total inst = int (length (array_entries t))"
    "array_lookup inst = map_of (array_entries t)" using inv by (elim array_invarE) blast
  from t(2) show ?thesis
  proof (cases rule: array_scan_cases [where P = "\<lambda>it. ai_key it = None"])
    case (found j)
    let ?new = "\<lparr>ai_key = Some k, ai_value = Some v\<rparr>"
    let ?inst' = "inst\<lparr>table := Some (t[j := ?new]), total := total inst + 1\<rparr>"
    obtain xs ys where e: "array_entries t = xs @ ys"
      "array_entries (t[j := ?new]) = xs @ (k, v) # ys"
      using array_entries_split [OF found(2)] found(3) array_entry_free
      by (metis array_entry_make append_Cons append_Nil option.simps(4,5))
    have fresh: "k \<notin> fst ` set xs" "k \<notin> fst ` set ys"
      using assms(4) t(6) e(1) by (auto simp: map_of_eq_None_iff)
    have d: "distinct (map fst (xs @ (k, v) # ys))" using t(4) e(1) fresh by auto
    have "array_invar ?inst'" "array_lookup ?inst' = map_of (xs @ (k, v) # ys)"
      using t e d set_update_subset_insert [of t j ?new]
      by (auto intro!: array_invarI(1) simp: array_lookup_def split: option.splits)
    moreover have "map_of (xs @ (k, v) # ys) = (map_of (xs @ ys))(k \<mapsto> v)"
      using fresh by (rule_tac map_of_insert_mid)
    moreover have "kvs_array_set e inst (Some k) (Some v) = Some (0, ?inst')"
      using kvs_array_get_lookup [OF inv] assms t found by (simp add: kvs_array_set_def array_room_def)
    ultimately show ?thesis using t(6) e(1) by simp
  next
    case none
    then have "length (array_entries t) = KVS_ARRAY_SIZE"
      using array_entries_full [of t] t(2,3) by simp
    with t(5) assms(3) show ?thesis by (simp add: array_room_def)
  qed
qed

text \<open>The slot that holds a stored key.\<close>

lemma array_slot_of:
  assumes "array_invar inst" "array_lookup inst k = Some w"
  obtains t j xs ys where "table inst = Some t" "length t = KVS_ARRAY_SIZE"
    "array_scan (array_key_is k) t 0 = Some (Some j)" "j < length t"
    "ai_key (t ! j) = Some k" "array_entries t = xs @ (k, w) # ys"
    "\<forall>it. array_entries (t[j := it]) = xs @ (case array_entry it of None \<Rightarrow> [] | Some kv \<Rightarrow> [kv]) @ ys"
    "distinct (map fst (xs @ (k, w) # ys))" "total inst = int (length (xs @ (k, w) # ys))"
    "array_lookup inst = map_of (xs @ (k, w) # ys)"
proof -
  obtain t where t: "table inst = Some t" "length t = KVS_ARRAY_SIZE"
    "\<And>it. it \<in> set t \<Longrightarrow> ai_key it = None \<longleftrightarrow> ai_value it = None"
    "distinct (map fst (array_entries t))" "total inst = int (length (array_entries t))"
    "array_lookup inst = map_of (array_entries t)" using assms(1) by (elim array_invarE) blast
  from t(2) show thesis
  proof (cases rule: array_scan_cases [where P = "array_key_is k"])
    case (found j)
    then have k: "ai_key (t ! j) = Some k" by (simp add: array_key_is_Some)
    then obtain v where v: "ai_value (t ! j) = Some v" using t(3) [of "t ! j"] found(2) by auto
    then have "(k, v) \<in> set (array_entries t)"
      using array_key_in_entries found(2) k nth_mem by metis
    then have "v = w" using t(4,6) assms(2) by (simp add: map_of_eq_Some_iff)
    then have ent: "array_entry (t ! j) = Some (k, w)" using k v by (simp add: array_entry_Some)
    obtain xs ys where
      e: "array_entries t = xs @ (case array_entry (t ! j) of None \<Rightarrow> [] | Some kv \<Rightarrow> [kv]) @ ys"
      "\<And>it. array_entries (t[j := it]) = xs @ (case array_entry it of None \<Rightarrow> [] | Some kv \<Rightarrow> [kv]) @ ys"
      using array_entries_split [OF found(2)] by blast
    have e': "array_entries t = xs @ (k, w) # ys" using e(1) ent by simp
    show ?thesis
      by (rule that [OF t(1,2) found(1,2) k e']) (use t(4-6) e' e(2) in simp_all)
  next
    case none
    then have "map_of (array_entries t) k = None"
      by (intro array_entries_lookup_None) (simp add: array_key_is_Some)
    then show ?thesis using t(6) assms(2) by simp
  qed
qed

lemma array_scan_missing:
  assumes "array_invar inst" "array_lookup inst k = None"
  obtains t where "table inst = Some t" "array_scan (array_key_is k) t 0 = Some None"
proof -
  obtain t where t: "table inst = Some t" "length t = KVS_ARRAY_SIZE"
    "\<And>it. it \<in> set t \<Longrightarrow> ai_key it = None \<longleftrightarrow> ai_value it = None"
    "array_lookup inst = map_of (array_entries t)" using assms(1) by (elim array_invarE) blast
  from t(2) show thesis
  proof (cases rule: array_scan_cases [where P = "array_key_is k"])
    case (found j)
    then have k: "ai_key (t ! j) = Some k" by (simp add: array_key_is_Some)
    then obtain v where v: "ai_value (t ! j) = Some v" using t(3) [of "t ! j"] found(2) by auto
    then have "(k, v) \<in> set (array_entries t)"
      using array_key_in_entries found(2) k nth_mem by metis
    then have "map_of (array_entries t) k \<noteq> None" by (metis weak_map_of_SomeI not_None_eq)
    then show ?thesis using t(4) assms(2) by simp
  next
    case none
    then show ?thesis using t(1) that by simp
  qed
qed

text \<open>Writing a well-formed slot back keeps the shape of the table.\<close>

lemma array_update_invar:
  assumes "array_invar inst" "table inst = Some t" "array_entries (t[j := it]) = es"
    "ai_key it = None \<longleftrightarrow> ai_value it = None" "distinct (map fst es)"
    "table inst' = Some (t[j := it])" "total inst' = int (length es)"
  shows "array_invar inst'" and "array_lookup inst' = map_of es"
  using assms set_update_subset_insert [of t j it]
  by (auto simp: array_invar_def array_lookup_def list_all_iff)

lemma kvs_array_del_present:
  assumes "array_invar inst" "array_lookup inst k = Some w"
  shows "\<exists>inst'. kvs_array_del inst (Some k) = Some (0, inst') \<and>
    array_invar inst' \<and> array_lookup inst' = (array_lookup inst)(k := None)"
proof -
  from assms(1) assms(2) obtain t j xs ys where t: "table inst = Some t" "length t = KVS_ARRAY_SIZE"
    "array_scan (array_key_is k) t 0 = Some (Some j)" "j < length t"
    "ai_key (t ! j) = Some k" "array_entries t = xs @ (k, w) # ys"
    "\<forall>it. array_entries (t[j := it]) = xs @ (case array_entry it of None \<Rightarrow> [] | Some kv \<Rightarrow> [kv]) @ ys"
    "distinct (map fst (xs @ (k, w) # ys))" "total inst = int (length (xs @ (k, w) # ys))"
    "array_lookup inst = map_of (xs @ (k, w) # ys)" by (rule array_slot_of)
  let ?inst' = "inst\<lparr>table := Some (t[j := array_null_item]), total := total inst - 1\<rparr>"
  have e: "array_entries (t[j := array_null_item]) = xs @ ys" using t(7) by simp
  have "array_invar ?inst'" and "array_lookup ?inst' = map_of (xs @ ys)"
    by (rule array_update_invar [OF assms(1) t(1) e]; use t(8,9) in \<open>simp add: array_null_item_def\<close>)+
  moreover have "kvs_array_del inst (Some k) = Some (0, ?inst')"
    using t(1,3) by (simp add: kvs_array_del_def)
  ultimately show ?thesis using t(10) map_of_delete_mid [OF t(8)] by metis
qed

lemma kvs_array_mod_present:
  assumes "array_invar inst" "mem_ok e" "array_lookup inst k = Some w"
  shows "\<exists>inst'. kvs_array_mod e inst (Some k) (Some v) = Some (0, inst') \<and>
    array_invar inst' \<and> array_lookup inst' = (array_lookup inst)(k \<mapsto> v)"
proof -
  from assms(1) assms(3) obtain t j xs ys where t: "table inst = Some t" "length t = KVS_ARRAY_SIZE"
    "array_scan (array_key_is k) t 0 = Some (Some j)" "j < length t"
    "ai_key (t ! j) = Some k" "array_entries t = xs @ (k, w) # ys"
    "\<forall>it. array_entries (t[j := it]) = xs @ (case array_entry it of None \<Rightarrow> [] | Some kv \<Rightarrow> [kv]) @ ys"
    "distinct (map fst (xs @ (k, w) # ys))" "total inst = int (length (xs @ (k, w) # ys))"
    "array_lookup inst = map_of (xs @ (k, w) # ys)" by (rule array_slot_of)
  let ?it = "(t ! j)\<lparr>ai_value := Some v\<rparr>"
  let ?inst' = "inst\<lparr>table := Some (t[j := ?it])\<rparr>"
  have e: "array_entries (t[j := ?it]) = xs @ (k, v) # ys"
    using t(5,7) by (simp add: array_entry_def)
  have d: "distinct (map fst (xs @ (k, v) # ys))" "k \<notin> fst ` set xs" using t(8) by auto
  have "array_invar ?inst'" and "array_lookup ?inst' = map_of (xs @ (k, v) # ys)"
    by (rule array_update_invar [OF assms(1) t(1) e]; use t(5,9) d in simp)+
  moreover have "kvs_array_mod e inst (Some k) (Some v) = Some (0, ?inst')"
    using t(1,3,9) assms(2) by (simp add: kvs_array_mod_def)
  ultimately show ?thesis using t(10) map_of_update_mid [OF d(2)] by metis
qed

lemma kvs_array_mod_missing:
  assumes "array_invar inst" "array_lookup inst k = None"
  shows "kvs_array_mod e inst (Some k) (Some v) = Some (int KVS_ARRAY_SIZE, inst)"
proof -
  from assms obtain t where "table inst = Some t" "array_scan (array_key_is k) t 0 = Some None"
    by (rule array_scan_missing)
  then show ?thesis by (simp add: kvs_array_mod_def)
qed

lemma kvs_array_set_nomem:
  assumes "array_invar inst" "array_room inst" "array_lookup inst k = None"
    "kvs_array_set e inst (Some k) (Some v) = Some (r, inst')" "r \<noteq> 0"
  shows "r = -2 \<and> inst' = inst"
proof (cases "mem e 0 \<and> mem e 1")
  case True
  obtain t where t: "table inst = Some t" "length t = KVS_ARRAY_SIZE"
    using assms(1) by (elim array_invarE) blast
  from t(2) show ?thesis
    by (cases rule: array_scan_cases [where P = "\<lambda>it. ai_key it = None"])
      (use t True assms kvs_array_get_lookup [OF assms(1), of k] in
        \<open>simp_all add: kvs_array_set_def array_room_def\<close>)
next
  case False
  then show ?thesis using assms kvs_array_get_lookup [OF assms(1), of k]
    by (simp add: kvs_array_set_def array_room_def split: if_splits)
qed

lemma kvs_array_mod_nomem:
  assumes "array_invar inst" "array_lookup inst k = Some w"
    "kvs_array_mod e inst (Some k) (Some v) = Some (r, inst')" "r \<noteq> 0"
  shows "r = -2 \<and> inst' = inst"
proof -
  from assms(1) assms(2) obtain t j xs ys where t: "table inst = Some t" "length t = KVS_ARRAY_SIZE"
    "array_scan (array_key_is k) t 0 = Some (Some j)" "j < length t"
    "ai_key (t ! j) = Some k" "array_entries t = xs @ (k, w) # ys"
    "\<forall>it. array_entries (t[j := it]) = xs @ (case array_entry it of None \<Rightarrow> [] | Some kv \<Rightarrow> [kv]) @ ys"
    "distinct (map fst (xs @ (k, w) # ys))" "total inst = int (length (xs @ (k, w) # ys))"
    "array_lookup inst = map_of (xs @ (k, w) # ys)" by (rule array_slot_of)
  then show ?thesis using assms(3,4) t(1,3,9) by (simp add: kvs_array_mod_def split: if_splits)
qed

lemma array_lookup_finite: "finite (dom (array_lookup inst))"
  by (simp add: array_lookup_def finite_dom_map_of split: option.splits)

interpretation arr: kv_engine_atomic array_invar array_lookup array_room "int KVS_ARRAY_SIZE"
    kvs_array_set kvs_array_get kvs_array_del kvs_array_mod kvs_array_exist
proof (unfold_locales, goal_cases)
  case 1 show ?case by (rule array_lookup_finite)
next
  case (2 s e k v) then show ?case by (rule kvs_array_set_fresh)
next
  case (3 s k w e v) then show ?case
    by (simp add: kvs_array_set_def kvs_array_get_lookup array_room_def)
next
  case (4 s k) then show ?case by (rule kvs_array_get_lookup)
next
  case (5 s k w) then show ?case by (rule kvs_array_del_present)
next
  case (6 s k) then show ?case
    by (auto elim!: array_scan_missing simp: kvs_array_del_def)
next
  case 7 show ?case by (simp add: KVS_ARRAY_SIZE_def)
next
  case (8 s e k w v) then show ?case by (rule kvs_array_mod_present)
next
  case (9 s k e v) then show ?case by (simp add: kvs_array_mod_missing KVS_ARRAY_SIZE_def)
next
  case (10 s k) then show ?case by (simp add: kvs_array_exist_def kvs_array_get_lookup)
next
  case (11 s k e v r s') then show ?case by (blast dest: kvs_array_set_nomem)
next
  case (12 s k w e v r s') then show ?case by (blast dest: kvs_array_mod_nomem)
qed

subsection \<open>Creation and destruction\<close>

lemma array_entries_replicate_null [simp]: "array_entries (replicate n array_null_item) = []"
  by (induction n) simp_all

lemma kvs_array_create_ok:
  assumes "mem e 0" "table inst = None" "fresh = replicate KVS_ARRAY_SIZE array_null_item"
  shows "\<exists>inst'. kvs_array_create e fresh inst = (0, inst') \<and> array_invar inst' \<and>
    array_lookup inst' = Map.empty \<and> array_room inst'"
proof -
  have "(ai_key array_null_item = None) = (ai_value array_null_item = None)" "0 < KVS_ARRAY_SIZE"
    by (simp_all add: array_null_item_def KVS_ARRAY_SIZE_def)
  then show ?thesis
    using assms by (simp add: kvs_array_create_def array_invar_def array_lookup_def array_room_def
        list_all_iff)
qed

subsection \<open>Properties\<close>

text \<open>An array right after creation over zero memory.\<close>

definition array0 :: kvs_array_t where
  "array0 = \<lparr>table = Some (replicate KVS_ARRAY_SIZE array_null_item), idx = 0, total = 0\<rparr>"

lemma array0_ok: "array_invar array0" "array_room array0" "array_lookup array0 = Map.empty"
  using kvs_array_create_ok [of env0 "\<lparr>table = None, idx = 0, total = 0\<rparr>"]
  by (auto simp: kvs_array_create_def array0_def env0_def)

text \<open>C11: On a well-formed array with a free slot, every SET, DEL and MOD is defined, keeps the
  array well-formed, has the effect of the map specification, and answers 0 exactly when the write
  took effect; afterwards GET and EXIST of every key agree with the map.\<close>

theorem array_write_refines:
  assumes "array_invar inst" and "array_room inst" and "mem_ok e"
  shows "\<exists>r inst'. kv_write kvs_array_set kvs_array_del kvs_array_mod e inst w = Some (r, inst')
    \<and> array_invar inst' \<and> array_lookup inst' = kv_apply w (array_lookup inst)
    \<and> (r = 0) = kv_applies w (array_lookup inst)
    \<and> kvs_array_get inst' (Some k) = Some (array_lookup inst' k)
    \<and> kvs_array_exist inst' (Some k) = Some (if array_lookup inst' k = None then 1 else 0)"
  using arr.write_refines [OF assms(1,3,2), of w] arr.get_lookup arr.exist_lookup by blast

theorem array_write_refines_witness:
  "\<exists>inst'. kv_write kvs_array_set kvs_array_del kvs_array_mod env0 array0 (OpSet ''k'' ''v'') = Some (0, inst')
     \<and> kvs_array_get inst' (Some ''k'') = Some (Some ''v'')"
  using array_write_refines [OF array0_ok(1,2) mem_ok_env0, of "OpSet ''k'' ''v''" "''k''"]
  by (auto simp: array0_ok)

text \<open>C24: Whichever allocations fail, a SET, DEL or MOD on a well-formed array with room that
  does not answer 0 leaves the array exactly as it was.\<close>

theorem array_write_atomic:
  assumes "array_invar inst" and "array_room inst"
    and "kv_write kvs_array_set kvs_array_del kvs_array_mod e inst w = Some (r, inst')" and "r \<noteq> 0"
  shows "inst' = inst"
  by (rule arr.write_all_or_nothing [OF assms])

theorem array_write_atomic_witness:
  "\<exists>r inst'. kv_write kvs_array_set kvs_array_del kvs_array_mod
       \<lparr>mem = (\<lambda>i. i < 1), rnd = (\<lambda>_. 0), junk = 0\<rparr> array0 (OpSet ''k'' ''v'') = Some (r, inst')
     \<and> r \<noteq> 0 \<and> inst' = array0"
proof -
  let ?e = "\<lparr>mem = (\<lambda>i. i < 1), rnd = (\<lambda>_. 0), junk = 0\<rparr>"
  have "KVS_ARRAY_SIZE \<noteq> 0" by (simp add: KVS_ARRAY_SIZE_def)
  then have "kv_write kvs_array_set kvs_array_del kvs_array_mod ?e array0 (OpSet ''k'' ''v'')
      = Some (-2, array0)"
    using kvs_array_get_lookup [OF array0_ok(1)]
    by (simp add: kv_write_def kvs_array_set_def array0_ok) (simp add: array0_def)
  with array_write_atomic [OF array0_ok(1,2) this] show ?thesis by auto
qed

end
