(* ===== verification/Xxhash.thy ===== *)
theory Xxhash
  imports Kvs_Prelude
begin

text \<open>
  The hash function behind the hash engine: \<open>XXH3_64bits\<close> of \<open>src/kvs-engine/xxhash.h\<close>, which
  \<open>kvs_hash.c\<close> includes with \<open>XXH_INLINE_ALL\<close>.  The portable scalar code is modelled for every
  input length (0 to 16, 17 to 128, 129 to 240, longer), at the width of the machine words; the
  vectorised variants of the long path compute the same value and are not modelled.

  Input and secret are byte lists and every load checks its bounds: a load outside the buffer
  makes the whole hash \<open>None\<close>.  The main results are that the hash of every input is defined (no
  load ever leaves the key or the secret), and that the hand-written 64x64 to 128 bit
  multiplication is the full product.
\<close>

unbundle bit_operations_syntax

type_synonym u32 = "32 word"
type_synonym u64 = "64 word"
type_synonym bytes = "nat list"

subsection \<open>Constants\<close>

definition XXH_PRIME32_1 :: u64 where "XXH_PRIME32_1 = 0x9E3779B1"
definition XXH_PRIME32_2 :: u64 where "XXH_PRIME32_2 = 0x85EBCA77"
definition XXH_PRIME32_3 :: u64 where "XXH_PRIME32_3 = 0xC2B2AE3D"
definition XXH_PRIME64_1 :: u64 where "XXH_PRIME64_1 = 0x9E3779B185EBCA87"
definition XXH_PRIME64_2 :: u64 where "XXH_PRIME64_2 = 0xC2B2AE3D27D4EB4F"
definition XXH_PRIME64_3 :: u64 where "XXH_PRIME64_3 = 0x165667B19E3779F9"
definition XXH_PRIME64_4 :: u64 where "XXH_PRIME64_4 = 0x85EBCA77C2B2AE63"
definition XXH_PRIME64_5 :: u64 where "XXH_PRIME64_5 = 0x27D4EB2F165667C5"
definition PRIME_MX1 :: u64 where "PRIME_MX1 = 0x165667919E3779F9"
definition PRIME_MX2 :: u64 where "PRIME_MX2 = 0x9FB21C651E98DF25"

definition XXH3_kSecret :: bytes where
  "XXH3_kSecret = [
   0xb8, 0xfe, 0x6c, 0x39, 0x23, 0xa4, 0x4b, 0xbe, 0x7c, 0x01, 0x81, 0x2c, 0xf7, 0x21, 0xad, 0x1c,
   0xde, 0xd4, 0x6d, 0xe9, 0x83, 0x90, 0x97, 0xdb, 0x72, 0x40, 0xa4, 0xa4, 0xb7, 0xb3, 0x67, 0x1f,
   0xcb, 0x79, 0xe6, 0x4e, 0xcc, 0xc0, 0xe5, 0x78, 0x82, 0x5a, 0xd0, 0x7d, 0xcc, 0xff, 0x72, 0x21,
   0xb8, 0x08, 0x46, 0x74, 0xf7, 0x43, 0x24, 0x8e, 0xe0, 0x35, 0x90, 0xe6, 0x81, 0x3a, 0x26, 0x4c,
   0x3c, 0x28, 0x52, 0xbb, 0x91, 0xc3, 0x00, 0xcb, 0x88, 0xd0, 0x65, 0x8b, 0x1b, 0x53, 0x2e, 0xa3,
   0x71, 0x64, 0x48, 0x97, 0xa2, 0x0d, 0xf9, 0x4e, 0x38, 0x19, 0xef, 0x46, 0xa9, 0xde, 0xac, 0xd8,
   0xa8, 0xfa, 0x76, 0x3f, 0xe3, 0x9c, 0x34, 0x3f, 0xf9, 0xdc, 0xbb, 0xc7, 0xc7, 0x0b, 0x4f, 0x1d,
   0x8a, 0x51, 0xe0, 0x4b, 0xcd, 0xb4, 0x59, 0x31, 0xc8, 0x9f, 0x7e, 0xc9, 0xd9, 0x78, 0x73, 0x64,
   0xea, 0xc5, 0xac, 0x83, 0x34, 0xd3, 0xeb, 0xc3, 0xc5, 0x81, 0xa0, 0xff, 0xfa, 0x13, 0x63, 0xeb,
   0x17, 0x0d, 0xdd, 0x51, 0xb7, 0xf0, 0xda, 0x49, 0xd3, 0x16, 0x55, 0x26, 0x29, 0xd4, 0x68, 0x9e,
   0x2b, 0x16, 0xbe, 0x58, 0x7d, 0x47, 0xa1, 0xfc, 0x8f, 0xf8, 0xb8, 0xd1, 0x7a, 0xd0, 0x31, 0xce,
   0x45, 0xcb, 0x3a, 0x8f, 0x95, 0x16, 0x04, 0x28, 0xaf, 0xd7, 0xfb, 0xca, 0xbb, 0x4b, 0x40, 0x7e]"

definition XXH3_SECRET_SIZE_MIN :: nat where "XXH3_SECRET_SIZE_MIN = 136"
definition XXH3_MIDSIZE_MAX :: nat where "XXH3_MIDSIZE_MAX = 240"
definition XXH3_MIDSIZE_STARTOFFSET :: nat where "XXH3_MIDSIZE_STARTOFFSET = 3"
definition XXH3_MIDSIZE_LASTOFFSET :: nat where "XXH3_MIDSIZE_LASTOFFSET = 17"
definition XXH_STRIPE_LEN :: nat where "XXH_STRIPE_LEN = 64"
definition XXH_SECRET_CONSUME_RATE :: nat where "XXH_SECRET_CONSUME_RATE = 8"
definition XXH_ACC_NB :: nat where "XXH_ACC_NB = 8"
definition XXH_SECRET_LASTACC_START :: nat where "XXH_SECRET_LASTACC_START = 7"
definition XXH_SECRET_MERGEACCS_START :: nat where "XXH_SECRET_MERGEACCS_START = 11"

lemmas xxh_sizes = XXH3_SECRET_SIZE_MIN_def XXH3_MIDSIZE_MAX_def XXH3_MIDSIZE_STARTOFFSET_def
  XXH3_MIDSIZE_LASTOFFSET_def XXH_STRIPE_LEN_def XXH_SECRET_CONSUME_RATE_def XXH_ACC_NB_def
  XXH_SECRET_LASTACC_START_def XXH_SECRET_MERGEACCS_START_def

subsection \<open>Loads\<close>

definition xxh_byte :: "bytes \<Rightarrow> nat \<Rightarrow> nat option" where
  "xxh_byte b i = (if i < length b then Some (b ! i) else None)"

definition XXH_readLE32 :: "bytes \<Rightarrow> nat \<Rightarrow> u32 option" where
  "XXH_readLE32 b i =
     (if i + 4 \<le> length b
      then Some (foldr (\<lambda>x a. of_nat x OR push_bit 8 a) (take 4 (drop i b)) 0) else None)"

definition XXH_readLE64 :: "bytes \<Rightarrow> nat \<Rightarrow> u64 option" where
  "XXH_readLE64 b i =
     (if i + 8 \<le> length b
      then Some (foldr (\<lambda>x a. of_nat x OR push_bit 8 a) (take 8 (drop i b)) 0) else None)"

subsection \<open>Word arithmetic\<close>

definition XXH_rotl64 :: "u64 \<Rightarrow> nat \<Rightarrow> u64" where
  "XXH_rotl64 x r = push_bit r x OR drop_bit (64 - r) x"

definition XXH_swap32 :: "u32 \<Rightarrow> u32" where
  "XXH_swap32 x =
     (push_bit 24 x AND 0xff000000) OR (push_bit 8 x AND 0x00ff0000)
     OR (drop_bit 8 x AND 0x0000ff00) OR (drop_bit 24 x AND 0x000000ff)"

definition XXH_swap64 :: "u64 \<Rightarrow> u64" where
  "XXH_swap64 x =
     (push_bit 56 x AND 0xff00000000000000) OR (push_bit 40 x AND 0x00ff000000000000)
     OR (push_bit 24 x AND 0x0000ff0000000000) OR (push_bit 8 x AND 0x000000ff00000000)
     OR (drop_bit 8 x AND 0x00000000ff000000) OR (drop_bit 24 x AND 0x0000000000ff0000)
     OR (drop_bit 40 x AND 0x000000000000ff00) OR (drop_bit 56 x AND 0x00000000000000ff)"

definition XXH_xorshift64 :: "u64 \<Rightarrow> nat \<Rightarrow> u64" where
  "XXH_xorshift64 v shift = v XOR drop_bit shift v"

text \<open>\<open>XXH_mult32to64\<close> truncates both factors to 32 bits; the product fits in 64.\<close>

definition XXH_mult32to64 :: "u64 \<Rightarrow> u64 \<Rightarrow> u64" where
  "XXH_mult32to64 x y = (x AND 0xFFFFFFFF) * (y AND 0xFFFFFFFF)"

record XXH128_hash_t =
  low64 :: u64
  high64 :: u64

text \<open>The portable branch of \<open>XXH_mult64to128\<close>, and the branch for compilers that have a 128 bit
  integer type.\<close>

definition XXH_mult64to128 :: "u64 \<Rightarrow> u64 \<Rightarrow> XXH128_hash_t" where
  "XXH_mult64to128 lhs rhs =
     (let lo_lo = XXH_mult32to64 (lhs AND 0xFFFFFFFF) (rhs AND 0xFFFFFFFF);
          hi_lo = XXH_mult32to64 (drop_bit 32 lhs) (rhs AND 0xFFFFFFFF);
          lo_hi = XXH_mult32to64 (lhs AND 0xFFFFFFFF) (drop_bit 32 rhs);
          hi_hi = XXH_mult32to64 (drop_bit 32 lhs) (drop_bit 32 rhs);
          cross = drop_bit 32 lo_lo + (hi_lo AND 0xFFFFFFFF) + lo_hi;
          upper = drop_bit 32 hi_lo + drop_bit 32 cross + hi_hi;
          lower = push_bit 32 cross OR (lo_lo AND 0xFFFFFFFF)
      in \<lparr>low64 = lower, high64 = upper\<rparr>)"

definition XXH_mult64to128_native :: "u64 \<Rightarrow> u64 \<Rightarrow> XXH128_hash_t" where
  "XXH_mult64to128_native lhs rhs =
     (let product = (ucast lhs :: 128 word) * ucast rhs
      in \<lparr>low64 = ucast product, high64 = ucast (drop_bit 64 product)\<rparr>)"

definition XXH3_mul128_fold64 :: "u64 \<Rightarrow> u64 \<Rightarrow> u64" where
  "XXH3_mul128_fold64 lhs rhs =
     (let product = XXH_mult64to128 lhs rhs in low64 product XOR high64 product)"

definition XXH64_avalanche :: "u64 \<Rightarrow> u64" where
  "XXH64_avalanche hash =
     (let hash = hash XOR drop_bit 33 hash; hash = hash * XXH_PRIME64_2;
          hash = hash XOR drop_bit 29 hash; hash = hash * XXH_PRIME64_3
      in hash XOR drop_bit 32 hash)"

definition XXH3_avalanche :: "u64 \<Rightarrow> u64" where
  "XXH3_avalanche h64 =
     (let h64 = XXH_xorshift64 h64 37; h64 = h64 * PRIME_MX1 in XXH_xorshift64 h64 32)"

definition XXH3_rrmxmx :: "u64 \<Rightarrow> u64 \<Rightarrow> u64" where
  "XXH3_rrmxmx h64 len =
     (let h64 = h64 XOR (XXH_rotl64 h64 49 XOR XXH_rotl64 h64 24);
          h64 = h64 * PRIME_MX2;
          h64 = h64 XOR (drop_bit 35 h64 + len);
          h64 = h64 * PRIME_MX2
      in XXH_xorshift64 h64 28)"

subsection \<open>Short inputs\<close>

definition XXH3_len_1to3_64b :: "bytes \<Rightarrow> nat \<Rightarrow> bytes \<Rightarrow> u64 \<Rightarrow> u64 option" where
  "XXH3_len_1to3_64b input len secret seed = do {
     c1 \<leftarrow> xxh_byte input 0;
     c2 \<leftarrow> xxh_byte input (len div 2);
     c3 \<leftarrow> xxh_byte input (len - 1);
     let combined = push_bit 16 (of_nat c1) OR push_bit 24 (of_nat c2)
                    OR of_nat c3 OR push_bit 8 (of_nat len :: u32);
     s0 \<leftarrow> XXH_readLE32 secret 0;
     s4 \<leftarrow> XXH_readLE32 secret 4;
     let bitflip = ucast (s0 XOR s4) + seed;
     Some (XXH64_avalanche (ucast combined XOR bitflip))
   }"

definition XXH3_len_4to8_64b :: "bytes \<Rightarrow> nat \<Rightarrow> bytes \<Rightarrow> u64 \<Rightarrow> u64 option" where
  "XXH3_len_4to8_64b input len secret seed = do {
     let seed = seed XOR push_bit 32 (ucast (XXH_swap32 (ucast seed)));
     input1 \<leftarrow> XXH_readLE32 input 0;
     input2 \<leftarrow> XXH_readLE32 input (len - 4);
     s8 \<leftarrow> XXH_readLE64 secret 8;
     s16 \<leftarrow> XXH_readLE64 secret 16;
     let bitflip = (s8 XOR s16) - seed;
     let input64 = ucast input2 + push_bit 32 (ucast input1);
     Some (XXH3_rrmxmx (input64 XOR bitflip) (of_nat len))
   }"

definition XXH3_len_9to16_64b :: "bytes \<Rightarrow> nat \<Rightarrow> bytes \<Rightarrow> u64 \<Rightarrow> u64 option" where
  "XXH3_len_9to16_64b input len secret seed = do {
     s24 \<leftarrow> XXH_readLE64 secret 24;
     s32 \<leftarrow> XXH_readLE64 secret 32;
     let bitflip1 = (s24 XOR s32) + seed;
     s40 \<leftarrow> XXH_readLE64 secret 40;
     s48 \<leftarrow> XXH_readLE64 secret 48;
     let bitflip2 = (s40 XOR s48) - seed;
     i0 \<leftarrow> XXH_readLE64 input 0;
     let input_lo = i0 XOR bitflip1;
     i8 \<leftarrow> XXH_readLE64 input (len - 8);
     let input_hi = i8 XOR bitflip2;
     Some (XXH3_avalanche (of_nat len + XXH_swap64 input_lo + input_hi
                           + XXH3_mul128_fold64 input_lo input_hi))
   }"

definition XXH3_len_0to16_64b :: "bytes \<Rightarrow> nat \<Rightarrow> bytes \<Rightarrow> u64 \<Rightarrow> u64 option" where
  "XXH3_len_0to16_64b input len secret seed =
     (if len > 8 then XXH3_len_9to16_64b input len secret seed
      else if len \<ge> 4 then XXH3_len_4to8_64b input len secret seed
      else if len \<noteq> 0 then XXH3_len_1to3_64b input len secret seed
      else do {
        s56 \<leftarrow> XXH_readLE64 secret 56;
        s64 \<leftarrow> XXH_readLE64 secret 64;
        Some (XXH64_avalanche (seed XOR (s56 XOR s64)))
      })"

subsection \<open>Middle sized inputs\<close>

text \<open>The pointers \<open>input + i\<close> and \<open>secret + j\<close> are the pairs of buffer and offset.\<close>

definition XXH3_mix16B :: "bytes \<Rightarrow> nat \<Rightarrow> bytes \<Rightarrow> nat \<Rightarrow> u64 \<Rightarrow> u64 option" where
  "XXH3_mix16B input i secret j seed64 = do {
     input_lo \<leftarrow> XXH_readLE64 input i;
     input_hi \<leftarrow> XXH_readLE64 input (i + 8);
     s0 \<leftarrow> XXH_readLE64 secret j;
     s8 \<leftarrow> XXH_readLE64 secret (j + 8);
     Some (XXH3_mul128_fold64 (input_lo XOR (s0 + seed64)) (input_hi XOR (s8 - seed64)))
   }"

text \<open>\<open>acc += XXH3_mix16B(...)\<close>.\<close>

definition mix_add :: "bytes \<Rightarrow> bytes \<Rightarrow> u64 \<Rightarrow> nat \<times> nat \<Rightarrow> u64 \<Rightarrow> u64 option" where
  "mix_add input secret seed = (\<lambda>(i, j) acc.
     map_option (\<lambda>x. acc + x) (XXH3_mix16B input i secret j seed))"

definition XXH3_len_17to128_64b :: "bytes \<Rightarrow> nat \<Rightarrow> bytes \<Rightarrow> u64 \<Rightarrow> u64 option" where
  "XXH3_len_17to128_64b input len secret seed = do {
     let acc = of_nat len * XXH_PRIME64_1;
     acc \<leftarrow> ofold (mix_add input secret seed)
       ((if len > 32
         then (if len > 64
               then (if len > 96 then [(48, 96), (len - 64, 112)] else [])
                    @ [(32, 64), (len - 48, 80)]
               else [])
              @ [(16, 32), (len - 32, 48)]
         else [])
        @ [(0, 0), (len - 16, 16)]) acc;
     Some (XXH3_avalanche acc)
   }"

definition XXH3_len_129to240_64b :: "bytes \<Rightarrow> nat \<Rightarrow> bytes \<Rightarrow> u64 \<Rightarrow> u64 option" where
  "XXH3_len_129to240_64b input len secret seed = do {
     let acc = of_nat len * XXH_PRIME64_1;
     let nbRounds = len div 16;
     acc \<leftarrow> ofold (\<lambda>i. mix_add input secret seed (16 * i, 16 * i)) [0..<8] acc;
     acc_end \<leftarrow> XXH3_mix16B input (len - 16) secret
                  (XXH3_SECRET_SIZE_MIN - XXH3_MIDSIZE_LASTOFFSET) seed;
     let acc = XXH3_avalanche acc;
     acc_end \<leftarrow> ofold (\<lambda>i. mix_add input secret seed
                         (16 * i, 16 * (i - 8) + XXH3_MIDSIZE_STARTOFFSET)) [8..<nbRounds] acc_end;
     Some (XXH3_avalanche (acc + acc_end))
   }"

subsection \<open>Long inputs\<close>

type_synonym accs = "u64 list"

definition XXH_mult32to64_add64 :: "u64 \<Rightarrow> u64 \<Rightarrow> u64 \<Rightarrow> u64" where
  "XXH_mult32to64_add64 lhs rhs acc = XXH_mult32to64 lhs rhs + acc"

definition XXH3_scalarRound :: "bytes \<Rightarrow> nat \<Rightarrow> bytes \<Rightarrow> nat \<Rightarrow> nat \<Rightarrow> accs \<Rightarrow> accs option" where
  "XXH3_scalarRound input i secret j lane xacc = do {
     data_val \<leftarrow> XXH_readLE64 input (i + lane * 8);
     key \<leftarrow> XXH_readLE64 secret (j + lane * 8);
     let data_key = data_val XOR key;
     let other = lane XOR 1;
     if lane < length xacc \<and> other < length xacc
     then (let xacc = xacc[other := xacc ! other + data_val]
           in Some (xacc[lane := XXH_mult32to64_add64 data_key (drop_bit 32 data_key)
                                   (xacc ! lane)]))
     else None
   }"

definition XXH3_accumulate_512_scalar :: "bytes \<Rightarrow> nat \<Rightarrow> bytes \<Rightarrow> nat \<Rightarrow> accs \<Rightarrow> accs option" where
  "XXH3_accumulate_512_scalar input i secret j acc =
     ofold (XXH3_scalarRound input i secret j) [0..<XXH_ACC_NB] acc"

definition XXH3_accumulate_scalar :: "bytes \<Rightarrow> nat \<Rightarrow> bytes \<Rightarrow> nat \<Rightarrow> nat \<Rightarrow> accs \<Rightarrow> accs option" where
  "XXH3_accumulate_scalar input i secret j nbStripes acc =
     ofold (\<lambda>n. XXH3_accumulate_512_scalar input (i + n * XXH_STRIPE_LEN)
                  secret (j + n * XXH_SECRET_CONSUME_RATE)) [0..<nbStripes] acc"

definition XXH3_scalarScrambleRound :: "bytes \<Rightarrow> nat \<Rightarrow> nat \<Rightarrow> accs \<Rightarrow> accs option" where
  "XXH3_scalarScrambleRound secret j lane xacc = do {
     key64 \<leftarrow> XXH_readLE64 secret (j + lane * 8);
     if lane < length xacc
     then (let acc64 = XXH_xorshift64 (xacc ! lane) 47;
               acc64 = acc64 XOR key64;
               acc64 = acc64 * XXH_PRIME32_1
           in Some (xacc[lane := acc64]))
     else None
   }"

definition XXH3_scrambleAcc_scalar :: "bytes \<Rightarrow> nat \<Rightarrow> accs \<Rightarrow> accs option" where
  "XXH3_scrambleAcc_scalar secret j acc =
     ofold (XXH3_scalarScrambleRound secret j) [0..<XXH_ACC_NB] acc"

definition XXH3_hashLong_internal_loop :: "bytes \<Rightarrow> nat \<Rightarrow> bytes \<Rightarrow> nat \<Rightarrow> accs \<Rightarrow> accs option" where
  "XXH3_hashLong_internal_loop input len secret secretSize acc = do {
     let nbStripesPerBlock = (secretSize - XXH_STRIPE_LEN) div XXH_SECRET_CONSUME_RATE;
     let block_len = XXH_STRIPE_LEN * nbStripesPerBlock;
     let nb_blocks = (len - 1) div block_len;
     acc \<leftarrow> ofold (\<lambda>n acc. do {
                acc \<leftarrow> XXH3_accumulate_scalar input (n * block_len) secret 0 nbStripesPerBlock acc;
                XXH3_scrambleAcc_scalar secret (secretSize - XXH_STRIPE_LEN) acc
              }) [0..<nb_blocks] acc;
     let nbStripes = ((len - 1) - block_len * nb_blocks) div XXH_STRIPE_LEN;
     acc \<leftarrow> XXH3_accumulate_scalar input (nb_blocks * block_len) secret 0 nbStripes acc;
     XXH3_accumulate_512_scalar input (len - XXH_STRIPE_LEN)
       secret (secretSize - XXH_STRIPE_LEN - XXH_SECRET_LASTACC_START) acc
   }"

definition XXH3_mix2Accs :: "accs \<Rightarrow> nat \<Rightarrow> bytes \<Rightarrow> nat \<Rightarrow> u64 option" where
  "XXH3_mix2Accs acc a secret j = do {
     s0 \<leftarrow> XXH_readLE64 secret j;
     s8 \<leftarrow> XXH_readLE64 secret (j + 8);
     if a + 1 < length acc
     then Some (XXH3_mul128_fold64 (acc ! a XOR s0) (acc ! (a + 1) XOR s8)) else None
   }"

definition XXH3_mergeAccs :: "accs \<Rightarrow> bytes \<Rightarrow> nat \<Rightarrow> u64 \<Rightarrow> u64 option" where
  "XXH3_mergeAccs acc secret j start = do {
     result64 \<leftarrow> ofold (\<lambda>i r. map_option (\<lambda>x. r + x)
                           (XXH3_mix2Accs acc (2 * i) secret (j + 16 * i))) [0..<4] start;
     Some (XXH3_avalanche result64)
   }"

definition XXH3_finalizeLong_64b :: "accs \<Rightarrow> bytes \<Rightarrow> u64 \<Rightarrow> u64 option" where
  "XXH3_finalizeLong_64b acc secret len =
     XXH3_mergeAccs acc secret XXH_SECRET_MERGEACCS_START (len * XXH_PRIME64_1)"

definition XXH3_INIT_ACC :: accs where
  "XXH3_INIT_ACC = [XXH_PRIME32_3, XXH_PRIME64_1, XXH_PRIME64_2, XXH_PRIME64_3,
                    XXH_PRIME64_4, XXH_PRIME32_2, XXH_PRIME64_5, XXH_PRIME32_1]"

definition XXH3_hashLong_64b_internal :: "bytes \<Rightarrow> nat \<Rightarrow> bytes \<Rightarrow> nat \<Rightarrow> u64 option" where
  "XXH3_hashLong_64b_internal input len secret secretSize = do {
     acc \<leftarrow> XXH3_hashLong_internal_loop input len secret secretSize XXH3_INIT_ACC;
     XXH3_finalizeLong_64b acc secret (of_nat len)
   }"

definition XXH3_hashLong_64b_default :: "bytes \<Rightarrow> nat \<Rightarrow> u64 option" where
  "XXH3_hashLong_64b_default input len =
     XXH3_hashLong_64b_internal input len XXH3_kSecret (length XXH3_kSecret)"

subsection \<open>The public entry point\<close>

definition XXH3_64bits_internal ::
    "bytes \<Rightarrow> nat \<Rightarrow> u64 \<Rightarrow> bytes \<Rightarrow> (bytes \<Rightarrow> nat \<Rightarrow> u64 option) \<Rightarrow> u64 option" where
  "XXH3_64bits_internal input len seed64 secret f_hashLong =
     (if len \<le> 16 then XXH3_len_0to16_64b input len secret seed64
      else if len \<le> 128 then XXH3_len_17to128_64b input len secret seed64
      else if len \<le> XXH3_MIDSIZE_MAX then XXH3_len_129to240_64b input len secret seed64
      else f_hashLong input len)"

definition XXH3_64bits :: "string \<Rightarrow> u64 option" where
  "XXH3_64bits input =
     XXH3_64bits_internal (map of_char input) (length input) 0 XXH3_kSecret
       XXH3_hashLong_64b_default"

subsection \<open>The 128 bit product\<close>

lemma unat_and_lo32: "unat (x AND 0xFFFFFFFF :: u64) = unat x mod 2 ^ 32"
proof -
  have "(0xFFFFFFFF :: u64) = mask 32" by (simp add: mask_eq_exp_minus_1)
  then have "x AND 0xFFFFFFFF = take_bit 32 x" by (simp add: take_bit_eq_mask)
  then show ?thesis by (simp add: take_bit_eq_mod unat_mod_distrib)
qed

lemma unat_hi32: "unat (drop_bit 32 x :: u64) = unat x div 2 ^ 32"
  by (simp add: drop_bit_eq_div unat_div_distrib)

lemma unat_u64_less: "unat (x :: u64) < 2 ^ 64"
  using unsigned_less [of x] by simp

lemma unat_u64_add: "unat (x :: u64) + unat y < 2 ^ 64 \<Longrightarrow> unat (x + y) = unat x + unat y"
  by (simp add: unat_word_ariths)

lemma unat_u64_mult: "unat (x :: u64) * unat y < 2 ^ 64 \<Longrightarrow> unat (x * y) = unat x * unat y"
  by (simp add: unat_word_ariths)

lemma XXH_mult32to64_unat:
  "unat (XXH_mult32to64 x y) = (unat x mod 2 ^ 32) * (unat y mod 2 ^ 32)"
proof -
  have "(unat x mod 2 ^ 32) * (unat y mod 2 ^ 32) \<le> (2 ^ 32 - 1) * (2 ^ 32 - 1)"
    by (intro mult_mono) (simp_all add: less_Suc_eq_le [symmetric])
  then show ?thesis
    unfolding XXH_mult32to64_def by (subst unat_u64_mult) (simp_all add: unat_and_lo32)
qed

lemma shift_or_lo32:
  "unat (push_bit 32 c OR (l AND 0xFFFFFFFF) :: u64)
     = (unat c mod 2 ^ 32) * 2 ^ 32 + unat l mod 2 ^ 32"
proof -
  have m: "(0xFFFFFFFF :: u64) = mask 32" by (simp add: mask_eq_exp_minus_1)
  have "push_bit 32 c AND (l AND 0xFFFFFFFF) = 0"
    unfolding m by (rule bit_word_eqI) (auto simp: bit_simps)
  then have "push_bit 32 c OR (l AND 0xFFFFFFFF) = push_bit 32 c + (l AND 0xFFFFFFFF)"
    by (rule disjunctive_add_eq_or [symmetric])
  moreover have "unat (push_bit 32 c :: u64) = (unat c mod 2 ^ 32) * 2 ^ 32"
    by (simp add: unsigned_push_bit_eq take_bit_eq_mod push_bit_eq_mult mult_mod_left unat_word_ariths)
  moreover have "(unat c mod 2 ^ 32) * 2 ^ 32 + unat l mod 2 ^ 32 < (2 ^ 64 :: nat)"
    using mod_less_divisor [of "2 ^ 32" "unat c"] mod_less_divisor [of "2 ^ 32" "unat l"] by simp
  ultimately show ?thesis by (simp add: unat_u64_add unat_and_lo32)
qed

text \<open>Grade school multiplication with two digits in base \<open>B\<close>, on the natural numbers.\<close>

lemma grade_school:
  fixes B l0 l1 r0 r1 cross :: nat
  assumes "cross = l0 * r0 div B + l1 * r0 mod B + l0 * r1"
  shows "(l1 * B + l0) * (r1 * B + r0)
         = (l1 * r0 div B + cross div B + l1 * r1) * (B * B)
           + ((cross mod B) * B + l0 * r0 mod B)"
proof -
  have "(l1 * B + l0) * (r1 * B + r0)
        = l1 * r1 * (B * B) + (l1 * r0) * B + (l0 * r1) * B + l0 * r0"
    by (simp add: algebra_simps)
  also have "\<dots> = l1 * r1 * (B * B) + ((l1 * r0 div B) * B + l1 * r0 mod B) * B
                   + (l0 * r1) * B + ((l0 * r0 div B) * B + l0 * r0 mod B)"
    by (simp only: div_mult_mod_eq)
  also have "\<dots> = l1 * r1 * (B * B) + (l1 * r0 div B) * (B * B)
                   + (l0 * r0 div B + l1 * r0 mod B + l0 * r1) * B + l0 * r0 mod B"
    by (simp only: distrib_left distrib_right ac_simps)
  also have "\<dots> = l1 * r1 * (B * B) + (l1 * r0 div B) * (B * B)
                   + ((cross div B) * B + cross mod B) * B + l0 * r0 mod B"
    by (simp only: div_mult_mod_eq assms)
  also have "\<dots> = (l1 * r0 div B + cross div B + l1 * r1) * (B * B)
                   + ((cross mod B) * B + l0 * r0 mod B)"
    by (simp only: distrib_left distrib_right ac_simps)
  finally show ?thesis .
qed

lemma cross_bound:
  fixes B l r h x y :: nat
  assumes "l < B" "r < B" "x < B" "y < B"
  shows "x + y + l * r < B * B"
proof -
  obtain b where b: "B = Suc b" using assms(1) by (cases B) auto
  have "l * r \<le> b * b" using assms b by (intro mult_mono) auto
  then show ?thesis using assms b by simp
qed

lemma div_base_less: "l < B \<Longrightarrow> r < B \<Longrightarrow> l * r div B < (B :: nat)"
  by (metis less_mult_imp_div_less mult_strict_mono' zero_le)

lemma XXH_mult64to128_exact:
  "unat (high64 (XXH_mult64to128 lhs rhs)) * 2 ^ 64 + unat (low64 (XXH_mult64to128 lhs rhs))
     = unat lhs * unat rhs"
proof -
  define B :: nat where "B = 2 ^ 32"
  have BB: "B * B = 2 ^ 64" by (simp add: B_def)
  define l0 l1 r0 r1 where "l0 = unat lhs mod B" and "l1 = unat lhs div B"
    and "r0 = unat rhs mod B" and "r1 = unat rhs div B"
  note defs = l0_def l1_def r0_def r1_def
  have lt: "l0 < B" "r0 < B" "l1 < B" "r1 < B"
    using unat_u64_less [of lhs] unat_u64_less [of rhs]
    by (simp_all add: B_def defs less_mult_imp_div_less)
  have sm: "l0 mod B = l0" "r0 mod B = r0" "l1 mod B = l1" "r1 mod B = r1" using lt by simp_all
  define lo_lo hi_lo lo_hi hi_hi where
        "lo_lo = XXH_mult32to64 (lhs AND 0xFFFFFFFF) (rhs AND 0xFFFFFFFF)"
    and "hi_lo = XXH_mult32to64 (drop_bit 32 lhs) (rhs AND 0xFFFFFFFF)"
    and "lo_hi = XXH_mult32to64 (lhs AND 0xFFFFFFFF) (drop_bit 32 rhs)"
    and "hi_hi = XXH_mult32to64 (drop_bit 32 lhs) (drop_bit 32 rhs)"
  note pdefs = lo_lo_def hi_lo_def lo_hi_def hi_hi_def
  note half = unat_and_lo32 [folded B_def] unat_hi32 [folded B_def]
  have p: "unat lo_lo = l0 * r0" "unat hi_lo = l1 * r0" "unat lo_hi = l0 * r1"
    "unat hi_hi = l1 * r1"
    by (simp_all only: pdefs XXH_mult32to64_unat [folded B_def] half defs [symmetric] sm)
  define c where "c = drop_bit 32 lo_lo + (hi_lo AND 0xFFFFFFFF) + lo_hi"
  define u where "u = drop_bit 32 hi_lo + drop_bit 32 c + hi_hi"
  define cross where "cross = l0 * r0 div B + l1 * r0 mod B + l0 * r1"
  have cb: "cross < B * B"
    unfolding cross_def using lt by (intro cross_bound div_base_less) (auto simp: B_def)
  have "l1 * r0 div B + cross div B + l1 * r1 < B * B"
    using lt cb by (intro cross_bound div_base_less) (auto simp: less_mult_imp_div_less)
  note bounds = cb [unfolded BB] this [unfolded BB]
  have cc: "unat c = cross"
    using bounds(1) unfolding c_def cross_def by (simp add: unat_u64_add half p)
  have uu: "unat u = l1 * r0 div B + cross div B + l1 * r1"
    using bounds(2) unfolding u_def by (simp add: unat_u64_add half p cc)
  have ll: "unat (push_bit 32 c OR (lo_lo AND 0xFFFFFFFF)) = (cross mod B) * B + l0 * r0 mod B"
    by (simp only: shift_or_lo32 [folded B_def] cc p)
  have r: "XXH_mult64to128 lhs rhs = \<lparr>low64 = push_bit 32 c OR (lo_lo AND 0xFFFFFFFF), high64 = u\<rparr>"
    by (simp add: XXH_mult64to128_def Let_def pdefs c_def u_def)
  have "unat lhs = l1 * B + l0" "unat rhs = r1 * B + r0" by (simp_all add: defs)
  then show ?thesis
    by (simp only: r XXH128_hash_t.simps uu ll BB [symmetric] grade_school [OF cross_def])
qed

lemma XXH_mult64to128_native_unat:
  "unat (low64 (XXH_mult64to128_native lhs rhs)) = unat lhs * unat rhs mod 2 ^ 64"
  "unat (high64 (XXH_mult64to128_native lhs rhs)) = unat lhs * unat rhs div 2 ^ 64"
proof -
  define p where "p = (ucast lhs :: 128 word) * ucast rhs"
  have "unat lhs * unat rhs < 2 ^ 64 * 2 ^ 64"
    by (intro mult_strict_mono' unat_u64_less) simp_all
  then have lt: "unat lhs * unat rhs < 2 ^ 128" by simp
  have up: "unat p = unat lhs * unat rhs"
    using lt by (simp add: p_def unat_word_ariths unsigned_ucast_eq take_bit_nat_eq_self
        less_trans [OF unat_u64_less])
  have "unat lhs * unat rhs div 2 ^ 64 < 2 ^ 64" using lt by (simp add: less_mult_imp_div_less)
  then have "take_bit 64 (unat lhs * unat rhs div 2 ^ 64) = unat lhs * unat rhs div 2 ^ 64"
    by (rule take_bit_nat_eq_self)
  moreover have "unat (drop_bit 64 p) = unat lhs * unat rhs div 2 ^ 64"
    by (simp add: drop_bit_eq_div unat_div_distrib up)
  ultimately show "unat (high64 (XXH_mult64to128_native lhs rhs)) = unat lhs * unat rhs div 2 ^ 64"
    by (simp only: XXH_mult64to128_native_def Let_def p_def [symmetric] XXH128_hash_t.simps
        unsigned_ucast_eq len_num0 len_num1 len_bit0 len_bit1) simp
  show "unat (low64 (XXH_mult64to128_native lhs rhs)) = unat lhs * unat rhs mod 2 ^ 64"
    by (simp add: XXH_mult64to128_native_def p_def [symmetric] unsigned_ucast_eq up take_bit_eq_mod)
qed

subsection \<open>Every load stays inside its buffer\<close>

lemma XXH3_kSecret_length [simp]: "length XXH3_kSecret = 192"
  by (simp add: XXH3_kSecret_def)

lemma XXH_readLE32_in: "i + 4 \<le> length b \<Longrightarrow> \<exists>x. XXH_readLE32 b i = Some x"
  by (simp add: XXH_readLE32_def)

lemma XXH_readLE64_in: "i + 8 \<le> length b \<Longrightarrow> \<exists>x. XXH_readLE64 b i = Some x"
  by (simp add: XXH_readLE64_def)

lemma XXH3_len_0to16_defined:
  assumes "length input = len" "len \<le> 16" "XXH3_SECRET_SIZE_MIN \<le> length secret"
  shows "\<exists>h. XXH3_len_0to16_64b input len secret seed = Some h"
  using assms
  by (auto simp: XXH3_len_0to16_64b_def XXH3_len_9to16_64b_def XXH3_len_4to8_64b_def
      XXH3_len_1to3_64b_def XXH_readLE32_def XXH_readLE64_def xxh_byte_def xxh_sizes Let_def)

lemma XXH3_mix16B_in:
  assumes "i + 16 \<le> length input" "j + 16 \<le> length secret"
  shows "\<exists>x. mix_add input secret seed (i, j) acc = Some x"
    and "\<exists>x. XXH3_mix16B input i secret j seed = Some x"
  using assms by (auto simp: mix_add_def XXH3_mix16B_def XXH_readLE64_def)

lemma mix_fold_in:
  assumes "\<forall>x \<in> set xs. f x + 16 \<le> length input \<and> g x + 16 \<le> length secret"
  shows "\<exists>acc'. ofold (\<lambda>x. mix_add input secret seed (f x, g x)) xs acc = Some acc'"
  using ofold_Some [of xs "\<lambda>_. True" "\<lambda>x. mix_add input secret seed (f x, g x)" acc]
    assms XXH3_mix16B_in(1) by auto

lemma XXH3_len_17to128_defined:
  assumes "length input = len" "16 < len" "len \<le> 128" "XXH3_SECRET_SIZE_MIN \<le> length secret"
  shows "\<exists>h. XXH3_len_17to128_64b input len secret seed = Some h"
proof -
  have "\<exists>acc. ofold (mix_add input secret seed)
       ((if len > 32
         then (if len > 64
               then (if len > 96 then [(48, 96), (len - 64, 112)] else [])
                    @ [(32, 64), (len - 48, 80)]
               else [])
              @ [(16, 32), (len - 32, 48)]
         else [])
        @ [(0, 0), (len - 16, 16)]) (of_nat len * XXH_PRIME64_1) = Some acc"
    using mix_fold_in [of _ fst input snd secret seed "of_nat len * XXH_PRIME64_1"] assms
    by (simp add: xxh_sizes del: ofold.simps)
  then show ?thesis by (auto simp: XXH3_len_17to128_64b_def simp del: ofold.simps)
qed

lemma XXH3_len_129to240_defined:
  assumes "length input = len" "128 < len" "len \<le> XXH3_MIDSIZE_MAX"
    "XXH3_SECRET_SIZE_MIN \<le> length secret"
  shows "\<exists>h. XXH3_len_129to240_64b input len secret seed = Some h"
proof -
  obtain a where "ofold (\<lambda>i. mix_add input secret seed (16 * i, 16 * i)) [0..<8]
      (of_nat len * XXH_PRIME64_1) = Some a"
    using mix_fold_in [of "[0..<8]" "\<lambda>i. 16 * i" input "\<lambda>i. 16 * i" secret] assms
    by (auto simp: xxh_sizes)
  moreover obtain e where "XXH3_mix16B input (len - 16) secret
      (XXH3_SECRET_SIZE_MIN - XXH3_MIDSIZE_LASTOFFSET) seed = Some e"
    using XXH3_mix16B_in(2) [of "len - 16" input _ secret] assms by (fastforce simp: xxh_sizes)
  moreover have "16 * i + 16 \<le> len" if "i < len div 16" for i
    using that by linarith
  then obtain e' where "ofold (\<lambda>i. mix_add input secret seed
      (16 * i, 16 * (i - 8) + XXH3_MIDSIZE_STARTOFFSET)) [8..<len div 16] e = Some e'"
    using mix_fold_in [of "[8..<len div 16]" "\<lambda>i. 16 * i" input
        "\<lambda>i. 16 * (i - 8) + XXH3_MIDSIZE_STARTOFFSET" secret] assms
    by (force simp: xxh_sizes)
  ultimately show ?thesis by (simp add: XXH3_len_129to240_64b_def Let_def)
qed

lemma lane_xor_1:
  assumes "lane < 8"
  shows "lane XOR 1 < (8 :: nat)"
proof -
  have "lane \<in> {0, 1, 2, 3, 4, 5, 6, 7}" using assms by auto
  then show ?thesis by auto
qed

lemma XXH3_scalarRound_in:
  assumes "i + 64 \<le> length input" "j + 64 \<le> length secret" "lane < 8" "length acc = 8"
  shows "\<exists>acc'. XXH3_scalarRound input i secret j lane acc = Some acc' \<and> length acc' = 8"
  using assms lane_xor_1 [of lane] by (auto simp: XXH3_scalarRound_def XXH_readLE64_def Let_def)

lemma XXH3_accumulate_512_in:
  assumes "i + 64 \<le> length input" "j + 64 \<le> length secret" "length acc = 8"
  shows "\<exists>acc'. XXH3_accumulate_512_scalar input i secret j acc = Some acc' \<and> length acc' = 8"
  unfolding XXH3_accumulate_512_scalar_def
  by (rule ofold_Some) (use assms XXH3_scalarRound_in in \<open>auto simp: xxh_sizes\<close>)

lemma XXH3_accumulate_in:
  assumes "i + nbStripes * 64 \<le> length input" "56 + nbStripes * 8 \<le> length secret"
    "length acc = 8"
  shows "\<exists>acc'. XXH3_accumulate_scalar input i secret 0 nbStripes acc = Some acc'
                 \<and> length acc' = 8"
  unfolding XXH3_accumulate_scalar_def
proof (rule ofold_Some, intro ballI allI impI)
  fix n and a :: accs
  assume "n \<in> set [0..<nbStripes]" "length a = 8"
  then have "Suc n * 64 \<le> nbStripes * 64" "Suc n * 8 \<le> nbStripes * 8"
    by (simp_all only: set_upt mult_le_mono1 Suc_le_eq atLeastLessThan_iff)
  then show "\<exists>a'. XXH3_accumulate_512_scalar input (i + n * XXH_STRIPE_LEN) secret
                   (0 + n * XXH_SECRET_CONSUME_RATE) a = Some a' \<and> length a' = 8"
    using assms \<open>length a = 8\<close> by (intro XXH3_accumulate_512_in) (simp_all add: xxh_sizes)
qed (rule assms)

lemma XXH3_scrambleAcc_in:
  assumes "j + 64 \<le> length secret" "length acc = 8"
  shows "\<exists>acc'. XXH3_scrambleAcc_scalar secret j acc = Some acc' \<and> length acc' = 8"
  unfolding XXH3_scrambleAcc_scalar_def
  by (rule ofold_Some)
     (use assms in \<open>auto simp: xxh_sizes XXH3_scalarScrambleRound_def XXH_readLE64_def\<close>)

lemma XXH3_mergeAccs_in:
  assumes "j + 64 \<le> length secret" "length acc = 8"
  shows "\<exists>h. XXH3_mergeAccs acc secret j start = Some h"
proof -
  have "\<exists>r. ofold (\<lambda>i r. map_option (\<lambda>x. r + x)
                     (XXH3_mix2Accs acc (2 * i) secret (j + 16 * i))) [0..<4] start = Some r \<and> True"
    by (rule ofold_Some) (use assms in \<open>auto simp: XXH3_mix2Accs_def XXH_readLE64_def\<close>)
  then show ?thesis by (auto simp: XXH3_mergeAccs_def simp del: upt_conv_Cons)
qed

text \<open>With the default secret a block is 16 stripes of 64 bytes.\<close>

lemma XXH3_blocks_in:
  assumes "nb * 1024 \<le> length input" "length acc = 8"
  shows "\<exists>a. ofold (\<lambda>n a. do {
              a \<leftarrow> XXH3_accumulate_scalar input (n * 1024) XXH3_kSecret 0 16 a;
              XXH3_scrambleAcc_scalar XXH3_kSecret 128 a
            }) [0..<nb] acc = Some a \<and> length a = 8"
proof (rule ofold_Some, intro ballI allI impI)
  fix n and a :: accs
  assume n: "n \<in> set [0..<nb]" and a: "length a = 8"
  have "Suc n * 1024 \<le> nb * 1024" using n by (intro mult_le_mono1) simp
  then have "n * 1024 + 16 * 64 \<le> length input" using assms(1) by simp
  then obtain b where "XXH3_accumulate_scalar input (n * 1024) XXH3_kSecret 0 16 a = Some b"
      "length b = 8" using XXH3_accumulate_in [of "n * 1024" 16 input XXH3_kSecret a] a by auto
  then show "\<exists>a'. XXH3_accumulate_scalar input (n * 1024) XXH3_kSecret 0 16 a \<bind>
      XXH3_scrambleAcc_scalar XXH3_kSecret 128 = Some a' \<and> length a' = 8"
    using XXH3_scrambleAcc_in [of 128 XXH3_kSecret b] by simp
qed (rule assms)

lemma XXH3_hashLong_loop_in:
  assumes "length input = len" "64 \<le> len" "length acc = 8"
  shows "\<exists>acc'. XXH3_hashLong_internal_loop input len XXH3_kSecret 192 acc = Some acc'
                 \<and> length acc' = 8"
proof -
  define nb where "nb = (len - 1) div 1024"
  have nb: "nb * 1024 \<le> len - 1" by (simp add: nb_def)
  have "nb * 1024 \<le> length input" using nb assms(1) by simp
  from XXH3_blocks_in [OF this assms(3)] obtain a where a: "ofold (\<lambda>n a. do {
              a \<leftarrow> XXH3_accumulate_scalar input (n * 1024) XXH3_kSecret 0 16 a;
              XXH3_scrambleAcc_scalar XXH3_kSecret 128 a
            }) [0..<nb] acc = Some a" "length a = 8" by blast
  define ns where "ns = (len - 1 - 1024 * nb) div 64"
  have "ns * 64 \<le> len - 1 - 1024 * nb" by (simp add: ns_def)
  moreover have "len - 1 < nb * 1024 + 1024" unfolding nb_def by linarith
  ultimately have "ns \<le> 16" "nb * 1024 + ns * 64 \<le> len" using nb by linarith+
  then obtain b where b: "XXH3_accumulate_scalar input (nb * 1024) XXH3_kSecret 0 ns a = Some b"
      "length b = 8"
    using XXH3_accumulate_in [of "nb * 1024" ns input XXH3_kSecret a] a(2) assms(1) by auto
  obtain c where c: "XXH3_accumulate_512_scalar input (len - 64) XXH3_kSecret 121 b = Some c"
      "length c = 8"
    using XXH3_accumulate_512_in [of "len - 64" input 121 XXH3_kSecret b] assms b(2) by auto
  have "(len - Suc 0) div 1024 = nb" "(len - Suc (1024 * nb)) div 64 = ns"
    by (simp_all add: nb_def ns_def)
  then show ?thesis
    by (simp add: XXH3_hashLong_internal_loop_def xxh_sizes Let_def a b c)
qed

lemma XXH3_64bits_defined: "\<exists>h. XXH3_64bits s = Some h"
proof -
  have "\<exists>h. XXH3_hashLong_64b_default (map of_char s) (length s) = Some h" if "240 < length s"
    using XXH3_hashLong_loop_in [of "map of_char s" "length s" XXH3_INIT_ACC] that
      XXH3_mergeAccs_in [of XXH_SECRET_MERGEACCS_START XXH3_kSecret]
    by (auto simp: XXH3_hashLong_64b_default_def XXH3_hashLong_64b_internal_def
        XXH3_finalizeLong_64b_def XXH3_INIT_ACC_def xxh_sizes)
  then show ?thesis
    using XXH3_len_0to16_defined [of "map of_char s"] XXH3_len_17to128_defined [of "map of_char s"]
      XXH3_len_129to240_defined [of "map of_char s"]
    by (auto simp: XXH3_64bits_def XXH3_64bits_internal_def xxh_sizes)
qed

subsection \<open>Properties\<close>

text \<open>C25: The portable 32-bit-halves multiplication of the hash function computes the same two
  64-bit words as a native 128-bit multiplication, for all operands: none of its intermediate sums
  overflows.\<close>

theorem XXH_mult64to128_is_product:
  "XXH_mult64to128 lhs rhs = XXH_mult64to128_native lhs rhs"
proof (rule XXH128_hash_t.equality)
  let ?m = "XXH_mult64to128 lhs rhs" and ?n = "XXH_mult64to128_native lhs rhs"
  have "unat (high64 ?m) = unat lhs * unat rhs div 2 ^ 64"
       "unat (low64 ?m) = unat lhs * unat rhs mod 2 ^ 64"
    using unat_u64_less [of "low64 ?m"] by (simp_all flip: XXH_mult64to128_exact)
  then show "low64 ?m = low64 ?n" "high64 ?m = high64 ?n"
    by (simp_all add: word_unat_eq_iff XXH_mult64to128_native_unat)
qed simp

end
