(* ===== verification/Kvs_Hash.thy ===== *)
theory Kvs_Hash
  imports Kv_Spec Xxhash
begin

text \<open>
  The hash engine, \<^verbatim>\<open>kvs-engine/kvs_hash.c\<close>: \<open>MAX_TABLE_SIZE\<close> slots, each the head of a singly
  linked chain.  A chain is the list of its nodes, head first; every node is owned by exactly one
  chain.  A slot of a table that was never written holds whatever the allocator left there:
  \<open>None\<close> is such a wild pointer, and following it has no defined result.

  \<open>hash_key\<close> is the source's \<open>_hash\<close> and \<open>create_node\<close> its \<open>_create_node\<close>.  The counter
  \<open>hash->count\<close> is an unbounded integer here; reaching \<open>INT_MAX\<close> would take more nodes than the
  machine can hold.
\<close>

subsection \<open>Data\<close>

definition MAX_TABLE_SIZE :: int where "MAX_TABLE_SIZE = 1000000"

record hashnode_t =
  hn_key :: string
  hn_value :: string

type_synonym chain = "hashnode_t list"

record hashtable_t =
  nodes :: "(nat \<Rightarrow> chain option) option"
  max_slots :: int
  hcount :: int

subsection \<open>Operations\<close>

definition hash_key :: "string option \<Rightarrow> int \<Rightarrow> int option" where
  "hash_key key sz =
     (case key of None \<Rightarrow> Some (-1)
      | Some k \<Rightarrow> do { hash_value \<leftarrow> XXH3_64bits k;
                      Some (c_int (uint (hash_value mod word_of_int sz))) })"

definition create_node :: "env \<Rightarrow> string \<Rightarrow> string \<Rightarrow> hashnode_t option" where
  "create_node e key value =
     (if \<not> mem e 0 then None
      else if \<not> mem e 1 then None
      else if \<not> mem e 2 then None
      else Some \<lparr>hn_key = key, hn_value = value\<rparr>)"

text \<open>\<open>hash->nodes[i]\<close>, for reading and for writing.\<close>

definition hash_slot :: "hashtable_t \<Rightarrow> int \<Rightarrow> chain option" where
  "hash_slot hash i = do { f \<leftarrow> nodes hash;
     if 0 \<le> i \<and> i < MAX_TABLE_SIZE then f (nat i) else None }"

definition hash_slot_put :: "hashtable_t \<Rightarrow> int \<Rightarrow> chain \<Rightarrow> hashtable_t option" where
  "hash_slot_put hash i c = do { f \<leftarrow> nodes hash;
     if 0 \<le> i \<and> i < MAX_TABLE_SIZE then Some (hash\<lparr>nodes := Some (f(nat i := Some c))\<rparr>) else None }"

definition kvs_hash_create ::
  "env \<Rightarrow> (nat \<Rightarrow> chain option) \<Rightarrow> hashtable_t \<Rightarrow> int \<times> hashtable_t" where
  "kvs_hash_create e fresh hash =
     (if \<not> mem e 0 then (-1, hash\<lparr>nodes := None\<rparr>)
      else (0, \<lparr>nodes = Some fresh, max_slots = MAX_TABLE_SIZE, hcount = 0\<rparr>))"

text \<open>\<open>kvs_hash_destory\<close> walks every chain and frees its nodes (the number of nodes freed is
  returned), then the slot array.\<close>

fun hash_free_slots :: "hashtable_t \<Rightarrow> nat \<Rightarrow> nat option" where
  "hash_free_slots hash 0 = Some 0"
| "hash_free_slots hash (Suc n) =
     do { c \<leftarrow> hash_slot hash (int n); f \<leftarrow> hash_free_slots hash n; Some (f + length c) }"

definition kvs_hash_destory :: "hashtable_t \<Rightarrow> (nat \<times> hashtable_t) option" where
  "kvs_hash_destory hash =
     do { n \<leftarrow> hash_free_slots hash (nat (max_slots hash)); Some (n, hash\<lparr>nodes := None\<rparr>) }"

text \<open>The search loop: the value of the first node with the key.\<close>

fun chain_get :: "string \<Rightarrow> chain \<Rightarrow> string option" where
  "chain_get key [] = None"
| "chain_get key (node # rest) =
     (if strcmp (hn_key node) key = 0 then Some (hn_value node) else chain_get key rest)"

text \<open>The search loop of \<open>kvs_hash_mod\<close> and the update of the node it stops at.\<close>

fun chain_mod :: "string \<Rightarrow> string \<Rightarrow> chain \<Rightarrow> chain" where
  "chain_mod key value [] = []"
| "chain_mod key value (node # rest) =
     (if strcmp (hn_key node) key = 0 then node\<lparr>hn_value := value\<rparr> # rest
      else node # chain_mod key value rest)"

text \<open>The unlinking loop of \<open>kvs_hash_del\<close> behind the node \<open>cur\<close>: \<open>None\<close> when \<open>cur->next\<close>
  runs into NULL.\<close>

fun chain_unlink_next :: "string \<Rightarrow> hashnode_t \<Rightarrow> chain \<Rightarrow> chain option" where
  "chain_unlink_next key cur [] = None"
| "chain_unlink_next key cur (node # rest) =
     (if strcmp (hn_key node) key = 0 then Some (cur # rest)
      else map_option (\<lambda>c. cur # c) (chain_unlink_next key node rest))"

definition kvs_hash_set ::
  "env \<Rightarrow> hashtable_t \<Rightarrow> string option \<Rightarrow> string option \<Rightarrow> (int \<times> hashtable_t) option" where
  "kvs_hash_set e hash key value =
     (case (key, value) of
        (Some k, Some v) \<Rightarrow>
          do { i \<leftarrow> hash_key key MAX_TABLE_SIZE;
               c \<leftarrow> hash_slot hash i;
               if chain_get k c \<noteq> None then Some (1, hash)
               else (case create_node e k v of
                       None \<Rightarrow> Some (-2, hash)
                     | Some new_node \<Rightarrow>
                         do { hash' \<leftarrow> hash_slot_put hash i (new_node # c);
                              Some (0, hash'\<lparr>hcount := hcount hash + 1\<rparr>) }) }
      | _ \<Rightarrow> Some (-1, hash))"

definition kvs_hash_get :: "hashtable_t \<Rightarrow> string option \<Rightarrow> string option option" where
  "kvs_hash_get hash key =
     (case key of None \<Rightarrow> Some None
      | Some k \<Rightarrow> do { i \<leftarrow> hash_key key MAX_TABLE_SIZE;
                      c \<leftarrow> hash_slot hash i;
                      Some (chain_get k c) })"

text \<open>There is no check of \<open>value\<close>: \<open>strlen(NULL)\<close> has no result.\<close>

definition kvs_hash_mod ::
  "env \<Rightarrow> hashtable_t \<Rightarrow> string option \<Rightarrow> string option \<Rightarrow> (int \<times> hashtable_t) option" where
  "kvs_hash_mod e hash key value =
     (case key of None \<Rightarrow> Some (-1, hash)
      | Some k \<Rightarrow>
          do { i \<leftarrow> hash_key key MAX_TABLE_SIZE;
               c \<leftarrow> hash_slot hash i;
               if chain_get k c = None then Some (1, hash)
               else do { v \<leftarrow> value;
                         if \<not> mem e 0 then Some (-2, hash)
                         else do { hash' \<leftarrow> hash_slot_put hash i (chain_mod k v c);
                                   Some (0, hash') } } })"

definition kvs_hash_count :: "hashtable_t \<Rightarrow> int" where
  "kvs_hash_count hash = hcount hash"

definition kvs_hash_del :: "hashtable_t \<Rightarrow> string option \<Rightarrow> (int \<times> hashtable_t) option" where
  "kvs_hash_del hash key =
     (case key of None \<Rightarrow> Some (-2, hash)
      | Some k \<Rightarrow>
          do { i \<leftarrow> hash_key key MAX_TABLE_SIZE;
               c \<leftarrow> hash_slot hash i;
               (case c of
                  [] \<Rightarrow> Some (-1, hash)
                | head # rest \<Rightarrow>
                    if strcmp (hn_key head) k = 0 then
                      do { hash' \<leftarrow> hash_slot_put hash i rest;
                           Some (0, hash'\<lparr>hcount := hcount hash - 1\<rparr>) }
                    else (case chain_unlink_next k head rest of
                            None \<Rightarrow> Some (-1, hash)
                          | Some c' \<Rightarrow>
                              do { hash' \<leftarrow> hash_slot_put hash i c';
                                   Some (0, hash'\<lparr>hcount := hcount hash - 1\<rparr>) })) })"

definition kvs_hash_exist :: "hashtable_t \<Rightarrow> string option \<Rightarrow> int option" where
  "kvs_hash_exist hash key =
     do { value \<leftarrow> kvs_hash_get hash key; Some (if value = None then 1 else 0) }"

subsection \<open>The stored map and the invariant\<close>

definition hash_ix :: "string \<Rightarrow> nat" where
  "hash_ix k = (case hash_key (Some k) MAX_TABLE_SIZE of Some i \<Rightarrow> nat i | None \<Rightarrow> 0)"

definition hash_chain :: "hashtable_t \<Rightarrow> nat \<Rightarrow> chain" where
  "hash_chain hash i = (case hash_slot hash (int i) of Some c \<Rightarrow> c | None \<Rightarrow> [])"

definition hash_lookup :: "hashtable_t \<Rightarrow> kvmap" where
  "hash_lookup hash k = chain_get k (hash_chain hash (hash_ix k))"

definition chain_ok :: "nat \<Rightarrow> chain \<Rightarrow> bool" where
  "chain_ok i c \<longleftrightarrow> distinct (map hn_key c) \<and> (\<forall>n \<in> set c. hash_ix (hn_key n) = i)"

definition hash_shape :: "hashtable_t \<Rightarrow> bool" where
  "hash_shape hash \<longleftrightarrow> max_slots hash = MAX_TABLE_SIZE \<and>
     (\<forall>i < nat MAX_TABLE_SIZE. hash_slot hash (int i) \<noteq> None \<and> chain_ok i (hash_chain hash i))"

definition hash_invar :: "hashtable_t \<Rightarrow> bool" where
  "hash_invar hash \<longleftrightarrow> hash_shape hash \<and> hcount hash = int (card (dom (hash_lookup hash)))"

subsection \<open>Chains\<close>

lemma chain_get_map_of: "chain_get k c = map_of (map (\<lambda>n. (hn_key n, hn_value n)) c) k"
  by (induction c) auto

lemma chain_get_None: "chain_get k c = None \<longleftrightarrow> k \<notin> hn_key ` set c"
  by (induction c) auto

lemma chain_mod_get:
  "chain_get k c \<noteq> None \<Longrightarrow> chain_get k' (chain_mod k v c) = (if k' = k then Some v else chain_get k' c)"
  by (induction c) auto

lemma chain_mod_keys: "map hn_key (chain_mod k v c) = map hn_key c"
  by (induction c) auto

lemma chain_ok_keys: "map hn_key c' = map hn_key c \<Longrightarrow> chain_ok i c \<Longrightarrow> chain_ok i c'"
proof -
  assume a: "map hn_key c' = map hn_key c" and "chain_ok i c"
  then have "hn_key ` set c' = hn_key ` set c" by (metis list.set_map)
  then show "chain_ok i c'" using a \<open>chain_ok i c\<close> by (auto simp: chain_ok_def image_iff) force
qed

lemma chain_unlink_next_None:
  "chain_unlink_next k cur c = None \<longleftrightarrow> chain_get k c = None"
  by (induction c arbitrary: cur) auto

lemma chain_unlink_next_Some:
  assumes "chain_unlink_next k cur c = Some c'" "distinct (map hn_key (cur # c))" "hn_key cur \<noteq> k"
  shows "set c' \<subseteq> set (cur # c) \<and> distinct (map hn_key c') \<and>
         (\<forall>k'. chain_get k' c' = (if k' = k then None else chain_get k' (cur # c)))"
  using assms
proof (induction c arbitrary: cur c')
  case (Cons n c)
  show ?case
  proof (cases "hn_key n = k")
    case True
    then show ?thesis using Cons.prems by (auto simp: chain_get_None)
  next
    case False
    then obtain d where d: "chain_unlink_next k n c = Some d" "c' = cur # d"
      using Cons.prems by auto
    then have IH: "set d \<subseteq> set (n # c)" "distinct (map hn_key d)"
        "\<forall>k'. chain_get k' d = (if k' = k then None else chain_get k' (n # c))"
      using Cons.IH [OF d(1)] Cons.prems(2) False by auto
    then show ?thesis using d(2) Cons.prems by (auto simp: image_iff)
  qed
qed simp

subsection \<open>The slot of a key\<close>

lemma MAX_TABLE_SIZE_bounds: "0 < MAX_TABLE_SIZE" "MAX_TABLE_SIZE < 2 ^ 31"
  by (simp_all add: MAX_TABLE_SIZE_def)

lemma hash_key_bounds:
  assumes "0 < sz" "sz < 2 ^ 31"
  shows "\<exists>i. hash_key (Some k) sz = Some i \<and> 0 \<le> i \<and> i < sz"
proof -
  obtain h where h: "XXH3_64bits k = Some h" using XXH3_64bits_defined by blast
  have sz: "uint (word_of_int sz :: u64) = sz"
    using assms by (simp add: uint_word_of_int)
  have "uint (h mod word_of_int sz) = uint h mod sz" by (simp add: uint_mod sz)
  moreover have m: "0 \<le> uint h mod sz" "uint h mod sz < sz" using assms by simp_all
  moreover have "c_int (uint h mod sz) = uint h mod sz"
    by (rule c_int_id) (use m assms(2) in linarith)+
  ultimately show ?thesis by (auto simp: hash_key_def h)
qed

lemma hash_key_ix:
  "hash_key (Some k) MAX_TABLE_SIZE = Some (int (hash_ix k))" "hash_ix k < nat MAX_TABLE_SIZE"
  using hash_key_bounds [OF MAX_TABLE_SIZE_bounds, of k] by (auto simp: hash_ix_def)

lemma hash_slot_ix:
  assumes "hash_shape hash"
  shows "hash_slot hash (int (hash_ix k)) = Some (hash_chain hash (hash_ix k))"
    and "chain_ok (hash_ix k) (hash_chain hash (hash_ix k))"
  using assms hash_key_ix(2) [of k] by (auto simp: hash_shape_def hash_chain_def)

lemma hash_slot_put_chain:
  assumes "hash_slot_put hash (int i) c = Some hash'"
  shows "hash_chain hash' j = (if j = i then c else hash_chain hash j)"
    and "hash_slot hash' (int j) = None \<longleftrightarrow> hash_slot hash (int j) = None \<and> j \<noteq> i"
    and "max_slots hash' = max_slots hash"
  using assms
  by (auto simp: hash_slot_put_def hash_slot_def hash_chain_def bind_eq_Some_conv split: if_splits)

text \<open>Replacing the chain of one slot by a well-formed one.\<close>

lemma hash_put_shape:
  assumes "hash_shape hash" "chain_ok (hash_ix k) c'"
    and "\<forall>k'. chain_get k' c' = (if k' = k then r else chain_get k' (hash_chain hash (hash_ix k)))"
  shows "\<exists>hash'. hash_slot_put hash (int (hash_ix k)) c' = Some hash' \<and>
           hash_shape (hash'\<lparr>hcount := n\<rparr>) \<and> hash_shape hash' \<and>
           hash_lookup (hash'\<lparr>hcount := n\<rparr>) = (hash_lookup hash)(k := r) \<and>
           hash_lookup hash' = (hash_lookup hash)(k := r) \<and> hcount hash' = hcount hash"
proof -
  obtain hash' where put: "hash_slot_put hash (int (hash_ix k)) c' = Some hash'"
    using hash_slot_ix(1) [OF assms(1), of k]
    by (auto simp: hash_slot_put_def hash_slot_def bind_eq_Some_conv split: if_splits)
  note ch = hash_slot_put_chain [OF put]
  have cong: "hash_slot (hash'\<lparr>hcount := n\<rparr>) = hash_slot hash'"
    "hash_chain (hash'\<lparr>hcount := n\<rparr>) = hash_chain hash'"
    by (auto simp: hash_slot_def hash_chain_def fun_eq_iff)
  have sh: "hash_shape hash'"
    using assms(1,2) ch by (auto simp: hash_shape_def)
  moreover from this have "hash_shape (hash'\<lparr>hcount := n\<rparr>)" by (simp add: hash_shape_def cong)
  moreover have lk: "hash_lookup hash' = (hash_lookup hash)(k := r)"
    using assms(3) ch(1) by (auto simp: hash_lookup_def fun_eq_iff)
  moreover from this have "hash_lookup (hash'\<lparr>hcount := n\<rparr>) = (hash_lookup hash)(k := r)"
    by (simp add: hash_lookup_def fun_eq_iff cong)
  moreover have "hcount hash' = hcount hash"
    using put by (auto simp: hash_slot_put_def bind_eq_Some_conv split: if_splits)
  ultimately show ?thesis using put by blast
qed

lemma hash_finite_lookup: "finite (dom (hash_lookup hash))"
proof (rule finite_subset)
  show "dom (hash_lookup hash) \<subseteq> (\<Union>i < nat MAX_TABLE_SIZE. hn_key ` set (hash_chain hash i))"
  proof
    fix k
    assume "k \<in> dom (hash_lookup hash)"
    then have "k \<in> hn_key ` set (hash_chain hash (hash_ix k))"
      using chain_get_None by (auto simp: hash_lookup_def dom_def)
    then show "k \<in> (\<Union>i < nat MAX_TABLE_SIZE. hn_key ` set (hash_chain hash i))"
      using hash_key_ix(2) [of k] by blast
  qed
qed simp

subsection \<open>Operations on well-formed tables\<close>

lemma hash_invar_shape: "hash_invar hash \<Longrightarrow> hash_shape hash"
  by (simp add: hash_invar_def)

lemmas hash_op_simps = hash_key_ix(1) hash_slot_ix(1) [OF hash_invar_shape]

lemma kvs_hash_get_lookup:
  "hash_invar hash \<Longrightarrow> kvs_hash_get hash (Some k) = Some (hash_lookup hash k)"
  by (simp add: kvs_hash_get_def hash_op_simps hash_lookup_def)

lemma kvs_hash_set_fresh:
  assumes "hash_invar hash" "mem_ok e" "hash_lookup hash k = None"
  shows "\<exists>hash'. kvs_hash_set e hash (Some k) (Some v) = Some (0, hash') \<and> hash_invar hash' \<and>
           hash_lookup hash' = (hash_lookup hash)(k \<mapsto> v)"
proof -
  let ?c = "hash_chain hash (hash_ix k)" and ?n = "\<lparr>hn_key = k, hn_value = v\<rparr>"
  have none: "chain_get k ?c = None" using assms(3) by (simp add: hash_lookup_def)
  have ok: "chain_ok (hash_ix k) (?n # ?c)"
    using hash_slot_ix(2) [OF hash_invar_shape [OF assms(1)], of k] none
    by (auto simp: chain_ok_def chain_get_None)
  have get: "\<forall>k'. chain_get k' (?n # ?c) = (if k' = k then Some v else chain_get k' ?c)" by simp
  from hash_put_shape [OF hash_invar_shape [OF assms(1)] ok get, of "hcount hash + 1"]
  obtain hash' where h: "hash_slot_put hash (int (hash_ix k)) (?n # ?c) = Some hash'"
    "hash_shape (hash'\<lparr>hcount := hcount hash + 1\<rparr>)"
    "hash_lookup (hash'\<lparr>hcount := hcount hash + 1\<rparr>) = (hash_lookup hash)(k \<mapsto> v)" by auto
  have "hash_invar (hash'\<lparr>hcount := hcount hash + 1\<rparr>)"
    using h assms(1,3) hash_finite_lookup [of hash]
    by (auto simp: hash_invar_def card_insert_if domIff)
  then show ?thesis using h(1,3) assms none
    by (auto simp: kvs_hash_set_def hash_op_simps create_node_def)
qed

lemma kvs_hash_set_present:
  assumes "hash_invar hash" "hash_lookup hash k = Some w"
  shows "kvs_hash_set e hash (Some k) (Some v) = Some (1, hash)"
  using assms by (simp add: kvs_hash_set_def hash_op_simps hash_lookup_def)

lemma kvs_hash_set_nomem:
  assumes "hash_invar hash" "hash_lookup hash k = None" "create_node e k v = None"
  shows "kvs_hash_set e hash (Some k) (Some v) = Some (-2, hash)"
  using assms by (simp add: kvs_hash_set_def hash_op_simps hash_lookup_def)

lemma kvs_hash_mod_missing:
  assumes "hash_invar hash" "hash_lookup hash k = None"
  shows "kvs_hash_mod e hash (Some k) value = Some (1, hash)"
  using assms by (simp add: kvs_hash_mod_def hash_op_simps hash_lookup_def)

lemma kvs_hash_mod_nomem:
  assumes "hash_invar hash" "hash_lookup hash k = Some w" "\<not> mem e 0"
  shows "kvs_hash_mod e hash (Some k) (Some v) = Some (-2, hash)"
  using assms by (simp add: kvs_hash_mod_def hash_op_simps hash_lookup_def)

lemma kvs_hash_mod_present:
  assumes "hash_invar hash" "mem e 0" "hash_lookup hash k = Some w"
  shows "\<exists>hash'. kvs_hash_mod e hash (Some k) (Some v) = Some (0, hash') \<and> hash_invar hash' \<and>
           hash_lookup hash' = (hash_lookup hash)(k \<mapsto> v)"
proof -
  let ?c = "hash_chain hash (hash_ix k)"
  have some: "chain_get k ?c = Some w" using assms(3) by (simp add: hash_lookup_def)
  have ok: "chain_ok (hash_ix k) (chain_mod k v ?c)"
    using hash_slot_ix(2) [OF hash_invar_shape [OF assms(1)], of k]
    by (rule chain_ok_keys [OF chain_mod_keys])
  from hash_put_shape [OF hash_invar_shape [OF assms(1)] ok, of "Some v"] some
  obtain hash' where h: "hash_slot_put hash (int (hash_ix k)) (chain_mod k v ?c) = Some hash'"
    "hash_shape hash'" "hash_lookup hash' = (hash_lookup hash)(k \<mapsto> v)" "hcount hash' = hcount hash"
    by (auto simp: chain_mod_get)
  have "dom (hash_lookup hash') = dom (hash_lookup hash)" using h(3) assms(3) by auto
  then have "hash_invar hash'" using h assms(1) by (simp add: hash_invar_def)
  then show ?thesis using h assms some by (auto simp: kvs_hash_mod_def hash_op_simps)
qed

lemma kvs_hash_del_missing:
  assumes "hash_invar hash" "hash_lookup hash k = None"
  shows "kvs_hash_del hash (Some k) = Some (-1, hash)"
proof (cases "hash_chain hash (hash_ix k)")
  case (Cons head rest)
  then have "hn_key head \<noteq> k" "chain_unlink_next k head rest = None"
    using assms(2) by (auto simp: hash_lookup_def chain_unlink_next_None split: if_splits)
  then show ?thesis using assms(1) Cons by (simp add: kvs_hash_del_def hash_op_simps)
qed (use assms(1) in \<open>simp add: kvs_hash_del_def hash_op_simps\<close>)

text \<open>The chain that is left when a stored key is unlinked.\<close>

lemma chain_del_result:
  assumes "chain_ok i (head # rest)" "chain_get k (head # rest) = Some w"
  obtains c' where "chain_ok i c'"
    "\<forall>k'. chain_get k' c' = (if k' = k then None else chain_get k' (head # rest))"
    "hn_key head = k \<and> c' = rest \<or> hn_key head \<noteq> k \<and> chain_unlink_next k head rest = Some c'"
proof (cases "hn_key head = k")
  case True
  then show ?thesis using assms that [of rest] by (auto simp: chain_ok_def chain_get_None)
next
  case False
  then have "chain_get k rest = Some w" using assms(2) by simp
  then obtain c' where c': "chain_unlink_next k head rest = Some c'"
    using chain_unlink_next_None [of k head rest] by (cases "chain_unlink_next k head rest") auto
  show ?thesis
    using chain_unlink_next_Some [OF c'] assms(1) False c'
    by (intro that [of c']) (auto simp: chain_ok_def)
qed

lemma kvs_hash_del_present:
  assumes "hash_invar hash" "hash_lookup hash k = Some w"
  shows "\<exists>hash'. kvs_hash_del hash (Some k) = Some (0, hash') \<and> hash_invar hash' \<and>
           hash_lookup hash' = (hash_lookup hash)(k := None)"
proof -
  note sh = hash_invar_shape [OF assms(1)]
  obtain head rest where c: "hash_chain hash (hash_ix k) = head # rest"
    using assms(2) by (cases "hash_chain hash (hash_ix k)") (auto simp: hash_lookup_def)
  have "chain_ok (hash_ix k) (head # rest)" using hash_slot_ix(2) [OF sh, of k] c by simp
  moreover have "chain_get k (head # rest) = Some w" using assms(2) c by (simp add: hash_lookup_def)
  ultimately obtain c' where c': "chain_ok (hash_ix k) c'"
    "\<forall>k'. chain_get k' c' = (if k' = k then None else chain_get k' (head # rest))"
    "hn_key head = k \<and> c' = rest \<or> hn_key head \<noteq> k \<and> chain_unlink_next k head rest = Some c'"
    by (rule chain_del_result)
  from hash_put_shape [OF sh c'(1) c'(2) [folded c], of "hcount hash - 1"]
  obtain hash' where h: "hash_slot_put hash (int (hash_ix k)) c' = Some hash'"
    "hash_shape (hash'\<lparr>hcount := hcount hash - 1\<rparr>)"
    "hash_lookup (hash'\<lparr>hcount := hcount hash - 1\<rparr>) = (hash_lookup hash)(k := None)" by auto
  have "0 < card (dom (hash_lookup hash))"
    using hash_finite_lookup [of hash] assms(2) by (auto simp: card_gt_0_iff)
  then have "hash_invar (hash'\<lparr>hcount := hcount hash - 1\<rparr>)"
    using h assms hash_finite_lookup [of hash]
    by (auto simp: hash_invar_def card_Diff_singleton_if domIff)
  then show ?thesis using h(1,3) c'(3) assms(1) c
    by (auto simp: kvs_hash_del_def hash_op_simps)
qed

subsection \<open>The engine contract\<close>

interpretation hsh: kv_engine_atomic hash_invar hash_lookup "\<lambda>_. True" "-1"
    kvs_hash_set kvs_hash_get kvs_hash_del kvs_hash_mod kvs_hash_exist
proof (unfold_locales, goal_cases)
  case 1 show ?case by (rule hash_finite_lookup)
next
  case (2 s e k v) then show ?case by (intro kvs_hash_set_fresh)
next
  case (3 s k w e v) then show ?case by (intro kvs_hash_set_present)
next
  case (4 s k) then show ?case by (rule kvs_hash_get_lookup)
next
  case (5 s k w) then show ?case by (rule kvs_hash_del_present)
next
  case (6 s k) then show ?case by (rule kvs_hash_del_missing)
next
  case 7 show ?case by simp
next
  case (8 s e k w v) then show ?case by (intro kvs_hash_mod_present) auto
next
  case (9 s k e v) then show ?case by (simp add: kvs_hash_mod_missing)
next
  case (10 s k) then show ?case by (simp add: kvs_hash_exist_def kvs_hash_get_lookup)
next
  case (11 s k e v r s')
  then have "create_node e k v = None"
    by (auto simp: kvs_hash_set_def hash_op_simps hash_lookup_def bind_eq_Some_conv
        split: option.splits)
  then show ?case using 11 by (simp add: kvs_hash_set_nomem)
next
  case (12 s k w e v r s')
  then have "\<not> mem e 0"
    by (auto simp: kvs_hash_mod_def hash_op_simps hash_lookup_def bind_eq_Some_conv
        split: if_splits)
  then show ?case using 12 by (simp add: kvs_hash_mod_nomem)
qed

subsection \<open>Creation\<close>

text \<open>A table whose fresh memory happens to be zero.\<close>

definition hash0 :: hashtable_t where
  "hash0 = \<lparr>nodes = Some (\<lambda>_. Some []), max_slots = MAX_TABLE_SIZE, hcount = 0\<rparr>"

lemma hash0_ok: "hash_invar hash0" "hash_lookup hash0 = Map.empty"
proof -
  have "hash_chain hash0 i = []" for i
    by (simp add: hash0_def hash_chain_def hash_slot_def)
  then show "hash_lookup hash0 = Map.empty" by (simp add: hash_lookup_def fun_eq_iff)
  then show "hash_invar hash0"
    by (simp add: hash_invar_def hash_shape_def hash0_def hash_chain_def hash_slot_def chain_ok_def
        zless_nat_eq_int_zless)
qed

lemma kvs_hash_create_ok:
  assumes "mem e 0" "fresh = (\<lambda>_. Some [])"
  shows "kvs_hash_create e fresh hash = (0, hash0)"
  using assms by (simp add: kvs_hash_create_def hash0_def)

subsection \<open>Properties\<close>

text \<open>C26: The slot computed for a key exists for every key and every table size an \<open>int\<close> can
  hold: hashing reads only bytes of the key and of the built-in secret, whatever the length of the
  key, and the result is an index of the table.\<close>

theorem hash_key_in_table:
  assumes "0 < sz" and "sz \<le> INT_MAX"
  shows "\<exists>i. hash_key (Some k) sz = Some i \<and> 0 \<le> i \<and> i < sz"
  using assms by (intro hash_key_bounds) (simp_all add: INT_MAX_def)

theorem hash_key_in_table_witness:
  "\<exists>i. hash_key (Some (replicate 1000 CHR ''x'')) 7 = Some i \<and> 0 \<le> i \<and> i < 7"
  using hash_key_in_table [of 7 "replicate 1000 CHR ''x''"] by (simp add: INT_MAX_def)

text \<open>C10: Any sequence of SET, DEL and MOD calls on a well-formed hash table is defined, keeps
  every chain well-formed and the counter exact, leaves exactly the map the specification gives
  and answers 0 for precisely the calls that took effect.\<close>

theorem hash_writes_refine:
  assumes "hash_invar hash" and "\<forall>(e, w) \<in> set ws. mem_ok e"
  shows "\<exists>rs hash'. kv_writes (kv_write kvs_hash_set kvs_hash_del kvs_hash_mod) hash ws = Some (rs, hash')
    \<and> hash_invar hash' \<and> kvs_hash_count hash' = int (card (dom (hash_lookup hash')))
    \<and> kv_spec_run (hash_lookup hash) (map snd ws) = (map (\<lambda>r. r = 0) rs, hash_lookup hash')"
  using hsh.writes_refine [OF _ assms] by (fastforce simp: hash_invar_def kvs_hash_count_def)

theorem hash_writes_refine_witness:
  "\<exists>rs hash'. kv_writes (kv_write kvs_hash_set kvs_hash_del kvs_hash_mod) hash0
      [(env0, OpSet ''a'' ''1''), (env0, OpSet ''b'' ''2''), (env0, OpMod ''a'' ''3''), (env0, OpDel ''b'')]
      = Some (rs, hash') \<and> hash_lookup hash' = [''a'' \<mapsto> ''3'']"
proof -
  let ?ws = "[(env0, OpSet ''a'' ''1''), (env0, OpSet ''b'' ''2''), (env0, OpMod ''a'' ''3''),
    (env0, OpDel ''b'')]"
  have "\<forall>(e, w) \<in> set ?ws. mem_ok e" by simp
  moreover have "snd (kv_spec_run (hash_lookup hash0) (map snd ?ws)) = [''a'' \<mapsto> ''3'']"
    by (simp add: hash0_ok fun_eq_iff)
  ultimately show ?thesis
    using hash_writes_refine [OF hash0_ok(1), of ?ws] by (metis snd_conv)
qed

text \<open>C27: Whichever allocations fail, a SET, DEL or MOD on a well-formed hash table that does
  not answer 0 leaves the table exactly as it was.\<close>

theorem hash_write_atomic:
  assumes "hash_invar hash"
    and "kv_write kvs_hash_set kvs_hash_del kvs_hash_mod e hash w = Some (r, hash')" and "r \<noteq> 0"
  shows "hash' = hash"
  using hsh.write_all_or_nothing [OF assms(1) _ assms(2,3)] by simp

theorem hash_write_atomic_witness:
  "\<exists>r hash'. kv_write kvs_hash_set kvs_hash_del kvs_hash_mod
       \<lparr>mem = (\<lambda>i. i < 2), rnd = (\<lambda>_. 0), junk = 0\<rparr> hash0 (OpSet ''k'' ''v'') = Some (r, hash')
     \<and> r \<noteq> 0 \<and> hash' = hash0"
proof -
  have "kv_write kvs_hash_set kvs_hash_del kvs_hash_mod
       \<lparr>mem = (\<lambda>i. i < 2), rnd = (\<lambda>_. 0), junk = 0\<rparr> hash0 (OpSet ''k'' ''v'') = Some (-2, hash0)"
    using kvs_hash_set_nomem [OF hash0_ok(1)] by (simp add: kv_write_def hash0_ok create_node_def)
  with hash_write_atomic [OF hash0_ok(1) this] show ?thesis by auto
qed

end
