(* ===== verification/Kvs_Skiplist.thy ===== *)
theory Kvs_Skiplist
  imports Kv_Spec
begin

text \<open>
  The skip list engine, \<^verbatim>\<open>kvs-engine/kvs_skiptable.c\<close>, with its pointers: the nodes live in a
  store from addresses to nodes, \<open>forward\<close> is the array of successor addresses, and 0 is NULL.
  Allocation takes the next unused address; freed nodes leave the store, so a dangling pointer has
  no node.  An access through NULL, a dangling pointer or an index outside \<open>forward\<close> has no
  result, and neither has a walk that never ends.

  The invariant describes the list by the addresses on level 0: level \<open>i\<close> links exactly the
  nodes that are tall enough, in the same order, and the keys increase along level 0.
\<close>

subsection \<open>Data\<close>

definition SKIPLIST_MAX_LEVEL :: nat where "SKIPLIST_MAX_LEVEL = 32"
definition RAND_MAX :: int where "RAND_MAX = 2147483647"

record Node =
  n_key :: "string option"
  n_value :: "string option"
  forward :: "addr list"

type_synonym sl_heap = "addr \<Rightarrow> Node option"

record SkipList =
  sl_level :: nat
  header :: addr
  sl_mem :: sl_heap
  sl_next :: addr

subsection \<open>Access to nodes\<close>

definition sl_node :: "sl_heap \<Rightarrow> addr \<Rightarrow> Node option" where
  "sl_node h p = (if p = 0 then None else h p)"

definition sl_fwd :: "sl_heap \<Rightarrow> nat \<Rightarrow> addr \<Rightarrow> addr option" where
  "sl_fwd h i p = do { n \<leftarrow> sl_node h p; if i < length (forward n) then Some (forward n ! i) else None }"

definition sl_set_fwd :: "sl_heap \<Rightarrow> nat \<Rightarrow> addr \<Rightarrow> addr \<Rightarrow> sl_heap option" where
  "sl_set_fwd h i p q = do {
     n \<leftarrow> sl_node h p;
     if i < length (forward n) then Some (h(p \<mapsto> n\<lparr>forward := (forward n)[i := q]\<rparr>)) else None }"

text \<open>\<open>strcmp(p->key, key)\<close>; comparing with a NULL key has no result.\<close>

definition sl_cmp :: "sl_heap \<Rightarrow> addr \<Rightarrow> string \<Rightarrow> int option" where
  "sl_cmp h p key = do { n \<leftarrow> sl_node h p; k \<leftarrow> n_key n; Some (strcmp k key) }"

subsection \<open>Operations\<close>

text \<open>\<open>createNode\<close>: the node to be stored at the next address; \<open>None\<close> when an allocation fails.\<close>

definition createNode :: "env \<Rightarrow> nat \<Rightarrow> string option \<Rightarrow> string option \<Rightarrow> Node option" where
  "createNode e level key value =
     (if \<not> mem e 0 then None
      else if \<not> mem e 1 then None
      else (case (key, value) of
              (Some k, Some v) \<Rightarrow>
                if \<not> mem e 2 then None
                else if \<not> mem e 3 then None
                else Some \<lparr>n_key = Some k, n_value = Some v, forward = replicate (level + 1) 0\<rparr>
            | _ \<Rightarrow> Some \<lparr>n_key = None, n_value = None, forward = replicate (level + 1) 0\<rparr>))"

definition kvs_skiplist_create :: "env \<Rightarrow> SkipList \<Rightarrow> int \<times> SkipList" where
  "kvs_skiplist_create e inst =
     (case createNode e SKIPLIST_MAX_LEVEL None None of
        None \<Rightarrow> (-2, inst\<lparr>header := 0\<rparr>)
      | Some n \<Rightarrow> (0, inst\<lparr>header := sl_next inst, sl_mem := (sl_mem inst)(sl_next inst \<mapsto> n),
                          sl_next := sl_next inst + 1, sl_level := 0\<rparr>))"

partial_function (option) sl_free_from :: "sl_heap \<Rightarrow> addr \<Rightarrow> sl_heap option" where
  "sl_free_from h node =
     (if node = 0 then Some h
      else do { temp \<leftarrow> sl_fwd h 0 node; sl_free_from (h(node := None)) temp })"

definition kvs_skiplist_destroy :: "SkipList \<Rightarrow> SkipList option" where
  "kvs_skiplist_destroy inst = do {
     node \<leftarrow> sl_fwd (sl_mem inst) 0 (header inst);
     h \<leftarrow> sl_free_from (sl_mem inst) node;
     n \<leftarrow> sl_node h (header inst);
     Some (inst\<lparr>sl_mem := h(header inst := None)\<rparr>) }"

text \<open>\<open>randomLevel\<close>: the \<open>i\<close>-th result of \<open>random()\<close> decides the \<open>i\<close>-th step.\<close>

function randomLevel_from :: "(nat \<Rightarrow> int) \<Rightarrow> nat \<Rightarrow> nat" where
  "randomLevel_from random level =
     (if random level < RAND_MAX div 2 \<and> level < SKIPLIST_MAX_LEVEL - 1
      then randomLevel_from random (level + 1) else level)"
  by pat_completeness auto
termination
  by (relation "measure (\<lambda>(r, l). SKIPLIST_MAX_LEVEL - l)") auto

declare randomLevel_from.simps [simp del]

definition randomLevel :: "env \<Rightarrow> nat" where
  "randomLevel e = randomLevel_from (rnd e) 0"

text \<open>The inner loop of every search: forward on level \<open>i\<close> while the next key is smaller.\<close>

partial_function (option) sl_walk :: "sl_heap \<Rightarrow> nat \<Rightarrow> string \<Rightarrow> addr \<Rightarrow> addr option" where
  "sl_walk h i key current = do {
     nx \<leftarrow> sl_fwd h i current;
     if nx = 0 then Some current
     else do { c \<leftarrow> sl_cmp h nx key;
               if c < 0 then sl_walk h i key nx else Some current } }"

text \<open>The outer loop, for the levels below \<open>n\<close>: the last node and the \<open>update\<close> array.\<close>

fun sl_search :: "sl_heap \<Rightarrow> string \<Rightarrow> nat \<Rightarrow> addr \<Rightarrow> (nat \<Rightarrow> addr) \<Rightarrow> (addr \<times> (nat \<Rightarrow> addr)) option" where
  "sl_search h key 0 current update = Some (current, update)"
| "sl_search h key (Suc i) current update =
     do { current \<leftarrow> sl_walk h i key current; sl_search h key i current (update(i := current)) }"

text \<open>The linking loop of \<open>kvs_skiplist_set\<close>, for the levels below \<open>n\<close>, highest first.\<close>

fun sl_link :: "sl_heap \<Rightarrow> addr \<Rightarrow> (nat \<Rightarrow> addr) \<Rightarrow> nat \<Rightarrow> sl_heap option" where
  "sl_link h new_node update 0 = Some h"
| "sl_link h new_node update (Suc i) =
     do { nx \<leftarrow> sl_fwd h i (update i);
          h \<leftarrow> sl_set_fwd h i new_node nx;
          h \<leftarrow> sl_set_fwd h i (update i) new_node;
          sl_link h new_node update i }"

definition kvs_skiplist_set ::
  "env \<Rightarrow> SkipList \<Rightarrow> string option \<Rightarrow> string option \<Rightarrow> (int \<times> SkipList) option" where
  "kvs_skiplist_set e inst key value =
     (case (key, value) of
        (Some k, Some v) \<Rightarrow>
          do { (current, update) \<leftarrow>
                 sl_search (sl_mem inst) k (sl_level inst + 1) (header inst) (\<lambda>_. 0);
               current \<leftarrow> sl_fwd (sl_mem inst) 0 current;
               present \<leftarrow> (if current = 0 then Some False
                           else do { c \<leftarrow> sl_cmp (sl_mem inst) current k; Some (c = 0) });
               if present then Some (1, inst)
               else (let level = randomLevel e in
                 case createNode e level key value of
                   None \<Rightarrow> Some (-2, inst)
                 | Some n \<Rightarrow>
                     (let new_node = sl_next inst;
                          update = (\<lambda>i. if sl_level inst < i \<and> i \<le> level then header inst else update i)
                      in do {
                        h \<leftarrow> sl_link ((sl_mem inst)(new_node \<mapsto> n)) new_node update (level + 1);
                        Some (0, inst\<lparr>sl_level := max (sl_level inst) level, sl_mem := h,
                                     sl_next := new_node + 1\<rparr>) })) }
      | _ \<Rightarrow> Some (-1, inst))"

definition kvs_skiplist_get :: "SkipList \<Rightarrow> string option \<Rightarrow> string option option" where
  "kvs_skiplist_get inst key =
     (case key of None \<Rightarrow> Some None
      | Some k \<Rightarrow>
          do { (current, _) \<leftarrow> sl_search (sl_mem inst) k (sl_level inst + 1) (header inst) (\<lambda>_. 0);
               current \<leftarrow> sl_fwd (sl_mem inst) 0 current;
               if current = 0 then Some None
               else do { c \<leftarrow> sl_cmp (sl_mem inst) current k;
                         if c \<noteq> 0 then Some None
                         else do { n \<leftarrow> sl_node (sl_mem inst) current; Some (n_value n) } } })"

text \<open>The unlinking loop of \<open>kvs_skiplist_del\<close>, upwards from level \<open>i\<close>.\<close>

function sl_unlink :: "sl_heap \<Rightarrow> addr \<Rightarrow> (nat \<Rightarrow> addr) \<Rightarrow> nat \<Rightarrow> nat \<Rightarrow> sl_heap option" where
  "sl_unlink h current update level i =
     (if i \<le> level then
        do { nx \<leftarrow> sl_fwd h i (update i);
             if nx = current
             then do { q \<leftarrow> sl_fwd h i current;
                       h \<leftarrow> sl_set_fwd h i (update i) q;
                       sl_unlink h current update level (i + 1) }
             else Some h }
      else Some h)"
  by pat_completeness auto
termination
  by (relation "measure (\<lambda>(h, c, u, l, i). Suc l - i)") auto

declare sl_unlink.simps [simp del]

text \<open>The loop that lowers \<open>inst->level\<close>.\<close>

fun sl_lower :: "sl_heap \<Rightarrow> addr \<Rightarrow> nat \<Rightarrow> nat option" where
  "sl_lower h hdr 0 = Some 0"
| "sl_lower h hdr (Suc l) =
     do { nx \<leftarrow> sl_fwd h (Suc l) hdr; if nx = 0 then sl_lower h hdr l else Some (Suc l) }"

definition kvs_skiplist_del :: "SkipList \<Rightarrow> string option \<Rightarrow> (int \<times> SkipList) option" where
  "kvs_skiplist_del inst key =
     (case key of None \<Rightarrow> Some (-1, inst)
      | Some k \<Rightarrow>
          do { (current, update) \<leftarrow>
                 sl_search (sl_mem inst) k (sl_level inst + 1) (header inst) (\<lambda>_. 0);
               current \<leftarrow> sl_fwd (sl_mem inst) 0 current;
               if current = 0 then Some (1, inst)
               else do {
                 c \<leftarrow> sl_cmp (sl_mem inst) current k;
                 if c \<noteq> 0 then Some (1, inst)
                 else do {
                   h \<leftarrow> sl_unlink (sl_mem inst) current update (sl_level inst) 0;
                   let h = h(current := None);
                   l \<leftarrow> sl_lower h (header inst) (sl_level inst);
                   Some (0, inst\<lparr>sl_mem := h, sl_level := l\<rparr>) } } })"

definition kvs_skiplist_mod ::
  "env \<Rightarrow> SkipList \<Rightarrow> string option \<Rightarrow> string option \<Rightarrow> (int \<times> SkipList) option" where
  "kvs_skiplist_mod e inst key value =
     (case (key, value) of
        (Some k, Some v) \<Rightarrow>
          do { (current, _) \<leftarrow> sl_search (sl_mem inst) k (sl_level inst + 1) (header inst) (\<lambda>_. 0);
               current \<leftarrow> sl_fwd (sl_mem inst) 0 current;
               if current = 0 then Some (1, inst)
               else do {
                 c \<leftarrow> sl_cmp (sl_mem inst) current k;
                 if c \<noteq> 0 then Some (1, inst)
                 else if \<not> mem e 0 then Some (-2, inst)
                 else do {
                   n \<leftarrow> sl_node (sl_mem inst) current;
                   Some (0, inst\<lparr>sl_mem := (sl_mem inst)(current \<mapsto> n\<lparr>n_value := Some v\<rparr>)\<rparr>) } } }
      | _ \<Rightarrow> Some (-1, inst))"

definition kvs_skiplist_exist :: "SkipList \<Rightarrow> string option \<Rightarrow> int option" where
  "kvs_skiplist_exist inst key =
     (case key of None \<Rightarrow> Some (-1)
      | Some k \<Rightarrow> do { v \<leftarrow> kvs_skiplist_get inst key; Some (if v = None then 1 else 0) })"

subsection \<open>The stored map and the invariant\<close>

text \<open>The addresses on level 0 behind \<open>p\<close>, at most \<open>fuel\<close> of them.\<close>

fun sl_path :: "sl_heap \<Rightarrow> nat \<Rightarrow> addr \<Rightarrow> addr list" where
  "sl_path h 0 p = []"
| "sl_path h (Suc fuel) p =
     (case sl_fwd h 0 p of None \<Rightarrow> [] | Some q \<Rightarrow> if q = 0 then [] else q # sl_path h fuel q)"

definition sl_addrs :: "SkipList \<Rightarrow> addr list" where
  "sl_addrs inst = sl_path (sl_mem inst) (sl_next inst) (header inst)"

definition sl_keyof :: "sl_heap \<Rightarrow> addr \<Rightarrow> string" where
  "sl_keyof h p = (case sl_node h p of None \<Rightarrow> [] | Some n \<Rightarrow> (case n_key n of None \<Rightarrow> [] | Some k \<Rightarrow> k))"

definition sl_valof :: "sl_heap \<Rightarrow> addr \<Rightarrow> string" where
  "sl_valof h p = (case sl_node h p of None \<Rightarrow> [] | Some n \<Rightarrow> (case n_value n of None \<Rightarrow> [] | Some v \<Rightarrow> v))"

definition sl_height :: "sl_heap \<Rightarrow> addr \<Rightarrow> nat" where
  "sl_height h p = (case sl_node h p of None \<Rightarrow> 0 | Some n \<Rightarrow> length (forward n))"

definition sl_entries :: "SkipList \<Rightarrow> (string \<times> string) list" where
  "sl_entries inst = map (\<lambda>p. (sl_keyof (sl_mem inst) p, sl_valof (sl_mem inst) p)) (sl_addrs inst)"

definition sl_lookup :: "SkipList \<Rightarrow> kvmap" where
  "sl_lookup inst = map_of (sl_entries inst)"

text \<open>The list of addresses \<open>xs\<close> is linked on level \<open>i\<close> from \<open>p\<close> to NULL.\<close>

fun sl_chain :: "(addr \<Rightarrow> addr option) \<Rightarrow> addr \<Rightarrow> addr list \<Rightarrow> bool" where
  "sl_chain f p [] \<longleftrightarrow> f p = Some 0"
| "sl_chain f p (x # xs) \<longleftrightarrow> f p = Some x \<and> x \<noteq> 0 \<and> sl_chain f x xs"

definition sl_tall :: "sl_heap \<Rightarrow> nat \<Rightarrow> addr list \<Rightarrow> addr list" where
  "sl_tall h i xs = filter (\<lambda>p. i < sl_height h p) xs"

definition sl_node_ok :: "sl_heap \<Rightarrow> nat \<Rightarrow> addr \<Rightarrow> bool" where
  "sl_node_ok h level p \<longleftrightarrow> (case sl_node h p of None \<Rightarrow> False
     | Some n \<Rightarrow> n_key n \<noteq> None \<and> n_value n \<noteq> None \<and> 0 < length (forward n)
                \<and> length (forward n) \<le> level + 1)"

definition sl_ok :: "SkipList \<Rightarrow> addr list \<Rightarrow> bool" where
  "sl_ok inst xs \<longleftrightarrow>
     sl_level inst < SKIPLIST_MAX_LEVEL
     \<and> sl_height (sl_mem inst) (header inst) = SKIPLIST_MAX_LEVEL + 1
     \<and> header inst < sl_next inst \<and> (\<forall>p \<in> set xs. p < sl_next inst)
     \<and> distinct (header inst # xs)
     \<and> (\<forall>p \<in> set xs. sl_node_ok (sl_mem inst) (sl_level inst) p)
     \<and> sorted_wrt (<) (map (sl_keyof (sl_mem inst)) xs)
     \<and> (\<forall>i \<le> SKIPLIST_MAX_LEVEL.
          sl_chain (sl_fwd (sl_mem inst) i) (header inst) (sl_tall (sl_mem inst) i xs))"

definition sl_invar :: "SkipList \<Rightarrow> bool" where
  "sl_invar inst \<longleftrightarrow> sl_ok inst (sl_addrs inst)"

subsection \<open>Chains\<close>

lemma sl_chain_tail: "sl_chain f p (xs @ x # ys) \<Longrightarrow> sl_chain f x ys"
  by (induction xs arbitrary: p) auto

lemma sl_chain_last: "sl_chain f p (A @ B) \<Longrightarrow> f (last (p # A)) = Some (case B of [] \<Rightarrow> 0 | b # _ \<Rightarrow> b)"
proof (induction A arbitrary: p)
  case Nil
  then show ?case by (cases B) auto
next
  case (Cons a A)
  then have "f (last (a # A)) = Some (case B of [] \<Rightarrow> 0 | b # _ \<Rightarrow> b)" by simp
  then show ?case by simp
qed

lemma sl_chain_cong:
  "\<forall>q \<in> set (p # xs). f' q = f q \<Longrightarrow> sl_chain f' p xs = sl_chain f p xs"
  by (induction xs arbitrary: p) auto

lemma sl_chain_insert:
  assumes "sl_chain f p (A @ B)" "distinct (p # A @ B)" "n \<notin> set (p # A @ B)" "n \<noteq> 0"
    and "f' (last (p # A)) = Some n" "f' n = f (last (p # A))"
    and "\<forall>q \<in> set (p # A @ B). q \<noteq> last (p # A) \<longrightarrow> f' q = f q"
  shows "sl_chain f' p (A @ n # B)"
  using assms
proof (induction A arbitrary: p)
  case Nil
  have "sl_chain f' b bs" if "B = b # bs" for b bs
    by (subst sl_chain_cong [of b bs f' f]) (use Nil that in auto)
  then show ?case using Nil by (cases B) auto
next
  case (Cons a A)
  have ne: "p \<noteq> last (a # A)" using Cons.prems(2) by (auto split: if_splits)
  have "sl_chain f' a (A @ n # B)" by (rule Cons.IH) (use Cons.prems in auto)
  moreover have "f' p = f p" using Cons.prems(7) ne by simp
  ultimately show ?case using Cons.prems(1) by simp
qed

lemma sl_chain_delete:
  assumes "sl_chain f p (A @ c # B)" "distinct (p # A @ c # B)"
    and "f' (last (p # A)) = f c" "\<forall>q \<in> set (p # A @ B). q \<noteq> last (p # A) \<longrightarrow> f' q = f q"
  shows "sl_chain f' p (A @ B)"
  using assms
proof (induction A arbitrary: p)
  case Nil
  have "sl_chain f' b bs" if "B = b # bs" for b bs
    by (subst sl_chain_cong [of b bs f' f]) (use Nil that in auto)
  then show ?case using Nil by (cases B) auto
next
  case (Cons a A)
  have ne: "p \<noteq> last (a # A)" using Cons.prems(2) by (auto split: if_splits)
  have "sl_chain f' a (A @ B)" by (rule Cons.IH) (use Cons.prems in auto)
  moreover have "f' p = f p" using Cons.prems(4) ne by simp
  ultimately show ?case using Cons.prems(1) by simp
qed

lemma sl_path_chain:
  "sl_chain (sl_fwd h 0) p xs \<Longrightarrow> length xs < fuel \<Longrightarrow> sl_path h fuel p = xs"
proof (induction xs arbitrary: p fuel)
  case Nil
  then show ?case by (cases fuel) auto
next
  case (Cons x xs)
  then show ?case by (cases fuel) auto
qed

subsection \<open>Searching\<close>

lemma sl_node_okD:
  assumes "sl_node_ok h l p"
  shows "sl_cmp h p k = Some (strcmp (sl_keyof h p) k)" "0 < sl_height h p" "sl_height h p \<le> l + 1"
    "p \<noteq> 0" "\<exists>n. sl_node h p = Some n \<and> h p = Some n \<and> n_value n = Some (sl_valof h p)"
  using assms
  by (auto simp: sl_node_ok_def sl_cmp_def sl_keyof_def sl_valof_def sl_height_def sl_node_def
      split: option.splits if_splits)

lemma sl_walk_run:
  assumes "sl_chain (sl_fwd h i) p ys" "\<forall>y \<in> set ys. sl_node_ok h l y"
  shows "sl_walk h i k p = Some (last (p # takeWhile (\<lambda>y. sl_keyof h y < k) ys))"
  using assms
proof (induction ys arbitrary: p)
  case Nil
  then show ?case by (subst sl_walk.simps) simp
next
  case (Cons y ys)
  have "sl_walk h i k y = Some (last (y # takeWhile (\<lambda>y. sl_keyof h y < k) ys))"
    using Cons by simp
  then show ?case using Cons.prems sl_node_okD(1) [of h l y k]
    by (subst sl_walk.simps) simp
qed

lemma sorted_takeWhile:
  assumes "sorted_wrt (<) (map g ys)"
  shows "takeWhile (\<lambda>y. g y < (k :: 'a :: linorder)) ys = filter (\<lambda>y. g y < k) ys"
  using assms
proof (induction ys)
  case (Cons y ys)
  have "filter (\<lambda>y. g y < k) ys = []" if "\<not> g y < k"
    using Cons.prems that by (auto simp: filter_empty_conv dest: less_trans)
  then show ?case using Cons by simp
qed simp

lemma sorted_split:
  assumes "sorted_wrt (<) (map g ys)"
  shows "filter (\<lambda>y. g y < (k :: 'a :: linorder)) ys @ filter (\<lambda>y. \<not> g y < k) ys = ys"
  using assms
proof (induction ys)
  case (Cons y ys)
  have "filter (\<lambda>y. g y < k) ys = []" if "\<not> g y < k"
    using Cons.prems that by (auto simp: filter_empty_conv dest: less_trans)
  then show ?case using Cons by auto
qed simp

lemma sl_tall_append [simp]: "sl_tall h i (xs @ ys) = sl_tall h i xs @ sl_tall h i ys"
  by (simp add: sl_tall_def)

lemma sl_tall_Cons: "sl_tall h i (x # xs) = (if i < sl_height h x then x # sl_tall h i xs else sl_tall h i xs)"
  by (simp add: sl_tall_def)

lemma sl_tall_set: "set (sl_tall h i xs) = {p \<in> set xs. i < sl_height h p}"
  by (auto simp: sl_tall_def)

text \<open>The last node before key \<open>k\<close> on level \<open>i\<close>, when \<open>A\<close> holds the nodes with smaller keys.\<close>

definition sl_pred :: "sl_heap \<Rightarrow> addr \<Rightarrow> addr list \<Rightarrow> nat \<Rightarrow> addr" where
  "sl_pred h hdr A i = last (hdr # sl_tall h i A)"

lemma sl_pred_in: "j \<le> i \<Longrightarrow> sl_pred h hdr A i \<in> set (hdr # sl_tall h j A)"
proof -
  assume "j \<le> i"
  then have "set (sl_tall h i A) \<subseteq> set (sl_tall h j A)" by (auto simp: sl_tall_set)
  then show ?thesis
    using last_in_set [of "hdr # sl_tall h i A"] unfolding sl_pred_def by auto
qed

lemma sl_walk_pred:
  assumes "sl_chain (sl_fwd h i) hdr (sl_tall h i (A @ B))" "\<forall>y \<in> set (A @ B). sl_node_ok h l y"
    and "\<forall>y \<in> set A. sl_keyof h y < k" "\<forall>y \<in> set B. \<not> sl_keyof h y < k"
    and "cur \<in> set (hdr # sl_tall h i A)"
  shows "sl_walk h i k cur = Some (sl_pred h hdr A i)"
proof -
  let ?A = "sl_tall h i A" and ?B = "sl_tall h i B"
  obtain as bs where s: "hdr # ?A = as @ cur # bs" using assms(5) by (meson split_list)
  have ch: "sl_chain (sl_fwd h i) cur (bs @ ?B)"
  proof (cases as)
    case Nil
    then show ?thesis using s assms(1) by simp
  next
    case (Cons a as')
    then have "sl_tall h i (A @ B) = as' @ cur # bs @ ?B" using s by simp
    then show ?thesis using assms(1) sl_chain_tail by metis
  qed
  have sub: "set bs \<subseteq> set A" "set ?B \<subseteq> set B"
  proof -
    have "set bs \<subseteq> set ?A" using s by (cases as) auto
    then show "set bs \<subseteq> set A" by (auto simp: sl_tall_set)
  qed (auto simp: sl_tall_set)
  have "takeWhile (\<lambda>y. sl_keyof h y < k) (bs @ ?B) = bs"
    using sub assms(3,4) by (subst takeWhile_append2) (auto simp: takeWhile_eq_Nil_iff hd_in_set subset_iff)
  moreover have "last (cur # bs) = sl_pred h hdr A i"
    using s unfolding sl_pred_def by (metis last_appendR list.distinct(1))
  moreover have "\<forall>y \<in> set (bs @ ?B). sl_node_ok h l y" using sub assms(2) by auto
  ultimately show ?thesis using sl_walk_run [OF ch, of l k] by metis
qed

lemma sl_search_run:
  assumes "\<forall>i < n. sl_chain (sl_fwd h i) hdr (sl_tall h i (A @ B))"
    and "\<forall>y \<in> set (A @ B). sl_node_ok h l y"
    and "\<forall>y \<in> set A. sl_keyof h y < k" "\<forall>y \<in> set B. \<not> sl_keyof h y < k"
    and "\<forall>i < n. cur \<in> set (hdr # sl_tall h i A)"
  shows "\<exists>upd'. sl_search h k n cur upd = Some (if n = 0 then cur else sl_pred h hdr A 0, upd') \<and>
    (\<forall>i. upd' i = (if i < n then sl_pred h hdr A i else upd i))"
  using assms(1,5)
proof (induction n arbitrary: cur upd)
  case (Suc n)
  have w: "sl_walk h n k cur = Some (sl_pred h hdr A n)"
    using sl_walk_pred [OF _ assms(2-4)] Suc.prems by simp
  have "\<exists>upd'. sl_search h k n (sl_pred h hdr A n) (upd(n := sl_pred h hdr A n)) =
      Some (if n = 0 then sl_pred h hdr A n else sl_pred h hdr A 0, upd') \<and>
    (\<forall>i. upd' i = (if i < n then sl_pred h hdr A i else (upd(n := sl_pred h hdr A n)) i))"
    by (rule Suc.IH) (simp add: Suc.prems(1) del: sl_tall_append, intro allI impI sl_pred_in, simp)
  then show ?case using w by (auto simp: less_Suc_eq)
qed simp

subsection \<open>Well-formed lists\<close>

lemma sl_okD:
  assumes "sl_ok inst xs"
  shows "sl_level inst < SKIPLIST_MAX_LEVEL"
    and "sl_height (sl_mem inst) (header inst) = SKIPLIST_MAX_LEVEL + 1"
    and "header inst < sl_next inst" "\<forall>p \<in> set xs. p < sl_next inst"
    and "distinct (header inst # xs)" "\<forall>p \<in> set xs. sl_node_ok (sl_mem inst) (sl_level inst) p"
    and "sorted_wrt (<) (map (sl_keyof (sl_mem inst)) xs)"
    and "i \<le> SKIPLIST_MAX_LEVEL \<Longrightarrow>
      sl_chain (sl_fwd (sl_mem inst) i) (header inst) (sl_tall (sl_mem inst) i xs)"
  using assms by (simp_all add: sl_ok_def)

lemma sl_tall_0:
  assumes "\<forall>p \<in> set xs. sl_node_ok h l p"
  shows "sl_tall h 0 xs = xs"
  using assms sl_node_okD(2) unfolding sl_tall_def by (intro filter_True) blast

lemma sl_tall_above:
  assumes "\<forall>p \<in> set xs. sl_node_ok h l p" "l < i"
  shows "sl_tall h i xs = []"
  unfolding sl_tall_def using assms sl_node_okD(3) by (fastforce simp: filter_empty_conv)

lemma sl_ok_addrs:
  assumes "sl_ok inst xs"
  shows "sl_addrs inst = xs"
proof -
  have "set (header inst # xs) \<subseteq> {..<sl_next inst}" using sl_okD(3,4) [OF assms] by auto
  then have "card (set (header inst # xs)) \<le> sl_next inst"
    using card_mono [of "{..<sl_next inst}"] by fastforce
  then have "length xs < sl_next inst"
    using distinct_card [OF sl_okD(5) [OF assms]] by simp
  moreover have "sl_chain (sl_fwd (sl_mem inst) 0) (header inst) xs"
    using sl_okD(8) [OF assms, of 0] sl_tall_0 [OF sl_okD(6) [OF assms]] by simp
  ultimately show ?thesis unfolding sl_addrs_def by (intro sl_path_chain)
qed

lemma sl_ok_invar: "sl_ok inst xs \<Longrightarrow> sl_invar inst"
  by (simp add: sl_invar_def sl_ok_addrs)

lemma sl_ok_lookup:
  assumes "sl_ok inst xs"
  shows "sl_lookup inst = map_of (map (\<lambda>p. (sl_keyof (sl_mem inst) p, sl_valof (sl_mem inst) p)) xs)"
  using sl_ok_addrs [OF assms] by (simp add: sl_lookup_def sl_entries_def)

text \<open>What every operation finds: the nodes before and from the key on, the result of the search
  and the node that is compared with the key.\<close>

lemma sl_find:
  assumes "sl_ok inst xs"
  obtains A B update where "xs = A @ B"
    "\<forall>y \<in> set A. sl_keyof (sl_mem inst) y < k" "\<forall>y \<in> set B. \<not> sl_keyof (sl_mem inst) y < k"
    "sl_search (sl_mem inst) k (sl_level inst + 1) (header inst) (\<lambda>_. 0)
      = Some (sl_pred (sl_mem inst) (header inst) A 0, update)"
    "\<forall>i \<le> sl_level inst. update i = sl_pred (sl_mem inst) (header inst) A i"
    "sl_fwd (sl_mem inst) 0 (sl_pred (sl_mem inst) (header inst) A 0)
      = Some (case B of [] \<Rightarrow> 0 | b # _ \<Rightarrow> b)"
proof -
  let ?h = "sl_mem inst" and ?hd = "header inst"
  define A B where "A = filter (\<lambda>y. sl_keyof ?h y < k) xs" and "B = filter (\<lambda>y. \<not> sl_keyof ?h y < k) xs"
  have xs: "xs = A @ B" using sorted_split [OF sl_okD(7) [OF assms], of k] by (simp add: A_def B_def)
  have ab: "\<forall>y \<in> set A. sl_keyof ?h y < k" "\<forall>y \<in> set B. \<not> sl_keyof ?h y < k"
    by (auto simp: A_def B_def)
  have "sl_level inst + 1 \<le> SKIPLIST_MAX_LEVEL" using sl_okD(1) [OF assms] by simp
  then have ch: "\<forall>i < sl_level inst + 1. sl_chain (sl_fwd ?h i) ?hd (sl_tall ?h i (A @ B))"
    using sl_okD(8) [OF assms] unfolding xs by simp
  from sl_search_run [OF ch sl_okD(6) [OF assms, unfolded xs] ab, of ?hd "\<lambda>_. 0"]
  obtain update where u: "sl_search ?h k (sl_level inst + 1) ?hd (\<lambda>_. 0) = Some (sl_pred ?h ?hd A 0, update)"
    "\<forall>i \<le> sl_level inst. update i = sl_pred ?h ?hd A i" by (auto simp: less_Suc_eq_le)
  have "sl_chain (sl_fwd ?h 0) ?hd (sl_tall ?h 0 A @ B)"
    using sl_okD(8) [OF assms, of 0] sl_tall_0 [of B ?h "sl_level inst"] sl_okD(6) [OF assms]
    by (simp add: xs)
  from sl_chain_last [OF this]
  have "sl_fwd ?h 0 (sl_pred ?h ?hd A 0) = Some (case B of [] \<Rightarrow> 0 | b # _ \<Rightarrow> b)"
    by (simp add: sl_pred_def)
  with xs ab u that show thesis by blast
qed

text \<open>The candidate decides the lookup.\<close>

lemma sl_lookup_split:
  assumes "sl_ok inst (A @ B)"
    "\<forall>y \<in> set A. sl_keyof (sl_mem inst) y < k" "\<forall>y \<in> set B. \<not> sl_keyof (sl_mem inst) y < k"
  shows "sl_lookup inst k =
    (case B of [] \<Rightarrow> None
     | b # _ \<Rightarrow> if sl_keyof (sl_mem inst) b = k then Some (sl_valof (sl_mem inst) b) else None)"
proof -
  let ?e = "\<lambda>p. (sl_keyof (sl_mem inst) p, sl_valof (sl_mem inst) p)"
  have "k \<notin> fst ` set (map ?e A)" using assms(2) by auto
  then have "map_of (map ?e A) k = None" by (simp add: map_of_eq_None_iff)
  then have l: "sl_lookup inst k = map_of (map ?e B) k"
    using sl_ok_lookup [OF assms(1)] by (simp add: map_add_def)
  show ?thesis
  proof (cases B)
    case (Cons b bs)
    have "map_of (map ?e bs) k = None" if "sl_keyof (sl_mem inst) b \<noteq> k"
    proof -
      have "k < sl_keyof (sl_mem inst) b" using assms(3) Cons that by auto
      moreover have "\<forall>y \<in> set bs. sl_keyof (sl_mem inst) b < sl_keyof (sl_mem inst) y"
        using sl_okD(7) [OF assms(1)] Cons by (simp add: sorted_wrt_append)
      ultimately have "k \<notin> fst ` set (map ?e bs)" by (auto dest: less_trans)
      then show ?thesis by (simp add: map_of_eq_None_iff)
    qed
    then show ?thesis using l Cons by auto
  qed (use l in simp)
qed

lemma kvs_skiplist_get_lookup:
  assumes "sl_invar inst"
  shows "kvs_skiplist_get inst (Some k) = Some (sl_lookup inst k)"
proof -
  note ok = assms [unfolded sl_invar_def]
  from ok obtain A B update where f: "sl_addrs inst = A @ B"
    "\<forall>y \<in> set A. sl_keyof (sl_mem inst) y < k" "\<forall>y \<in> set B. \<not> sl_keyof (sl_mem inst) y < k"
    "sl_search (sl_mem inst) k (sl_level inst + 1) (header inst) (\<lambda>_. 0)
      = Some (sl_pred (sl_mem inst) (header inst) A 0, update)"
    "\<forall>i \<le> sl_level inst. update i = sl_pred (sl_mem inst) (header inst) A i"
    "sl_fwd (sl_mem inst) 0 (sl_pred (sl_mem inst) (header inst) A 0)
      = Some (case B of [] \<Rightarrow> 0 | b # _ \<Rightarrow> b)" by (rule sl_find)
  have lk: "sl_lookup inst k = (case B of [] \<Rightarrow> None
     | b # _ \<Rightarrow> if sl_keyof (sl_mem inst) b = k then Some (sl_valof (sl_mem inst) b) else None)"
    by (rule sl_lookup_split) (use ok f in auto)
  show ?thesis
  proof (cases B)
    case Nil
    then show ?thesis using f lk by (simp add: kvs_skiplist_get_def)
  next
    case (Cons b bs)
    then have "sl_node_ok (sl_mem inst) (sl_level inst) b" using sl_okD(6) [OF ok] f(1) by simp
    from sl_node_okD [OF this] Cons f lk show ?thesis by (auto simp: kvs_skiplist_get_def)
  qed
qed

subsection \<open>Changing links\<close>

text \<open>Two stores that differ in links only.\<close>

definition sl_same :: "sl_heap \<Rightarrow> sl_heap \<Rightarrow> bool" where
  "sl_same h h' \<longleftrightarrow> (\<forall>p. sl_keyof h' p = sl_keyof h p \<and> sl_valof h' p = sl_valof h p \<and>
     sl_height h' p = sl_height h p \<and> (\<forall>l. sl_node_ok h' l p = sl_node_ok h l p))"

lemma sl_same_refl [simp]: "sl_same h h"
  by (simp add: sl_same_def)

lemma sl_same_trans: "sl_same h h1 \<Longrightarrow> sl_same h1 h2 \<Longrightarrow> sl_same h h2"
  by (simp add: sl_same_def)

lemma sl_same_tall: "sl_same h h' \<Longrightarrow> sl_tall h' i xs = sl_tall h i xs"
  by (simp add: sl_same_def sl_tall_def)

lemma sl_set_fwd_run:
  assumes "sl_fwd h i p \<noteq> None"
  shows "\<exists>h'. sl_set_fwd h i p q = Some h' \<and> sl_same h h' \<and>
    (\<forall>j r. sl_fwd h' j r = (if j = i \<and> r = p then Some q else sl_fwd h j r))"
proof -
  obtain n where n: "h p = Some n" "p \<noteq> 0" "i < length (forward n)"
    using assms by (auto simp: sl_fwd_def sl_node_def bind_eq_Some_conv split: if_splits)
  let ?h = "h(p \<mapsto> n\<lparr>forward := (forward n)[i := q]\<rparr>)"
  have "sl_set_fwd h i p q = Some ?h" using n by (simp add: sl_set_fwd_def sl_node_def)
  moreover have "sl_same h ?h"
    using n by (auto simp: sl_same_def sl_keyof_def sl_valof_def sl_height_def sl_node_ok_def sl_node_def)
  moreover have "sl_fwd ?h j r = (if j = i \<and> r = p then Some q else sl_fwd h j r)" for j r
    using n by (auto simp: sl_fwd_def sl_node_def)
  ultimately show ?thesis by blast
qed

lemma sl_link_run:
  assumes "\<forall>i < n. sl_fwd h i (upd i) = Some (nx i) \<and> upd i \<noteq> new \<and> sl_fwd h i new \<noteq> None"
  shows "\<exists>h'. sl_link h new upd n = Some h' \<and> sl_same h h' \<and>
    (\<forall>i p. sl_fwd h' i p = (if i < n \<and> p = upd i then Some new
                            else if i < n \<and> p = new then Some (nx i) else sl_fwd h i p))"
  using assms
proof (induction n arbitrary: h)
  case (Suc n)
  from sl_set_fwd_run [of h n new "nx n"] Suc.prems obtain h1 where
    h1: "sl_set_fwd h n new (nx n) = Some h1" "sl_same h h1"
      "\<And>j r. sl_fwd h1 j r = (if j = n \<and> r = new then Some (nx n) else sl_fwd h j r)" by blast
  have "sl_fwd h1 n (upd n) \<noteq> None" using Suc.prems h1(3) by simp
  from sl_set_fwd_run [OF this, of new] obtain h2 where
    h2: "sl_set_fwd h1 n (upd n) new = Some h2" "sl_same h1 h2"
      "\<And>j r. sl_fwd h2 j r = (if j = n \<and> r = upd n then Some new else sl_fwd h1 j r)" by blast
  have "\<exists>h'. sl_link h2 new upd n = Some h' \<and> sl_same h2 h' \<and>
    (\<forall>i p. sl_fwd h' i p = (if i < n \<and> p = upd i then Some new
                            else if i < n \<and> p = new then Some (nx i) else sl_fwd h2 i p))"
    by (rule Suc.IH) (use Suc.prems h1(3) h2(3) in simp)
  then obtain h' where h': "sl_link h2 new upd n = Some h'" "sl_same h2 h'"
    "\<And>i p. sl_fwd h' i p = (if i < n \<and> p = upd i then Some new
                            else if i < n \<and> p = new then Some (nx i) else sl_fwd h2 i p)" by blast
  have "sl_link h new upd (Suc n) = Some h'" using Suc.prems h1(1) h2(1) h'(1) by simp
  moreover have "sl_same h h'" using h1(2) h2(2) h'(2) sl_same_trans by blast
  moreover have "sl_fwd h' i p = (if i < Suc n \<and> p = upd i then Some new
       else if i < Suc n \<and> p = new then Some (nx i) else sl_fwd h i p)" for i p
    using h1(3) h2(3) h'(3) Suc.prems by (auto simp: less_Suc_eq)
  ultimately show ?case by blast
qed simp

lemma sl_unlink_run:
  assumes "\<forall>i. j \<le> i \<and> i < m \<longrightarrow> sl_fwd h i (upd i) = Some c \<and> sl_fwd h i c \<noteq> None \<and> upd i \<noteq> c"
    and "m \<le> level + 1" "m \<le> level \<Longrightarrow> \<exists>x. sl_fwd h m (upd m) = Some x \<and> x \<noteq> c" "j \<le> m"
  shows "\<exists>h'. sl_unlink h c upd level j = Some h' \<and> sl_same h h' \<and>
    (\<forall>i p. sl_fwd h' i p = (if j \<le> i \<and> i < m \<and> p = upd i then sl_fwd h i c else sl_fwd h i p))"
  using assms
proof (induction "m - j" arbitrary: h j)
  case 0
  then have "j = m" by simp
  then have "sl_unlink h c upd level j = Some h"
    using 0 by (subst sl_unlink.simps) auto
  then show ?case using \<open>j = m\<close> by auto
next
  case (Suc d)
  then have j: "j < m" "j \<le> level" by auto
  obtain q where q: "sl_fwd h j c = Some q" using Suc.prems(1) j by auto
  have "sl_fwd h j (upd j) \<noteq> None" using Suc.prems(1) j by simp
  from sl_set_fwd_run [OF this, of q] obtain h1 where
    h1: "sl_set_fwd h j (upd j) q = Some h1" "sl_same h h1"
      "\<And>i r. sl_fwd h1 i r = (if i = j \<and> r = upd j then Some q else sl_fwd h i r)" by blast
  have "\<exists>h'. sl_unlink h1 c upd level (j + 1) = Some h' \<and> sl_same h1 h' \<and>
    (\<forall>i p. sl_fwd h' i p = (if j + 1 \<le> i \<and> i < m \<and> p = upd i then sl_fwd h1 i c else sl_fwd h1 i p))"
    by (rule Suc.hyps(1)) (use Suc.hyps(2) Suc.prems h1(3) j in auto)
  then obtain h' where h': "sl_unlink h1 c upd level (j + 1) = Some h'" "sl_same h1 h'"
    "\<And>i p. sl_fwd h' i p = (if j + 1 \<le> i \<and> i < m \<and> p = upd i then sl_fwd h1 i c else sl_fwd h1 i p)"
    by blast
  have "sl_unlink h c upd level j = Some h'"
    using Suc.prems(1) j q h1(1) h'(1) by (subst sl_unlink.simps) simp
  moreover have "sl_same h h'" using h1(2) h'(2) sl_same_trans by blast
  moreover have "sl_fwd h' i p = (if j \<le> i \<and> i < m \<and> p = upd i then sl_fwd h i c else sl_fwd h i p)" for i p
    using h1(3) h'(3) q j Suc.prems(1) by (auto simp: le_Suc_eq not_le Suc_le_eq)
  ultimately show ?case by blast
qed

lemma sl_lower_run:
  assumes "\<forall>i \<le> l. \<exists>x. sl_fwd h i hdr = Some x"
  shows "\<exists>l'. sl_lower h hdr l = Some l' \<and> l' \<le> l \<and> (\<forall>i. l' < i \<and> i \<le> l \<longrightarrow> sl_fwd h i hdr = Some 0)"
  using assms
proof (induction l)
  case (Suc l)
  then obtain x where x: "sl_fwd h (Suc l) hdr = Some x" by blast
  show ?case
  proof (cases "x = 0")
    case True
    obtain l' where "sl_lower h hdr l = Some l'" "l' \<le> l" "\<forall>i. l' < i \<and> i \<le> l \<longrightarrow> sl_fwd h i hdr = Some 0"
      using Suc by auto
    then show ?thesis using x True by (auto simp: le_Suc_eq)
  next
    case False
    then show ?thesis using x by (auto simp: le_Suc_eq)
  qed
qed simp

subsection \<open>Insertion\<close>

lemma randomLevel_less: "randomLevel e < SKIPLIST_MAX_LEVEL"
proof -
  have "l < SKIPLIST_MAX_LEVEL \<Longrightarrow> randomLevel_from r l < SKIPLIST_MAX_LEVEL" for r l
    by (induction r l rule: randomLevel_from.induct) (subst randomLevel_from.simps, auto)
  then show ?thesis by (simp add: randomLevel_def SKIPLIST_MAX_LEVEL_def)
qed

lemma sl_node_ok_mono: "sl_node_ok h l p \<Longrightarrow> l \<le> l' \<Longrightarrow> sl_node_ok h l' p"
  by (auto simp: sl_node_ok_def split: option.splits)

text \<open>A store with one more node.\<close>

lemma sl_new_node:
  assumes "h0 = h(new \<mapsto> \<lparr>n_key = Some k, n_value = Some v, forward = replicate (lvl + 1) 0\<rparr>)" "new \<noteq> 0"
  shows "p \<noteq> new \<Longrightarrow> sl_keyof h0 p = sl_keyof h p" "p \<noteq> new \<Longrightarrow> sl_valof h0 p = sl_valof h p"
    and "p \<noteq> new \<Longrightarrow> sl_height h0 p = sl_height h p" "p \<noteq> new \<Longrightarrow> sl_node_ok h0 l p = sl_node_ok h l p"
    and "p \<noteq> new \<Longrightarrow> sl_fwd h0 i p = sl_fwd h i p"
    and "sl_keyof h0 new = k" "sl_valof h0 new = v" "sl_height h0 new = lvl + 1"
    and "lvl \<le> l \<Longrightarrow> sl_node_ok h0 l new" "i \<le> lvl \<Longrightarrow> sl_fwd h0 i new = Some 0"
  using assms
  by (auto simp: sl_keyof_def sl_valof_def sl_height_def sl_node_ok_def sl_fwd_def sl_node_def
      simp del: replicate_Suc)

lemma sl_tall_cong: "\<forall>p \<in> set xs. sl_height h' p = sl_height h p \<Longrightarrow> sl_tall h' i xs = sl_tall h i xs"
  unfolding sl_tall_def by (rule filter_cong) auto

text \<open>The linking loop, on the levels of a new node with height \<open>lvl + 1\<close>.\<close>

lemma sl_insert_link:
  assumes ok: "sl_ok inst (A @ B)"
    and upd: "\<forall>i \<le> lvl. upd i = sl_pred (sl_mem inst) (header inst) A i" and lvl: "lvl < SKIPLIST_MAX_LEVEL"
    and h0: "h0 = (sl_mem inst)(sl_next inst \<mapsto> \<lparr>n_key = Some k, n_value = Some v, forward = replicate (lvl + 1) 0\<rparr>)"
  obtains h where "sl_link h0 (sl_next inst) upd (lvl + 1) = Some h" "sl_same h0 h"
    "\<forall>i \<le> SKIPLIST_MAX_LEVEL.
       sl_chain (sl_fwd h i) (header inst)
         (sl_tall (sl_mem inst) i A @ (if i \<le> lvl then [sl_next inst] else []) @ sl_tall (sl_mem inst) i B)"
proof -
  let ?h = "sl_mem inst" and ?hd = "header inst" and ?n = "sl_next inst"
  note okD = sl_okD [OF ok]
  have n0: "?n \<noteq> 0" using okD(3) by simp
  note new = sl_new_node [OF h0 n0]
  have fresh: "?n \<notin> set (?hd # A @ B)" using okD(3,4) by auto
  define nx where "nx i = (case sl_tall ?h i B of [] \<Rightarrow> 0 | b # _ \<Rightarrow> b)" for i
  have ch: "sl_chain (sl_fwd ?h i) ?hd (sl_tall ?h i A @ sl_tall ?h i B)" if "i \<le> SKIPLIST_MAX_LEVEL" for i
    using okD(8) [OF that] by simp
  have upd_ne: "upd i \<noteq> ?n" if "i \<le> lvl" for i
    using upd sl_pred_in [of i i ?h ?hd A] that fresh by (auto simp: sl_tall_set)
  have nxt: "sl_fwd ?h i (upd i) = Some (nx i)" if "i \<le> lvl" for i
    using sl_chain_last [OF ch [of i]] that lvl upd by (simp add: sl_pred_def nx_def)
  have pre: "\<forall>i < lvl + 1. sl_fwd h0 i (upd i) = Some (nx i) \<and> upd i \<noteq> ?n \<and> sl_fwd h0 i ?n \<noteq> None"
    using upd_ne nxt new(5,10) by simp
  from sl_link_run [OF pre] obtain h where h: "sl_link h0 ?n upd (lvl + 1) = Some h" "sl_same h0 h"
    "\<And>i p. sl_fwd h i p = (if i < lvl + 1 \<and> p = upd i then Some ?n
        else if i < lvl + 1 \<and> p = ?n then Some (nx i) else sl_fwd h0 i p)" by blast
  have "sl_chain (sl_fwd h i) ?hd (sl_tall ?h i A @ (if i \<le> lvl then [?n] else []) @ sl_tall ?h i B)"
    if i: "i \<le> SKIPLIST_MAX_LEVEL" for i
  proof (cases "i \<le> lvl")
    case True
    let ?A = "sl_tall ?h i A" and ?B = "sl_tall ?h i B"
    have sub: "set (?hd # ?A @ ?B) \<subseteq> set (?hd # A @ B)" by (auto simp: sl_tall_set)
    have d: "distinct (?hd # ?A @ ?B)" using okD(5) by (auto simp: sl_tall_def)
    have last: "last (?hd # ?A) = upd i" using upd True by (simp add: sl_pred_def)
    have "sl_chain (sl_fwd h i) ?hd (?A @ ?n # ?B)"
      by (rule sl_chain_insert [OF ch [OF i] d], unfold last)
         (use sub fresh n0 h(3) True new(5) upd_ne [OF True] nxt [OF True] in auto)
    then show ?thesis using True by simp
  next
    case False
    have "sl_chain (sl_fwd h i) ?hd (sl_tall ?h i A @ sl_tall ?h i B)
        = sl_chain (sl_fwd ?h i) ?hd (sl_tall ?h i A @ sl_tall ?h i B)"
      by (rule sl_chain_cong) (use False fresh in \<open>auto simp: sl_tall_set h(3) intro!: new(5)\<close>)
    then show ?thesis using False ch [OF i] by simp
  qed
  with h that show thesis by blast
qed

lemma sl_insert_ok:
  assumes ok: "sl_ok inst (A @ B)"
    and keys: "\<forall>y \<in> set A. sl_keyof (sl_mem inst) y < k" "\<forall>y \<in> set B. k < sl_keyof (sl_mem inst) y"
    and upd: "\<forall>i \<le> lvl. upd i = sl_pred (sl_mem inst) (header inst) A i" and lvl: "lvl < SKIPLIST_MAX_LEVEL"
    and h0: "h0 = (sl_mem inst)(sl_next inst \<mapsto> \<lparr>n_key = Some k, n_value = Some v, forward = replicate (lvl + 1) 0\<rparr>)"
  shows "\<exists>h. sl_link h0 (sl_next inst) upd (lvl + 1) = Some h \<and>
    sl_ok (inst\<lparr>sl_level := max (sl_level inst) lvl, sl_mem := h, sl_next := sl_next inst + 1\<rparr>)
      (A @ sl_next inst # B) \<and>
    (\<forall>p \<in> set (A @ B). sl_keyof h p = sl_keyof (sl_mem inst) p \<and> sl_valof h p = sl_valof (sl_mem inst) p) \<and>
    sl_keyof h (sl_next inst) = k \<and> sl_valof h (sl_next inst) = v"
proof -
  let ?h = "sl_mem inst" and ?hd = "header inst" and ?n = "sl_next inst"
  note okD = sl_okD [OF ok]
  from okD(3) have n0: "?n \<noteq> 0" by simp
  note new = sl_new_node [OF h0 n0]
  have fresh: "?n \<notin> set (?hd # A @ B)" using okD(3,4) by auto
  from ok upd lvl h0 obtain h where h: "sl_link h0 ?n upd (lvl + 1) = Some h" "sl_same h0 h"
    "\<forall>i \<le> SKIPLIST_MAX_LEVEL. sl_chain (sl_fwd h i) ?hd
       (sl_tall ?h i A @ (if i \<le> lvl then [?n] else []) @ sl_tall ?h i B)" by (rule sl_insert_link)
  let ?inst = "inst\<lparr>sl_level := max (sl_level inst) lvl, sl_mem := h, sl_next := ?n + 1\<rparr>"
  have data: "sl_keyof h p = sl_keyof h0 p" "sl_valof h p = sl_valof h0 p" "sl_height h p = sl_height h0 p"
    "sl_node_ok h l p = sl_node_ok h0 l p" for p l
    using h(2) by (simp_all add: sl_same_def)
  have old: "sl_keyof h p = sl_keyof ?h p" "sl_valof h p = sl_valof ?h p" "sl_height h p = sl_height ?h p"
    "sl_node_ok h l p = sl_node_ok ?h l p" if "p \<in> set (?hd # A @ B)" for p l
    using that fresh new(1-4) data by (metis, metis, metis, metis)
  have tall: "sl_tall h i (A @ ?n # B)
      = sl_tall ?h i A @ (if i \<le> lvl then [?n] else []) @ sl_tall ?h i B" for i
    using sl_tall_cong [of A h ?h i] sl_tall_cong [of B h ?h i] old(3) data(3) new(8)
    by (simp add: sl_tall_Cons less_Suc_eq_le)
  have m: "map (sl_keyof h) (A @ ?n # B) = map (sl_keyof ?h) A @ k # map (sl_keyof ?h) B"
    using old(1) data(1) new(6) by simp
  have "sorted_wrt (<) (map (sl_keyof h) (A @ ?n # B))"
    unfolding m using okD(7) keys by (auto simp: sorted_wrt_append dest: less_trans)
  moreover have "\<forall>p \<in> set (A @ ?n # B). sl_node_ok h (max (sl_level inst) lvl) p"
    using okD(6) old(4) data(4) new(9) by (auto intro: sl_node_ok_mono)
  ultimately have "sl_ok ?inst (A @ ?n # B)"
    using okD(1-5) lvl fresh h(3) old(3) tall unfolding sl_ok_def by (auto simp: less_Suc_eq)
  then show ?thesis using h(1) old data new by auto
qed

lemma kvs_skiplist_set_fresh:
  assumes "sl_invar inst" "mem_ok e" "sl_lookup inst k = None"
  shows "\<exists>inst'. kvs_skiplist_set e inst (Some k) (Some v) = Some (0, inst') \<and> sl_invar inst' \<and>
    sl_lookup inst' = (sl_lookup inst)(k \<mapsto> v)"
proof -
  let ?h = "sl_mem inst" and ?hd = "header inst" and ?n = "sl_next inst" and ?lvl = "randomLevel e"
  note ok = assms(1) [unfolded sl_invar_def]
  from ok obtain A B update where f: "sl_addrs inst = A @ B"
    "\<forall>y \<in> set A. sl_keyof ?h y < k" "\<forall>y \<in> set B. \<not> sl_keyof ?h y < k"
    "sl_search ?h k (sl_level inst + 1) ?hd (\<lambda>_. 0) = Some (sl_pred ?h ?hd A 0, update)"
    "\<forall>i \<le> sl_level inst. update i = sl_pred ?h ?hd A i"
    "sl_fwd ?h 0 (sl_pred ?h ?hd A 0) = Some (case B of [] \<Rightarrow> 0 | b # _ \<Rightarrow> b)" by (rule sl_find)
  note ok' = ok [unfolded f(1)]
  have nohead: "\<forall>b bs. B = b # bs \<longrightarrow> k < sl_keyof ?h b"
    using sl_lookup_split [OF ok' f(2,3)] assms(3) f(3) by (auto split: if_splits)
  have keysB: "\<forall>y \<in> set B. k < sl_keyof ?h y"
  proof (cases B)
    case (Cons b bs)
    then have "\<forall>y \<in> set bs. sl_keyof ?h b < sl_keyof ?h y"
      using sl_okD(7) [OF ok'] by (simp add: sorted_wrt_append)
    then show ?thesis using nohead Cons by (auto dest: less_trans)
  qed simp
  define upd where "upd = (\<lambda>i. if sl_level inst < i \<and> i \<le> ?lvl then ?hd else update i)"
  have upd: "\<forall>i \<le> ?lvl. upd i = sl_pred ?h ?hd A i"
    using f(5) sl_tall_above [of A ?h "sl_level inst"] sl_okD(6) [OF ok']
    by (auto simp: upd_def sl_pred_def not_less)
  let ?node = "\<lparr>n_key = Some k, n_value = Some v, forward = replicate (?lvl + 1) 0\<rparr>"
  from sl_insert_ok [OF ok' f(2) keysB upd randomLevel_less refl, of v]
  obtain h where h: "sl_link (?h(?n \<mapsto> ?node)) ?n upd (?lvl + 1) = Some h"
    "sl_ok (inst\<lparr>sl_level := max (sl_level inst) ?lvl, sl_mem := h, sl_next := ?n + 1\<rparr>) (A @ ?n # B)"
    "\<forall>p \<in> set (A @ B). sl_keyof h p = sl_keyof ?h p \<and> sl_valof h p = sl_valof ?h p"
    "sl_keyof h ?n = k" "sl_valof h ?n = v" by blast
  let ?inst = "inst\<lparr>sl_level := max (sl_level inst) ?lvl, sl_mem := h, sl_next := ?n + 1\<rparr>"
  let ?e = "\<lambda>p. (sl_keyof ?h p, sl_valof ?h p)"
  have "sl_lookup ?inst = map_of (map ?e A @ (k, v) # map ?e B)"
    using sl_ok_lookup [OF h(2)] h(3-5) by (simp add: fun_eq_iff cong: map_cong)
  also have "\<dots> = (map_of (map ?e A @ map ?e B))(k \<mapsto> v)"
    by (rule map_of_insert_mid) (use f(2) in auto)
  finally have "sl_lookup ?inst = (sl_lookup inst)(k \<mapsto> v)"
    using sl_ok_lookup [OF ok'] by simp
  moreover have "kvs_skiplist_set e inst (Some k) (Some v) = Some (0, ?inst)"
  proof -
    have present: "(if (case B of [] \<Rightarrow> 0 | b # _ \<Rightarrow> b) = 0 then Some False
        else do { c \<leftarrow> sl_cmp ?h (case B of [] \<Rightarrow> 0 | b # _ \<Rightarrow> b) k; Some (c = 0) }) = Some False"
      using nohead sl_okD(6) [OF ok'] sl_node_okD(1,4) by (cases B) fastforce+
    show ?thesis
      using f(4,6) h(1) assms(2) present
      by (simp add: kvs_skiplist_set_def createNode_def Let_def upd_def
          del: sl_search.simps sl_link.simps replicate_Suc)
  qed
  ultimately show ?thesis using sl_ok_invar [OF h(2)] by blast
qed

lemma kvs_skiplist_set_cases:
  assumes "sl_invar inst"
  shows "kvs_skiplist_set e inst (Some k) (Some v) = Some (1, inst) \<and> sl_lookup inst k \<noteq> None \<or>
    sl_lookup inst k = None \<and> (createNode e (randomLevel e) (Some k) (Some v) = None \<longrightarrow>
      kvs_skiplist_set e inst (Some k) (Some v) = Some (-2, inst))"
proof -
  note ok = assms [unfolded sl_invar_def]
  from ok obtain A B update where f: "sl_addrs inst = A @ B"
    "\<forall>y \<in> set A. sl_keyof (sl_mem inst) y < k" "\<forall>y \<in> set B. \<not> sl_keyof (sl_mem inst) y < k"
    "sl_search (sl_mem inst) k (sl_level inst + 1) (header inst) (\<lambda>_. 0)
      = Some (sl_pred (sl_mem inst) (header inst) A 0, update)"
    "\<forall>i \<le> sl_level inst. update i = sl_pred (sl_mem inst) (header inst) A i"
    "sl_fwd (sl_mem inst) 0 (sl_pred (sl_mem inst) (header inst) A 0)
      = Some (case B of [] \<Rightarrow> 0 | b # _ \<Rightarrow> b)" by (rule sl_find)
  note lk = sl_lookup_split [OF ok [unfolded f(1)] f(2,3)]
  show ?thesis
  proof (cases B)
    case Nil
    then show ?thesis using f(4,6) lk by (simp add: kvs_skiplist_set_def Let_def)
  next
    case (Cons b bs)
    then have "sl_node_ok (sl_mem inst) (sl_level inst) b" using sl_okD(6) [OF ok] f(1) by simp
    from sl_node_okD [OF this] show ?thesis using f(4,6) lk Cons
      by (simp add: kvs_skiplist_set_def Let_def)
  qed
qed

subsection \<open>Deletion\<close>

text \<open>A store with one node less.\<close>

lemma sl_drop_node:
  assumes "h2 = h1(c := None)" "p \<noteq> c"
  shows "sl_keyof h2 p = sl_keyof h1 p" "sl_valof h2 p = sl_valof h1 p" "sl_height h2 p = sl_height h1 p"
    and "sl_node_ok h2 l p = sl_node_ok h1 l p" "sl_fwd h2 i p = sl_fwd h1 i p"
  using assms by (auto simp: sl_keyof_def sl_valof_def sl_height_def sl_node_ok_def sl_fwd_def sl_node_def)

lemma sl_chain_head: "sl_chain f p xs \<Longrightarrow> f p = Some (case xs of [] \<Rightarrow> 0 | x # _ \<Rightarrow> x)"
  by (cases xs) auto

lemma sl_node_ok_lower: "sl_node_ok h L p \<Longrightarrow> sl_height h p \<le> l + 1 \<Longrightarrow> sl_node_ok h l p"
  by (auto simp: sl_node_ok_def sl_height_def split: option.splits)

lemma sl_delete_unlink:
  assumes ok: "sl_ok inst (A @ c # B)"
    and upd: "\<forall>i \<le> sl_level inst. upd i = sl_pred (sl_mem inst) (header inst) A i"
  obtains h where "sl_unlink (sl_mem inst) c upd (sl_level inst) 0 = Some h" "sl_same (sl_mem inst) h"
    "\<forall>i \<le> SKIPLIST_MAX_LEVEL.
       sl_chain (sl_fwd h i) (header inst) (sl_tall (sl_mem inst) i A @ sl_tall (sl_mem inst) i B)"
proof -
  let ?h = "sl_mem inst" and ?hd = "header inst" and ?m = "sl_height (sl_mem inst) c"
  note okD = sl_okD [OF ok]
  have c: "sl_node_ok ?h (sl_level inst) c" using okD(6) by simp
  note cD = sl_node_okD [OF c]
  have tall: "sl_tall ?h i (A @ c # B) = sl_tall ?h i A @ (if i < ?m then [c] else []) @ sl_tall ?h i B" for i
    by (simp add: sl_tall_Cons)
  have ch: "sl_chain (sl_fwd ?h i) ?hd (sl_tall ?h i A @ (if i < ?m then [c] else []) @ sl_tall ?h i B)"
    if "i \<le> SKIPLIST_MAX_LEVEL" for i using okD(8) [OF that] by (simp only: tall)
  have lv: "sl_level inst < SKIPLIST_MAX_LEVEL" using okD(1) .
  have upd_in: "upd i \<in> set (?hd # A)" if "i \<le> sl_level inst" for i
    using upd sl_pred_in [of i i ?h ?hd A] that by (auto simp: sl_tall_set)
  have upd_ne: "upd i \<noteq> c" if "i \<le> sl_level inst" for i using upd_in [OF that] okD(5) by auto
  have nxt: "sl_fwd ?h i (upd i) = Some c" if "i < ?m" for i
  proof -
    have i: "i \<le> sl_level inst" using that cD(3) by simp
    then have "sl_chain (sl_fwd ?h i) ?hd (sl_tall ?h i A @ c # sl_tall ?h i B)"
      using ch [of i] that lv by simp
    from sl_chain_last [OF this] upd i show ?thesis by (simp add: sl_pred_def)
  qed
  have out: "\<exists>q. sl_fwd ?h i c = Some q" if "i < ?m" for i
  proof -
    have "sl_chain (sl_fwd ?h i) ?hd (sl_tall ?h i A @ c # sl_tall ?h i B)"
      using ch [of i] that lv cD(3) by simp
    then show ?thesis using sl_chain_head [OF sl_chain_tail] by blast
  qed
  have stop: "\<exists>x. sl_fwd ?h ?m (upd ?m) = Some x \<and> x \<noteq> c" if "?m \<le> sl_level inst"
  proof -
    have "sl_fwd ?h ?m (upd ?m) = Some (case sl_tall ?h ?m B of [] \<Rightarrow> 0 | b # _ \<Rightarrow> b)"
      using sl_chain_last [of "sl_fwd ?h ?m" ?hd "sl_tall ?h ?m A" "sl_tall ?h ?m B"] ch [of ?m] that lv upd
      by (simp add: sl_pred_def)
    moreover have "c \<notin> set (sl_tall ?h ?m B)" using okD(5) by (auto simp: sl_tall_set)
    ultimately show ?thesis using cD(4) by (auto split: list.splits)
  qed
  have "\<exists>h'. sl_unlink ?h c upd (sl_level inst) 0 = Some h' \<and> sl_same ?h h' \<and>
    (\<forall>i p. sl_fwd h' i p = (if 0 \<le> i \<and> i < ?m \<and> p = upd i then sl_fwd ?h i c else sl_fwd ?h i p))"
    by (rule sl_unlink_run) (use nxt out upd_ne cD(3) stop in auto)
  then obtain h where h: "sl_unlink ?h c upd (sl_level inst) 0 = Some h" "sl_same ?h h"
    "\<And>i p. sl_fwd h i p = (if i < ?m \<and> p = upd i then sl_fwd ?h i c else sl_fwd ?h i p)" by auto
  have "sl_chain (sl_fwd h i) ?hd (sl_tall ?h i A @ sl_tall ?h i B)" if i: "i \<le> SKIPLIST_MAX_LEVEL" for i
  proof (cases "i < ?m")
    case True
    have last: "last (?hd # sl_tall ?h i A) = upd i" using upd True cD(3) by (simp add: sl_pred_def)
    have d: "distinct (?hd # sl_tall ?h i A @ c # sl_tall ?h i B)"
      using okD(5) by (auto simp: sl_tall_def)
    have "sl_chain (sl_fwd ?h i) ?hd (sl_tall ?h i A @ c # sl_tall ?h i B)" using ch [OF i] True by simp
    from sl_chain_delete [OF this d, of "sl_fwd h i"] show ?thesis
      unfolding last using h(3) True by auto
  next
    case False
    then have "sl_fwd h i = sl_fwd ?h i" using h(3) by auto
    then show ?thesis using ch [OF i] False by simp
  qed
  with h that show thesis by blast
qed

lemma sl_delete_ok:
  assumes ok: "sl_ok inst (A @ c # B)"
    and upd: "\<forall>i \<le> sl_level inst. upd i = sl_pred (sl_mem inst) (header inst) A i"
  shows "\<exists>h l. sl_unlink (sl_mem inst) c upd (sl_level inst) 0 = Some h \<and>
    sl_lower (h(c := None)) (header inst) (sl_level inst) = Some l \<and>
    sl_ok (inst\<lparr>sl_mem := h(c := None), sl_level := l\<rparr>) (A @ B) \<and>
    (\<forall>p \<in> set (A @ B). sl_keyof (h(c := None)) p = sl_keyof (sl_mem inst) p
      \<and> sl_valof (h(c := None)) p = sl_valof (sl_mem inst) p)"
proof -
  let ?h = "sl_mem inst" and ?hd = "header inst" and ?L = "sl_level inst"
  note okD = sl_okD [OF ok]
  from ok upd obtain h where h: "sl_unlink ?h c upd ?L 0 = Some h" "sl_same ?h h"
    "\<forall>i \<le> SKIPLIST_MAX_LEVEL. sl_chain (sl_fwd h i) ?hd (sl_tall ?h i A @ sl_tall ?h i B)"
    by (rule sl_delete_unlink)
  define h2 where "h2 = h(c := None)"
  have old: "sl_keyof h2 p = sl_keyof ?h p" "sl_valof h2 p = sl_valof ?h p" "sl_height h2 p = sl_height ?h p"
    "sl_node_ok h2 l p = sl_node_ok ?h l p" "sl_fwd h2 i p = sl_fwd h i p"
    if "p \<in> set (?hd # A @ B)" for p l i
    using sl_drop_node [OF h2_def, of p] that h(2) okD(5) by (auto simp: sl_same_def)
  have tall: "sl_tall h2 i (A @ B) = sl_tall ?h i A @ sl_tall ?h i B" for i
    using sl_tall_cong [of "A @ B" h2 ?h i] old(3) by simp
  have ch: "sl_chain (sl_fwd h2 i) ?hd (sl_tall h2 i (A @ B))" if "i \<le> SKIPLIST_MAX_LEVEL" for i
  proof -
    have "sl_chain (sl_fwd h2 i) ?hd (sl_tall ?h i A @ sl_tall ?h i B)
        = sl_chain (sl_fwd h i) ?hd (sl_tall ?h i A @ sl_tall ?h i B)"
      by (rule sl_chain_cong) (use old(5) in \<open>auto simp: sl_tall_set\<close>)
    then show ?thesis using h(3) that tall by simp
  qed
  have "\<forall>i \<le> ?L. \<exists>x. sl_fwd h2 i ?hd = Some x"
    using sl_chain_head [OF ch] okD(1) by (meson le_less_trans less_imp_le)
  from sl_lower_run [OF this] obtain l where l: "sl_lower h2 ?hd ?L = Some l" "l \<le> ?L"
    "\<forall>i. l < i \<and> i \<le> ?L \<longrightarrow> sl_fwd h2 i ?hd = Some 0" by blast
  have "sl_height h2 p \<le> l + 1" if p: "p \<in> set (A @ B)" for p
  proof (rule ccontr)
    assume "\<not> sl_height h2 p \<le> l + 1"
    then have "l + 1 < sl_height h2 p" by simp
    moreover have "sl_height h2 p \<le> ?L + 1" using okD(6) p old(3) sl_node_okD(3) by fastforce
    ultimately have l1: "l + 1 \<le> ?L" "p \<in> set (sl_tall h2 (l + 1) (A @ B))"
      using p unfolding sl_tall_set by auto
    then obtain y ys where "sl_tall h2 (l + 1) (A @ B) = y # ys" by (cases "sl_tall h2 (l + 1) (A @ B)") auto
    with ch [of "l + 1"] l1(1) okD(1) have "sl_fwd h2 (l + 1) ?hd = Some y \<and> y \<noteq> 0" by simp
    with l(3) l1(1) show False by auto
  qed
  moreover have "sl_node_ok h2 ?L p" if "p \<in> set (A @ B)" for p using okD(6) old(4) that by auto
  ultimately have "\<forall>p \<in> set (A @ B). sl_node_ok h2 l p"
    using sl_node_ok_lower by blast
  moreover have "map (sl_keyof h2) (A @ B) = map (sl_keyof ?h) (A @ B)" using old(1) by simp
  then have "sorted_wrt (<) (map (sl_keyof h2) (A @ B))"
    using okD(7) by (simp only: map_append list.map sorted_wrt_append) auto
  ultimately have "sl_ok (inst\<lparr>sl_mem := h2, sl_level := l\<rparr>) (A @ B)"
    using okD(1-5) l(2) ch old(3) unfolding sl_ok_def by auto
  then show ?thesis using h(1) l(1) old(1,2) unfolding h2_def by auto
qed

subsection \<open>The remaining operations\<close>

lemma sl_found:
  assumes "sl_invar inst" "sl_lookup inst k = Some w"
  obtains A c B p update n where "sl_ok inst (A @ c # B)" "\<forall>y \<in> set A. sl_keyof (sl_mem inst) y < k"
    "sl_search (sl_mem inst) k (sl_level inst + 1) (header inst) (\<lambda>_. 0) = Some (p, update)"
    "\<forall>i \<le> sl_level inst. update i = sl_pred (sl_mem inst) (header inst) A i"
    "sl_fwd (sl_mem inst) 0 p = Some c" "c \<noteq> 0" "sl_cmp (sl_mem inst) c k = Some 0"
    "sl_keyof (sl_mem inst) c = k" "sl_valof (sl_mem inst) c = w" "sl_node (sl_mem inst) c = Some n"
proof -
  note ok = assms(1) [unfolded sl_invar_def]
  from ok obtain A B update where f: "sl_addrs inst = A @ B"
    "\<forall>y \<in> set A. sl_keyof (sl_mem inst) y < k" "\<forall>y \<in> set B. \<not> sl_keyof (sl_mem inst) y < k"
    "sl_search (sl_mem inst) k (sl_level inst + 1) (header inst) (\<lambda>_. 0)
      = Some (sl_pred (sl_mem inst) (header inst) A 0, update)"
    "\<forall>i \<le> sl_level inst. update i = sl_pred (sl_mem inst) (header inst) A i"
    "sl_fwd (sl_mem inst) 0 (sl_pred (sl_mem inst) (header inst) A 0)
      = Some (case B of [] \<Rightarrow> 0 | b # _ \<Rightarrow> b)" by (rule sl_find)
  have lk: "(case B of [] \<Rightarrow> None
     | b # _ \<Rightarrow> if sl_keyof (sl_mem inst) b = k then Some (sl_valof (sl_mem inst) b) else None) = Some w"
    using sl_lookup_split [OF ok [unfolded f(1)] f(2,3)] assms(2) by simp
  then obtain c bs where c: "B = c # bs" "sl_keyof (sl_mem inst) c = k" "sl_valof (sl_mem inst) c = w"
    by (auto split: list.splits if_splits)
  have "sl_node_ok (sl_mem inst) (sl_level inst) c" using sl_okD(6) [OF ok] f(1) c(1) by simp
  from sl_node_okD [OF this] c obtain n where
    n: "sl_cmp (sl_mem inst) c k = Some 0" "c \<noteq> 0" "sl_node (sl_mem inst) c = Some n" by auto
  show thesis
    by (rule that [of A c bs]) (use ok f c n in simp_all)
qed

lemma sl_missing:
  assumes "sl_invar inst" "sl_lookup inst k = None"
  obtains p update cur where
    "sl_search (sl_mem inst) k (sl_level inst + 1) (header inst) (\<lambda>_. 0) = Some (p, update)"
    "sl_fwd (sl_mem inst) 0 p = Some cur"
    "cur = 0 \<or> (\<exists>x. sl_cmp (sl_mem inst) cur k = Some x \<and> x \<noteq> 0)"
proof -
  note ok = assms(1) [unfolded sl_invar_def]
  from ok obtain A B update where f: "sl_addrs inst = A @ B"
    "\<forall>y \<in> set A. sl_keyof (sl_mem inst) y < k" "\<forall>y \<in> set B. \<not> sl_keyof (sl_mem inst) y < k"
    "sl_search (sl_mem inst) k (sl_level inst + 1) (header inst) (\<lambda>_. 0)
      = Some (sl_pred (sl_mem inst) (header inst) A 0, update)"
    "\<forall>i \<le> sl_level inst. update i = sl_pred (sl_mem inst) (header inst) A i"
    "sl_fwd (sl_mem inst) 0 (sl_pred (sl_mem inst) (header inst) A 0)
      = Some (case B of [] \<Rightarrow> 0 | b # _ \<Rightarrow> b)" by (rule sl_find)
  show thesis
  proof (cases B)
    case Nil
    then show ?thesis using f that by auto
  next
    case (Cons b bs)
    then have "sl_keyof (sl_mem inst) b \<noteq> k"
      using sl_lookup_split [OF ok [unfolded f(1)] f(2,3)] assms(2) by auto
    moreover have "sl_node_ok (sl_mem inst) (sl_level inst) b" using sl_okD(6) [OF ok] f(1) Cons by simp
    ultimately show ?thesis using f Cons sl_node_okD(1) that by fastforce
  qed
qed

lemma kvs_skiplist_del_present:
  assumes "sl_invar inst" "sl_lookup inst k = Some w"
  shows "\<exists>inst'. kvs_skiplist_del inst (Some k) = Some (0, inst') \<and> sl_invar inst' \<and>
    sl_lookup inst' = (sl_lookup inst)(k := None)"
proof -
  from assms obtain A c B p update n where f: "sl_ok inst (A @ c # B)"
    "\<forall>y \<in> set A. sl_keyof (sl_mem inst) y < k"
    "sl_search (sl_mem inst) k (sl_level inst + 1) (header inst) (\<lambda>_. 0) = Some (p, update)"
    "\<forall>i \<le> sl_level inst. update i = sl_pred (sl_mem inst) (header inst) A i"
    "sl_fwd (sl_mem inst) 0 p = Some c" "c \<noteq> 0" "sl_cmp (sl_mem inst) c k = Some 0"
    "sl_keyof (sl_mem inst) c = k" "sl_valof (sl_mem inst) c = w" "sl_node (sl_mem inst) c = Some n"
    by (rule sl_found)
  from sl_delete_ok [OF f(1,4)] obtain h l where
    h: "sl_unlink (sl_mem inst) c update (sl_level inst) 0 = Some h"
    "sl_lower (h(c := None)) (header inst) (sl_level inst) = Some l"
    "sl_ok (inst\<lparr>sl_mem := h(c := None), sl_level := l\<rparr>) (A @ B)"
    "\<forall>p \<in> set (A @ B). sl_keyof (h(c := None)) p = sl_keyof (sl_mem inst) p
      \<and> sl_valof (h(c := None)) p = sl_valof (sl_mem inst) p" by blast
  let ?e = "\<lambda>p. (sl_keyof (sl_mem inst) p, sl_valof (sl_mem inst) p)"
  have "distinct (map (sl_keyof (sl_mem inst)) (A @ c # B))"
    using strict_sorted_iff sl_okD(7) [OF f(1)] by blast
  then have "distinct (map fst (map ?e A @ (k, w) # map ?e B))" using f(8) by (simp add: comp_def)
  note del = map_of_delete_mid [OF this]
  have "sl_lookup (inst\<lparr>sl_mem := h(c := None), sl_level := l\<rparr>) = map_of (map ?e A @ map ?e B)"
    using sl_ok_lookup [OF h(3)] h(4) by (simp add: fun_eq_iff cong: map_cong)
  also have "\<dots> = (sl_lookup inst)(k := None)"
    using del sl_ok_lookup [OF f(1)] f(8,9) by simp
  finally show ?thesis using f h sl_ok_invar [OF h(3)]
    by (simp add: kvs_skiplist_del_def Let_def del: sl_search.simps)
qed

lemma kvs_skiplist_del_missing:
  assumes "sl_invar inst" "sl_lookup inst k = None"
  shows "kvs_skiplist_del inst (Some k) = Some (1, inst)"
proof -
  from assms obtain p update cur where
    "sl_search (sl_mem inst) k (sl_level inst + 1) (header inst) (\<lambda>_. 0) = Some (p, update)"
    "sl_fwd (sl_mem inst) 0 p = Some cur"
    "cur = 0 \<or> (\<exists>x. sl_cmp (sl_mem inst) cur k = Some x \<and> x \<noteq> 0)" by (rule sl_missing)
  then show ?thesis by (auto simp: kvs_skiplist_del_def simp del: sl_search.simps)
qed

lemma kvs_skiplist_mod_missing:
  assumes "sl_invar inst" "sl_lookup inst k = None"
  shows "kvs_skiplist_mod e inst (Some k) (Some v) = Some (1, inst)"
proof -
  from assms obtain p update cur where
    "sl_search (sl_mem inst) k (sl_level inst + 1) (header inst) (\<lambda>_. 0) = Some (p, update)"
    "sl_fwd (sl_mem inst) 0 p = Some cur"
    "cur = 0 \<or> (\<exists>x. sl_cmp (sl_mem inst) cur k = Some x \<and> x \<noteq> 0)" by (rule sl_missing)
  then show ?thesis by (auto simp: kvs_skiplist_mod_def simp del: sl_search.simps)
qed

lemma sl_put_value:
  assumes "sl_node h c = Some n" "h' = h(c \<mapsto> n\<lparr>n_value := Some v\<rparr>)"
  shows "sl_keyof h' p = sl_keyof h p" "sl_height h' p = sl_height h p" "sl_fwd h' i p = sl_fwd h i p"
    "sl_valof h' p = (if p = c then v else sl_valof h p)"
    "sl_node_ok h l p \<Longrightarrow> sl_node_ok h' l p"
  using assms
  by (auto simp: sl_keyof_def sl_valof_def sl_height_def sl_node_ok_def sl_fwd_def sl_node_def
      split: if_splits)

lemma kvs_skiplist_mod_present:
  assumes "sl_invar inst" "sl_lookup inst k = Some w"
  shows "(mem e 0 \<longrightarrow> (\<exists>inst'. kvs_skiplist_mod e inst (Some k) (Some v) = Some (0, inst') \<and>
      sl_invar inst' \<and> sl_lookup inst' = (sl_lookup inst)(k \<mapsto> v))) \<and>
    (\<not> mem e 0 \<longrightarrow> kvs_skiplist_mod e inst (Some k) (Some v) = Some (-2, inst))"
proof -
  from assms obtain A c B p update n where f: "sl_ok inst (A @ c # B)"
    "\<forall>y \<in> set A. sl_keyof (sl_mem inst) y < k"
    "sl_search (sl_mem inst) k (sl_level inst + 1) (header inst) (\<lambda>_. 0) = Some (p, update)"
    "\<forall>i \<le> sl_level inst. update i = sl_pred (sl_mem inst) (header inst) A i"
    "sl_fwd (sl_mem inst) 0 p = Some c" "c \<noteq> 0" "sl_cmp (sl_mem inst) c k = Some 0"
    "sl_keyof (sl_mem inst) c = k" "sl_valof (sl_mem inst) c = w" "sl_node (sl_mem inst) c = Some n"
    by (rule sl_found)
  define h' where "h' = (sl_mem inst)(c \<mapsto> n\<lparr>n_value := Some v\<rparr>)"
  note put = sl_put_value [OF f(10) h'_def]
  let ?inst = "inst\<lparr>sl_mem := h'\<rparr>" and ?e = "\<lambda>p. (sl_keyof (sl_mem inst) p, sl_valof (sl_mem inst) p)"
  have "sl_fwd h' i = sl_fwd (sl_mem inst) i" "sl_keyof h' = sl_keyof (sl_mem inst)"
    "sl_tall h' i xs = sl_tall (sl_mem inst) i xs" for i xs
    using put(1-3) by (simp_all add: fun_eq_iff sl_tall_def)
  then have ok: "sl_ok ?inst (A @ c # B)"
    using f(1) put(2,5) unfolding sl_ok_def by simp
  have d: "c \<notin> set A" "c \<notin> set B" using sl_okD(5) [OF f(1)] by auto
  have "map (\<lambda>p. (sl_keyof h' p, sl_valof h' p)) (A @ c # B) = map ?e A @ (k, v) # map ?e B"
    using d f(8) put(1,4) by (auto simp: map_eq_conv)
  moreover have sm: "sl_mem ?inst = h'" by simp
  ultimately have "sl_lookup ?inst = map_of (map ?e A @ (k, v) # map ?e B)"
    using sl_ok_lookup [OF ok] by (simp only:)
  also have "\<dots> = (map_of (map ?e A @ (k, w) # map ?e B))(k \<mapsto> v)"
    by (rule map_of_update_mid) (use f(2) in auto)
  also have "\<dots> = (sl_lookup inst)(k \<mapsto> v)" using sl_ok_lookup [OF f(1)] f(8,9) by simp
  finally show ?thesis using f sl_ok_invar [OF ok]
    by (auto simp: kvs_skiplist_mod_def h'_def simp del: sl_search.simps)
qed

subsection \<open>The engine contract\<close>

interpretation skl: kv_engine_atomic sl_invar sl_lookup "\<lambda>_. True" 1
    kvs_skiplist_set kvs_skiplist_get kvs_skiplist_del kvs_skiplist_mod kvs_skiplist_exist
proof (unfold_locales, goal_cases)
  case (1 s) show ?case by (simp add: sl_lookup_def finite_dom_map_of)
next
  case (2 s e k v) then show ?case by (intro kvs_skiplist_set_fresh)
next
  case (3 s k w e v) then show ?case using kvs_skiplist_set_cases [of s e k v] by auto
next
  case (4 s k) then show ?case by (rule kvs_skiplist_get_lookup)
next
  case (5 s k w) then show ?case by (rule kvs_skiplist_del_present)
next
  case (6 s k) then show ?case by (rule kvs_skiplist_del_missing)
next
  case 7 show ?case by simp
next
  case (8 s e k w v) then show ?case using kvs_skiplist_mod_present [of s k w e v] by auto
next
  case (9 s k e v) then show ?case by (simp add: kvs_skiplist_mod_missing)
next
  case (10 s k) then show ?case by (simp add: kvs_skiplist_exist_def kvs_skiplist_get_lookup)
next
  case (11 s k e v r s')
  have "r = 0" if "createNode e (randomLevel e) (Some k) (Some v) \<noteq> None"
  proof -
    have m: "mem e 0" "mem e 1" "mem e 2" "mem e 3" using that by (auto simp: createNode_def split: if_splits)
    define e' where "e' = e\<lparr>mem := \<lambda>_. True\<rparr>"
    have "mem_ok e'" by (simp add: e'_def mem_ok_def)
    from kvs_skiplist_set_fresh [OF 11(1) this 11(3), of v] obtain s1 where
      "kvs_skiplist_set e' s (Some k) (Some v) = Some (0, s1)" by blast
    moreover have "kvs_skiplist_set e' s (Some k) (Some v) = kvs_skiplist_set e s (Some k) (Some v)"
    proof -
      have "randomLevel e' = randomLevel e" "createNode e' l (Some k) (Some v) = createNode e l (Some k) (Some v)" for l
        using m by (simp_all add: createNode_def randomLevel_def e'_def)
      then show ?thesis by (simp only: kvs_skiplist_set_def prod.case option.case)
    qed
    ultimately show ?thesis using 11(4) by simp
  qed
  then show ?case using 11 kvs_skiplist_set_cases [of s e k v] by auto
next
  case (12 s k w e v r s') then show ?case using kvs_skiplist_mod_present [of s k w e v] by (cases "mem e 0") auto
qed

subsection \<open>Creation\<close>

text \<open>The global instance before \<open>kvs_skiplist_create\<close>: all zero, with an empty store.\<close>

definition sl_zero :: SkipList where
  "sl_zero = \<lparr>sl_level = 0, header = 0, sl_mem = (\<lambda>_. None), sl_next = 1\<rparr>"

lemma kvs_skiplist_create_ok:
  assumes "mem e 0" "mem e 1"
  shows "\<exists>inst. kvs_skiplist_create e sl_zero = (0, inst) \<and> sl_invar inst \<and> sl_lookup inst = Map.empty"
proof -
  let ?n = "\<lparr>n_key = None, n_value = None, forward = replicate (SKIPLIST_MAX_LEVEL + 1) 0\<rparr>"
  let ?inst = "\<lparr>sl_level = 0, header = 1, sl_mem = [1 \<mapsto> ?n], sl_next = 2\<rparr>"
  have "sl_ok ?inst []"
    by (auto simp: sl_ok_def sl_height_def sl_node_def sl_fwd_def sl_tall_def SKIPLIST_MAX_LEVEL_def
        simp del: replicate.simps)
  then show ?thesis
    using assms sl_ok_invar [of ?inst "[]"] sl_ok_lookup [of ?inst "[]"]
    by (simp add: kvs_skiplist_create_def createNode_def sl_zero_def numeral_2_eq_2)
qed

subsection \<open>Properties\<close>

text \<open>C9: Any sequence of LSET, LDEL and LMOD calls on a well-formed skip list, whatever random
  levels are drawn, terminates without following a bad pointer, keeps all levels linked and
  sorted, leaves exactly the map the specification gives, and answers 0 for precisely the calls
  that took effect.\<close>

theorem skiplist_writes_refine:
  assumes "sl_invar inst" and "\<forall>(e, w) \<in> set ws. mem_ok e"
  shows "\<exists>rs inst'. kv_writes (kv_write kvs_skiplist_set kvs_skiplist_del kvs_skiplist_mod) inst ws = Some (rs, inst')
    \<and> sl_invar inst' \<and> kv_spec_run (sl_lookup inst) (map snd ws) = (map (\<lambda>r. r = 0) rs, sl_lookup inst')"
  by (rule skl.writes_refine) (use assms in auto)

theorem skiplist_writes_refine_witness:
  "\<exists>rs inst'. kv_writes (kv_write kvs_skiplist_set kvs_skiplist_del kvs_skiplist_mod)
      (snd (kvs_skiplist_create env0 sl_zero))
      [(env0\<lparr>rnd := \<lambda>i. int i * 1000000000\<rparr>, OpSet ''b'' ''1''), (env0, OpSet ''a'' ''2''), (env0, OpDel ''b'')]
      = Some (rs, inst') \<and> sl_lookup inst' = [''a'' \<mapsto> ''2'']"
proof -
  let ?ws = "[(env0\<lparr>rnd := \<lambda>i. int i * 1000000000\<rparr>, OpSet ''b'' ''1''), (env0, OpSet ''a'' ''2''),
    (env0, OpDel ''b'')]"
  obtain inst where i: "kvs_skiplist_create env0 sl_zero = (0, inst)" "sl_invar inst"
    "sl_lookup inst = Map.empty" using kvs_skiplist_create_ok [of env0] by auto
  have "\<forall>(e, w) \<in> set ?ws. mem_ok e" by (simp add: mem_ok_def env0_def)
  moreover have "snd (kv_spec_run (sl_lookup inst) (map snd ?ws)) = [''a'' \<mapsto> ''2'']"
    by (simp add: i fun_eq_iff)
  ultimately show ?thesis using skiplist_writes_refine [OF i(2), of ?ws] i(1) by (metis snd_conv)
qed

text \<open>Search agrees with the abstract map on every well-formed skip list: LGET returns the
  stored value of exactly the stored keys and LEXIST answers 0 exactly for them; both terminate
  and never follow a NULL or dangling pointer.\<close>

lemma skiplist_get_exist:
  assumes "sl_invar inst"
  shows "kvs_skiplist_get inst (Some k) = Some (sl_lookup inst k)
    \<and> kvs_skiplist_exist inst (Some k) = Some (if sl_lookup inst k = None then 1 else 0)"
  using skl.get_lookup [OF assms] skl.exist_lookup [OF assms] by blast

text \<open>C30: Whichever allocations fail, an LSET, LDEL or LMOD on a well-formed skip list that does
  not answer 0 leaves the list exactly as it was.\<close>

theorem skiplist_write_atomic:
  assumes "sl_invar inst"
    and "kv_write kvs_skiplist_set kvs_skiplist_del kvs_skiplist_mod e inst w = Some (r, inst')" and "r \<noteq> 0"
  shows "inst' = inst"
  using skl.write_all_or_nothing [OF assms(1) _ assms(2,3)] by simp

theorem skiplist_write_atomic_witness:
  "\<exists>r inst'. kv_write kvs_skiplist_set kvs_skiplist_del kvs_skiplist_mod
       \<lparr>mem = (\<lambda>i. i < 3), rnd = (\<lambda>_. 0), junk = 0\<rparr> (snd (kvs_skiplist_create env0 sl_zero))
       (OpSet ''k'' ''v'') = Some (r, inst')
     \<and> r \<noteq> 0 \<and> inst' = snd (kvs_skiplist_create env0 sl_zero)"
proof -
  let ?e = "\<lparr>mem = (\<lambda>i. i < 3), rnd = (\<lambda>_. 0), junk = 0\<rparr> :: env"
  obtain inst where i: "kvs_skiplist_create env0 sl_zero = (0, inst)" "sl_invar inst"
    "sl_lookup inst = Map.empty" using kvs_skiplist_create_ok [of env0] by auto
  have "kv_write kvs_skiplist_set kvs_skiplist_del kvs_skiplist_mod ?e inst (OpSet ''k'' ''v'') = Some (-2, inst)"
    using kvs_skiplist_set_cases [OF i(2), of ?e "''k''" "''v''"] i(3)
    by (simp add: kv_write_def createNode_def)
  with skiplist_write_atomic [OF i(2) this] i(1) show ?thesis by auto
qed

end
