(* ===== verification/Kvs_Rbtree.thy ===== *)
theory Kvs_Rbtree
  imports Kv_Spec
begin

text \<open>
  The red-black tree engine, \<^verbatim>\<open>kvs-engine/kvs_rbtree.c\<close>, at the level of its pointers: nodes with
  colour, child and parent pointers live in a store from addresses to nodes, 0 is NULL, and the
  sentinel \<open>T->nil\<close> is a node of the store whose \<open>parent\<close> the deletion uses as scratch space.
  Every \<open>p->f\<close> of the source is a checked access, so following NULL or a freed node has no
  result; loops that walk or rebalance the tree are partial functions, and running forever has no
  result either.  Memory from \<open>kvs_malloc\<close> holds \<open>junk\<close> until the source writes it.

  This theory holds the operations; \<open>Kvs_Rbtree_Proof\<close> shows what they do.
\<close>

subsection \<open>Data\<close>

datatype rbcolor = RED | BLACK

record rbtree_node =
  rb_color :: rbcolor
  rb_right :: addr
  rb_left :: addr
  rb_parent :: addr
  rb_key :: "string option"
  rb_value :: "string option"

record rbtree =
  rb_root :: addr
  rb_nil :: addr
  rb_mem :: "addr \<Rightarrow> rbtree_node option"
  rb_next :: addr

subsection \<open>Access through pointers\<close>

definition rb_get :: "rbtree \<Rightarrow> addr \<Rightarrow> rbtree_node option" where
  "rb_get T p = (if p = 0 then None else rb_mem T p)"

definition rb_put :: "rbtree \<Rightarrow> addr \<Rightarrow> (rbtree_node \<Rightarrow> rbtree_node) \<Rightarrow> rbtree option" where
  "rb_put T p f = do { n \<leftarrow> rb_get T p; Some (T\<lparr>rb_mem := (rb_mem T)(p \<mapsto> f n)\<rparr>) }"

definition get_color :: "rbtree \<Rightarrow> addr \<Rightarrow> rbcolor option" where
  "get_color T p = map_option rb_color (rb_get T p)"

definition get_left :: "rbtree \<Rightarrow> addr \<Rightarrow> addr option" where
  "get_left T p = map_option rb_left (rb_get T p)"

definition get_right :: "rbtree \<Rightarrow> addr \<Rightarrow> addr option" where
  "get_right T p = map_option rb_right (rb_get T p)"

definition get_parent :: "rbtree \<Rightarrow> addr \<Rightarrow> addr option" where
  "get_parent T p = map_option rb_parent (rb_get T p)"

definition set_color :: "rbtree \<Rightarrow> addr \<Rightarrow> rbcolor \<Rightarrow> rbtree option" where
  "set_color T p c = rb_put T p (\<lambda>n. n\<lparr>rb_color := c\<rparr>)"

definition set_left :: "rbtree \<Rightarrow> addr \<Rightarrow> addr \<Rightarrow> rbtree option" where
  "set_left T p q = rb_put T p (\<lambda>n. n\<lparr>rb_left := q\<rparr>)"

definition set_right :: "rbtree \<Rightarrow> addr \<Rightarrow> addr \<Rightarrow> rbtree option" where
  "set_right T p q = rb_put T p (\<lambda>n. n\<lparr>rb_right := q\<rparr>)"

definition set_parent :: "rbtree \<Rightarrow> addr \<Rightarrow> addr \<Rightarrow> rbtree option" where
  "set_parent T p q = rb_put T p (\<lambda>n. n\<lparr>rb_parent := q\<rparr>)"

text \<open>\<open>strcmp(key, p->key)\<close>; a NULL key has no result.\<close>

definition rb_cmp :: "rbtree \<Rightarrow> string \<Rightarrow> addr \<Rightarrow> int option" where
  "rb_cmp T key p = do { n \<leftarrow> rb_get T p; k \<leftarrow> rb_key n; Some (strcmp key k) }"

subsection \<open>Minimum, maximum, successor\<close>

partial_function (option) rbtree_mini :: "rbtree \<Rightarrow> addr \<Rightarrow> addr option" where
  "rbtree_mini T x = do { l \<leftarrow> get_left T x; if l \<noteq> rb_nil T then rbtree_mini T l else Some x }"

partial_function (option) rbtree_maxi :: "rbtree \<Rightarrow> addr \<Rightarrow> addr option" where
  "rbtree_maxi T x = do { r \<leftarrow> get_right T x; if r \<noteq> rb_nil T then rbtree_maxi T r else Some x }"

partial_function (option) rbtree_climb :: "rbtree \<Rightarrow> addr \<Rightarrow> addr \<Rightarrow> addr option" where
  "rbtree_climb T x y =
     (if y \<noteq> rb_nil T then
        do { r \<leftarrow> get_right T y;
             if x = r then do { y' \<leftarrow> get_parent T y; rbtree_climb T y y' } else Some y }
      else Some y)"

definition rbtree_successor :: "rbtree \<Rightarrow> addr \<Rightarrow> addr option" where
  "rbtree_successor T x = do {
     y \<leftarrow> get_parent T x;
     r \<leftarrow> get_right T x;
     if r \<noteq> rb_nil T then rbtree_mini T r else rbtree_climb T x y }"

subsection \<open>Rotations\<close>

definition rbtree_left_rotate :: "rbtree \<Rightarrow> addr \<Rightarrow> rbtree option" where
  "rbtree_left_rotate T x = do {
     y \<leftarrow> get_right T x;
     yl \<leftarrow> get_left T y;
     T \<leftarrow> set_right T x yl;
     yl \<leftarrow> get_left T y;
     T \<leftarrow> (if yl \<noteq> rb_nil T then set_parent T yl x else Some T);
     xp \<leftarrow> get_parent T x;
     T \<leftarrow> set_parent T y xp;
     xp \<leftarrow> get_parent T x;
     T \<leftarrow> (if xp = rb_nil T then Some (T\<lparr>rb_root := y\<rparr>)
           else do { pl \<leftarrow> get_left T xp;
                     if x = pl then set_left T xp y else set_right T xp y });
     T \<leftarrow> set_left T y x;
     set_parent T x y }"

definition rbtree_right_rotate :: "rbtree \<Rightarrow> addr \<Rightarrow> rbtree option" where
  "rbtree_right_rotate T y = do {
     x \<leftarrow> get_left T y;
     xr \<leftarrow> get_right T x;
     T \<leftarrow> set_left T y xr;
     xr \<leftarrow> get_right T x;
     T \<leftarrow> (if xr \<noteq> rb_nil T then set_parent T xr y else Some T);
     yp \<leftarrow> get_parent T y;
     T \<leftarrow> set_parent T x yp;
     yp \<leftarrow> get_parent T y;
     T \<leftarrow> (if yp = rb_nil T then Some (T\<lparr>rb_root := x\<rparr>)
           else do { pr \<leftarrow> get_right T yp;
                     if y = pr then set_right T yp x else set_left T yp x });
     T \<leftarrow> set_right T x y;
     set_parent T y x }"

subsection \<open>Insertion\<close>

text \<open>The body of the loop of \<open>rbtree_insert_fixup\<close> when \<open>z->parent\<close> is a left child, and when
  it is not.  The result is the tree and the new \<open>z\<close>.\<close>

definition insert_fixup_left :: "rbtree \<Rightarrow> addr \<Rightarrow> (rbtree \<times> addr) option" where
  "insert_fixup_left T z = do {
     p \<leftarrow> get_parent T z;
     g \<leftarrow> get_parent T p;
     y \<leftarrow> get_right T g;
     c \<leftarrow> get_color T y;
     if c = RED then do {
       T \<leftarrow> set_color T p BLACK;
       T \<leftarrow> set_color T y BLACK;
       T \<leftarrow> set_color T g RED;
       Some (T, g) }
     else do {
       pr \<leftarrow> get_right T p;
       (T, z) \<leftarrow> (if z = pr then do { T \<leftarrow> rbtree_left_rotate T p; Some (T, p) } else Some (T, z));
       p \<leftarrow> get_parent T z;
       T \<leftarrow> set_color T p BLACK;
       g \<leftarrow> get_parent T p;
       T \<leftarrow> set_color T g RED;
       T \<leftarrow> rbtree_right_rotate T g;
       Some (T, z) } }"

definition insert_fixup_right :: "rbtree \<Rightarrow> addr \<Rightarrow> (rbtree \<times> addr) option" where
  "insert_fixup_right T z = do {
     p \<leftarrow> get_parent T z;
     g \<leftarrow> get_parent T p;
     y \<leftarrow> get_left T g;
     c \<leftarrow> get_color T y;
     if c = RED then do {
       T \<leftarrow> set_color T p BLACK;
       T \<leftarrow> set_color T y BLACK;
       T \<leftarrow> set_color T g RED;
       Some (T, g) }
     else do {
       pl \<leftarrow> get_left T p;
       (T, z) \<leftarrow> (if z = pl then do { T \<leftarrow> rbtree_right_rotate T p; Some (T, p) } else Some (T, z));
       p \<leftarrow> get_parent T z;
       T \<leftarrow> set_color T p BLACK;
       g \<leftarrow> get_parent T p;
       T \<leftarrow> set_color T g RED;
       T \<leftarrow> rbtree_left_rotate T g;
       Some (T, z) } }"

partial_function (option) rbtree_insert_fixup :: "rbtree \<Rightarrow> addr \<Rightarrow> rbtree option" where
  "rbtree_insert_fixup T z = do {
     p \<leftarrow> get_parent T z;
     c \<leftarrow> get_color T p;
     if c = RED then do {
       g \<leftarrow> get_parent T p;
       gl \<leftarrow> get_left T g;
       tz \<leftarrow> (if p = gl then insert_fixup_left T z else insert_fixup_right T z);
       rbtree_insert_fixup (fst tz) (snd tz) }
     else set_color T (rb_root T) BLACK }"

text \<open>The descent of \<open>rbtree_insert\<close>: the last node \<open>y\<close> before NIL, or \<open>None\<close> inside when the
  key is found.\<close>

partial_function (option) rbtree_descend :: "rbtree \<Rightarrow> string \<Rightarrow> addr \<Rightarrow> addr \<Rightarrow> addr option option" where
  "rbtree_descend T key x y =
     (if x \<noteq> rb_nil T then
        do { c \<leftarrow> rb_cmp T key x;
             if c < 0 then do { l \<leftarrow> get_left T x; rbtree_descend T key l x }
             else if c > 0 then do { r \<leftarrow> get_right T x; rbtree_descend T key r x }
             else Some None }
      else Some (Some y))"

definition rbtree_insert :: "rbtree \<Rightarrow> addr \<Rightarrow> rbtree option" where
  "rbtree_insert T z = do {
     nz \<leftarrow> rb_get T z;
     key \<leftarrow> rb_key nz;
     d \<leftarrow> rbtree_descend T key (rb_root T) (rb_nil T);
     (case d of None \<Rightarrow> Some T
      | Some y \<Rightarrow> do {
          T \<leftarrow> set_parent T z y;
          T \<leftarrow> (if y = rb_nil T then Some (T\<lparr>rb_root := z\<rparr>)
                else do { c \<leftarrow> rb_cmp T key y;
                          if c < 0 then set_left T y z else set_right T y z });
          T \<leftarrow> set_left T z (rb_nil T);
          T \<leftarrow> set_right T z (rb_nil T);
          T \<leftarrow> set_color T z RED;
          rbtree_insert_fixup T z }) }"

subsection \<open>Deletion\<close>

text \<open>The body of the loop of \<open>rbtree_delete_fixup\<close> when \<open>x\<close> is a left child, and when it is
  not.\<close>

definition delete_fixup_left :: "rbtree \<Rightarrow> addr \<Rightarrow> (rbtree \<times> addr) option" where
  "delete_fixup_left T x = do {
     p \<leftarrow> get_parent T x;
     w \<leftarrow> get_right T p;
     wc \<leftarrow> get_color T w;
     (T, w) \<leftarrow> (if wc = RED then do {
                   T \<leftarrow> set_color T w BLACK;
                   p \<leftarrow> get_parent T x;
                   T \<leftarrow> set_color T p RED;
                   T \<leftarrow> rbtree_left_rotate T p;
                   p \<leftarrow> get_parent T x;
                   w \<leftarrow> get_right T p;
                   Some (T, w) }
                 else Some (T, w));
     wl \<leftarrow> get_left T w;
     wlc \<leftarrow> get_color T wl;
     both \<leftarrow> (if wlc = BLACK
              then do { wr \<leftarrow> get_right T w; wrc \<leftarrow> get_color T wr; Some (wrc = BLACK) }
              else Some False);
     if both then do {
       T \<leftarrow> set_color T w RED;
       p \<leftarrow> get_parent T x;
       Some (T, p) }
     else do {
       wr \<leftarrow> get_right T w;
       wrc \<leftarrow> get_color T wr;
       (T, w) \<leftarrow> (if wrc = BLACK then do {
                     wl \<leftarrow> get_left T w;
                     T \<leftarrow> set_color T wl BLACK;
                     T \<leftarrow> set_color T w RED;
                     T \<leftarrow> rbtree_right_rotate T w;
                     p \<leftarrow> get_parent T x;
                     w \<leftarrow> get_right T p;
                     Some (T, w) }
                   else Some (T, w));
       p \<leftarrow> get_parent T x;
       pc \<leftarrow> get_color T p;
       T \<leftarrow> set_color T w pc;
       p \<leftarrow> get_parent T x;
       T \<leftarrow> set_color T p BLACK;
       wr \<leftarrow> get_right T w;
       T \<leftarrow> set_color T wr BLACK;
       p \<leftarrow> get_parent T x;
       T \<leftarrow> rbtree_left_rotate T p;
       Some (T, rb_root T) } }"

definition delete_fixup_right :: "rbtree \<Rightarrow> addr \<Rightarrow> (rbtree \<times> addr) option" where
  "delete_fixup_right T x = do {
     p \<leftarrow> get_parent T x;
     w \<leftarrow> get_left T p;
     wc \<leftarrow> get_color T w;
     (T, w) \<leftarrow> (if wc = RED then do {
                   T \<leftarrow> set_color T w BLACK;
                   p \<leftarrow> get_parent T x;
                   T \<leftarrow> set_color T p RED;
                   T \<leftarrow> rbtree_right_rotate T p;
                   p \<leftarrow> get_parent T x;
                   w \<leftarrow> get_left T p;
                   Some (T, w) }
                 else Some (T, w));
     wl \<leftarrow> get_left T w;
     wlc \<leftarrow> get_color T wl;
     both \<leftarrow> (if wlc = BLACK
              then do { wr \<leftarrow> get_right T w; wrc \<leftarrow> get_color T wr; Some (wrc = BLACK) }
              else Some False);
     if both then do {
       T \<leftarrow> set_color T w RED;
       p \<leftarrow> get_parent T x;
       Some (T, p) }
     else do {
       wl \<leftarrow> get_left T w;
       wlc \<leftarrow> get_color T wl;
       (T, w) \<leftarrow> (if wlc = BLACK then do {
                     wr \<leftarrow> get_right T w;
                     T \<leftarrow> set_color T wr BLACK;
                     T \<leftarrow> set_color T w RED;
                     T \<leftarrow> rbtree_left_rotate T w;
                     p \<leftarrow> get_parent T x;
                     w \<leftarrow> get_left T p;
                     Some (T, w) }
                   else Some (T, w));
       p \<leftarrow> get_parent T x;
       pc \<leftarrow> get_color T p;
       T \<leftarrow> set_color T w pc;
       p \<leftarrow> get_parent T x;
       T \<leftarrow> set_color T p BLACK;
       wl \<leftarrow> get_left T w;
       T \<leftarrow> set_color T wl BLACK;
       p \<leftarrow> get_parent T x;
       T \<leftarrow> rbtree_right_rotate T p;
       Some (T, rb_root T) } }"

partial_function (option) rbtree_delete_fixup :: "rbtree \<Rightarrow> addr \<Rightarrow> rbtree option" where
  "rbtree_delete_fixup T x = do {
     c \<leftarrow> (if x \<noteq> rb_root T then get_color T x else Some RED);
     if x \<noteq> rb_root T \<and> c = BLACK then do {
       p \<leftarrow> get_parent T x;
       pl \<leftarrow> get_left T p;
       tx \<leftarrow> (if x = pl then delete_fixup_left T x else delete_fixup_right T x);
       rbtree_delete_fixup (fst tx) (snd tx) }
     else set_color T x BLACK }"

text \<open>\<open>rbtree_delete\<close> returns the tree and the node that was unlinked.\<close>

definition rbtree_delete :: "rbtree \<Rightarrow> addr \<Rightarrow> (rbtree \<times> addr) option" where
  "rbtree_delete T z = do {
     zl \<leftarrow> get_left T z;
     zr \<leftarrow> get_right T z;
     y \<leftarrow> (if zl = rb_nil T \<or> zr = rb_nil T then Some z else rbtree_successor T z);
     yl \<leftarrow> get_left T y;
     yr \<leftarrow> get_right T y;
     let x = (if yl \<noteq> rb_nil T then yl else if yr \<noteq> rb_nil T then yr else rb_nil T);
     yp \<leftarrow> get_parent T y;
     T \<leftarrow> set_parent T x yp;
     yp \<leftarrow> get_parent T y;
     T \<leftarrow> (if yp = rb_nil T then Some (T\<lparr>rb_root := x\<rparr>)
           else do { pl \<leftarrow> get_left T yp;
                     if y = pl then set_left T yp x else set_right T yp x });
     T \<leftarrow> (if y \<noteq> z then do {
             nz \<leftarrow> rb_get T z;
             ny \<leftarrow> rb_get T y;
             T \<leftarrow> rb_put T z (\<lambda>n. n\<lparr>rb_key := rb_key ny, rb_value := rb_value ny\<rparr>);
             rb_put T y (\<lambda>n. n\<lparr>rb_key := rb_key nz, rb_value := rb_value nz\<rparr>) }
           else Some T);
     yc \<leftarrow> get_color T y;
     T \<leftarrow> (if yc = BLACK then rbtree_delete_fixup T x else Some T);
     Some (T, y) }"

subsection \<open>Search and traversal\<close>

partial_function (option) rbtree_search_from :: "rbtree \<Rightarrow> string \<Rightarrow> addr \<Rightarrow> addr option" where
  "rbtree_search_from T key node =
     (if node \<noteq> rb_nil T then
        do { c \<leftarrow> rb_cmp T key node;
             if c < 0 then do { l \<leftarrow> get_left T node; rbtree_search_from T key l }
             else if c > 0 then do { r \<leftarrow> get_right T node; rbtree_search_from T key r }
             else Some node }
      else Some (rb_nil T))"

definition rbtree_search :: "rbtree \<Rightarrow> string \<Rightarrow> addr option" where
  "rbtree_search T key = rbtree_search_from T key (rb_root T)"

text \<open>\<open>rbtree_traversal\<close>: the lines it prints, as pairs of key and value.\<close>

partial_function (option) rbtree_traversal ::
  "rbtree \<Rightarrow> addr \<Rightarrow> (string option \<times> string option) list option" where
  "rbtree_traversal T node =
     (if node \<noteq> rb_nil T then
        do { l \<leftarrow> get_left T node;
             xs \<leftarrow> rbtree_traversal T l;
             n \<leftarrow> rb_get T node;
             ys \<leftarrow> rbtree_traversal T (rb_right n);
             Some (xs @ (rb_key n, rb_value n) # ys) }
      else Some [])"

subsection \<open>The engine\<close>

definition rb_fresh :: "env \<Rightarrow> rbtree_node" where
  "rb_fresh e = \<lparr>rb_color = (if even (junk e) then RED else BLACK), rb_right = junk e, rb_left = junk e,
                rb_parent = junk e, rb_key = Some [], rb_value = Some []\<rparr>"

text \<open>\<open>kvs_malloc(sizeof(rbtree_node))\<close>; the result is not checked by the source.\<close>

definition rb_alloc :: "env \<Rightarrow> nat \<Rightarrow> rbtree \<Rightarrow> addr \<times> rbtree" where
  "rb_alloc e i T =
     (if mem e i then (rb_next T, T\<lparr>rb_mem := (rb_mem T)(rb_next T \<mapsto> rb_fresh e), rb_next := rb_next T + 1\<rparr>)
      else (0, T))"

definition rb_free :: "rbtree \<Rightarrow> addr \<Rightarrow> rbtree" where
  "rb_free T p = T\<lparr>rb_mem := (rb_mem T)(p := None)\<rparr>"

definition kvs_rbtree_create :: "env \<Rightarrow> rbtree \<Rightarrow> (int \<times> rbtree) option" where
  "kvs_rbtree_create e inst = do {
     let (p, inst) = rb_alloc e 0 inst;
     let inst = inst\<lparr>rb_nil := p\<rparr>;
     inst \<leftarrow> set_color inst (rb_nil inst) BLACK;
     Some (0, inst\<lparr>rb_root := rb_nil inst\<rparr>) }"

partial_function (option) rbtree_free_all :: "rbtree \<Rightarrow> rbtree option" where
  "rbtree_free_all inst =
     (if rb_root inst \<noteq> rb_nil inst then
        do { mini \<leftarrow> rbtree_mini inst (rb_root inst);
             tc \<leftarrow> rbtree_delete inst mini;
             cur \<leftarrow> rb_get (fst tc) (snd tc);
             rbtree_free_all (rb_free (fst tc) (snd tc)) }
      else Some inst)"

definition kvs_rbtree_destory :: "rbtree \<Rightarrow> rbtree option" where
  "kvs_rbtree_destory inst = do {
     inst \<leftarrow> rbtree_free_all inst;
     Some ((rb_free inst (rb_nil inst))\<lparr>rb_nil := 0, rb_root := 0\<rparr>) }"

definition kvs_rbtree_get :: "rbtree \<Rightarrow> string option \<Rightarrow> string option option" where
  "kvs_rbtree_get inst key =
     (case key of None \<Rightarrow> Some None
      | Some k \<Rightarrow> do { node \<leftarrow> rbtree_search inst k;
                      if node = rb_nil inst then Some None
                      else do { n \<leftarrow> rb_get inst node; Some (rb_value n) } })"

definition kvs_rbtree_set ::
  "env \<Rightarrow> rbtree \<Rightarrow> string option \<Rightarrow> string option \<Rightarrow> (int \<times> rbtree) option" where
  "kvs_rbtree_set e inst key value =
     (case (key, value) of
        (Some k, Some v) \<Rightarrow>
          do { g \<leftarrow> kvs_rbtree_get inst key;
               if g \<noteq> None then Some (1, inst)
               else do {
                 let (node, inst) = rb_alloc e 0 inst;
                 if \<not> mem e 1
                 then do { inst \<leftarrow> rb_put inst node (\<lambda>n. n\<lparr>rb_key := None\<rparr>); Some (-2, rb_free inst node) }
                 else do {
                   inst \<leftarrow> rb_put inst node (\<lambda>n. n\<lparr>rb_key := Some k\<rparr>);
                   if \<not> mem e 2 then Some (-2, rb_free inst node)
                   else do {
                     inst \<leftarrow> rb_put inst node (\<lambda>n. n\<lparr>rb_value := Some v\<rparr>);
                     inst \<leftarrow> rbtree_insert inst node;
                     Some (0, inst) } } } }
      | _ \<Rightarrow> Some (-1, inst))"

definition kvs_rbtree_del :: "rbtree \<Rightarrow> string option \<Rightarrow> (int \<times> rbtree) option" where
  "kvs_rbtree_del inst key =
     (case key of None \<Rightarrow> Some (-1, inst)
      | Some k \<Rightarrow> do { node \<leftarrow> rbtree_search inst k;
                      if node = rb_nil inst then Some (1, inst)
                      else do { (inst, cur) \<leftarrow> rbtree_delete inst node;
                                n \<leftarrow> rb_get inst cur;
                                Some (0, rb_free inst cur) } })"

text \<open>The old value is freed first: when the allocation fails the node is left with a NULL
  value.\<close>

definition kvs_rbtree_mod ::
  "env \<Rightarrow> rbtree \<Rightarrow> string option \<Rightarrow> string option \<Rightarrow> (int \<times> rbtree) option" where
  "kvs_rbtree_mod e inst key value =
     (case (key, value) of
        (Some k, Some v) \<Rightarrow>
          do { node \<leftarrow> rbtree_search inst k;
               if node = rb_nil inst then Some (1, inst)
               else if \<not> mem e 0
               then do { inst \<leftarrow> rb_put inst node (\<lambda>n. n\<lparr>rb_value := None\<rparr>); Some (-2, inst) }
               else do { inst \<leftarrow> rb_put inst node (\<lambda>n. n\<lparr>rb_value := Some v\<rparr>); Some (0, inst) } }
      | _ \<Rightarrow> Some (-1, inst))"

definition kvs_rbtree_exist :: "rbtree \<Rightarrow> string option \<Rightarrow> int option" where
  "kvs_rbtree_exist inst key =
     (case key of None \<Rightarrow> Some (-1)
      | Some k \<Rightarrow> do { node \<leftarrow> rbtree_search inst k; Some (if node = rb_nil inst then 1 else 0) })"

end
