(* ===== verification/Kvs_Rbtree_Proof.thy ===== *)
theory Kvs_Rbtree_Proof
  imports Kvs_Rbtree
begin

text \<open>
  Correctness of the red-black tree engine.  A store \<open>represents\<close> a tree of addresses and colours
  when child and parent pointers agree with it; a position inside a tree is a context of frames
  (the path to the root) around a subtree.  Rotations and recolourings act on such positions, so
  the rebalancing loops are verified on trees and contexts.  The right-hand cases of the source
  follow from the left-hand ones by mirroring the store.
\<close>

named_theorems rb_acc \<open>access to updated stores\<close>

subsection \<open>Pure updates\<close>

definition alive :: "rbtree \<Rightarrow> addr \<Rightarrow> bool" where
  "alive T a \<longleftrightarrow> rb_get T a \<noteq> None"

definition get_data :: "rbtree \<Rightarrow> addr \<Rightarrow> (string option \<times> string option) option" where
  "get_data T a = map_option (\<lambda>n. (rb_key n, rb_value n)) (rb_get T a)"

definition put :: "rbtree \<Rightarrow> addr \<Rightarrow> (rbtree_node \<Rightarrow> rbtree_node) \<Rightarrow> rbtree" where
  "put T a f = T\<lparr>rb_mem := (rb_mem T)(a := map_option f (rb_mem T a))\<rparr>"

definition pcol :: "rbtree \<Rightarrow> addr \<Rightarrow> rbcolor \<Rightarrow> rbtree" where
  "pcol T a c = put T a (\<lambda>n. n\<lparr>rb_color := c\<rparr>)"

definition plft :: "rbtree \<Rightarrow> addr \<Rightarrow> addr \<Rightarrow> rbtree" where
  "plft T a q = put T a (\<lambda>n. n\<lparr>rb_left := q\<rparr>)"

definition prgt :: "rbtree \<Rightarrow> addr \<Rightarrow> addr \<Rightarrow> rbtree" where
  "prgt T a q = put T a (\<lambda>n. n\<lparr>rb_right := q\<rparr>)"

definition ppar :: "rbtree \<Rightarrow> addr \<Rightarrow> addr \<Rightarrow> rbtree" where
  "ppar T a q = put T a (\<lambda>n. n\<lparr>rb_parent := q\<rparr>)"

lemmas put_defs = pcol_def plft_def prgt_def ppar_def

lemmas getter_defs = get_color_def get_left_def get_right_def get_parent_def get_data_def

lemma rb_put_alive: "alive T a \<Longrightarrow> rb_put T a f = Some (put T a f)"
  by (auto simp: rb_put_def alive_def put_def rb_get_def split: if_splits)

lemma set_alive [rb_acc]:
  "alive T a \<Longrightarrow> set_color T a c = Some (pcol T a c)"
  "alive T a \<Longrightarrow> set_left T a q = Some (plft T a q)"
  "alive T a \<Longrightarrow> set_right T a q = Some (prgt T a q)"
  "alive T a \<Longrightarrow> set_parent T a q = Some (ppar T a q)"
  by (simp_all add: rb_put_alive set_color_def set_left_def set_right_def set_parent_def put_defs)

lemma rb_get_put: "rb_get (put T a f) b = (if b = a then map_option f (rb_get T a) else rb_get T b)"
  by (simp add: rb_get_def put_def)

lemma rb_get_put_ne [rb_acc]:
  "b \<noteq> a \<Longrightarrow> rb_get (pcol T a c) b = rb_get T b"
  "b \<noteq> a \<Longrightarrow> rb_get (plft T a q) b = rb_get T b"
  "b \<noteq> a \<Longrightarrow> rb_get (prgt T a q) b = rb_get T b"
  "b \<noteq> a \<Longrightarrow> rb_get (ppar T a q) b = rb_get T b"
  by (simp_all add: rb_get_put put_defs)

lemma rb_get_root [rb_acc]: "rb_get (T\<lparr>rb_root := r\<rparr>) b = rb_get T b"
  by (simp add: rb_get_def)

lemma alive_put [rb_acc]:
  "alive (pcol T a c) b = alive T b" "alive (plft T a q) b = alive T b"
  "alive (prgt T a q) b = alive T b" "alive (ppar T a q) b = alive T b"
  "alive (T\<lparr>rb_root := r\<rparr>) b = alive T b"
  by (simp_all add: alive_def rb_get_put put_defs rb_get_root)

lemma data_put [rb_acc]:
  "get_data (pcol T a c) b = get_data T b" "get_data (plft T a q) b = get_data T b"
  "get_data (prgt T a q) b = get_data T b" "get_data (ppar T a q) b = get_data T b"
  "get_data (T\<lparr>rb_root := r\<rparr>) b = get_data T b"
  by (auto simp: getter_defs rb_get_put put_defs rb_get_root option.map_comp comp_def)

lemma tree_put [rb_acc]:
  "rb_nil (pcol T a c) = rb_nil T" "rb_nil (plft T a q) = rb_nil T"
  "rb_nil (prgt T a q) = rb_nil T" "rb_nil (ppar T a q) = rb_nil T"
  "rb_root (pcol T a c) = rb_root T" "rb_root (plft T a q) = rb_root T"
  "rb_root (prgt T a q) = rb_root T" "rb_root (ppar T a q) = rb_root T"
  "rb_next (pcol T a c) = rb_next T" "rb_next (plft T a q) = rb_next T"
  "rb_next (prgt T a q) = rb_next T" "rb_next (ppar T a q) = rb_next T"
  by (simp_all add: put_defs put_def)

lemma color_put [rb_acc]:
  "get_color (pcol T a c) b = (if b = a \<and> alive T a then Some c else get_color T b)"
  "get_color (plft T a q) b = get_color T b"
  "get_color (prgt T a q) b = get_color T b"
  "get_color (ppar T a q) b = get_color T b"
  "get_color (T\<lparr>rb_root := r\<rparr>) b = get_color T b"
  by (auto simp: getter_defs rb_get_put put_defs rb_get_root alive_def option.map_comp comp_def)

lemma left_put [rb_acc]:
  "get_left (plft T a q) b = (if b = a \<and> alive T a then Some q else get_left T b)"
  "get_left (pcol T a c) b = get_left T b"
  "get_left (prgt T a q) b = get_left T b"
  "get_left (ppar T a q) b = get_left T b"
  "get_left (T\<lparr>rb_root := r\<rparr>) b = get_left T b"
  by (auto simp: getter_defs rb_get_put put_defs rb_get_root alive_def option.map_comp comp_def)

lemma right_put [rb_acc]:
  "get_right (prgt T a q) b = (if b = a \<and> alive T a then Some q else get_right T b)"
  "get_right (pcol T a c) b = get_right T b"
  "get_right (plft T a q) b = get_right T b"
  "get_right (ppar T a q) b = get_right T b"
  "get_right (T\<lparr>rb_root := r\<rparr>) b = get_right T b"
  by (auto simp: getter_defs rb_get_put put_defs rb_get_root alive_def option.map_comp comp_def)

lemma parent_put [rb_acc]:
  "get_parent (ppar T a q) b = (if b = a \<and> alive T a then Some q else get_parent T b)"
  "get_parent (pcol T a c) b = get_parent T b"
  "get_parent (plft T a q) b = get_parent T b"
  "get_parent (prgt T a q) b = get_parent T b"
  "get_parent (T\<lparr>rb_root := r\<rparr>) b = get_parent T b"
  by (auto simp: getter_defs rb_get_put put_defs rb_get_root alive_def option.map_comp comp_def)

lemma getter_alive:
  "get_color T a = Some c \<Longrightarrow> alive T a"
  by (auto simp: get_color_def alive_def)

subsection \<open>Trees of addresses\<close>

datatype tr = L | N tr addr rbcolor tr

fun io :: "tr \<Rightarrow> addr list" where
  "io L = []"
| "io (N l a c r) = io l @ a # io r"

definition ptr :: "rbtree \<Rightarrow> tr \<Rightarrow> addr" where
  "ptr T t = (case t of L \<Rightarrow> rb_nil T | N l a c r \<Rightarrow> a)"

lemma ptr_simps [simp]: "ptr T L = rb_nil T" "ptr T (N l a c r) = a"
  by (simp_all add: ptr_def)

text \<open>The store holds \<open>t\<close>, hanging below \<open>par\<close>.\<close>

fun rep :: "rbtree \<Rightarrow> addr \<Rightarrow> tr \<Rightarrow> bool" where
  "rep T par L \<longleftrightarrow> True"
| "rep T par (N l a c r) \<longleftrightarrow> get_color T a = Some c \<and> get_left T a = Some (ptr T l) \<and>
     get_right T a = Some (ptr T r) \<and> get_parent T a = Some par \<and> rep T a l \<and> rep T a r"

datatype frame = FL addr rbcolor tr | FR tr addr rbcolor

fun faddr :: "frame \<Rightarrow> addr" where
  "faddr (FL a c r) = a"
| "faddr (FR l a c) = a"

fun fcol :: "frame \<Rightarrow> rbcolor" where
  "fcol (FL a c r) = c"
| "fcol (FR l a c) = c"

fun fsib :: "frame \<Rightarrow> tr" where
  "fsib (FL a c r) = r"
| "fsib (FR l a c) = l"

fun plug :: "frame list \<Rightarrow> tr \<Rightarrow> tr" where
  "plug [] t = t"
| "plug (FL a c r # fs) t = plug fs (N t a c r)"
| "plug (FR l a c # fs) t = plug fs (N l a c t)"

definition ftop :: "rbtree \<Rightarrow> frame list \<Rightarrow> addr" where
  "ftop T fs = (case fs of [] \<Rightarrow> rb_nil T | f # _ \<Rightarrow> faddr f)"

lemma ftop_simps [simp]: "ftop T [] = rb_nil T" "ftop T (f # fs) = faddr f"
  by (simp_all add: ftop_def)

fun frep :: "rbtree \<Rightarrow> frame list \<Rightarrow> addr \<Rightarrow> bool" where
  "frep T [] p \<longleftrightarrow> rb_root T = p"
| "frep T (FL a c r # fs) p \<longleftrightarrow> get_color T a = Some c \<and> get_left T a = Some p \<and>
     get_right T a = Some (ptr T r) \<and> get_parent T a = Some (ftop T fs) \<and> rep T a r \<and> frep T fs a"
| "frep T (FR l a c # fs) p \<longleftrightarrow> get_color T a = Some c \<and> get_left T a = Some (ptr T l) \<and>
     get_right T a = Some p \<and> get_parent T a = Some (ftop T fs) \<and> rep T a l \<and> frep T fs a"

fun fio_left :: "frame list \<Rightarrow> addr list" where
  "fio_left [] = []"
| "fio_left (FL a c r # fs) = fio_left fs"
| "fio_left (FR l a c # fs) = fio_left fs @ io l @ [a]"

fun fio_right :: "frame list \<Rightarrow> addr list" where
  "fio_right [] = []"
| "fio_right (FL a c r # fs) = a # io r @ fio_right fs"
| "fio_right (FR l a c # fs) = fio_right fs"

lemma io_plug: "io (plug fs t) = fio_left fs @ io t @ fio_right fs"
  by (induction fs t rule: plug.induct) auto

text \<open>A store with a proper sentinel that holds the tree \<open>t\<close> at its root.\<close>

definition rbwf :: "rbtree \<Rightarrow> tr \<Rightarrow> bool" where
  "rbwf T t \<longleftrightarrow> rep T (rb_nil T) t \<and> rb_root T = ptr T t \<and> distinct (io t) \<and> rb_nil T \<notin> set (io t) \<and>
     get_color T (rb_nil T) = Some BLACK"

lemma rep_plug: "rep T (rb_nil T) (plug fs t) \<and> rb_root T = ptr T (plug fs t) \<longleftrightarrow>
    rep T (ftop T fs) t \<and> frep T fs (ptr T t)"
  by (induction fs t rule: plug.induct) auto

lemma rbwf_plug:
  "rbwf T (plug fs t) \<longleftrightarrow> rep T (ftop T fs) t \<and> frep T fs (ptr T t) \<and> distinct (fio_left fs @ io t @ fio_right fs) \<and>
     rb_nil T \<notin> set (fio_left fs @ io t @ fio_right fs) \<and> get_color T (rb_nil T) = Some BLACK"
  unfolding rbwf_def io_plug using rep_plug [of T fs t] by blast

lemma rep_cong:
  assumes "\<And>a. a \<in> set (io t) \<Longrightarrow> rb_get T' a = rb_get T a" "rb_nil T' = rb_nil T"
  shows "rep T' p t = rep T p t"
  using assms(1)
proof (induction t arbitrary: p)
  case (N l a c r)
  have "ptr T' x = ptr T x" for x using assms(2) by (cases x) auto
  with N show ?case by (simp add: getter_defs)
qed simp

text \<open>The addresses of a context.\<close>

definition fset :: "frame list \<Rightarrow> addr set" where
  "fset fs = set (fio_left fs) \<union> set (fio_right fs)"

lemma fset_simps [simp]: "fset [] = {}" "fset (FL a c r # fs) = insert a (set (io r) \<union> fset fs)"
  "fset (FR l a c # fs) = insert a (set (io l) \<union> fset fs)"
  by (auto simp: fset_def)

lemma ptr_cong: "rb_nil T' = rb_nil T \<Longrightarrow> ptr T' t = ptr T t"
  by (cases t) auto

lemma ftop_cong: "rb_nil T' = rb_nil T \<Longrightarrow> ftop T' fs = ftop T fs"
  by (cases fs) auto

lemma frep_cong:
  assumes "\<And>a. a \<in> fset fs \<Longrightarrow> rb_get T' a = rb_get T a" "rb_nil T' = rb_nil T" "rb_root T' = rb_root T"
  shows "frep T' fs p = frep T fs p"
  using assms(1)
proof (induction fs arbitrary: p)
  case Nil then show ?case using assms(3) by simp
next
  case (Cons f fs)
  have "rep T' a (fsib f) = rep T a (fsib f)" for a
    using Cons.prems assms(2) by (intro rep_cong) (cases f; auto)+
  with Cons.IH Cons.prems assms(2) show ?case
    by (cases f) (simp_all add: getter_defs ptr_cong [of T' T] ftop_cong [of T' T])
qed

lemma rep_alive: "rep T p t \<Longrightarrow> a \<in> set (io t) \<Longrightarrow> alive T a"
  by (induction t arbitrary: p) (auto simp: getter_alive)

lemma rep_put [rb_acc]:
  "a \<notin> set (io t) \<Longrightarrow> rep (pcol T a c) p t = rep T p t"
  "a \<notin> set (io t) \<Longrightarrow> rep (plft T a q) p t = rep T p t"
  "a \<notin> set (io t) \<Longrightarrow> rep (prgt T a q) p t = rep T p t"
  "a \<notin> set (io t) \<Longrightarrow> rep (ppar T a q) p t = rep T p t"
  "rep (T\<lparr>rb_root := r\<rparr>) p t = rep T p t"
  by (rule rep_cong; auto simp: rb_acc intro!: rb_get_put_ne)+

lemma frep_put [rb_acc]:
  "a \<notin> fset fs \<Longrightarrow> frep (pcol T a c) fs p = frep T fs p"
  "a \<notin> fset fs \<Longrightarrow> frep (plft T a q) fs p = frep T fs p"
  "a \<notin> fset fs \<Longrightarrow> frep (prgt T a q) fs p = frep T fs p"
  "a \<notin> fset fs \<Longrightarrow> frep (ppar T a q) fs p = frep T fs p"
  by (rule frep_cong; auto simp: rb_acc intro!: rb_get_put_ne)+

lemma ptr_put [rb_acc]:
  "ptr (pcol T a c) t = ptr T t" "ptr (plft T a q) t = ptr T t" "ptr (prgt T a q) t = ptr T t"
  "ptr (ppar T a q) t = ptr T t" "ptr (T\<lparr>rb_root := r\<rparr>) t = ptr T t"
  by (rule ptr_cong; simp add: rb_acc)+

lemma ftop_put [rb_acc]:
  "ftop (pcol T a c) fs = ftop T fs" "ftop (plft T a q) fs = ftop T fs" "ftop (prgt T a q) fs = ftop T fs"
  "ftop (ppar T a q) fs = ftop T fs" "ftop (T\<lparr>rb_root := r\<rparr>) fs = ftop T fs"
  by (rule ftop_cong; simp add: rb_acc)+

text \<open>Moving a subtree below another parent.\<close>

definition reparent :: "rbtree \<Rightarrow> tr \<Rightarrow> addr \<Rightarrow> rbtree" where
  "reparent T t p = (if t = L then T else ppar T (ptr T t) p)"

lemma rep_reparent:
  assumes "rep T q t" "distinct (io t)"
  shows "rep (reparent T t p) p t"
  using assms by (cases t) (auto simp: reparent_def rb_acc getter_alive)

subsection \<open>Rotation\<close>

text \<open>What a rebalancing step leaves alone: the sentinel, the allocation counter and the keys and
  values.\<close>

definition same :: "rbtree \<Rightarrow> rbtree \<Rightarrow> bool" where
  "same T T' \<longleftrightarrow> rb_nil T' = rb_nil T \<and> rb_next T' = rb_next T \<and> rb_get T' (rb_nil T) = rb_get T (rb_nil T) \<and>
     get_data T' = get_data T"

lemma same_refl [simp]: "same T T"
  by (simp add: same_def)

lemma same_trans: "same T T' \<Longrightarrow> same T' T'' \<Longrightarrow> same T T''"
  by (simp add: same_def)

text \<open>Replacing the child of the innermost frame.\<close>

definition relink :: "rbtree \<Rightarrow> frame list \<Rightarrow> addr \<Rightarrow> rbtree" where
  "relink T fs p = (case fs of [] \<Rightarrow> T\<lparr>rb_root := p\<rparr>
     | FL a c r # _ \<Rightarrow> plft T a p | FR l a c # _ \<Rightarrow> prgt T a p)"

lemma relink_acc [rb_acc]:
  "rb_nil (relink T fs p) = rb_nil T" "rb_next (relink T fs p) = rb_next T"
  "alive (relink T fs p) b = alive T b" "get_data (relink T fs p) b = get_data T b"
  "get_color (relink T fs p) b = get_color T b" "get_parent (relink T fs p) b = get_parent T b"
  "b \<notin> fset fs \<Longrightarrow> rb_get (relink T fs p) b = rb_get T b"
  by (auto simp: relink_def rb_acc split: list.split frame.split)

lemma relink_out [rb_acc]:
  "b \<notin> fset fs \<Longrightarrow> get_left (relink T fs p) b = get_left T b"
  "b \<notin> fset fs \<Longrightarrow> get_right (relink T fs p) b = get_right T b"
  by (simp_all add: getter_defs rb_acc)

lemma frep_relink:
  assumes "frep T fs q" "distinct (fio_left fs @ fio_right fs)"
  shows "frep (relink T fs p) fs p"
proof (cases fs)
  case (Cons f fs')
  show ?thesis
  proof (cases f)
    case (FL a c r)
    then have "a \<notin> set (io r)" "a \<notin> fset fs'" using assms(2) Cons by (auto simp: fset_def)
    with assms(1) Cons FL show ?thesis by (simp add: relink_def rb_acc getter_alive)
  next
    case (FR l a c)
    then have "a \<notin> set (io l)" "a \<notin> fset fs'" using assms(2) Cons by (auto simp: fset_def)
    with assms(1) Cons FR show ?thesis by (simp add: relink_def rb_acc getter_alive)
  qed
qed (simp add: relink_def)

lemma rep_relink [rb_acc]:
  "set (io t) \<inter> fset fs = {} \<Longrightarrow> rep (relink T fs q) p t = rep T p t"
  by (rule rep_cong) (auto simp: rb_acc intro!: relink_acc)

lemma ptr_relink [rb_acc]: "ptr (relink T fs q) t = ptr T t" "ftop (relink T fs q) gs = ftop T gs"
  by (rule ptr_cong ftop_cong; simp add: rb_acc)+

text \<open>The statement of the sources that replaces \<open>x\<close> by \<open>y\<close> below the parent of \<open>x\<close>.\<close>

lemma replace_child:
  assumes "frep T fs x" "rb_nil T \<notin> fset fs" "x \<notin> fset fs" "x \<noteq> rb_nil T"
  shows "(if ftop T fs = rb_nil T then Some (T\<lparr>rb_root := y\<rparr>)
          else do { pl \<leftarrow> get_left T (ftop T fs);
                    if x = pl then set_left T (ftop T fs) y else set_right T (ftop T fs) y })
         = Some (relink T fs y)"
proof (cases fs)
  case (Cons f fs')
  have "ptr T (fsib f) \<noteq> x" using assms Cons by (cases f; cases "fsib f") auto
  then show ?thesis using assms Cons
    by (cases f) (auto simp: relink_def rb_acc getter_alive)
qed (simp add: relink_def)

lemma reparent_acc [rb_acc]:
  "rb_nil (reparent T t p) = rb_nil T" "rb_next (reparent T t p) = rb_next T"
  "rb_root (reparent T t p) = rb_root T"
  "alive (reparent T t p) b = alive T b" "get_data (reparent T t p) b = get_data T b"
  "get_color (reparent T t p) b = get_color T b" "get_left (reparent T t p) b = get_left T b"
  "get_right (reparent T t p) b = get_right T b"
  "b \<notin> set (io t) \<Longrightarrow> get_parent (reparent T t p) b = get_parent T b"
  "b \<notin> set (io t) \<Longrightarrow> rb_get (reparent T t p) b = rb_get T b"
  "ptr (reparent T t p) s = ptr T s" "ftop (reparent T t p) fs = ftop T fs"
  by (cases t; simp add: reparent_def rb_acc)+

lemma rep_reparent_out [rb_acc]:
  "set (io t) \<inter> set (io s) = {} \<Longrightarrow> rep (reparent T t p) q s = rep T q s"
  by (rule rep_cong) (auto simp: rb_acc intro!: reparent_acc)

lemma frep_reparent_out [rb_acc]:
  "set (io t) \<inter> fset fs = {} \<Longrightarrow> frep (reparent T t p) fs q = frep T fs q"
  by (rule frep_cong) (auto simp: rb_acc intro!: reparent_acc)

lemma reparent_if:
  assumes "rep T q t" "rb_nil T \<notin> set (io t)"
  shows "(if ptr T t \<noteq> rb_nil T then set_parent T (ptr T t) p else Some T) = Some (reparent T t p)"
  using assms by (cases t) (auto simp: reparent_def rb_acc getter_alive)

lemma left_rotate:
  assumes "rbwf T (plug fs (N A x cx (N B y cy C)))"
  shows "\<exists>T'. rbtree_left_rotate T x = Some T' \<and> rbwf T' (plug fs (N (N A x cx B) y cy C)) \<and> same T T'"
proof -
  note w = assms [unfolded rbwf_plug]
  have B: "rep T y B" "distinct (io B)" "rb_nil T \<notin> set (io B)" using w by auto
  have ne: "x \<noteq> y" "x \<notin> set (io B)" "y \<notin> set (io B)" "x \<noteq> rb_nil T" "y \<noteq> rb_nil T" "x \<notin> fset fs" "y \<notin> fset fs"
    "set (io B) \<inter> fset fs = {}" "rb_nil T \<notin> fset fs" "x \<notin> set (io A)" "y \<notin> set (io A)" "x \<notin> set (io C)"
    "y \<notin> set (io C)" "set (io A) \<inter> fset fs = {}" "set (io C) \<inter> fset fs = {}"
    "set (io B) \<inter> set (io A) = {}" "set (io B) \<inter> set (io C) = {}"
    using w by (auto simp: fset_def)
  have al: "alive T x" "alive T y" using w by (auto simp: getter_alive)
  define T1 where "T1 = prgt T x (ptr T B)"
  define T2 where "T2 = reparent T1 B x"
  define T3 where "T3 = ppar T2 y (ftop T fs)"
  define T4 where "T4 = relink T3 fs y"
  define T5 where "T5 = plft T4 y x"
  define T6 where "T6 = ppar T5 x y"
  note defs = T1_def T2_def T3_def T4_def T5_def T6_def
  have 1: "get_right T x = Some y" "get_left T y = Some (ptr T B)" "set_right T x (ptr T B) = Some T1"
    "get_left T1 y = Some (ptr T B)" "rb_nil T1 = rb_nil T" "ptr T1 B = ptr T B" "rep T1 y B"
    using w al ne by (simp_all add: T1_def rb_acc)
  have 2: "(if ptr T B \<noteq> rb_nil T then set_parent T1 (ptr T B) x else Some T1) = Some T2"
    using reparent_if [OF 1(7), of x, unfolded 1(5,6)] B(3) unfolding T2_def by blast
  have 3: "get_parent T2 x = Some (ftop T fs)" "set_parent T2 y (ftop T fs) = Some T3"
    "get_parent T3 x = Some (ftop T fs)" "rb_nil T3 = rb_nil T" "ftop T3 fs = ftop T fs" "frep T3 fs x"
    using w al ne by (simp_all add: T1_def T2_def T3_def rb_acc)
  have 4: "(if ftop T fs = rb_nil T then Some (T3\<lparr>rb_root := y\<rparr>)
          else do { pl \<leftarrow> get_left T3 (ftop T fs);
                    if x = pl then set_left T3 (ftop T fs) y else set_right T3 (ftop T fs) y }) = Some T4"
    using replace_child [OF 3(6), of y, unfolded 3(4,5)] ne unfolding T4_def by blast
  have 5: "set_left T4 y x = Some T5" "set_parent T5 x y = Some T6"
    using al by (simp_all add: defs rb_acc)
  have "rbtree_left_rotate T x = Some T6"
    unfolding rbtree_left_rotate_def by (simp only: 1 2 3 4 5 Option.bind.bind_lunit)
  moreover have fd: "distinct (fio_left fs @ fio_right fs)" using w by auto
  have "frep T6 fs y"
    using frep_relink [OF 3(6) fd, of y] ne by (simp add: T5_def T6_def T4_def rb_acc)
  moreover have "rep T2 x B" using rep_reparent [of T1 y B x] 1 B by (simp add: T2_def)
  then have "rep T6 (ftop T fs) (N (N A x cx B) y cy C)"
    using w ne al  by (simp add: defs rb_acc) 
  ultimately have "rbwf T6 (plug fs (N (N A x cx B) y cy C))"
    using w by (simp add: rbwf_plug defs rb_acc)
  moreover have "same T T6" using ne B(3) by (simp add: same_def defs rb_acc fun_eq_iff)
  ultimately show ?thesis using \<open>rbtree_left_rotate T x = Some T6\<close> by blast
qed

text \<open>The mirror image of a store, of a tree and of a context.\<close>

definition swap :: "rbtree_node \<Rightarrow> rbtree_node" where
  "swap n = n\<lparr>rb_left := rb_right n, rb_right := rb_left n\<rparr>"

definition mir :: "rbtree \<Rightarrow> rbtree" where
  "mir T = T\<lparr>rb_mem := (\<lambda>a. map_option swap (rb_mem T a))\<rparr>"

fun mirt :: "tr \<Rightarrow> tr" where
  "mirt L = L"
| "mirt (N l a c r) = N (mirt r) a c (mirt l)"

fun mirf :: "frame \<Rightarrow> frame" where
  "mirf (FL a c r) = FR (mirt r) a c"
| "mirf (FR l a c) = FL a c (mirt l)"

lemma swap_swap [simp]: "swap (swap n) = n"
  by (simp add: swap_def)

lemma swap_sel [simp]: "rb_color (swap n) = rb_color n" "rb_parent (swap n) = rb_parent n"
  "rb_left (swap n) = rb_right n" "rb_right (swap n) = rb_left n" "rb_key (swap n) = rb_key n"
  "rb_value (swap n) = rb_value n"
  by (simp_all add: swap_def)

lemma mir_mir [simp]: "mir (mir T) = T"
  by (simp add: mir_def option.map_comp comp_def option.map_ident)

lemma mir_sel [simp]: "rb_nil (mir T) = rb_nil T" "rb_root (mir T) = rb_root T" "rb_next (mir T) = rb_next T"
  "mir T\<lparr>rb_root := r\<rparr> = mir (T\<lparr>rb_root := r\<rparr>)"
  by (simp_all add: mir_def)

lemma mir_get [simp]: "rb_get (mir T) a = map_option swap (rb_get T a)"
  by (simp add: mir_def rb_get_def)

lemma mir_getters [simp]: "get_color (mir T) a = get_color T a" "get_parent (mir T) a = get_parent T a"
  "get_left (mir T) a = get_right T a" "get_right (mir T) a = get_left T a"
  "get_data (mir T) a = get_data T a"
  by (simp_all add: getter_defs option.map_comp comp_def)

lemma mir_put:
  assumes "\<And>n. f (swap n) = swap (g n)"
  shows "rb_put (mir T) a f = map_option mir (rb_put T a g)"
proof (cases "rb_get T a")
  case (Some n)
  then have "(mir T)\<lparr>rb_mem := (rb_mem (mir T))(a \<mapsto> f (swap n))\<rparr> = mir (T\<lparr>rb_mem := (rb_mem T)(a \<mapsto> g n)\<rparr>)"
    by (simp add: mir_def fun_eq_iff assms)
  with Some show ?thesis by (simp add: rb_put_def)
qed (simp add: rb_put_def)

lemma mir_setters [simp]:
  "set_color (mir T) a c = map_option mir (set_color T a c)"
  "set_parent (mir T) a p = map_option mir (set_parent T a p)"
  "set_left (mir T) a p = map_option mir (set_right T a p)"
  "set_right (mir T) a p = map_option mir (set_left T a p)"
  unfolding set_color_def set_parent_def set_left_def set_right_def
  by (rule mir_put, simp add: swap_def)+

lemma bind_map [simp]: "Option.bind (map_option f m) g = Option.bind m (\<lambda>x. g (f x))"
  by (cases m) auto

text \<open>Moving \<^term>\<open>mir\<close> out of a computation.\<close>

lemma mir_out:
  "Option.bind m (\<lambda>x. map_option mir (g x)) = map_option mir (Option.bind m g)"
  "(if b then map_option mir m1 else map_option mir m2) = map_option mir (if b then m1 else m2)"
  "(if b then map_option mir m1 else Some (mir T)) = map_option mir (if b then m1 else Some T)"
  "(if b then Some (mir T) else map_option mir m2) = map_option mir (if b then Some T else m2)"
  "map_option mir (map_option mir m') = m'"
  by (cases m; simp) (simp_all add: option.map_comp comp_def option.map_ident)

lemma right_rotate_mir: "rbtree_right_rotate T y = map_option mir (rbtree_left_rotate (mir T) y)"
  unfolding rbtree_right_rotate_def rbtree_left_rotate_def by (simp add: mir_out cong: if_cong)

lemma mirt_mirt [simp]: "mirt (mirt t) = t"
  by (induction t) auto

lemma io_mirt [simp]: "io (mirt t) = rev (io t)"
  by (induction t) auto

lemma ptr_mir [simp]: "ptr (mir T) (mirt t) = ptr T t" "ptr T (mirt t) = ptr T t" "ptr (mir T) t = ptr T t"
  by (cases t; simp)+

lemma rep_mir [simp]: "rep (mir T) p (mirt t) = rep T p t"
  by (induction t arbitrary: p) auto

lemma plug_mir: "plug (map mirf fs) (mirt t) = mirt (plug fs t)"
  by (induction fs t rule: plug.induct) auto

lemma rbwf_mir: "rbwf (mir T) (mirt t) = rbwf T t"
  by (simp add: rbwf_def)

lemma same_mir: "same (mir T) T' \<longleftrightarrow> same T (mir T')"
proof -
  have "rb_get T' (rb_nil T) = map_option swap (rb_get T (rb_nil T)) \<longleftrightarrow>
    map_option swap (rb_get T' (rb_nil T)) = rb_get T (rb_nil T)"
    by (metis (no_types, lifting) mir_get mir_mir)
  then show ?thesis by (auto simp: same_def fun_eq_iff)
qed

lemma right_rotate:
  assumes "rbwf T (plug fs (N (N A x cx B) y cy C))"
  shows "\<exists>T'. rbtree_right_rotate T y = Some T' \<and> rbwf T' (plug fs (N A x cx (N B y cy C))) \<and> same T T'"
proof -
  have "rbwf (mir T) (plug (map mirf fs) (N (mirt C) y cy (N (mirt B) x cx (mirt A))))"
    using assms by (simp flip: rbwf_mir [of T] plug_mir)
  from left_rotate [OF this] obtain T' where T': "rbtree_left_rotate (mir T) y = Some T'"
    "rbwf T' (mirt (plug fs (N A x cx (N B y cy C))))" "same (mir T) T'" by (auto simp flip: plug_mir)
  then have "rbwf (mir T') (plug fs (N A x cx (N B y cy C)))"
    using rbwf_mir [of "mir T'" "plug fs (N A x cx (N B y cy C))"] by simp
  with T' show ?thesis by (simp add: right_rotate_mir same_mir)
qed

subsection \<open>Reading and recolouring at a position\<close>

lemma rbwf_at:
  assumes "rbwf T (plug fs (N l a c r))"
  shows "get_color T a = Some c" "get_left T a = Some (ptr T l)" "get_right T a = Some (ptr T r)"
    "get_parent T a = Some (ftop T fs)" "alive T a" "a \<noteq> rb_nil T"
  using assms by (auto simp: rbwf_plug getter_alive)

definition col :: "tr \<Rightarrow> rbcolor" where
  "col t = (case t of L \<Rightarrow> BLACK | N l a c r \<Rightarrow> c)"

lemma col_simps [simp]: "col L = BLACK" "col (N l a c r) = c"
  by (simp_all add: col_def)

lemma rbwf_color:
  assumes "rbwf T (plug fs t)"
  shows "get_color T (ptr T t) = Some (col t)"
  using assms by (cases t) (auto simp: rbwf_plug)

lemma recolor:
  assumes "rbwf T (plug fs (N l a c r))"
  shows "\<exists>T'. set_color T a c' = Some T' \<and> rbwf T' (plug fs (N l a c' r)) \<and> same T T'"
proof -
  have "alive T a" "a \<notin> fset fs" "a \<notin> set (io l)" "a \<notin> set (io r)" "a \<noteq> rb_nil T"
    using assms by (auto simp: rbwf_plug fset_def getter_alive)
  with assms show ?thesis by (simp add: rb_acc rbwf_plug same_def fun_eq_iff)
qed

subsection \<open>Red-black trees\<close>

fun bh :: "tr \<Rightarrow> nat" where
  "bh L = 0"
| "bh (N l a c r) = bh l + (if c = BLACK then 1 else 0)"

text \<open>Equal black heights, and no red node with a red child.\<close>

fun invh :: "tr \<Rightarrow> bool" where
  "invh L \<longleftrightarrow> True"
| "invh (N l a c r) \<longleftrightarrow> bh l = bh r \<and> invh l \<and> invh r"

fun invc :: "tr \<Rightarrow> bool" where
  "invc L \<longleftrightarrow> True"
| "invc (N l a c r) \<longleftrightarrow> (c = RED \<longrightarrow> col l = BLACK \<and> col r = BLACK) \<and> invc l \<and> invc r"

definition rbt :: "tr \<Rightarrow> bool" where
  "rbt t \<longleftrightarrow> invh t \<and> invc t \<and> col t = BLACK"

text \<open>A context that makes a red-black tree of a subtree of black height \<open>n\<close>, colours at the
  hole aside.\<close>

fun ctx_ok :: "frame list \<Rightarrow> nat \<Rightarrow> bool" where
  "ctx_ok [] n \<longleftrightarrow> True"
| "ctx_ok (f # fs) n \<longleftrightarrow> invh (fsib f) \<and> invc (fsib f) \<and> bh (fsib f) = n \<and>
     (fcol f = RED \<longrightarrow> col (fsib f) = BLACK \<and> fs \<noteq> [] \<and> fcol (hd fs) = BLACK) \<and>
     ctx_ok fs (n + (if fcol f = BLACK then 1 else 0))"

definition hole_red :: "frame list \<Rightarrow> bool" where
  "hole_red fs \<longleftrightarrow> fs \<noteq> [] \<and> fcol (hd fs) = BLACK"

lemma hole_red_simps [simp]: "hole_red [] = False" "hole_red (f # fs) = (fcol f = BLACK)"
  by (simp_all add: hole_red_def)

lemma rbcolor_ne [simp]: "c \<noteq> RED \<longleftrightarrow> c = BLACK" "c \<noteq> BLACK \<longleftrightarrow> c = RED"
  by (cases c; simp)+

lemma rbt_plug:
  "rbt (plug fs t) \<longleftrightarrow> invh t \<and> invc t \<and> ctx_ok fs (bh t) \<and> (col t = RED \<longrightarrow> hole_red fs)"
proof (induction fs t rule: plug.induct)
  case (1 t)
  then show ?case by (cases "col t") (auto simp: rbt_def)
next
  case (2 a c r fs t)
  then show ?case by (cases c; cases "col t"; cases "col r") (auto simp: hole_red_def)
next
  case (3 l a c fs t)
  then show ?case by (cases c; cases "col t"; cases "col l") (auto simp: hole_red_def)
qed

lemma col_mirt [simp]: "col (mirt t) = col t"
  by (cases t) auto

lemma bh_eq: "invh t \<Longrightarrow> bh (mirt t) = bh t"
  by (induction t) auto

lemma invh_mirt [simp]: "invh (mirt t) = invh t"
  by (induction t) (auto simp: bh_eq)

lemma invc_mirt [simp]: "invc (mirt t) = invc t"
  by (induction t) auto

lemma frame_mir [simp]: "fcol (mirf f) = fcol f" "faddr (mirf f) = faddr f" "fsib (mirf f) = mirt (fsib f)"
  by (cases f; simp)+

lemma ctx_ok_mir [simp]: "ctx_ok (map mirf fs) n = ctx_ok fs n"
  by (induction fs arbitrary: n) (auto simp: bh_eq hd_map)

subsection \<open>Repairing after an insertion\<close>

lemma ptr_same: "same T T' \<Longrightarrow> ptr T' t = ptr T t" "same T T' \<Longrightarrow> ftop T' fs = ftop T fs"
  by (rule ptr_cong ftop_cong, simp add: same_def)+

lemma ptr_in: "ptr T t \<in> insert (rb_nil T) (set (io t))"
  by (cases t) auto

text \<open>A red uncle: recolour and move up.\<close>

lemma insert_left_recolor:
  assumes w: "rbwf T (plug fs (N (N l p RED r) g BLACK (N ul u RED ur)))" and z: "get_parent T z = Some p"
  shows "\<exists>T'. insert_fixup_left T z = Some (T', g) \<and>
    rbwf T' (plug fs (N (N l p BLACK r) g RED (N ul u BLACK ur))) \<and> same T T'"
proof -
  have p: "rbwf T (plug (FL g BLACK (N ul u RED ur) # fs) (N l p RED r))" using w by simp
  have u: "rbwf T (plug (FR (N l p RED r) g BLACK # fs) (N ul u RED ur))" using w by simp
  obtain T1 where T1: "set_color T p BLACK = Some T1"
    "rbwf T1 (plug (FR (N l p BLACK r) g BLACK # fs) (N ul u RED ur))" "same T T1"
    using recolor [OF p, of BLACK] by auto
  obtain T2 where T2: "set_color T1 u BLACK = Some T2"
    "rbwf T2 (plug fs (N (N l p BLACK r) g BLACK (N ul u BLACK ur)))" "same T1 T2"
    using recolor [OF T1(2), of BLACK] by auto
  obtain T3 where T3: "set_color T2 g RED = Some T3"
    "rbwf T3 (plug fs (N (N l p BLACK r) g RED (N ul u BLACK ur)))" "same T2 T3"
    using recolor [OF T2(2), of RED] by auto
  have "same T T3" using T1(3) T2(3) T3(3) by (blast intro: same_trans)
  with T3(2) show ?thesis
    using z rbwf_at [OF p] rbwf_at [OF w] rbwf_at [OF u] T1(1) T2(1) T3(1)
    by (simp add: insert_fixup_left_def)
qed

text \<open>A black uncle and an outer grandchild: one rotation.\<close>

lemma insert_left_outer:
  assumes w: "rbwf T (plug fs (N (N (N zl z RED zr) p RED s) g BLACK u))" and u: "col u = BLACK"
  shows "\<exists>T'. insert_fixup_left T z = Some (T', z) \<and>
    rbwf T' (plug fs (N (N zl z RED zr) p BLACK (N s g RED u))) \<and> same T T'"
proof -
  have z: "rbwf T (plug (FL p RED s # FL g BLACK u # fs) (N zl z RED zr))" using w by simp
  have p: "rbwf T (plug (FL g BLACK u # fs) (N (N zl z RED zr) p RED s))" using w by simp
  have "rbwf T (plug (FR (N (N zl z RED zr) p RED s) g BLACK # fs) u)" using w by simp
  note c = rbwf_color [OF this, unfolded u]
  have s: "ptr T s \<noteq> z" using z ptr_in [of T s] by (auto simp: rbwf_plug)
  obtain T1 where T1: "set_color T p BLACK = Some T1"
    "rbwf T1 (plug (FL g BLACK u # fs) (N (N zl z RED zr) p BLACK s))" "same T T1"
    using recolor [OF p, of BLACK] by auto
  obtain T2 where T2: "set_color T1 g RED = Some T2"
    "rbwf T2 (plug fs (N (N (N zl z RED zr) p BLACK s) g RED u))" "same T1 T2"
    using recolor [of T1 fs "N (N zl z RED zr) p BLACK s" g BLACK u RED] T1(2) by auto
  obtain T3 where T3: "rbtree_right_rotate T2 g = Some T3"
    "rbwf T3 (plug fs (N (N zl z RED zr) p BLACK (N s g RED u)))" "same T2 T3"
    using right_rotate [OF T2(2)] by auto
  have "same T T3" using T1(3) T2(3) T3(3) by (blast intro: same_trans)
  with T3(2) show ?thesis
    using rbwf_at [OF z] rbwf_at [OF p] rbwf_at [OF w] rbwf_at [OF T1(2)] c s T1(1) T2(1) T3(1)
    by (simp add: insert_fixup_left_def)
qed

text \<open>A black uncle and an inner grandchild: two rotations.\<close>

lemma insert_left_inner:
  assumes w: "rbwf T (plug fs (N (N l p RED (N zl z RED zr)) g BLACK u))" and u: "col u = BLACK"
  shows "\<exists>T'. insert_fixup_left T z = Some (T', p) \<and>
    rbwf T' (plug fs (N (N l p RED zl) z BLACK (N zr g RED u))) \<and> same T T'"
proof -
  have z: "rbwf T (plug (FR l p RED # FL g BLACK u # fs) (N zl z RED zr))" using w by simp
  have p: "rbwf T (plug (FL g BLACK u # fs) (N l p RED (N zl z RED zr)))" using w by simp
  have "rbwf T (plug (FR (N l p RED (N zl z RED zr)) g BLACK # fs) u)" using w by simp
  note c = rbwf_color [OF this, unfolded u]
  obtain T0 where T0: "rbtree_left_rotate T p = Some T0"
    "rbwf T0 (plug (FL z RED zr # FL g BLACK u # fs) (N l p RED zl))" "same T T0"
    using left_rotate [OF p] by auto
  have z0: "rbwf T0 (plug (FL g BLACK u # fs) (N (N l p RED zl) z RED zr))" using T0(2) by simp
  obtain T1 where T1: "set_color T0 z BLACK = Some T1"
    "rbwf T1 (plug (FL g BLACK u # fs) (N (N l p RED zl) z BLACK zr))" "same T0 T1"
    using recolor [OF z0, of BLACK] by auto
  obtain T2 where T2: "set_color T1 g RED = Some T2"
    "rbwf T2 (plug fs (N (N (N l p RED zl) z BLACK zr) g RED u))" "same T1 T2"
    using recolor [of T1 fs "N (N l p RED zl) z BLACK zr" g BLACK u RED] T1(2) by auto
  obtain T3 where T3: "rbtree_right_rotate T2 g = Some T3"
    "rbwf T3 (plug fs (N (N l p RED zl) z BLACK (N zr g RED u)))" "same T2 T3"
    using right_rotate [OF T2(2)] by auto
  have "same T T3" using T0(3) T1(3) T2(3) T3(3) by (blast intro: same_trans)
  with T3(2) show ?thesis
    using rbwf_at [OF z] rbwf_at [OF p] rbwf_at [OF w] rbwf_at [OF T0(2)] rbwf_at [OF T1(2)] c
      T0(1) T1(1) T2(1) T3(1)
    by (simp add: insert_fixup_left_def)
qed

text \<open>The state of the loop: \<open>z\<close> is red, and everything but the colour of its parent is in
  order.\<close>

definition ins_ok :: "rbtree \<Rightarrow> addr \<Rightarrow> frame list \<Rightarrow> tr \<Rightarrow> bool" where
  "ins_ok T z fs t \<longleftrightarrow> rbwf T (plug fs t) \<and> ptr T t = z \<and> t \<noteq> L \<and> col t = RED \<and> invh t \<and> invc t \<and> ctx_ok fs (bh t)"

lemma insert_step_left:
  assumes ok: "ins_ok T z (f # FL g cg u # fs) t" and f: "fcol f = RED"
  shows "\<exists>T' z' fs' t'. insert_fixup_left T z = Some (T', z') \<and> ins_ok T' z' fs' t' \<and> same T T' \<and>
    io (plug fs' t') = io (plug (f # FL g cg u # fs) t) \<and> (hole_red fs' \<or> fs' = fs)"
proof -
  obtain l r where t: "t = N l z RED r" using ok by (cases t) (auto simp: ins_ok_def)
  have g: "cg = BLACK" and w: "rbwf T (plug (f # FL g BLACK u # fs) t)" using ok f by (auto simp: ins_ok_def)
  show ?thesis
  proof (cases "col u")
    case RED
    then obtain ul ua ur where u: "u = N ul ua RED ur" by (cases u) auto
    obtain pl p pr where p: "plug [f] t = N pl p RED pr" "p = faddr f" using f by (cases f) auto
    then have "plug (f # FL g BLACK u # fs) t = plug fs (N (N pl p RED pr) g BLACK u)" by (cases f) auto
    with w u t p obtain T' where T': "insert_fixup_left T z = Some (T', g)"
      "rbwf T' (plug fs (N (N pl p BLACK pr) g RED (N ul ua BLACK ur)))" "same T T'"
      using insert_left_recolor [of T fs pl p pr g ul ua ur z] rbwf_at [OF w [unfolded t]] by auto
    moreover have "ins_ok T' g fs (N (N pl p BLACK pr) g RED (N ul ua BLACK ur))"
      using T'(2) ok p u t f by (cases f) (auto simp: ins_ok_def)
    moreover have "io (plug fs (N (N pl p BLACK pr) g RED (N ul ua BLACK ur))) = io (plug (f # FL g cg u # fs) t)"
      using p(1) u by (cases f) (auto simp: io_plug)
    ultimately show ?thesis by blast
  next
    case BLACK
    show ?thesis
    proof (cases f)
      case (FL p c s)
      then obtain T' where T': "insert_fixup_left T z = Some (T', z)"
        "rbwf T' (plug (FL p BLACK (N s g RED u) # fs) t)" "same T T'"
        using insert_left_outer [of T fs l z r p s g u] w t BLACK f by auto
      moreover have "ins_ok T' z (FL p BLACK (N s g RED u) # fs) t"
        using T'(2) ok t f FL BLACK g by (auto simp: ins_ok_def)
      moreover have "io (plug (FL p BLACK (N s g RED u) # fs) t) = io (plug (f # FL g cg u # fs) t)"
        using FL by (simp add: io_plug)
      ultimately show ?thesis using hole_red_simps(2) fcol.simps(1) by blast
    next
      case (FR s p c)
      then obtain T' where T': "insert_fixup_left T z = Some (T', p)"
        "rbwf T' (plug (FL z BLACK (N r g RED u) # fs) (N s p RED l))" "same T T'"
        using insert_left_inner [of T fs s p l z r g u] w t BLACK f by auto
      moreover have "ins_ok T' p (FL z BLACK (N r g RED u) # fs) (N s p RED l)"
        using T'(2) ok t f FR BLACK g by (auto simp: ins_ok_def)
      moreover have "io (plug (FL z BLACK (N r g RED u) # fs) (N s p RED l)) = io (plug (f # FL g cg u # fs) t)"
        using FR t by (simp add: io_plug)
      ultimately show ?thesis using hole_red_simps(2) fcol.simps(1) by blast
    qed
  qed
qed

lemma mir_out2:
  "Option.bind m (\<lambda>x. Some (mir (g x), h x)) = map_option (apfst mir) (Option.bind m (\<lambda>x. Some (g x, h x)))"
  "(if b then map_option (apfst mir) m1 else Some (mir T, a)) = map_option (apfst mir) (if b then m1 else Some (T, a))"
  "(if b then map_option (apfst mir) m1 else map_option (apfst mir) m2) = map_option (apfst mir) (if b then m1 else m2)"
  "Option.bind m' (\<lambda>x. map_option (apfst mir) (g' x)) = map_option (apfst mir) (Option.bind m' g')"
  "Option.bind m'' (\<lambda>(T, a). map_option (apfst mir) (g'' T a)) = map_option (apfst mir) (Option.bind m'' (\<lambda>(T, a). g'' T a))"
  "map_option (apfst mir) (map_option (apfst mir) q) = q"
  subgoal by (cases m) simp_all
  subgoal by simp
  subgoal by simp
  subgoal by (cases m') simp_all
  subgoal by (cases m'') (simp_all split: prod.split)
  subgoal by (cases q) (auto simp: apfst_def map_prod_def split: prod.split)
  done

lemma rotate_mir [simp]: "rbtree_left_rotate (mir T) x = map_option mir (rbtree_right_rotate T x)"
  "rbtree_right_rotate (mir T) x = map_option mir (rbtree_left_rotate T x)"
  by (simp_all add: right_rotate_mir mir_out)

lemma insert_fixup_mir: "insert_fixup_right T z = map_option (apfst mir) (insert_fixup_left (mir T) z)"
  unfolding insert_fixup_left_def insert_fixup_right_def case_prod_unfold
  by (simp add: mir_out2 cong: if_cong)

lemma ins_ok_mir: "ins_ok (mir T) z (map mirf fs) (mirt t) = ins_ok T z fs t"
proof -
  have "mirt t = L \<longleftrightarrow> t = L" by (cases t) auto
  then show ?thesis by (auto simp: ins_ok_def plug_mir rbwf_mir bh_eq)
qed

lemma hole_red_mir [simp]: "hole_red (map mirf fs) = hole_red fs"
  by (cases fs) auto

lemma mirf_mirf [simp]: "mirf (mirf f) = f"
  by (cases f) auto

lemma map_mirf [simp]: "map (mirf \<circ> mirf) fs = fs"
  by (induction fs) auto

lemma insert_step_right:
  assumes ok: "ins_ok T z (f # FR u g cg # fs) t" and f: "fcol f = RED"
  shows "\<exists>T' z' fs' t'. insert_fixup_right T z = Some (T', z') \<and> ins_ok T' z' fs' t' \<and> same T T' \<and>
    io (plug fs' t') = io (plug (f # FR u g cg # fs) t) \<and> (hole_red fs' \<or> fs' = fs)"
proof -
  have "ins_ok (mir T) z (mirf f # FL g cg (mirt u) # map mirf fs) (mirt t)"
    using ok ins_ok_mir [of T z "f # FR u g cg # fs" t] by simp
  from insert_step_left [OF this] f obtain T' z' fs' t' where 1:
    "insert_fixup_left (mir T) z = Some (T', z')" "ins_ok T' z' fs' t'" "same (mir T) T'"
    "io (plug fs' t') = io (plug (map mirf (f # FR u g cg # fs)) (mirt t))"
    "hole_red fs' \<or> fs' = map mirf fs" by auto
  have "insert_fixup_right T z = Some (mir T', z')" "same T (mir T')"
    using 1 by (simp_all add: insert_fixup_mir same_mir)
  moreover have "ins_ok (mir T') z' (map mirf fs') (mirt t')"
    using 1(2) ins_ok_mir [of "mir T'" z' "map mirf fs'" "mirt t'"] by simp
  moreover have "io (plug (map mirf fs') (mirt t')) = io (plug (f # FR u g cg # fs) t)"
    using arg_cong [OF 1(4), of rev] unfolding plug_mir by simp
  moreover have "hole_red (map mirf fs') \<or> map mirf fs' = fs" using 1(5) by auto
  ultimately show ?thesis by blast
qed

text \<open>Blackening the root ends the loop.\<close>

lemma insert_fixup_exit:
  assumes ok: "ins_ok T z fs t" and e: "fs = [] \<or> hole_red fs"
  shows "\<exists>T' t'. rbtree_insert_fixup T z = Some T' \<and> rbwf T' t' \<and> rbt t' \<and> io t' = io (plug fs t) \<and> same T T'"
proof -
  have w: "rbwf T (plug fs t)" and "t \<noteq> L" using ok by (auto simp: ins_ok_def)
  then obtain l a c r where n: "plug fs t = N l a c r"
    by (cases "plug fs t") (use io_plug [of fs t] in \<open>cases t; simp\<close>, blast)
  obtain zl zr where t: "t = N zl z RED zr" using ok by (cases t) (auto simp: ins_ok_def)
  have a: "rb_root T = a" using w n by (simp add: rbwf_def)
  obtain T' where T': "set_color T a BLACK = Some T'" "rbwf T' (N l a BLACK r)" "same T T'"
    using recolor [of T "[]" l a c r BLACK] w n by auto
  have "rbt (N l a BLACK r)"
  proof (cases "fs = []")
    case True then show ?thesis using ok n by (auto simp: ins_ok_def rbt_def)
  next
    case False
    then have "rbt (plug fs t)" using ok e by (auto simp: rbt_plug ins_ok_def)
    with n show ?thesis by (auto simp: rbt_def)
  qed
  moreover have "get_color T (ftop T fs) = Some BLACK"
    using w e by (cases fs) (auto simp: rbwf_def [of T t] rbwf_plug elim!: fcol.elims)
  then have "rbtree_insert_fixup T z = Some T'"
    using rbwf_at [OF w [unfolded t]] T' a by (subst rbtree_insert_fixup.simps) simp
  ultimately show ?thesis using T' n by auto
qed

lemma insert_fixup_step:
  assumes ok: "ins_ok T z (f # h # fs) t" and f: "fcol f = RED"
  shows "\<exists>T' z' fs' t'. rbtree_insert_fixup T z = rbtree_insert_fixup T' z' \<and> ins_ok T' z' fs' t' \<and> same T T' \<and>
    io (plug fs' t') = io (plug (f # h # fs) t) \<and> (hole_red fs' \<or> fs' = fs)"
proof -
  obtain l r where t: "t = N l z RED r" using ok by (cases t) (auto simp: ins_ok_def)
  have w: "rbwf T (plug (f # h # fs) t)" using ok by (simp add: ins_ok_def)
  have p: "get_color T (faddr f) = Some RED" "get_parent T (faddr f) = Some (faddr h)"
    using w f by (cases f; simp add: rbwf_plug)+
  obtain gl where gl: "get_left T (faddr h) = Some gl" using w by (cases h; cases f) (auto simp: rbwf_plug)
  have "\<exists>T' z' fs' t'. (if faddr f = gl then insert_fixup_left T z else insert_fixup_right T z) = Some (T', z') \<and>
    ins_ok T' z' fs' t' \<and> same T T' \<and> io (plug fs' t') = io (plug (f # h # fs) t) \<and> (hole_red fs' \<or> fs' = fs)"
  proof (cases h)
    case (FL g cg u)
    then have "gl = faddr f" using gl w by (cases f) (auto simp: rbwf_plug)
    with FL show ?thesis using insert_step_left [of T z f g cg u fs t] ok f by simp
  next
    case (FR u g cg)
    then have "gl \<noteq> faddr f" using gl w ptr_in [of T u] by (cases f) (auto simp: rbwf_plug)
    with FR show ?thesis using insert_step_right [of T z f u g cg fs t] ok f by simp
  qed
  then obtain T' z' fs' t' where s:
    "(if faddr f = gl then insert_fixup_left T z else insert_fixup_right T z) = Some (T', z')"
    "ins_ok T' z' fs' t'" "same T T'" "io (plug fs' t') = io (plug (f # h # fs) t)" "hole_red fs' \<or> fs' = fs" by blast
  moreover have "rbtree_insert_fixup T z = rbtree_insert_fixup T' z'"
    using rbwf_at [OF w [unfolded t]] p gl s(1) by (subst rbtree_insert_fixup.simps) simp
  ultimately show ?thesis by blast
qed

lemma insert_fixup_ok:
  assumes "ins_ok T z fs t"
  shows "\<exists>T' t'. rbtree_insert_fixup T z = Some T' \<and> rbwf T' t' \<and> rbt t' \<and> io t' = io (plug fs t) \<and> same T T'"
  using assms
proof (induction "length fs" arbitrary: T z fs t rule: less_induct)
  case less
  show ?case
  proof (cases "fs = [] \<or> hole_red fs")
    case False
    then obtain f h fs' where fs: "fs = f # h # fs'" "fcol f = RED" "fcol h = BLACK"
      using less.prems by (cases fs; cases "tl fs") (auto simp: ins_ok_def)
    from insert_fixup_step [OF less.prems [unfolded fs(1)] fs(2)] obtain T1 z1 fs1 t1 where s:
      "rbtree_insert_fixup T z = rbtree_insert_fixup T1 z1" "ins_ok T1 z1 fs1 t1" "same T T1"
      "io (plug fs1 t1) = io (plug fs t)" "hole_red fs1 \<or> fs1 = fs'" using fs(1) by blast
    have "\<exists>T' t'. rbtree_insert_fixup T1 z1 = Some T' \<and> rbwf T' t' \<and> rbt t' \<and> io t' = io (plug fs1 t1) \<and> same T1 T'"
      using s(5)
    proof
      assume "hole_red fs1" then show ?thesis using insert_fixup_exit [OF s(2)] by blast
    next
      assume "fs1 = fs'" then show ?thesis using less.hyps [OF _ s(2)] fs(1) by simp
    qed
    then show ?thesis using s(1,3,4) same_trans by metis
  qed (rule insert_fixup_exit [OF less.prems])
qed

subsection \<open>Keys in order\<close>

definition kof :: "rbtree \<Rightarrow> addr \<Rightarrow> string" where
  "kof T a = (case get_data T a of Some (Some k, v) \<Rightarrow> k | _ \<Rightarrow> [])"

definition vof :: "rbtree \<Rightarrow> addr \<Rightarrow> string option" where
  "vof T a = (case get_data T a of Some (k, v) \<Rightarrow> v | None \<Rightarrow> None)"

text \<open>Every node of the list has a key, and the keys ascend.\<close>

definition keyed :: "rbtree \<Rightarrow> addr list \<Rightarrow> bool" where
  "keyed T as \<longleftrightarrow> (\<forall>a \<in> set as. get_data T a = Some (Some (kof T a), vof T a)) \<and> sorted_wrt (<) (map (kof T) as)"

lemma keyed_append [simp]: "keyed T (as @ bs) \<longleftrightarrow> keyed T as \<and> keyed T bs \<and>
    (\<forall>a \<in> set as. \<forall>b \<in> set bs. kof T a < kof T b)"
  by (auto simp: keyed_def sorted_wrt_append)

lemma keyed_Cons [simp]: "keyed T (a # as) \<longleftrightarrow> get_data T a = Some (Some (kof T a), vof T a) \<and> keyed T as \<and>
    (\<forall>b \<in> set as. kof T a < kof T b)"
  by (auto simp: keyed_def)

lemma keyed_Nil [simp]: "keyed T []"
  by (simp add: keyed_def)

lemma rb_cmp_data: "get_data T a = Some (Some k, v) \<Longrightarrow> rb_cmp T key a = Some (strcmp key k)"
  by (auto simp: rb_cmp_def get_data_def)

lemma search_from_tree:
  assumes "rep T p t" "rb_nil T \<notin> set (io t)" "keyed T (io t)"
  shows "rbtree_search_from T key (ptr T t) =
    Some (case find (\<lambda>a. kof T a = key) (io t) of None \<Rightarrow> rb_nil T | Some a \<Rightarrow> a)"
  using assms
proof (induction t arbitrary: p)
  case L
  then show ?case by (subst rbtree_search_from.simps) simp
next
  case (N l a c r)
  have f: "find P (xs @ ys) = (case find P xs of None \<Rightarrow> find P ys | Some x \<Rightarrow> Some x)" for P and xs ys :: "addr list"
    by (induction xs) auto
  have cmp: "rb_cmp T key a = Some (strcmp key (kof T a))" using N.prems rb_cmp_data by simp
  note IH = N.IH(1) [of a] N.IH(2) [of a]
  have left: "find (\<lambda>b. kof T b = key) (io l) = None" if "kof T a \<le> key"
    using that N.prems(3) by (auto simp: find_None_iff)
  consider "key < kof T a" | "kof T a < key" | "key = kof T a" by (meson less_linear)
  then show ?case
  proof cases
    case 1
    then have "find (\<lambda>b. kof T b = key) (io r) = None" "kof T a \<noteq> key" using N.prems(3) by (auto simp: find_None_iff)
    moreover have "rbtree_search_from T key a = rbtree_search_from T key (ptr T l)"
      using 1 N.prems cmp by (subst rbtree_search_from.simps) simp
    ultimately show ?thesis using 1 IH(1) N.prems by (simp add: f split: option.split)
  next
    case 2
    then have n: "\<not> key < kof T a" "kof T a \<noteq> key" by auto
    with 2 have "rbtree_search_from T key a = rbtree_search_from T key (ptr T r)"
      using N.prems cmp by (subst rbtree_search_from.simps) simp
    with 2 n show ?thesis using left IH(2) N.prems by (simp add: f)
  next
    case 3
    moreover have "rbtree_search_from T key a = Some a"
      using 3 N.prems cmp by (subst rbtree_search_from.simps) simp
    ultimately show ?thesis using left by (simp add: f)
  qed
qed

lemma traversal_tree:
  assumes "rep T p t" "rb_nil T \<notin> set (io t)" "\<forall>a \<in> set (io t). get_data T a = Some (d a)"
  shows "rbtree_traversal T (ptr T t) = Some (map d (io t))"
  using assms
proof (induction t arbitrary: p)
  case L
  then show ?case by (subst rbtree_traversal.simps) simp
next
  case (N l a c r)
  then show ?case by (subst rbtree_traversal.simps) (auto simp: getter_defs)
qed

text \<open>The descent of an insertion ends at the hole where the key belongs, or finds it.\<close>

lemma descend_tree:
  assumes "rbwf T (plug fs t)" "keyed T (io (plug fs t))"
    and "\<forall>a \<in> set (fio_left fs). kof T a < key" "\<forall>a \<in> set (fio_right fs). key < kof T a"
  shows "if key \<in> kof T ` set (io t) then rbtree_descend T key (ptr T t) (ftop T fs) = Some None
    else \<exists>fs'. rbtree_descend T key (ptr T t) (ftop T fs) = Some (Some (ftop T fs')) \<and> plug fs' L = plug fs t \<and>
      (\<forall>a \<in> set (fio_left fs'). kof T a < key) \<and> (\<forall>a \<in> set (fio_right fs'). key < kof T a)"
  using assms
proof (induction t arbitrary: fs)
  case L
  then show ?case by (subst (2) rbtree_descend.simps) auto
next
  case (N l a c r)
  have d: "get_data T a = Some (Some (kof T a), vof T a)" using N.prems by (simp add: io_plug)
  note at = rbwf_at [OF N.prems(1)]
  note ord = N.prems(2) [unfolded io_plug, simplified]
  consider "key < kof T a" | "kof T a < key" | "key = kof T a" by (meson less_linear)
  then show ?case
  proof cases
    case 1
    have kr: "key < kof T b" if "b \<in> set (io r)" for b
      by (rule less_trans [OF 1]) (use ord that in blast)
    then have k: "key \<notin> kof T ` set (io r)" "key \<noteq> kof T a" using 1 by force+
    have run: "rbtree_descend T key a (ftop T fs) = rbtree_descend T key (ptr T l) (ftop T (FL a c r # fs))"
      using 1 at rb_cmp_data [OF d, of key] by (subst rbtree_descend.simps) simp
    have "\<forall>b \<in> set (fio_right (FL a c r # fs)). key < kof T b" using 1 kr N.prems(4) by auto
    from N.IH(1) [of "FL a c r # fs", unfolded plug.simps fio_left.simps, OF N.prems(1-3) this]
    moreover have "key \<in> kof T ` set (io (N l a c r)) \<longleftrightarrow> key \<in> kof T ` set (io l)" using k by auto
    ultimately show ?thesis unfolding ptr_simps(2) run by argo
  next
    case 2
    have kl: "kof T b < key" if "b \<in> set (io l)" for b
      by (rule less_trans [OF _ 2]) (use ord that in blast)
    then have k: "key \<notin> kof T ` set (io l)" "key \<noteq> kof T a" using 2 by force+
    have run: "rbtree_descend T key a (ftop T fs) = rbtree_descend T key (ptr T r) (ftop T (FR l a c # fs))"
      using 2 less_not_sym [OF 2] at rb_cmp_data [OF d, of key] by (subst rbtree_descend.simps) simp
    have "\<forall>b \<in> set (fio_left (FR l a c # fs)). kof T b < key" using 2 kl N.prems(3) by auto
    from N.IH(2) [of "FR l a c # fs", unfolded plug.simps fio_right.simps, OF N.prems(1,2) this N.prems(4)]
    moreover have "key \<in> kof T ` set (io (N l a c r)) \<longleftrightarrow> key \<in> kof T ` set (io r)" using k by auto
    ultimately show ?thesis unfolding ptr_simps(2) run by argo
  next
    case 3
    then show ?thesis using at rb_cmp_data [OF d, of key] by (subst rbtree_descend.simps) simp
  qed
qed

lemma kof_same: "same T T' \<Longrightarrow> kof T' = kof T" "same T T' \<Longrightarrow> vof T' = vof T" "same T T' \<Longrightarrow> keyed T' as = keyed T as"
  by (auto simp: same_def kof_def [abs_def] vof_def [abs_def] keyed_def)

text \<open>Linking the new red node at the hole.\<close>

lemma insert_link:
  assumes w: "rbwf T (plug fs L)" and rb: "rbt (plug fs L)" and k: "keyed T (io (plug fs L))"
    and z: "z \<notin> set (io (plug fs L))" "z \<noteq> rb_nil T" "get_data T z = Some (Some key, v)"
    and o: "\<forall>a \<in> set (fio_left fs). kof T a < key" "\<forall>a \<in> set (fio_right fs). key < kof T a"
  defines "T1 \<equiv> ppar T z (ftop T fs)"
  shows "(if ftop T fs = rb_nil T1 then Some (T1\<lparr>rb_root := z\<rparr>)
          else do { c \<leftarrow> rb_cmp T1 key (ftop T fs); if c < 0 then set_left T1 (ftop T fs) z else set_right T1 (ftop T fs) z })
         = Some (relink T1 fs z)"
    and "ins_ok (pcol (prgt (plft (relink T1 fs z) z (rb_nil T)) z (rb_nil T)) z RED) z fs (N L z RED L)"
    and "same T (pcol (prgt (plft (relink T1 fs z) z (rb_nil T)) z (rb_nil T)) z RED)"
proof -
  have al: "alive T z" using z(3) by (auto simp: get_data_def alive_def)
  have zf: "z \<notin> fset fs" "rb_nil T \<notin> fset fs" using z(1) w by (auto simp: io_plug fset_def rbwf_def)
  have nil: "rb_nil T1 = rb_nil T" by (simp add: T1_def rb_acc)
  show "(if ftop T fs = rb_nil T1 then Some (T1\<lparr>rb_root := z\<rparr>)
          else do { c \<leftarrow> rb_cmp T1 key (ftop T fs); if c < 0 then set_left T1 (ftop T fs) z else set_right T1 (ftop T fs) z })
         = Some (relink T1 fs z)"
  proof (cases fs)
    case Nil then show ?thesis by (simp add: relink_def nil)
  next
    case (Cons f fs')
    define a where "a = faddr f"
    have a: "a \<noteq> rb_nil T" "alive T1 a" using zf w Cons by (cases f; auto simp: a_def rbwf_plug T1_def rb_acc getter_alive)+
    have "get_data T1 a = Some (Some (kof T a), vof T a)"
      using k Cons by (cases f) (auto simp: io_plug a_def T1_def rb_acc)
    from rb_cmp_data [OF this, of key] a Cons o show ?thesis
      by (cases f) (auto simp: relink_def nil a_def rb_acc)
  qed
  have "frep T1 fs (rb_nil T)" using w zf by (simp add: rbwf_plug T1_def rb_acc)
  then have "frep (relink T1 fs z) fs z" using w by (intro frep_relink) (auto simp: rbwf_plug)
  then show "ins_ok (pcol (prgt (plft (relink T1 fs z) z (rb_nil T)) z (rb_nil T)) z RED) z fs (N L z RED L)"
    using w zf z(1,2) rb al
    by (auto simp: ins_ok_def rbwf_plug rb_acc T1_def io_plug rbt_plug)
  show "same T (pcol (prgt (plft (relink T1 fs z) z (rb_nil T)) z (rb_nil T)) z RED)"
    using z(2) zf by (simp add: same_def T1_def rb_acc fun_eq_iff)
qed

lemma rbtree_insert_fresh:
  assumes w: "rbwf T t" and rb: "rbt t" and k: "keyed T (io t)"
    and z: "z \<notin> set (io t)" "z \<noteq> rb_nil T" "get_data T z = Some (Some key, v)" and key: "key \<notin> kof T ` set (io t)"
  shows "\<exists>T' t' as bs. rbtree_insert T z = Some T' \<and> rbwf T' t' \<and> rbt t' \<and> same T T' \<and> io t = as @ bs \<and>
    io t' = as @ z # bs \<and> (\<forall>a \<in> set as. kof T a < key) \<and> (\<forall>b \<in> set bs. key < kof T b)"
proof -
  obtain fs where fs: "rbtree_descend T key (rb_root T) (rb_nil T) = Some (Some (ftop T fs))" "plug fs L = t"
    "\<forall>a \<in> set (fio_left fs). kof T a < key" "\<forall>a \<in> set (fio_right fs). key < kof T a"
    using descend_tree [of T "[]" t key] w k key by (auto simp: rbwf_def)
  note link = insert_link [of T fs z key v, unfolded fs(2), OF w rb k z fs(3,4)]
  define T1 where "T1 = ppar T z (ftop T fs)"
  define T5 where "T5 = pcol (prgt (plft (relink T1 fs z) z (rb_nil T)) z (rb_nil T)) z RED"
  obtain T' t' where T': "rbtree_insert_fixup T5 z = Some T'" "rbwf T' t'" "rbt t'"
    "io t' = io (plug fs (N L z RED L))" "same T5 T'"
    using insert_fixup_ok [OF link(2)] by (auto simp: T1_def T5_def)
  have al: "alive T z" using z(3) by (auto simp: get_data_def alive_def)
  obtain nz where nz: "rb_get T z = Some nz" "rb_key nz = Some key" using z(3) by (auto simp: get_data_def)
  have sets: "set_parent T z (ftop T fs) = Some T1" "set_left (relink T1 fs z) z (rb_nil (relink T1 fs z)) = Some (plft (relink T1 fs z) z (rb_nil T))"
    "set_right (plft (relink T1 fs z) z (rb_nil T)) z (rb_nil (plft (relink T1 fs z) z (rb_nil T))) = Some (prgt (plft (relink T1 fs z) z (rb_nil T)) z (rb_nil T))"
    "set_color (prgt (plft (relink T1 fs z) z (rb_nil T)) z (rb_nil T)) z RED = Some T5"
    using al by (simp_all add: T1_def T5_def rb_acc)
  have "rbtree_insert T z = Some T'"
    unfolding rbtree_insert_def
    by (simp only: nz fs(1) option.case Option.bind.bind_lunit sets link(1) [folded T1_def] T'(1))
  moreover have "same T T'" using link(3) T'(5) same_trans unfolding T1_def T5_def by blast
  moreover have "io t = fio_left fs @ fio_right fs" using io_plug [of fs L] fs(2) by simp
  moreover have "io t' = fio_left fs @ z # fio_right fs" using T'(4) by (simp add: io_plug)
  ultimately show ?thesis using T'(2,3) fs(3,4) by blast
qed

lemma rbtree_insert_present:
  assumes w: "rbwf T t" and k: "keyed T (io t)" and z: "get_data T z = Some (Some key, v)"
    and key: "key \<in> kof T ` set (io t)"
  shows "rbtree_insert T z = Some T"
proof -
  have "rbtree_descend T key (rb_root T) (rb_nil T) = Some None"
    using descend_tree [of T "[]" t key] w k key by (auto simp: rbwf_def)
  then show ?thesis using z by (auto simp: rbtree_insert_def get_data_def)
qed

end
