(* ===== verification/Kvs_Rbtree_Delete.thy ===== *)
theory Kvs_Rbtree_Delete
  imports Kvs_Rbtree_Proof
begin

text \<open>
  Deletion from the red-black tree: the repair loop \<open>rbtree_delete_fixup\<close>, the unlinking of a node
  by \<open>rbtree_delete\<close>, and what remains of the contents.
\<close>

subsection \<open>Repairing after a deletion\<close>

fun paint :: "tr \<Rightarrow> tr" where
  "paint L = L"
| "paint (N l a c r) = N l a BLACK r"

lemma paint_simps [simp]: "io (paint t) = io t" "invh (paint t) = invh t" "col (paint t) = BLACK"
  "ptr T (paint t) = ptr T t"
  by (cases t; simp)+

lemma paint_black: "col t = BLACK \<Longrightarrow> paint t = t"
  by (cases t) auto

text \<open>The state of the loop: the subtree at \<open>x\<close> is one black node short; its root may be red
  below a red parent, or have red children.\<close>

definition del_ok :: "rbtree \<Rightarrow> addr \<Rightarrow> frame list \<Rightarrow> tr \<Rightarrow> bool" where
  "del_ok T x fs t \<longleftrightarrow> rbwf T (plug fs t) \<and> ptr T t = x \<and> get_parent T x = Some (ftop T fs) \<and>
     invh t \<and> invc (paint t) \<and> ctx_ok fs (Suc (bh t))"

lemma same_parent_nil: "same T T' \<Longrightarrow> get_parent T' (rb_nil T) = get_parent T (rb_nil T)"
  by (simp add: same_def getter_defs)

text \<open>The parent pointer at a hole survives a rebalancing that keeps the parent of the hole.\<close>

lemma parent_hole:
  assumes "rbwf T (plug fs t)" "get_parent T (ptr T t) = Some (ftop T fs)"
    and "same T T'" "rbwf T' (plug fs' t)" "ftop T fs' = ftop T fs"
  shows "get_parent T' (ptr T t) = Some (ftop T fs)"
proof (cases t)
  case L
  then show ?thesis using assms same_parent_nil [OF assms(3)] by simp
next
  case (N l a c r)
  then show ?thesis using assms rbwf_at(4) [of T' fs' l a c r] ptr_same [OF assms(3)] by simp
qed

text \<open>The part of the loop body behind the case of a red sibling, and its end.\<close>

definition delete_left_tail :: "rbtree \<Rightarrow> addr \<Rightarrow> addr \<Rightarrow> (rbtree \<times> addr) option" where
  "delete_left_tail T x w = do {
     p \<leftarrow> get_parent T x;
     pc \<leftarrow> get_color T p;
     T \<leftarrow> set_color T w pc;
     p \<leftarrow> get_parent T x;
     T \<leftarrow> set_color T p BLACK;
     wr \<leftarrow> get_right T w;
     T \<leftarrow> set_color T wr BLACK;
     p \<leftarrow> get_parent T x;
     T \<leftarrow> rbtree_left_rotate T p;
     Some (T, rb_root T) }"


definition delete_left_rest :: "rbtree \<Rightarrow> addr \<Rightarrow> addr \<Rightarrow> (rbtree \<times> addr) option" where
  "delete_left_rest T x w = do {
     wl \<leftarrow> get_left T w;
     wlc \<leftarrow> get_color T wl;
     both \<leftarrow> (if wlc = BLACK
              then do { wr \<leftarrow> get_right T w; wrc \<leftarrow> get_color T wr; Some (wrc = BLACK) }
              else Some False);
     if both then do { T \<leftarrow> set_color T w RED; p \<leftarrow> get_parent T x; Some (T, p) }
     else do {
       wr \<leftarrow> get_right T w;
       wrc \<leftarrow> get_color T wr;
       (T, w) \<leftarrow> (if wrc = BLACK then do {
                     wl \<leftarrow> get_left T w;
                     T \<leftarrow> set_color T wl BLACK;
                     T \<leftarrow> set_color T w RED;
                     T \<leftarrow> rbtree_right_rotate T w;
                     p \<leftarrow> get_parent T x;
                     w \<leftarrow> get_right T p;
                     Some (T, w) }
                   else Some (T, w));
       delete_left_tail T x w } }"

text \<open>The case of a red sibling: the tree and the new sibling.\<close>

definition delete_left_stage :: "rbtree \<Rightarrow> addr \<Rightarrow> (rbtree \<times> addr) option" where
  "delete_left_stage T x = do {
     p \<leftarrow> get_parent T x;
     w \<leftarrow> get_right T p;
     wc \<leftarrow> get_color T w;
     if wc = RED then do {
       T \<leftarrow> set_color T w BLACK;
       p \<leftarrow> get_parent T x;
       T \<leftarrow> set_color T p RED;
       T \<leftarrow> rbtree_left_rotate T p;
       p \<leftarrow> get_parent T x;
       w \<leftarrow> get_right T p;
       Some (T, w) }
     else Some (T, w) }"

lemma delete_left_split:
  "delete_fixup_left T x = do { (T, w) \<leftarrow> delete_left_stage T x; delete_left_rest T x w }"
  unfolding delete_fixup_left_def delete_left_stage_def delete_left_rest_def delete_left_tail_def by simp

text \<open>A red sibling: one rotation gives a black one.\<close>

lemma delete_left_sibling:
  assumes ok: "del_ok T x (FL p pc w # fs) t"
  shows "\<exists>T' pc' w' fs'. delete_left_stage T x = Some (T', ptr T' w') \<and> del_ok T' x (FL p pc' w' # fs') t \<and>
    same T T' \<and> w' \<noteq> L \<and> col w' = BLACK \<and> io (plug (FL p pc' w' # fs') t) = io (plug (FL p pc w # fs) t) \<and>
    (fs' = fs \<or> pc' = RED)"
proof (cases "col w")
  case BLACK
  have w: "rbwf T (plug (FL p pc w # fs) t)" using ok by (simp add: del_ok_def)
  then have "rbwf T (plug fs (N t p pc w))" "rbwf T (plug (FR t p pc # fs) w)" by simp_all
  note c = rbwf_at(3) [OF this(1)] rbwf_color [OF this(2)]
  have "w \<noteq> L" using ok by (auto simp: del_ok_def)
  moreover have "delete_left_stage T x = Some (T, ptr T w)"
    using ok c BLACK by (auto simp: del_ok_def delete_left_stage_def)
  ultimately show ?thesis using ok BLACK same_refl by blast
next
  case RED
  then obtain wl a wr where w: "w = N wl a RED wr" by (cases w) auto
  have pc: "pc = BLACK" "wl \<noteq> L" "col wl = BLACK" using ok w by (auto simp: del_ok_def)
  have s: "rbwf T (plug (FL p BLACK (N wl a RED wr) # fs) t)" using ok w pc by (simp add: del_ok_def)
  then have w0: "rbwf T (plug (FR t p BLACK # fs) (N wl a RED wr))" "rbwf T (plug fs (N t p BLACK (N wl a RED wr)))" by simp_all
  obtain T1 where T1: "set_color T a BLACK = Some T1" "rbwf T1 (plug fs (N t p BLACK (N wl a BLACK wr)))" "same T T1"
    using recolor [OF w0(1), of BLACK] by auto
  obtain T2 where T2: "set_color T1 p RED = Some T2" "rbwf T2 (plug fs (N t p RED (N wl a BLACK wr)))" "same T1 T2"
    using recolor [OF T1(2), of RED] by auto
  obtain T3 where T3: "rbtree_left_rotate T2 p = Some T3" "rbwf T3 (plug fs (N (N t p RED wl) a BLACK wr))" "same T2 T3"
    using left_rotate [OF T2(2)] by auto
  have sm: "same T T1" "same T T3" using T1(3) T2(3) T3(3) same_trans by blast+
  have par: "get_parent T (ptr T t) = Some p" and x: "ptr T t = x" using ok by (auto simp: del_ok_def)
  have p1: "get_parent T1 x = Some p"
    using parent_hole [OF s, of T1 "FL p BLACK (N wl a BLACK wr) # fs"] par sm T1(2) x by simp
  have p3: "get_parent T3 x = Some p"
    using parent_hole [OF s, of T3 "FL p RED wl # FL a BLACK wr # fs"] par sm T3(2) x by simp
  have r3: "get_right T3 p = Some (ptr T3 wl)"
    using rbwf_at(3) [of T3 "FL a BLACK wr # fs" t p RED wl] T3(2) by simp
  have "delete_left_stage T x = Some (T3, ptr T3 wl)"
    using par x rbwf_at(3) [OF w0(2)] rbwf_at(1) [OF w0(1)] T1(1) p1 T2(1) T3(1) p3 r3
    by (simp add: delete_left_stage_def)
  moreover have "del_ok T3 x (FL p RED wl # FL a BLACK wr # fs) t"
    using ok w pc T3(2) p3 ptr_same [OF sm(2)] by (simp add: del_ok_def)
  ultimately show ?thesis using sm(2) pc w by (fastforce simp: io_plug)
qed

text \<open>A finished tree, seen as a state of the loop at the root.\<close>

lemma del_ok_root:
  assumes "rbwf T t" "rbt t" "t \<noteq> L"
  shows "del_ok T (rb_root T) [] t"
  using assms rbwf_at(4) [of T "[]"] paint_black [of t] by (cases t) (auto simp: del_ok_def rbwf_def rbt_def)

lemma plug_N: "plug fs (N l a c r) \<noteq> L"
  using io_plug [of fs "N l a c r"] by (cases "plug fs (N l a c r)") auto

text \<open>Black nephews: the sibling turns red and the deficit moves up.\<close>

lemma delete_left_up:
  assumes ok: "del_ok T x (FL p pc (N wl w BLACK wq) # fs) t" and b: "col t = BLACK" "col wl = BLACK" "col wq = BLACK"
  shows "\<exists>T'. delete_left_rest T x w = Some (T', p) \<and> del_ok T' p fs (N t p pc (N wl w RED wq)) \<and> same T T'"
proof -
  have s: "rbwf T (plug (FL p pc (N wl w BLACK wq) # fs) t)" using ok by (simp add: del_ok_def)
  then have w0: "rbwf T (plug (FR t p pc # fs) (N wl w BLACK wq))"
    "rbwf T (plug (FL w BLACK wq # FR t p pc # fs) wl)" "rbwf T (plug (FR wl w BLACK # FR t p pc # fs) wq)" by simp_all
  obtain T1 where T1: "set_color T w RED = Some T1" "rbwf T1 (plug fs (N t p pc (N wl w RED wq)))" "same T T1"
    using recolor [OF w0(1), of RED] by auto
  have "get_parent T1 x = Some p"
    using parent_hole [OF s, of T1 "FL p pc (N wl w RED wq) # fs"] T1 ok by (auto simp: del_ok_def)
  then have "delete_left_rest T x w = Some (T1, p)"
    using rbwf_at [OF w0(1)] rbwf_color [OF w0(2)] rbwf_color [OF w0(3)] b T1(1)
    by (simp add: delete_left_rest_def)
  moreover have "del_ok T1 p fs (N t p pc (N wl w RED wq))"
    using ok b T1(2) rbwf_at [OF T1(2)] paint_black [OF b(1)] by (auto simp: del_ok_def)
  ultimately show ?thesis using T1(3) by blast
qed

text \<open>The last rotation: the sibling with a red outer child takes the place and the colour of
  the parent.\<close>

lemma delete_left_last:
  assumes w0: "rbwf T (plug fs (N t p pc (N wl w wc (N rl r rc rr))))" and x: "ptr T t = x" "get_parent T x = Some p"
  shows "\<exists>T'. delete_left_tail T x w = Some (T', rb_root T') \<and>
     rbwf T' (plug fs (N (N t p BLACK wl) w pc (N rl r BLACK rr))) \<and> same T T'"
proof -
  let ?r = "N rl r rc rr" and ?r' = "N rl r BLACK rr"
  have s: "rbwf T (plug (FL p pc (N wl w wc ?r) # fs) t)" "rbwf T (plug (FR t p pc # fs) (N wl w wc ?r))" using w0 by simp_all
  obtain T1 where T1: "set_color T w pc = Some T1" "rbwf T1 (plug fs (N t p pc (N wl w pc ?r)))" "same T T1"
    using recolor [OF s(2), of pc] by auto
  obtain T2 where T2: "set_color T1 p BLACK = Some T2" "rbwf T2 (plug fs (N t p BLACK (N wl w pc ?r)))" "same T1 T2"
    using recolor [OF T1(2), of BLACK] by auto
  have r2: "get_right T2 w = Some r" using rbwf_at(3) [of T2 "FR t p BLACK # fs" wl w pc ?r] T2(2) by simp
  obtain T3 where T3: "set_color T2 r BLACK = Some T3" "rbwf T3 (plug fs (N t p BLACK (N wl w pc ?r')))" "same T2 T3"
    using recolor [of T2 "FR wl w pc # FR t p BLACK # fs" rl r rc rr BLACK] T2(2) by auto
  obtain T4 where T4: "rbtree_left_rotate T3 p = Some T4" "rbwf T4 (plug fs (N (N t p BLACK wl) w pc ?r'))" "same T3 T4"
    using left_rotate [OF T3(2)] by auto
  have sm: "same T T1" "same T T3" "same T T4" using T1(3) T2(3) T3(3) T4(3) same_trans by blast+
  have "get_parent T1 x = Some p" "get_parent T3 x = Some p"
    using parent_hole [OF s(1), of T1 "FL p pc (N wl w pc ?r) # fs"] sm T1(2) x
      parent_hole [OF s(1), of T3 "FL p BLACK (N wl w pc ?r') # fs"] T3(2) by simp_all
  then show ?thesis using x(2) rbwf_at(1) [OF w0] T1(1) T2(1) r2 T3(1) T4(1,2) sm(3)
    by (simp add: delete_left_tail_def)
qed

lemma delete_left_outer:
  assumes ok: "del_ok T x (FL p pc (N wl w BLACK wq) # fs) t" and b: "col t = BLACK" "col wq = RED"
  shows "\<exists>T' t'. delete_left_rest T x w = Some (T', rb_root T') \<and> del_ok T' (rb_root T') [] t' \<and> same T T' \<and>
    io t' = io (plug (FL p pc (N wl w BLACK wq) # fs) t)"
proof -
  obtain rl r rr where wq: "wq = N rl r RED rr" using b(2) by (cases wq) auto
  have s: "rbwf T (plug (FL p pc (N wl w BLACK wq) # fs) t)" using ok by (simp add: del_ok_def)
  then have w0: "rbwf T (plug (FR t p pc # fs) (N wl w BLACK wq))" "rbwf T (plug fs (N t p pc (N wl w BLACK (N rl r RED rr))))"
    "rbwf T (plug (FL w BLACK wq # FR t p pc # fs) wl)" "rbwf T (plug (FR wl w BLACK # FR t p pc # fs) wq)" using wq by simp_all
  let ?t' = "plug fs (N (N t p BLACK wl) w pc (N rl r BLACK rr))"
  have "delete_left_rest T x w = delete_left_tail T x w"
    using rbwf_at [OF w0(1)] rbwf_color [OF w0(3)] rbwf_color [OF w0(4)] b
    by (cases "col wl") (simp_all add: delete_left_rest_def)
  then obtain T' where T': "delete_left_rest T x w = Some (T', rb_root T')" "rbwf T' ?t'" "same T T'"
    using delete_left_last [OF w0(2)] ok by (auto simp: del_ok_def)
  have "rbt ?t'" using ok wq b paint_black [OF b(1)] unfolding rbt_plug by (auto simp: del_ok_def hole_red_def)
  then have "del_ok T' (rb_root T') [] ?t'" using del_ok_root [OF T'(2)] plug_N by blast
  then show ?thesis using T' wq by (auto simp: io_plug)
qed

lemma delete_left_inner:
  assumes ok: "del_ok T x (FL p pc (N (N a v RED b) w BLACK wq) # fs) t" and c: "col t = BLACK" "col wq = BLACK"
  shows "\<exists>T' t'. delete_left_rest T x w = Some (T', rb_root T') \<and> del_ok T' (rb_root T') [] t' \<and> same T T' \<and>
    io t' = io (plug (FL p pc (N (N a v RED b) w BLACK wq) # fs) t)"
proof -
  let ?w = "N (N a v RED b) w BLACK wq"
  have s: "rbwf T (plug (FL p pc ?w # fs) t)" and x: "ptr T t = x" "get_parent T x = Some p"
    using ok by (simp_all add: del_ok_def)
  then have w0: "rbwf T (plug (FR t p pc # fs) ?w)" "rbwf T (plug (FL w BLACK wq # FR t p pc # fs) (N a v RED b))"
    "rbwf T (plug (FR (N a v RED b) w BLACK # FR t p pc # fs) wq)" by simp_all
  obtain T1 where T1: "set_color T v BLACK = Some T1" "rbwf T1 (plug (FR t p pc # fs) (N (N a v BLACK b) w BLACK wq))" "same T T1"
    using recolor [OF w0(2), of BLACK] by auto
  obtain T2 where T2: "set_color T1 w RED = Some T2" "rbwf T2 (plug (FR t p pc # fs) (N (N a v BLACK b) w RED wq))" "same T1 T2"
    using recolor [OF T1(2), of RED] by auto
  obtain T3 where T3: "rbtree_right_rotate T2 w = Some T3" "rbwf T3 (plug fs (N t p pc (N a v BLACK (N b w RED wq))))" "same T2 T3"
    using right_rotate [OF T2(2)] by auto
  have sm: "same T T3" using T1(3) T2(3) T3(3) same_trans by blast
  have p3: "get_parent T3 x = Some p"
    using parent_hole [OF s, of T3 "FL p pc (N a v BLACK (N b w RED wq)) # fs"] sm T3(2) x by simp
  have "delete_left_rest T x w = delete_left_tail T3 x v"
    using rbwf_at [OF w0(1)] rbwf_at [OF w0(2)] rbwf_color [OF w0(3)] c T1(1) T2(1) T3(1) p3 rbwf_at(3) [OF T3(2)]
    by (simp add: delete_left_rest_def)
  moreover let ?t' = "plug fs (N (N t p BLACK a) v pc (N b w BLACK wq))"
  obtain T' where T': "delete_left_tail T3 x v = Some (T', rb_root T')" "rbwf T' ?t'" "same T3 T'"
    using delete_left_last [OF T3(2)] x(1) p3 ptr_same [OF sm] by auto
  moreover have "rbt ?t'" using ok c paint_black [OF c(1)] unfolding rbt_plug by (auto simp: del_ok_def hole_red_def)
  then have "del_ok T' (rb_root T') [] ?t'" using del_ok_root [OF T'(2)] plug_N by blast
  moreover have "io ?t' = io (plug (FL p pc ?w # fs) t)" by (simp add: io_plug)
  ultimately show ?thesis using same_trans [OF sm] by metis
qed

lemma delete_step_left:
  assumes ok: "del_ok T x (FL p pc w # fs) t" and b: "col t = BLACK"
  shows "\<exists>T' x' fs' t'. delete_fixup_left T x = Some (T', x') \<and> del_ok T' x' fs' t' \<and> same T T' \<and>
    io (plug fs' t') = io (plug (FL p pc w # fs) t) \<and> (fs' = fs \<or> fs' = [] \<or> col t' = RED)"
proof -
  obtain T1 pc' w' fs1 where 1: "delete_left_stage T x = Some (T1, ptr T1 w')"
    "del_ok T1 x (FL p pc' w' # fs1) t" "same T T1" "w' \<noteq> L" "col w' = BLACK"
    "io (plug (FL p pc' w' # fs1) t) = io (plug (FL p pc w # fs) t)" "fs1 = fs \<or> pc' = RED"
    using delete_left_sibling [OF ok] by blast
  note run = delete_left_split [of T x, unfolded 1(1)]
  obtain wl a wq where w': "w' = N wl a BLACK wq" using 1(4,5) by (cases w') auto
  note ok1 = 1(2) [unfolded w']
  show ?thesis
  proof (cases "col wq")
    case RED
    from delete_left_outer [OF ok1 b RED] obtain T' t' where
      "delete_left_rest T1 x a = Some (T', rb_root T')" "del_ok T' (rb_root T') [] t'" "same T1 T'"
      "io t' = io (plug (FL p pc' w' # fs1) t)" using w' by blast
    with run 1(6) w' same_trans [OF 1(3)] show ?thesis
      by (intro exI [of _ T'] exI [of _ "rb_root T'"] exI [of _ "[]"] exI [of _ t']) simp
  next
    case BLACK
    show ?thesis
    proof (cases "col wl")
      case RED
      then obtain u v b' where "wl = N u v RED b'" by (cases wl) auto
      with delete_left_inner [of T1 x p pc' u v b' a wq fs1 t] ok1 b BLACK obtain T' t' where
        "delete_left_rest T1 x a = Some (T', rb_root T')" "del_ok T' (rb_root T') [] t'" "same T1 T'"
        "io t' = io (plug (FL p pc' w' # fs1) t)" using w' by blast
      with run 1(6) w' same_trans [OF 1(3)] show ?thesis
        by (intro exI [of _ T'] exI [of _ "rb_root T'"] exI [of _ "[]"] exI [of _ t']) simp
    next
      case BLACK
      with delete_left_up [OF ok1 b BLACK \<open>col wq = BLACK\<close>] obtain T' where T':
        "delete_left_rest T1 x a = Some (T', p)" "del_ok T' p fs1 (N t p pc' (N wl a RED wq))" "same T1 T'" by blast
      moreover have "io (plug fs1 (N t p pc' (N wl a RED wq))) = io (plug (FL p pc' w' # fs1) t)"
        by (simp add: w' io_plug)
      ultimately show ?thesis using run 1(6,7) w' same_trans [OF 1(3)]
        by (intro exI [of _ T'] exI [of _ p] exI [of _ fs1] exI [of _ "N t p pc' (N wl a RED wq)"]) auto
    qed
  qed
qed

text \<open>The right-hand case.  It reads the colours of the nephews in the same order as the left-hand
  case, so it is the mirror image only where both can be read.\<close>

definition delete_right_stage :: "rbtree \<Rightarrow> addr \<Rightarrow> (rbtree \<times> addr) option" where
  "delete_right_stage T x = do {
     p \<leftarrow> get_parent T x;
     w \<leftarrow> get_left T p;
     wc \<leftarrow> get_color T w;
     if wc = RED then do {
       T \<leftarrow> set_color T w BLACK;
       p \<leftarrow> get_parent T x;
       T \<leftarrow> set_color T p RED;
       T \<leftarrow> rbtree_right_rotate T p;
       p \<leftarrow> get_parent T x;
       w \<leftarrow> get_left T p;
       Some (T, w) }
     else Some (T, w) }"

definition delete_right_tail :: "rbtree \<Rightarrow> addr \<Rightarrow> addr \<Rightarrow> (rbtree \<times> addr) option" where
  "delete_right_tail T x w = do {
     p \<leftarrow> get_parent T x;
     pc \<leftarrow> get_color T p;
     T \<leftarrow> set_color T w pc;
     p \<leftarrow> get_parent T x;
     T \<leftarrow> set_color T p BLACK;
     wl \<leftarrow> get_left T w;
     T \<leftarrow> set_color T wl BLACK;
     p \<leftarrow> get_parent T x;
     T \<leftarrow> rbtree_right_rotate T p;
     Some (T, rb_root T) }"

definition delete_right_rest :: "rbtree \<Rightarrow> addr \<Rightarrow> addr \<Rightarrow> (rbtree \<times> addr) option" where
  "delete_right_rest T x w = do {
     wl \<leftarrow> get_left T w;
     wlc \<leftarrow> get_color T wl;
     both \<leftarrow> (if wlc = BLACK
              then do { wr \<leftarrow> get_right T w; wrc \<leftarrow> get_color T wr; Some (wrc = BLACK) }
              else Some False);
     if both then do { T \<leftarrow> set_color T w RED; p \<leftarrow> get_parent T x; Some (T, p) }
     else do {
       wl \<leftarrow> get_left T w;
       wlc \<leftarrow> get_color T wl;
       (T, w) \<leftarrow> (if wlc = BLACK then do {
                     wr \<leftarrow> get_right T w;
                     T \<leftarrow> set_color T wr BLACK;
                     T \<leftarrow> set_color T w RED;
                     T \<leftarrow> rbtree_left_rotate T w;
                     p \<leftarrow> get_parent T x;
                     w \<leftarrow> get_left T p;
                     Some (T, w) }
                   else Some (T, w));
       delete_right_tail T x w } }"

lemma delete_right_split:
  "delete_fixup_right T x = do { (T, w) \<leftarrow> delete_right_stage T x; delete_right_rest T x w }"
  unfolding delete_fixup_right_def delete_right_stage_def delete_right_rest_def delete_right_tail_def by simp

lemma delete_stage_mir: "delete_right_stage T x = map_option (apfst mir) (delete_left_stage (mir T) x)"
  unfolding delete_right_stage_def delete_left_stage_def by (simp add: mir_out2 cong: if_cong)

lemma mir_root: "Option.bind m (\<lambda>T. Some (mir T, rb_root T)) = map_option (apfst mir) (Option.bind m (\<lambda>T. Some (T, rb_root T)))"
  by (cases m) auto

lemma delete_tail_mir: "delete_left_tail (mir T) x w = map_option (apfst mir) (delete_right_tail T x w)"
  unfolding delete_right_tail_def delete_left_tail_def by (simp add: mir_out2 mir_root cong: if_cong)

lemma delete_rest_mir:
  assumes "get_left T w = Some a" "get_color T a = Some ca" "get_right T w = Some b" "get_color T b = Some cb"
  shows "delete_right_rest T x w = map_option (apfst mir) (delete_left_rest (mir T) x w)"
proof -
  have "map_option (apfst mir) (delete_left_rest (mir T) x w) =
    (if ca = BLACK \<and> cb = BLACK then do { T \<leftarrow> set_color T w RED; p \<leftarrow> get_parent T x; Some (T, p) }
     else do {
       (T, w) \<leftarrow> (if ca = BLACK then do {
                     T \<leftarrow> set_color T b BLACK;
                     T \<leftarrow> set_color T w RED;
                     T \<leftarrow> rbtree_left_rotate T w;
                     p \<leftarrow> get_parent T x;
                     w \<leftarrow> get_left T p;
                     Some (T, w) }
                   else Some (T, w));
       delete_right_tail T x w })"
    unfolding delete_left_rest_def case_prod_unfold
    by (cases ca; cases cb; simp add: assms mir_out2 delete_tail_mir cong: if_cong)
  then show ?thesis by (cases ca; cases cb; simp add: assms delete_right_rest_def)
qed

lemma invc_paint_mirt [simp]: "invc (paint (mirt t)) = invc (paint t)"
  by (cases t) auto

lemma ftop_mir [simp]: "ftop (mir T) (map mirf fs) = ftop T fs"
  by (cases fs) auto

lemma del_ok_mir: "del_ok (mir T) x (map mirf fs) (mirt t) = del_ok T x fs t"
  by (auto simp: del_ok_def plug_mir rbwf_mir bh_eq)

lemma delete_fixup_mir:
  assumes ok: "del_ok T x (FR w p pc # fs) t"
  shows "delete_fixup_right T x = map_option (apfst mir) (delete_fixup_left (mir T) x)"
proof -
  have "del_ok (mir T) x (FL p pc (mirt w) # map mirf fs) (mirt t)"
    using ok del_ok_mir [of T x "FR w p pc # fs" t] by simp
  from delete_left_sibling [OF this] obtain T1 pc' w' fs' where 1:
    "delete_left_stage (mir T) x = Some (T1, ptr T1 w')" "del_ok T1 x (FL p pc' w' # fs') (mirt t)" "w' \<noteq> L"
    by blast
  obtain wl a c wq where w': "w' = N wl a c wq" using 1(3) by (cases w') auto
  have "rbwf T1 (plug (FR (mirt t) p pc' # fs') (N wl a c wq))"
    "rbwf T1 (plug (FL a c wq # FR (mirt t) p pc' # fs') wl)" "rbwf T1 (plug (FR wl a c # FR (mirt t) p pc' # fs') wq)"
    using 1(2) w' by (simp_all add: del_ok_def)
  from rbwf_at [OF this(1)] rbwf_color [OF this(2)] rbwf_color [OF this(3)]
  have "delete_right_rest (mir T1) x a = map_option (apfst mir) (delete_left_rest (mir (mir T1)) x a)"
    by (intro delete_rest_mir [of _ _ "ptr T1 wq" "col wq" "ptr T1 wl" "col wl"]) simp_all
  then show ?thesis using 1(1) w' by (simp add: delete_left_split delete_right_split delete_stage_mir)
qed

lemma delete_step_right:
  assumes ok: "del_ok T x (FR w p pc # fs) t" and b: "col t = BLACK"
  shows "\<exists>T' x' fs' t'. delete_fixup_right T x = Some (T', x') \<and> del_ok T' x' fs' t' \<and> same T T' \<and>
    io (plug fs' t') = io (plug (FR w p pc # fs) t) \<and> (fs' = fs \<or> fs' = [] \<or> col t' = RED)"
proof -
  have "del_ok (mir T) x (FL p pc (mirt w) # map mirf fs) (mirt t)"
    using ok del_ok_mir [of T x "FR w p pc # fs" t] by simp
  from delete_step_left [OF this] b obtain T' x' fs' t' where 1:
    "delete_fixup_left (mir T) x = Some (T', x')" "del_ok T' x' fs' t'" "same (mir T) T'"
    "io (plug fs' t') = io (plug (map mirf (FR w p pc # fs)) (mirt t))"
    "fs' = map mirf fs \<or> fs' = [] \<or> col t' = RED" by auto
  have "delete_fixup_right T x = Some (mir T', x')" "same T (mir T')"
    using 1 by (simp_all add: delete_fixup_mir [OF ok] same_mir)
  moreover have "del_ok (mir T') x' (map mirf fs') (mirt t')"
    using 1(2) del_ok_mir [of "mir T'" x' "map mirf fs'" "mirt t'"] by simp
  moreover have "io (plug (map mirf fs') (mirt t')) = io (plug (FR w p pc # fs) t)"
    using arg_cong [OF 1(4), of rev] unfolding plug_mir by simp
  moreover have "map mirf fs' = fs \<or> map mirf fs' = [] \<or> col (mirt t') = RED" using 1(5) by auto
  ultimately show ?thesis by blast
qed

text \<open>Leaving the loop.\<close>

lemma pcol_same:
  assumes "get_color T a = Some c"
  shows "pcol T a c = T"
proof -
  obtain n where n: "rb_mem T a = Some n" "rb_color n = c" using assms by (auto simp: get_color_def rb_get_def split: if_splits)
  then have "n\<lparr>rb_color := c\<rparr> = n" by simp
  with n have "(rb_mem T)(a := map_option (\<lambda>n. n\<lparr>rb_color := c\<rparr>) (rb_mem T a)) = rb_mem T" by (simp add: fun_eq_iff)
  then show ?thesis by (simp add: pcol_def put_def)
qed

lemma paint_at:
  assumes "rbwf T (plug fs t)"
  shows "\<exists>T'. set_color T (ptr T t) BLACK = Some T' \<and> rbwf T' (plug fs (paint t)) \<and> same T T'"
proof (cases t)
  case L
  then have "get_color T (rb_nil T) = Some BLACK" using assms by (simp add: rbwf_def)
  then show ?thesis using L assms by (simp add: set_alive getter_alive pcol_same)
next
  case (N l a c r)
  then show ?thesis using recolor [of T fs l a c r BLACK] assms by auto
qed

lemma rbt_paint:
  assumes "del_ok T x fs t" "fs = [] \<or> col t = RED"
  shows "rbt (plug fs (paint t))"
proof (cases "fs = []")
  case True then show ?thesis using assms by (simp add: del_ok_def rbt_def)
next
  case False
  then obtain l a r where "t = N l a RED r" using assms(2) by (cases t) auto
  then show ?thesis using assms(1) by (auto simp: rbt_plug del_ok_def)
qed

lemma frep_root: "frep T fs p \<Longrightarrow> fs \<noteq> [] \<Longrightarrow> rb_root T \<in> fset fs"
proof (induction fs arbitrary: p)
  case (Cons f fs)
  then show ?case by (cases f; cases fs) auto
qed simp

lemma del_ok_root_iff:
  assumes "del_ok T x fs t"
  shows "x = rb_root T \<longleftrightarrow> fs = []"
proof
  assume "x = rb_root T"
  then show "fs = []"
    using assms frep_root [of T fs "ptr T t"] ptr_in [of T t]
    by (cases "fs = []") (auto simp: del_ok_def rbwf_plug fset_def)
qed (use assms in \<open>simp add: del_ok_def rbwf_def\<close>)

lemma delete_fixup_step:
  assumes ok: "del_ok T x (f # fs) t" and b: "col t = BLACK"
  shows "\<exists>T' x' fs' t'. rbtree_delete_fixup T x = rbtree_delete_fixup T' x' \<and> del_ok T' x' fs' t' \<and> same T T' \<and>
    io (plug fs' t') = io (plug (f # fs) t) \<and> (fs' = fs \<or> fs' = [] \<or> col t' = RED)"
proof -
  have w: "rbwf T (plug (f # fs) t)" and x: "ptr T t = x" "get_parent T x = Some (faddr f)"
    using ok by (simp_all add: del_ok_def)
  obtain pl where pl: "get_left T (faddr f) = Some pl" using w by (cases f) (auto simp: rbwf_plug)
  have "\<exists>T' x' fs' t'. (if x = pl then delete_fixup_left T x else delete_fixup_right T x) = Some (T', x') \<and>
    del_ok T' x' fs' t' \<and> same T T' \<and> io (plug fs' t') = io (plug (f # fs) t) \<and> (fs' = fs \<or> fs' = [] \<or> col t' = RED)"
  proof (cases f)
    case (FL p c s)
    then have "pl = x" using pl w x by (auto simp: rbwf_plug)
    with FL show ?thesis using delete_step_left [of T x p c s fs t] ok b by simp
  next
    case (FR s p c)
    then have "pl = ptr T s" using pl w by (auto simp: rbwf_plug)
    moreover have "s \<noteq> L" using ok FR by (auto simp: del_ok_def)
    ultimately have "pl \<noteq> x" using w x FR ptr_in [of T t] by (cases s) (auto simp: rbwf_plug)
    with FR show ?thesis using delete_step_right [of T x s p c fs t] ok b by simp
  qed
  then obtain T' x' fs' t' where s:
    "(if x = pl then delete_fixup_left T x else delete_fixup_right T x) = Some (T', x')"
    "del_ok T' x' fs' t'" "same T T'" "io (plug fs' t') = io (plug (f # fs) t)" "fs' = fs \<or> fs' = [] \<or> col t' = RED" by blast
  moreover have "rbtree_delete_fixup T x = rbtree_delete_fixup T' x'"
    using del_ok_root_iff [OF ok] rbwf_color [OF w] x b pl s(1) by (subst rbtree_delete_fixup.simps) simp
  ultimately show ?thesis by blast
qed

lemma delete_fixup_exit:
  assumes ok: "del_ok T x fs t" and e: "fs = [] \<or> col t = RED"
  shows "\<exists>T' t'. rbtree_delete_fixup T x = Some T' \<and> rbwf T' t' \<and> rbt t' \<and> io t' = io (plug fs t) \<and> same T T'"
proof -
  have w: "rbwf T (plug fs t)" and x: "ptr T t = x" using ok by (simp_all add: del_ok_def)
  have "rbtree_delete_fixup T x = set_color T x BLACK"
    using del_ok_root_iff [OF ok] e rbwf_color [OF w] x by (subst rbtree_delete_fixup.simps) auto
  then show ?thesis using paint_at [OF w] rbt_paint [OF ok e] x io_plug paint_simps(1) by metis
qed

lemma delete_fixup_ok:
  assumes "del_ok T x fs t"
  shows "\<exists>T' t'. rbtree_delete_fixup T x = Some T' \<and> rbwf T' t' \<and> rbt t' \<and> io t' = io (plug fs t) \<and> same T T'"
  using assms
proof (induction "length fs" arbitrary: T x fs t rule: less_induct)
  case less
  show ?case
  proof (cases "fs = [] \<or> col t = RED")
    case False
    then obtain f fs' where fs: "fs = f # fs'" "col t = BLACK" by (cases fs) auto
    from delete_fixup_step [OF less.prems [unfolded fs(1)] fs(2)] obtain T1 x1 fs1 t1 where s:
      "rbtree_delete_fixup T x = rbtree_delete_fixup T1 x1" "del_ok T1 x1 fs1 t1" "same T T1"
      "io (plug fs1 t1) = io (plug fs t)" "fs1 = fs' \<or> fs1 = [] \<or> col t1 = RED" using fs(1) by blast
    have "\<exists>T' t'. rbtree_delete_fixup T1 x1 = Some T' \<and> rbwf T' t' \<and> rbt t' \<and> io t' = io (plug fs1 t1) \<and> same T1 T'"
    proof (cases "fs1 = fs'")
      case True then show ?thesis using less.hyps [OF _ s(2)] fs(1) by simp
    next
      case False then show ?thesis using delete_fixup_exit [OF s(2)] s(5) by blast
    qed
    then show ?thesis using s(1,3,4) same_trans by metis
  qed (rule delete_fixup_exit [OF less.prems])
qed

subsection \<open>Unlinking a node\<close>

lemma plug_append: "plug (fs @ gs) t = plug gs (plug fs t)"
  by (induction fs t rule: plug.induct) auto

lemma position:
  "z \<in> set (io t) \<Longrightarrow> \<exists>fs l c r. t = plug fs (N l z c r)"
proof (induction t)
  case (N l a c r)
  then consider "z = a" | "z \<in> set (io l)" | "z \<in> set (io r)" by auto
  then show ?case
  proof cases
    case 1 then show ?thesis by (metis plug.simps(1))
  next
    case 2
    with N.IH(1) obtain fs l' c' r' where "l = plug fs (N l' z c' r')" by blast
    then have "N l a c r = plug (fs @ [FL a c r]) (N l' z c' r')" by (simp add: plug_append)
    then show ?thesis by blast
  next
    case 3
    with N.IH(2) obtain fs l' c' r' where "r = plug fs (N l' z c' r')" by blast
    then have "N l a c r = plug (fs @ [FR l a c]) (N l' z c' r')" by (simp add: plug_append)
    then show ?thesis by blast
  qed
qed simp

lemma mini_tree:
  assumes "rep T p t" "rb_nil T \<notin> set (io t)" "t \<noteq> L"
  shows "\<exists>gs y c r. rbtree_mini T (ptr T t) = Some y \<and> t = plug gs (N L y c r) \<and> fio_left gs = []"
  using assms
proof (induction t arbitrary: p)
  case (N l a c r)
  show ?case
  proof (cases l)
    case L
    then have "rbtree_mini T a = Some a" using N.prems by (subst rbtree_mini.simps) simp
    then show ?thesis using L by (metis plug.simps(1) fio_left.simps(1) ptr_simps(2))
  next
    case l: (N l' b c' r')
    then have "rbtree_mini T a = rbtree_mini T (ptr T l)" using N.prems by (subst rbtree_mini.simps) auto
    moreover obtain gs y cy ry where "rbtree_mini T (ptr T l) = Some y" "l = plug gs (N L y cy ry)" "fio_left gs = []"
      using N.IH(1) [of a] N.prems l by auto
    moreover have "fio_left (gs @ [FL a c r]) = fio_left gs" for gs
      by (induction gs rule: fio_left.induct) auto
    ultimately show ?thesis
      by (intro exI [of _ "gs @ [FL a c r]"] exI [of _ y] exI [of _ cy] exI [of _ ry]) (simp add: plug_append)
  qed
qed simp

text \<open>The only child of a node with at most one.\<close>

definition only :: "tr \<Rightarrow> tr \<Rightarrow> tr" where
  "only l r = (if l \<noteq> L then l else r)"

lemma only_io: "l = L \<or> r = L \<Longrightarrow> io (only l r) = io l @ io r"
  by (auto simp: only_def)

lemma splice:
  assumes w: "rbwf T (plug fs (N yl y yc yr))" and o: "yl = L \<or> yr = L"
  defines "T1 \<equiv> ppar T (ptr T (only yl yr)) (ftop T fs)"
  defines "T2 \<equiv> relink T1 fs (ptr T (only yl yr))"
  shows "set_parent T (ptr T (only yl yr)) (ftop T fs) = Some T1"
    and "(if ftop T fs = rb_nil T1 then Some (T1\<lparr>rb_root := ptr T (only yl yr)\<rparr>)
          else do { pl \<leftarrow> get_left T1 (ftop T fs);
                    if y = pl then set_left T1 (ftop T fs) (ptr T (only yl yr))
                    else set_right T1 (ftop T fs) (ptr T (only yl yr)) }) = Some T2"
    and "rbwf T2 (plug fs (only yl yr))" "get_parent T2 (ptr T (only yl yr)) = Some (ftop T fs)"
    and "get_data T2 = get_data T" "rb_nil T2 = rb_nil T" "rb_next T2 = rb_next T" "get_color T2 y = Some yc"
    and "get_parent T1 y = Some (ftop T fs)"
proof -
  let ?s = "only yl yr"
  have s: "rep T y ?s" "distinct (io ?s)" "set (io ?s) \<inter> fset fs = {}" "y \<notin> set (io ?s)" "rb_nil T \<notin> set (io ?s)"
    using w by (auto simp: rbwf_plug only_def fset_def)
  have n: "rb_nil T \<notin> fset fs" "y \<notin> fset fs" "y \<noteq> rb_nil T" "ptr T ?s \<noteq> y" "ptr T ?s \<notin> fset fs"
    using w ptr_in [of T ?s] s by (auto simp: rbwf_plug fset_def)
  have al: "alive T (ptr T ?s)" using w s(1) by (cases "?s") (auto simp: rbwf_plug getter_alive)
  then show "set_parent T (ptr T ?s) (ftop T fs) = Some T1" by (simp add: T1_def rb_acc)
  have 1: "frep T1 fs y" "rb_nil T1 = rb_nil T" "ftop T1 fs = ftop T fs"
    using w n by (simp_all add: T1_def rbwf_plug rb_acc)
  show "(if ftop T fs = rb_nil T1 then Some (T1\<lparr>rb_root := ptr T ?s\<rparr>)
          else do { pl \<leftarrow> get_left T1 (ftop T fs);
                    if y = pl then set_left T1 (ftop T fs) (ptr T ?s)
                    else set_right T1 (ftop T fs) (ptr T ?s) }) = Some T2"
    using replace_child [OF 1(1), of "ptr T ?s", unfolded 1(2,3)] n unfolding T2_def 1(2) by blast
  have "rep T1 (ftop T fs) ?s"
    using s rep_reparent [of T y ?s "ftop T fs"] by (cases "?s") (auto simp: T1_def reparent_def)
  moreover have "frep T2 fs (ptr T ?s)"
    unfolding T2_def using w by (intro frep_relink [OF 1(1)]) (auto simp: rbwf_plug)
  ultimately show "rbwf T2 (plug fs ?s)"
    using w s n only_io [OF o] by (auto simp: T2_def T1_def rbwf_plug rb_acc)
  show "get_parent T2 (ptr T ?s) = Some (ftop T fs)" using al by (simp add: T2_def T1_def rb_acc)
  show "get_data T2 = get_data T" "rb_nil T2 = rb_nil T" "rb_next T2 = rb_next T" "get_color T2 y = Some yc"
    "get_parent T1 y = Some (ftop T fs)"
    using w n by (simp_all add: T2_def T1_def rb_acc fun_eq_iff rbwf_plug)
qed

subsection \<open>Exchanging keys and values\<close>

text \<open>Two stores with the same links and colours.\<close>

definition links :: "rbtree \<Rightarrow> rbtree \<Rightarrow> bool" where
  "links T T' \<longleftrightarrow> rb_nil T' = rb_nil T \<and> rb_root T' = rb_root T \<and> get_color T' = get_color T \<and>
     get_left T' = get_left T \<and> get_right T' = get_right T \<and> get_parent T' = get_parent T"

lemma links_refl [simp]: "links T T"
  by (simp add: links_def)

lemma rep_links: "links T T' \<Longrightarrow> rep T' p t = rep T p t"
proof (induction t arbitrary: p)
  case (N l a c r)
  then have "ptr T' l = ptr T l" "ptr T' r = ptr T r" by (auto simp: links_def intro: ptr_cong)
  with N show ?case by (simp add: links_def)
qed simp

lemma rbwf_links: "links T T' \<Longrightarrow> rbwf T' t = rbwf T t"
  using rep_links [of T T' "rb_nil T" t] ptr_cong [of T' T t] by (simp add: rbwf_def links_def)

lemma links_put:
  assumes "\<And>n. rb_color (f n) = rb_color n \<and> rb_left (f n) = rb_left n \<and> rb_right (f n) = rb_right n \<and> rb_parent (f n) = rb_parent n"
  shows "links T (put T a f)"
proof -
  have "rb_nil (put T a f) = rb_nil T" "rb_root (put T a f) = rb_root T" by (simp_all add: put_def)
  then show ?thesis using assms
    by (auto simp: links_def getter_defs rb_get_put fun_eq_iff option.map_comp comp_def)
qed

lemma swap_data:
  assumes "alive T y" "alive T z" "y \<noteq> z"
  shows "\<exists>T'. (do { nz \<leftarrow> rb_get T z;
               ny \<leftarrow> rb_get T y;
               T \<leftarrow> rb_put T z (\<lambda>n. n\<lparr>rb_key := rb_key ny, rb_value := rb_value ny\<rparr>);
               rb_put T y (\<lambda>n. n\<lparr>rb_key := rb_key nz, rb_value := rb_value nz\<rparr>) }) = Some T' \<and>
     links T T' \<and> rb_next T' = rb_next T \<and> get_data T' = (get_data T)(z := get_data T y, y := get_data T z)"
proof -
  obtain nz ny where n: "rb_get T z = Some nz" "rb_get T y = Some ny" using assms by (auto simp: alive_def)
  define T1 where "T1 = put T z (\<lambda>n. n\<lparr>rb_key := rb_key ny, rb_value := rb_value ny\<rparr>)"
  define T2 where "T2 = put T1 y (\<lambda>n. n\<lparr>rb_key := rb_key nz, rb_value := rb_value nz\<rparr>)"
  have "alive T1 y" using assms by (simp add: T1_def alive_def rb_get_put)
  then have "rb_put T z (\<lambda>n. n\<lparr>rb_key := rb_key ny, rb_value := rb_value ny\<rparr>) = Some T1"
    "rb_put T1 y (\<lambda>n. n\<lparr>rb_key := rb_key nz, rb_value := rb_value nz\<rparr>) = Some T2"
    using assms by (simp_all add: rb_put_alive T1_def T2_def)
  moreover have "links T T1" "links T1 T2" unfolding T1_def T2_def by (rule links_put, simp)+
  then have "links T T2" by (simp add: links_def)
  moreover have "get_data T2 = (get_data T)(z := get_data T y, y := get_data T z)"
    using n assms(3) by (auto simp: T1_def T2_def get_data_def rb_get_put fun_eq_iff)
  ultimately show ?thesis using n by (simp add: T1_def T2_def put_def)
qed

subsection \<open>Deletion\<close>

text \<open>What is left after the unlinked node \<open>y\<close> is gone and the repair is done.\<close>

lemma delete_repair:
  assumes w: "rbwf T (plug fs (only yl yr))" and par: "get_parent T (ptr T (only yl yr)) = Some (ftop T fs)"
    and rb: "rbt (plug fs (N yl y yc yr))" and o: "yl = L \<or> yr = L"
  shows "\<exists>T' t'. (if yc = BLACK then rbtree_delete_fixup T (ptr T (only yl yr)) else Some T) = Some T' \<and>
    rbwf T' t' \<and> rbt t' \<and> io t' = io (plug fs (only yl yr)) \<and> same T T'"
proof (cases yc)
  case BLACK
  have "bh (only yl yr) = bh yl" using rb o by (auto simp: rbt_plug only_def)
  moreover have "invc (paint s)" if "invc s" for s using that by (cases s) auto
  ultimately have "del_ok T (ptr T (only yl yr)) fs (only yl yr)"
    using w par rb BLACK by (auto simp: del_ok_def rbt_plug only_def)
  from delete_fixup_ok [OF this] show ?thesis using BLACK by simp
next
  case RED
  have "rbt (plug fs (only yl yr))" using rb o RED by (auto simp: rbt_plug only_def)
  then show ?thesis using w RED by (intro exI [of _ T] exI [of _ "plug fs (only yl yr)"]) simp
qed

text \<open>The node that \<open>rbtree_delete\<close> unlinks: \<open>z\<close> itself, or its successor.\<close>

lemma delete_victim:
  assumes w: "rbwf T t" and z: "z \<in> set (io t)"
  shows "\<exists>fs yl y yc yr zl zr as bs. t = plug fs (N yl y yc yr) \<and> (yl = L \<or> yr = L) \<and>
    get_left T z = Some zl \<and> get_right T z = Some zr \<and>
    (if zl = rb_nil T \<or> zr = rb_nil T then Some z else rbtree_successor T z) = Some y \<and>
    io t = as @ z # bs \<and> io (plug fs (only yl yr)) = (if y = z then as @ bs else as @ z # tl bs) \<and>
    (y \<noteq> z \<longrightarrow> bs \<noteq> [] \<and> hd bs = y)"
proof -
  obtain fs l c r where t: "t = plug fs (N l z c r)" using position [OF z] by blast
  note w' = w [unfolded t]
  note at = rbwf_at [OF w']
  have nil: "ptr T s = rb_nil T \<longleftrightarrow> s = L" if "s = l \<or> s = r" for s
    using that w' by (cases s) (auto simp: rbwf_plug)
  have ioz: "io t = (fio_left fs @ io l) @ z # (io r @ fio_right fs)" by (simp add: t io_plug)
  show ?thesis
  proof (cases "l = L \<or> r = L")
    case True
    have "(if ptr T l = rb_nil T \<or> ptr T r = rb_nil T then Some z else rbtree_successor T z) = Some z"
      using True nil by auto
    moreover have "io (plug fs (only l r)) = (if z = z then (fio_left fs @ io l) @ io r @ fio_right fs
        else (fio_left fs @ io l) @ z # tl (io r @ fio_right fs))"
      using only_io [OF True] by (simp add: io_plug)
    ultimately show ?thesis using at(2,3) ioz t True by blast
  next
    case False
    obtain gs y yc yr where m: "rbtree_mini T (ptr T r) = Some y" "r = plug gs (N L y yc yr)" "fio_left gs = []"
      using mini_tree [of T z r] w' False by (auto simp: rbwf_plug)
    have "(if ptr T l = rb_nil T \<or> ptr T r = rb_nil T then Some z else rbtree_successor T z) = Some y"
      using at(3,4) nil False m(1) by (simp add: rbtree_successor_def)
    moreover have ior: "io r = y # io yr @ fio_right gs" using m(2,3) by (simp add: io_plug)
    moreover from this have yz: "y \<noteq> z" using w' by (auto simp: rbwf_plug)
    moreover have "t = plug (gs @ FR l z c # fs) (N L y yc yr)" using t m(2) by (simp add: plug_append)
    moreover have "io (plug (gs @ FR l z c # fs) (only L yr)) = (if y = z then (fio_left fs @ io l) @ io r @ fio_right fs
        else (fio_left fs @ io l) @ z # tl (io r @ fio_right fs))"
      using yz ior m(3) by (simp add: io_plug plug_append only_def)
    moreover have "io r @ fio_right fs \<noteq> [] \<and> hd (io r @ fio_right fs) = y" using ior by simp
    ultimately show ?thesis using at(2,3) ioz by blast
  qed
qed

lemma alive_data: "alive T a \<longleftrightarrow> get_data T a \<noteq> None"
  by (simp add: alive_def get_data_def)

lemma rbtree_delete_ok:
  assumes w: "rbwf T t" and rb: "rbt t" and z: "z \<in> set (io t)"
  shows "\<exists>T' t' y as bs. rbtree_delete T z = Some (T', y) \<and> rbwf T' t' \<and> rbt t' \<and> rb_nil T' = rb_nil T \<and>
    rb_next T' = rb_next T \<and> (\<forall>a. get_data T' a = None \<longleftrightarrow> get_data T a = None) \<and>
    y \<in> set (io t) \<and> set (io t') = set (io t) - {y} \<and>
    io t = as @ z # bs \<and> map (get_data T') (io t') = map (get_data T) (as @ bs)"
proof -
  obtain fs yl y yc yr zl zr as bs where v: "t = plug fs (N yl y yc yr)" "yl = L \<or> yr = L"
    "get_left T z = Some zl" "get_right T z = Some zr"
    "(if zl = rb_nil T \<or> zr = rb_nil T then Some z else rbtree_successor T z) = Some y"
    "io t = as @ z # bs" "io (plug fs (only yl yr)) = (if y = z then as @ bs else as @ z # tl bs)"
    "y \<noteq> z \<longrightarrow> bs \<noteq> [] \<and> hd bs = y" using delete_victim [OF w z] by blast
  note w' = w [unfolded v(1)]
  note at = rbwf_at [OF w']
  note sp = splice [OF w' v(2)]
  let ?s = "only yl yr"
  define T1 where "T1 = ppar T (ptr T ?s) (ftop T fs)"
  define T2 where "T2 = relink T1 fs (ptr T ?s)"
  note sp = sp [folded T1_def, folded T2_def]
  have s: "(if ptr T yl \<noteq> rb_nil T then ptr T yl else if ptr T yr \<noteq> rb_nil T then ptr T yr else rb_nil T) = ptr T ?s"
    using w' by (cases yl; cases yr) (auto simp: only_def rbwf_plug)
  have "alive T z" using w z by (auto simp: rbwf_def intro: rep_alive)
  then have al: "alive T2 y" "alive T2 z" using sp(5) at(5) by (simp_all add: alive_data)
  let ?d = "if y = z then get_data T else (get_data T)(z := get_data T y, y := get_data T z)"
  obtain T3 where T3: "(if y \<noteq> z then do {
             nz \<leftarrow> rb_get T2 z;
             ny \<leftarrow> rb_get T2 y;
             T \<leftarrow> rb_put T2 z (\<lambda>n. n\<lparr>rb_key := rb_key ny, rb_value := rb_value ny\<rparr>);
             rb_put T y (\<lambda>n. n\<lparr>rb_key := rb_key nz, rb_value := rb_value nz\<rparr>) }
           else Some T2) = Some T3" "links T2 T3" "rb_next T3 = rb_next T2" "get_data T3 = ?d"
    using swap_data [OF al] sp(5) by (cases "y = z") auto
  have l: "rb_nil T3 = rb_nil T" "get_color T3 y = Some yc" "ptr T3 ?s = ptr T ?s"
    using T3(2) sp(6,8) ptr_cong [of T3 T ?s] by (simp_all add: links_def)
  have w3: "rbwf T3 (plug fs ?s)" "get_parent T3 (ptr T3 ?s) = Some (ftop T3 fs)"
    using rbwf_links [OF T3(2)] sp(3,4,6) T3(2) l ftop_cong [of T3 T fs] by (simp_all add: links_def)
  obtain T' t' where T': "(if yc = BLACK then rbtree_delete_fixup T3 (ptr T ?s) else Some T3) = Some T'"
    "rbwf T' t'" "rbt t'" "io t' = io (plug fs ?s)" "same T3 T'"
    using delete_repair [OF w3 _ v(2), of y yc, unfolded l(3)] rb v(1) by auto
  have "rbtree_delete T z = Some (T', y)"
    unfolding rbtree_delete_def
    by (simp only: v(3,4,5) at(2,3,4) s sp(1,2,9) T3(1) l(2) T'(1) Option.bind.bind_lunit Let_def)
  moreover have d: "get_data T' = ?d" using T'(5) T3(4) by (simp add: same_def)
  moreover have "rb_nil T' = rb_nil T" "rb_next T' = rb_next T"
    using T'(5) l(1) T3(3) sp(7) by (simp_all add: same_def)
  moreover have "get_data T' a = None \<longleftrightarrow> get_data T a = None" for a
    using d \<open>alive T z\<close> at(5) by (auto simp: alive_data)
  moreover have dist: "distinct (as @ z # bs)" using w v(6) by (simp add: rbwf_def)
  have "y \<in> set (io t) \<and> set (io t') = set (io t) - {y}"
    using dist T'(4) v(6,7,8) by (cases bs) auto
  moreover have "map (get_data T') (io t') = map (get_data T) (as @ bs)"
    using dist T'(4) v(7,8) d by (cases bs) auto
  ultimately show ?thesis using T'(2,3) v(6) by blast
qed

end
