(* ===== verification/Kvs_Rbtree_Engine.thy ===== *)
theory Kvs_Rbtree_Engine
  imports Kvs_Rbtree_Delete
begin

text \<open>
  The red-black tree as a storage engine: its invariant (a red-black tree with ascending keys that
  owns exactly the live nodes of its store), the map it represents, and the contract
  \<open>kv_engine\<close>.  The contract with failing allocations does not hold for this engine; what
  happens instead is stated at the end.
\<close>

subsection \<open>Invariant and abstraction\<close>

definition rb_tree :: "rbtree \<Rightarrow> tr \<Rightarrow> bool" where
  "rb_tree T t \<longleftrightarrow> rbwf T t \<and> rbt t \<and> keyed T (io t) \<and> (\<forall>a. alive T a \<longleftrightarrow> a = rb_nil T \<or> a \<in> set (io t)) \<and>
     (\<forall>a. alive T a \<longrightarrow> a < rb_next T)"

definition rb_invar :: "rbtree \<Rightarrow> bool" where
  "rb_invar T \<longleftrightarrow> (\<exists>t. rb_tree T t \<and> (\<forall>a \<in> set (io t). vof T a \<noteq> None))"

definition rb_lookup :: "rbtree \<Rightarrow> kvmap" where
  "rb_lookup T k = (case rbtree_traversal T (rb_root T) of None \<Rightarrow> None
     | Some kvs \<Rightarrow> (case map_of kvs (Some k) of None \<Rightarrow> None | Some v \<Rightarrow> v))"

definition ents :: "rbtree \<Rightarrow> addr list \<Rightarrow> (string \<times> string option) list" where
  "ents T as = map (\<lambda>a. (kof T a, vof T a)) as"

lemma ents_simps [simp]: "ents T [] = []" "ents T (a # as) = (kof T a, vof T a) # ents T as"
  "ents T (as @ bs) = ents T as @ ents T bs" "fst ` set (ents T as) = kof T ` set as"
  by (simp_all add: ents_def image_image)

lemma keyed_distinct: "keyed T as \<Longrightarrow> distinct (map (kof T) as)"
  by (simp add: keyed_def strict_sorted_iff)

lemma rb_traversal:
  assumes "rb_tree T t"
  shows "rbtree_traversal T (rb_root T) = Some (map (\<lambda>a. (Some (kof T a), vof T a)) (io t))"
  using assms traversal_tree [of T "rb_nil T" t "\<lambda>a. (Some (kof T a), vof T a)"]
  by (auto simp: rb_tree_def rbwf_def keyed_def)

lemma rb_lookup_ents:
  assumes "rb_tree T t"
  shows "rb_lookup T k = (case map_of (ents T (io t)) k of None \<Rightarrow> None | Some v \<Rightarrow> v)"
proof -
  have "map_of (map (\<lambda>a. (Some (kof T a), vof T a)) as) (Some k) = map_of (ents T as) k" for as
    by (induction as) auto
  then show ?thesis by (simp add: rb_lookup_def rb_traversal [OF assms])
qed

lemma map_of_mid: "k \<notin> fst ` set xs \<Longrightarrow> map_of (xs @ (k, v) # ys) = (map_of (xs @ ys))(k \<mapsto> v)"
  by (induction xs) (auto simp: fun_eq_iff)

lemma map_of_absent: "k \<notin> fst ` set xs \<Longrightarrow> map_of xs k = None"
  by (simp add: map_of_eq_None_iff)

lemma ents_mid:
  assumes "kof T z = k" "k \<notin> kof T ` set as"
  shows "map_of (ents T (as @ z # bs)) = (map_of (ents T (as @ bs)))(k \<mapsto> vof T z)"
  using map_of_mid [of k "ents T as" "vof T z" "ents T bs"] assms unfolding ents_simps by simp

text \<open>A key that is stored has one node, which splits the key sequence.\<close>

lemma rb_node:
  assumes "rb_tree T t" "k \<in> kof T ` set (io t)"
  shows "\<exists>z as bs. io t = as @ z # bs \<and> kof T z = k \<and> rbtree_search T k = Some z \<and> z \<noteq> rb_nil T \<and>
    k \<notin> kof T ` set (as @ bs) \<and> get_data T z = Some (Some k, vof T z)"
proof -
  obtain z where z: "find (\<lambda>a. kof T a = k) (io t) = Some z" "kof T z = k" "z \<in> set (io t)"
    using assms(2) by (cases "find (\<lambda>a. kof T a = k) (io t)") (auto simp: find_None_iff find_Some_iff)
  have r: "rbtree_search T k = Some z" "z \<noteq> rb_nil T"
    using search_from_tree [of T "rb_nil T" t k] assms(1) z
    by (auto simp: rbtree_search_def rb_tree_def rbwf_def)
  obtain as bs where s: "io t = as @ z # bs" using split_list [OF z(3)] by blast
  have "distinct (map (kof T) (as @ z # bs))" using keyed_distinct assms(1) s by (metis rb_tree_def)
  then have "k \<notin> kof T ` set (as @ bs)" using z(2) by auto
  moreover have "get_data T z = Some (Some k, vof T z)" using assms(1) z by (auto simp: rb_tree_def keyed_def)
  ultimately show ?thesis using r s z(2) by blast
qed

lemma rb_absent:
  assumes "rb_tree T t" "k \<notin> kof T ` set (io t)"
  shows "rbtree_search T k = Some (rb_nil T)"
proof -
  have "find (\<lambda>a. kof T a = k) (io t) = None" using assms(2) by (auto simp: find_None_iff)
  then show ?thesis using search_from_tree [of T "rb_nil T" t k] assms(1)
    by (auto simp: rbtree_search_def rb_tree_def rbwf_def)
qed

lemma rb_lookup_mid:
  assumes "rb_tree T t" "io t = as @ z # bs" "kof T z = k" "k \<notin> kof T ` set (as @ bs)"
  shows "rb_lookup T k = vof T z"
proof -
  have "k \<notin> kof T ` set as" using assms(4) by auto
  from ents_mid [OF assms(3) this, of bs] show ?thesis by (simp add: rb_lookup_ents [OF assms(1)] assms(2) del: ents_simps)
qed

lemma rb_lookup_dom:
  assumes "rb_tree T t" "\<forall>a \<in> set (io t). vof T a \<noteq> None"
  shows "rb_lookup T k = None \<longleftrightarrow> k \<notin> kof T ` set (io t)"
proof (cases "k \<in> kof T ` set (io t)")
  case True
  from rb_node [OF assms(1) True] obtain z as bs where
    "io t = as @ z # bs" "kof T z = k" "k \<notin> kof T ` set (as @ bs)" by blast
  with rb_lookup_mid [OF assms(1)] assms(2) True show ?thesis by simp
next
  case False
  then show ?thesis by (simp add: rb_lookup_ents [OF assms(1)] map_of_absent)
qed

lemma kvs_rbtree_get_tree:
  assumes "rb_tree T t"
  shows "kvs_rbtree_get T (Some k) = Some (rb_lookup T k)"
proof (cases "k \<in> kof T ` set (io t)")
  case True
  from rb_node [OF assms True] obtain z as bs where z:
    "io t = as @ z # bs" "kof T z = k" "k \<notin> kof T ` set (as @ bs)" "rbtree_search T k = Some z" "z \<noteq> rb_nil T"
    "get_data T z = Some (Some k, vof T z)" by blast
  have "rb_lookup T k = vof T z" using rb_lookup_mid [OF assms z(1-3)] .
  with z(4-6) show ?thesis by (auto simp: kvs_rbtree_get_def get_data_def)
next
  case False
  then show ?thesis using rb_absent [OF assms False]
    by (simp add: kvs_rbtree_get_def rb_lookup_ents [OF assms] map_of_absent)
qed

lemma kvs_rbtree_exist_tree:
  assumes "rb_tree T t"
  shows "kvs_rbtree_exist T (Some k) = Some (if k \<in> kof T ` set (io t) then 0 else 1)"
  using rb_node [OF assms, of k] rb_absent [OF assms, of k]
  by (cases "k \<in> kof T ` set (io t)") (auto simp: kvs_rbtree_exist_def)

subsection \<open>Deletion\<close>

lemma rb_get_free: "rb_get (rb_free T y) a = (if a = y then None else rb_get T a)"
  by (simp add: rb_get_def rb_free_def)

lemma rb_free_sel [simp]: "rb_nil (rb_free T y) = rb_nil T" "rb_root (rb_free T y) = rb_root T" "rb_next (rb_free T y) = rb_next T"
  by (simp_all add: rb_free_def)

lemma rbwf_free:
  assumes "rbwf T t" "y \<notin> set (io t)" "y \<noteq> rb_nil T"
  shows "rbwf (rb_free T y) t"
proof -
  have "rep (rb_free T y) (rb_nil T) t = rep T (rb_nil T) t"
    by (rule rep_cong) (use assms(2) in \<open>auto simp: rb_get_free\<close>)
  then show ?thesis using assms ptr_cong [of "rb_free T y" T t]
    by (auto simp: rbwf_def rb_get_free getter_defs)
qed

lemma kof_free: "a \<noteq> y \<Longrightarrow> kof (rb_free T y) a = kof T a" "a \<noteq> y \<Longrightarrow> vof (rb_free T y) a = vof T a"
  "a \<noteq> y \<Longrightarrow> get_data (rb_free T y) a = get_data T a"
  by (simp_all add: kof_def vof_def get_data_def rb_get_free)

text \<open>Equal data gives equal entries.\<close>

lemma ents_data: "map (get_data T') as' = map (get_data T) as \<Longrightarrow> ents T' as' = ents T as"
proof (induction as arbitrary: as')
  case (Cons a as)
  then show ?case by (cases as') (auto simp: kof_def vof_def)
qed simp

lemma keyed_data: "map (get_data T') as' = map (get_data T) as \<Longrightarrow> keyed T as \<Longrightarrow> keyed T' as'"
proof -
  assume d: "map (get_data T') as' = map (get_data T) as" and k: "keyed T as"
  have "map (kof T') as' = map (kof T) as"
    using arg_cong [OF ents_data [OF d], of "map fst"] by (simp add: ents_def comp_def)
  moreover have "\<forall>x \<in> set (map (get_data T) as). \<exists>key v. x = Some (Some key, v)" using k by (auto simp: keyed_def)
  then have "\<exists>key v. get_data T' a = Some (Some key, v)" if "a \<in> set as'" for a using that unfolding d [symmetric] by simp
  then have "get_data T' a = Some (Some (kof T' a), vof T' a)" if "a \<in> set as'" for a
    using that by (fastforce simp: kof_def vof_def)
  ultimately show ?thesis using k by (simp add: keyed_def)
qed

lemma rb_delete_tree:
  assumes tr: "rb_tree T t" and z: "io t = as @ z # bs"
  shows "\<exists>T' t' y. rbtree_delete T z = Some (T', y) \<and> alive T' y \<and> rb_tree (rb_free T' y) t' \<and>
    ents (rb_free T' y) (io t') = ents T (as @ bs) \<and> rb_nil (rb_free T' y) = rb_nil T"
proof -
  have w: "rbwf T t" "rbt t" "z \<in> set (io t)" using tr z by (auto simp: rb_tree_def)
  obtain T' t' y as' bs' where d: "rbtree_delete T z = Some (T', y)" "rbwf T' t'" "rbt t'" "rb_nil T' = rb_nil T"
    "rb_next T' = rb_next T" "\<forall>a. get_data T' a = None \<longleftrightarrow> get_data T a = None"
    "y \<in> set (io t)" "set (io t') = set (io t) - {y}" "io t = as' @ z # bs'" "map (get_data T') (io t') = map (get_data T) (as' @ bs')"
    using rbtree_delete_ok [OF w] by (elim exE conjE) (rule that; assumption)
  have "z \<notin> set as" "z \<notin> set bs" using w z by (auto simp: rbwf_def)
  then have eq: "as' = as" "bs' = bs" using d(9) z append_Cons_eq_iff [of z as bs as' bs'] by simp_all
  have y: "y \<notin> set (io t')" "y \<noteq> rb_nil T'" using d(4,7,8) w(1) by (auto simp: rbwf_def)
  have "map (get_data (rb_free T' y)) (io t') = map (get_data T') (io t')"
    using y(1) by (intro map_cong) (auto intro!: kof_free(3))
  then have dat: "map (get_data (rb_free T' y)) (io t') = map (get_data T) (as @ bs)" using d(10) eq by simp
  have "keyed T (as @ bs)" using tr z by (auto simp: rb_tree_def)
  then have "keyed (rb_free T' y) (io t')" using keyed_data [OF dat] by blast
  moreover have "alive T' a = alive T a" for a using d(6) by (simp add: alive_data)
  then have "alive (rb_free T' y) a = (a \<noteq> y \<and> alive T a)" for a by (simp add: alive_def rb_get_free)
  with rbwf_free [OF d(2) y] d(3,4,5,8) tr y \<open>keyed (rb_free T' y) (io t')\<close>
  have "rb_tree (rb_free T' y) t'" by (auto simp: rb_tree_def)
  moreover have "alive T' y" using d(6,7) tr by (auto simp: alive_data rb_tree_def)
  ultimately show ?thesis using d(1,4) ents_data [OF dat] by auto
qed

lemma map_of_delete:
  assumes "rb_tree T t" "io t = as @ z # bs" "kof T z = k" "k \<notin> kof T ` set (as @ bs)"
  shows "(case map_of (ents T (as @ bs)) k' of None \<Rightarrow> None | Some v \<Rightarrow> v) = ((rb_lookup T)(k := None)) k'"
proof -
  have "k \<notin> kof T ` set as" "map_of (ents T (as @ bs)) k = None"
    using assms(4) by (auto simp: map_of_eq_None_iff simp del: ents_simps(3))
  with ents_mid [OF assms(3) this(1), of bs] show ?thesis
    by (simp add: rb_lookup_ents [OF assms(1)] assms(2) del: ents_simps)
qed

lemma kvs_rbtree_del_tree:
  assumes tr: "rb_tree T t" and k: "k \<in> kof T ` set (io t)"
  shows "\<exists>T' t'. kvs_rbtree_del T (Some k) = Some (0, T') \<and> rb_tree T' t' \<and> rb_lookup T' = (rb_lookup T)(k := None) \<and>
    (\<forall>p. p \<in> set (ents T' (io t')) \<longrightarrow> p \<in> set (ents T (io t)))"
proof -
  obtain z as bs where z: "io t = as @ z # bs" "kof T z = k" "rbtree_search T k = Some z" "z \<noteq> rb_nil T"
    "k \<notin> kof T ` set (as @ bs)" using rb_node [OF tr k] by blast
  obtain T' t' y where d: "rbtree_delete T z = Some (T', y)" "alive T' y" "rb_tree (rb_free T' y) t'"
    "ents (rb_free T' y) (io t') = ents T (as @ bs)" using rb_delete_tree [OF tr z(1)] by blast
  have "rb_lookup (rb_free T' y) = (rb_lookup T)(k := None)"
    unfolding fun_eq_iff rb_lookup_ents [OF d(3)] d(4) using map_of_delete [OF tr z(1,2,5)] by blast
  moreover have "kvs_rbtree_del T (Some k) = Some (0, rb_free T' y)"
    using z(3,4) d(1,2) by (auto simp: kvs_rbtree_del_def alive_def)
  moreover have "set (ents (rb_free T' y) (io t')) \<subseteq> set (ents T (io t))" unfolding d(4) z(1) by (auto simp: ents_def)
  ultimately show ?thesis using d(3) by blast
qed

text \<open>Destruction deletes the minimum until the tree is empty; nothing of the store is left.\<close>

lemma rb_empty: "rb_tree T t \<Longrightarrow> rb_root T = rb_nil T \<longleftrightarrow> t = L"
  by (cases t) (auto simp: rb_tree_def rbwf_def)

lemma rbtree_free_all_ok:
  assumes "rb_tree T t"
  shows "\<exists>T'. rbtree_free_all T = Some T' \<and> rb_tree T' L \<and> rb_nil T' = rb_nil T"
  using assms
proof (induction "length (io t)" arbitrary: T t rule: less_induct)
  case less
  show ?case
  proof (cases "t = L")
    case True
    then show ?thesis using less.prems rb_empty [OF less.prems] by (subst rbtree_free_all.simps) simp
  next
    case False
    have w: "rep T (rb_nil T) t" "rb_nil T \<notin> set (io t)" "rb_root T = ptr T t"
      using less.prems by (auto simp: rb_tree_def rbwf_def)
    obtain gs y c r where m: "rbtree_mini T (rb_root T) = Some y" "t = plug gs (N L y c r)"
      using mini_tree [OF w(1,2) False] w(3) by metis
    then obtain as bs where y: "io t = as @ y # bs" by (auto simp: io_plug)
    obtain T' t' cur where d: "rbtree_delete T y = Some (T', cur)" "alive T' cur" "rb_tree (rb_free T' cur) t'"
      "ents (rb_free T' cur) (io t') = ents T (as @ bs)" "rb_nil (rb_free T' cur) = rb_nil T"
      using rb_delete_tree [OF less.prems y] by blast
    have "length (io t') < length (io t)" using arg_cong [OF d(4), of length] y by (simp add: ents_def)
    from less.hyps [OF this d(3)] obtain T2 where
      "rbtree_free_all (rb_free T' cur) = Some T2" "rb_tree T2 L" "rb_nil T2 = rb_nil T" using d(5) by auto
    moreover have "rbtree_free_all T = rbtree_free_all (rb_free T' cur)"
      using rb_empty [OF less.prems] False m(1) d(1,2) by (subst rbtree_free_all.simps) (auto simp: alive_def)
    ultimately show ?thesis by auto
  qed
qed

lemma kvs_rbtree_destory_ok:
  assumes "rb_tree T t"
  shows "\<exists>T'. kvs_rbtree_destory T = Some T' \<and> (\<forall>a. rb_get T' a = None)"
proof -
  obtain T' where T': "rbtree_free_all T = Some T'" "rb_tree T' L" using rbtree_free_all_ok [OF assms] by blast
  then have "rb_mem T' a = None" if "a \<noteq> rb_nil T'" "a \<noteq> 0" for a
    using that by (auto simp: rb_tree_def alive_def rb_get_def)
  with T'(1) show ?thesis by (auto simp: kvs_rbtree_destory_def rb_get_def rb_free_def)
qed

subsection \<open>Insertion\<close>

text \<open>The store with one more node, not linked yet.\<close>

definition rb_ext :: "rbtree \<Rightarrow> rbtree_node \<Rightarrow> rbtree" where
  "rb_ext T n = T\<lparr>rb_mem := (rb_mem T)(rb_next T \<mapsto> n), rb_next := rb_next T + 1\<rparr>"

lemma rb_ext_sel [simp]: "rb_nil (rb_ext T n) = rb_nil T" "rb_root (rb_ext T n) = rb_root T" "rb_next (rb_ext T n) = rb_next T + 1"
  by (simp_all add: rb_ext_def)

lemma rb_get_ext: "rb_next T \<noteq> 0 \<Longrightarrow> rb_get (rb_ext T n) a = (if a = rb_next T then Some n else rb_get T a)"
  by (simp add: rb_ext_def rb_get_def)

lemma rb_tree_next: "rb_tree T t \<Longrightarrow> rb_next T \<notin> set (io t) \<and> rb_next T \<noteq> rb_nil T \<and> rb_next T \<noteq> 0 \<and> \<not> alive T (rb_next T)"
  by (auto simp: rb_tree_def)

lemma rb_ext_tree:
  assumes tr: "rb_tree T t"
  shows "rbwf (rb_ext T n) t \<and> keyed (rb_ext T n) (io t) \<and> ents (rb_ext T n) (io t) = ents T (io t) \<and>
    (\<forall>a \<in> set (io t). kof (rb_ext T n) a = kof T a \<and> vof (rb_ext T n) a = vof T a)"
proof -
  note nx = rb_tree_next [OF tr]
  have eq: "rb_get (rb_ext T n) a = rb_get T a" if "a \<in> set (io t) \<or> a = rb_nil T" for a
    using that nx by (auto simp: rb_get_ext)
  have "rep (rb_ext T n) (rb_nil T) t = rep T (rb_nil T) t" by (rule rep_cong) (simp_all add: eq)
  moreover have "ptr (rb_ext T n) t = ptr T t" by (rule ptr_cong) simp
  ultimately have "rbwf (rb_ext T n) t" using tr eq by (simp add: rb_tree_def rbwf_def getter_defs)
  moreover have "map (get_data (rb_ext T n)) (io t) = map (get_data T) (io t)" using eq by (auto simp: get_data_def)
  moreover have "\<forall>a \<in> set (io t). kof (rb_ext T n) a = kof T a \<and> vof (rb_ext T n) a = vof T a"
    using eq by (auto simp: kof_def vof_def get_data_def)
  ultimately show ?thesis using tr keyed_data ents_data by (metis rb_tree_def)
qed

lemma ents_cong: "same T T' \<Longrightarrow> ents T' as = ents T as"
  using kof_same by (simp add: ents_def)

lemma rb_insert_tree:
  assumes tr: "rb_tree T t" and k: "k \<notin> kof T ` set (io t)" and n: "rb_key n = Some k" "rb_value n = Some v"
  shows "\<exists>T' t'. rbtree_insert (rb_ext T n) (rb_next T) = Some T' \<and> rb_tree T' t' \<and>
    map_of (ents T' (io t')) = (map_of (ents T (io t)))(k \<mapsto> Some v) \<and>
    set (ents T' (io t')) = insert (k, Some v) (set (ents T (io t)))"
proof -
  let ?E = "rb_ext T n" and ?z = "rb_next T"
  note nx = rb_tree_next [OF tr] and ex = rb_ext_tree [OF tr, of n]
  have dz: "get_data ?E ?z = Some (Some k, Some v)" using nx n by (simp add: get_data_def rb_get_ext)
  then have kz: "kof ?E ?z = k" "vof ?E ?z = Some v" by (simp_all add: kof_def vof_def)
  have kn: "k \<notin> kof ?E ` set (io t)" using ex k by auto
  obtain T' t' as bs where i: "rbtree_insert ?E ?z = Some T'" "rbwf T' t'" "rbt t'" "same ?E T'" "io t = as @ bs"
    "io t' = as @ ?z # bs" "\<forall>a \<in> set as. kof ?E a < k" "\<forall>b \<in> set bs. k < kof ?E b"
    using rbtree_insert_fresh [of ?E t ?z k "Some v"] ex tr nx dz kn by (auto simp: rb_tree_def)
  have al: "alive T' a \<longleftrightarrow> a = ?z \<or> alive T a" for a
    using i(4) nx by (auto simp: same_def alive_data get_data_def rb_get_ext)
  have "keyed ?E (as @ ?z # bs)" using ex i(5,7,8) dz kz by auto
  then have "keyed T' (io t')" unfolding i(6) kof_same(3) [OF i(4)] .
  then have "rb_tree T' t'"
    using i tr al nx by (auto simp: rb_tree_def same_def less_Suc_eq)
  moreover have e: "ents T' (io t') = ents ?E (as @ ?z # bs)" unfolding i(6) by (rule ents_cong [OF i(4)])
  have "map_of (ents T' (io t')) = (map_of (ents T (io t)))(k \<mapsto> Some v)"
    using ents_mid [OF kz(1), of as bs] kn i(5) ex kz(2) by (auto simp: e simp del: ents_simps)
  moreover have "set (ents T' (io t')) = insert (k, Some v) (set (ents T (io t)))"
  proof -
    have "set (ents ?E (as @ ?z # bs)) = insert (k, Some v) (set (ents ?E (io t)))" using kz i(5) by auto
    then show ?thesis using ex by (simp only: e)
  qed
  ultimately show ?thesis using i(1) by blast
qed

text \<open>The run of \<open>kvs_rbtree_set\<close> on a key without a value.\<close>

definition rb_newnode :: "env \<Rightarrow> string \<Rightarrow> string \<Rightarrow> rbtree_node" where
  "rb_newnode e k v = (rb_fresh e)\<lparr>rb_key := Some k, rb_value := Some v\<rparr>"

lemma rb_put_ext: "rb_next T \<noteq> 0 \<Longrightarrow> rb_put (rb_ext T n) (rb_next T) f = Some (rb_ext T (f n))"
  by (simp add: rb_put_def rb_get_ext) (simp add: rb_ext_def)

lemma kvs_rbtree_set_run:
  assumes "kvs_rbtree_get T (Some k) = Some None" "rb_next T \<noteq> 0" "mem e 0"
  shows "kvs_rbtree_set e T (Some k) (Some v) =
    (if mem e 1 \<and> mem e 2 then do { T' \<leftarrow> rbtree_insert (rb_ext T (rb_newnode e k v)) (rb_next T); Some (0, T') }
     else Some (-2, T\<lparr>rb_mem := (rb_mem T)(rb_next T := None), rb_next := rb_next T + 1\<rparr>))"
proof -
  have "rb_alloc e 0 T = (rb_next T, rb_ext T (rb_fresh e))" using assms(3) by (simp add: rb_alloc_def rb_ext_def)
  then show ?thesis using assms
    by (auto simp: kvs_rbtree_set_def rb_put_ext rb_newnode_def) (simp_all add: rb_free_def rb_ext_def)
qed

lemma kvs_rbtree_set_fresh:
  assumes inv: "rb_invar T" and m: "mem_ok e" and k: "rb_lookup T k = None"
  shows "\<exists>T'. kvs_rbtree_set e T (Some k) (Some v) = Some (0, T') \<and> rb_invar T' \<and> rb_lookup T' = (rb_lookup T)(k \<mapsto> v)"
proof -
  obtain t where tr: "rb_tree T t" "\<forall>a \<in> set (io t). vof T a \<noteq> None" using inv by (auto simp: rb_invar_def)
  have kn: "k \<notin> kof T ` set (io t)" using rb_lookup_dom [OF tr] k by blast
  obtain T' t' where i: "rbtree_insert (rb_ext T (rb_newnode e k v)) (rb_next T) = Some T'" "rb_tree T' t'"
    "map_of (ents T' (io t')) = (map_of (ents T (io t)))(k \<mapsto> Some v)"
    "set (ents T' (io t')) = insert (k, Some v) (set (ents T (io t)))"
    using rb_insert_tree [OF tr(1) kn, of "rb_newnode e k v" v] by (auto simp: rb_newnode_def)
  have "kvs_rbtree_set e T (Some k) (Some v) = Some (0, T')"
    using kvs_rbtree_set_run [of T k e v] kvs_rbtree_get_tree [OF tr(1)] k m rb_tree_next [OF tr(1)] i(1)
    by (simp add: mem_ok_def)
  moreover have "rb_lookup T' = (rb_lookup T)(k \<mapsto> v)"
    by (auto simp: fun_eq_iff rb_lookup_ents [OF i(2)] rb_lookup_ents [OF tr(1)] i(3))
  moreover have "\<forall>p \<in> set (ents T' (io t')). snd p \<noteq> None" using i(4) tr(2) by (auto simp: ents_def)
  then have "rb_invar T'" using i(2) by (fastforce simp: rb_invar_def ents_def)
  ultimately show ?thesis by blast
qed

lemma put_tree:
  fixes v :: "string option"
  assumes tr: "rb_tree T t" and z: "io t = as @ z # bs"
  defines "T' \<equiv> put T z (\<lambda>n. n\<lparr>rb_value := v\<rparr>)"
  shows "rb_put T z (\<lambda>n. n\<lparr>rb_value := v\<rparr>) = Some T'" "rb_tree T' t"
    "ents T' (io t) = ents T as @ (kof T z, v) # ents T bs"
proof -
  have dist: "z \<notin> set as" "z \<notin> set bs" and al: "alive T z" using tr z by (auto simp: rb_tree_def rbwf_def)
  show "rb_put T z (\<lambda>n. n\<lparr>rb_value := v\<rparr>) = Some T'" using al by (simp add: T'_def rb_put_alive)
  have l: "links T T'" unfolding T'_def by (rule links_put) simp
  have dz: "get_data T z = Some (Some (kof T z), vof T z)" using tr z by (auto simp: rb_tree_def keyed_def)
  have d: "get_data T' a = (if a = z then Some (Some (kof T z), v) else get_data T a)" for a
    using dz by (auto simp: T'_def get_data_def rb_get_put)
  have "kof T' z = kof T z" "vof T' z = v" by (simp_all add: kof_def [of T'] vof_def [of T'] d)
  moreover have "kof T' a = kof T a" "vof T' a = vof T a" if "a \<noteq> z" for a using that by (simp_all add: kof_def vof_def d)
  ultimately have kv: "kof T' a = kof T a" "vof T' a = (if a = z then v else vof T a)" for a by metis+
  have ne: "rb_next T' = rb_next T" by (simp add: T'_def put_def)
  have "get_data T' a = None \<longleftrightarrow> get_data T a = None" for a using d [of a] al by (auto simp: alive_data)
  then have al': "alive T' a = alive T a" for a by (simp add: alive_data)
  have "kof T' = kof T" using kv by blast
  then have "keyed T' (io t)" using tr kv(2) d by (auto simp: rb_tree_def keyed_def)
  then show "rb_tree T' t" using tr rbwf_links [OF l] al' ne l by (auto simp: rb_tree_def links_def)
  show "ents T' (io t) = ents T as @ (kof T z, v) # ents T bs"
    using dist kv unfolding z by (auto simp: ents_def)
qed

lemma kvs_rbtree_mod_tree:
  assumes tr: "rb_tree T t" and k: "k \<in> kof T ` set (io t)"
  shows "\<exists>T'. kvs_rbtree_mod e T (Some k) (Some v) = Some (if mem e 0 then 0 else -2, T') \<and> rb_tree T' t \<and>
    rb_lookup T' = (rb_lookup T)(k := (if mem e 0 then Some v else None)) \<and> kof T' ` set (io t) = kof T ` set (io t) \<and>
    (mem e 0 \<longrightarrow> (\<forall>a \<in> set (io t). vof T a \<noteq> None) \<longrightarrow> (\<forall>a \<in> set (io t). vof T' a \<noteq> None))"
proof -
  obtain z as bs where z: "io t = as @ z # bs" "kof T z = k" "rbtree_search T k = Some z" "z \<noteq> rb_nil T"
    "k \<notin> kof T ` set (as @ bs)" using rb_node [OF tr k] by blast
  let ?v = "if mem e 0 then Some v else None"
  define T' where "T' = put T z (\<lambda>n. n\<lparr>rb_value := ?v\<rparr>)"
  note p = put_tree [OF tr z(1), of ?v, folded T'_def]
  have "kvs_rbtree_mod e T (Some k) (Some v) = Some (if mem e 0 then 0 else -2, T')"
    using z(3,4) p(1) by (auto simp: kvs_rbtree_mod_def)
  moreover have "rb_lookup T' = (rb_lookup T)(k := ?v)"
  proof -
    have ka: "k \<notin> fst ` set (ents T as)" using z(5) by auto
    have "map_of (ents T' (io t)) k' = ((map_of (ents T as @ ents T bs))(k \<mapsto> ?v)) k'" for k'
      unfolding p(3) z(2) map_of_mid [OF ka] by (rule refl)
    moreover have "map_of (ents T (io t)) k' = ((map_of (ents T as @ ents T bs))(k \<mapsto> vof T z)) k'" for k'
      unfolding z(1) ents_simps(2,3) z(2) map_of_mid [OF ka] by (rule refl)
    ultimately show ?thesis unfolding fun_eq_iff rb_lookup_ents [OF p(2)] rb_lookup_ents [OF tr] by (auto simp del: map_of_append)
  qed
  moreover have "kof T' ` set (io t) = kof T ` set (io t)"
    using arg_cong [OF p(3), of "\<lambda>xs. fst ` set xs"] z(1) by (simp add: image_Un)
  moreover have "\<forall>a \<in> set (io t). vof T' a \<noteq> None" if "mem e 0" "\<forall>a \<in> set (io t). vof T a \<noteq> None"
  proof -
    have "\<forall>p \<in> set (ents T' (io t)). snd p \<noteq> None" using that z(1) unfolding p(3) by (auto simp: ents_def)
    then show ?thesis by (auto simp: ents_def)
  qed
  ultimately show ?thesis using p(2) by blast
qed

subsection \<open>The engine contract\<close>

interpretation rbe: kv_engine rb_invar rb_lookup "\<lambda>_. True" 1
  kvs_rbtree_set kvs_rbtree_get kvs_rbtree_del kvs_rbtree_mod kvs_rbtree_exist
proof (unfold_locales, goal_cases)
  case (1 s)
  then obtain t where "rb_tree s t" by (auto simp: rb_invar_def)
  then have "dom (rb_lookup s) \<subseteq> dom (map_of (ents s (io t)))"
    by (auto simp: rb_lookup_ents dom_def split: option.splits)
  then show ?case using finite_dom_map_of finite_subset by blast
next
  case (2 s e k v) then show ?case using kvs_rbtree_set_fresh by blast
next
  case (3 s k w e v)
  then obtain t where "rb_tree s t" by (auto simp: rb_invar_def)
  with 3 show ?case by (simp add: kvs_rbtree_set_def kvs_rbtree_get_tree)
next
  case (4 s k) then show ?case by (auto simp: rb_invar_def kvs_rbtree_get_tree)
next
  case (5 s k w)
  then obtain t where t: "rb_tree s t" "\<forall>a \<in> set (io t). vof s a \<noteq> None" by (auto simp: rb_invar_def)
  then have k: "k \<in> kof s ` set (io t)" using rb_lookup_dom [OF t, of k] 5 by simp
  obtain T' t' where d: "kvs_rbtree_del s (Some k) = Some (0, T')" "rb_tree T' t'" "rb_lookup T' = (rb_lookup s)(k := None)"
    "\<forall>p. p \<in> set (ents T' (io t')) \<longrightarrow> p \<in> set (ents s (io t))" using kvs_rbtree_del_tree [OF t(1) k] by blast
  have "vof T' a \<noteq> None" if "a \<in> set (io t')" for a
    using d(4) that t(2) by (force simp: ents_def)
  with d show ?case by (auto simp: rb_invar_def)
next
  case (6 s k)
  then obtain t where t: "rb_tree s t" "\<forall>a \<in> set (io t). vof s a \<noteq> None" by (auto simp: rb_invar_def)
  then show ?case using rb_absent [OF t(1)] rb_lookup_dom [OF t, of k] 6 by (simp add: kvs_rbtree_del_def)
next
  case 7 show ?case by simp
next
  case (8 s e k w v)
  then obtain t where t: "rb_tree s t" "\<forall>a \<in> set (io t). vof s a \<noteq> None" by (auto simp: rb_invar_def)
  then have "k \<in> kof s ` set (io t)" using rb_lookup_dom [OF t, of k] 8 by simp
  from kvs_rbtree_mod_tree [OF t(1) this, of e v] 8 t(2) show ?case by (auto simp: rb_invar_def mem_ok_def)
next
  case (9 s k e v)
  then obtain t where t: "rb_tree s t" "\<forall>a \<in> set (io t). vof s a \<noteq> None" by (auto simp: rb_invar_def)
  then show ?case using rb_absent [OF t(1)] rb_lookup_dom [OF t, of k] 9 by (simp add: kvs_rbtree_mod_def)
next
  case (10 s k)
  then obtain t where t: "rb_tree s t" "\<forall>a \<in> set (io t). vof s a \<noteq> None" by (auto simp: rb_invar_def)
  then show ?case using kvs_rbtree_exist_tree [OF t(1)] rb_lookup_dom [OF t, of k] by simp
qed

subsection \<open>Creation\<close>

definition rb_zero :: rbtree where
  "rb_zero = \<lparr>rb_root = 0, rb_nil = 0, rb_mem = (\<lambda>_. None), rb_next = 1\<rparr>"

lemma kvs_rbtree_create_ok:
  assumes "mem e 0"
  shows "\<exists>inst. kvs_rbtree_create e rb_zero = Some (0, inst) \<and> rb_invar inst \<and> rb_lookup inst = Map.empty"
proof -
  let ?n = "(rb_fresh e)\<lparr>rb_color := BLACK\<rparr>"
  let ?i = "\<lparr>rb_root = 1, rb_nil = 1, rb_mem = [1 \<mapsto> ?n], rb_next = 2\<rparr>"
  have "kvs_rbtree_create e rb_zero = Some (0, ?i)"
    using assms by (simp add: kvs_rbtree_create_def rb_alloc_def rb_zero_def set_color_def rb_put_def rb_get_def)
  moreover have t: "rb_tree ?i L"
    by (auto simp: rb_tree_def rbwf_def rbt_def getter_defs rb_get_def alive_def)
  then have "rb_invar ?i" by (auto simp: rb_invar_def)
  moreover have "rb_lookup ?i = Map.empty" using rb_lookup_ents [OF t] by auto
  ultimately show ?thesis by blast
qed

text \<open>RGET on any store that holds a tree with ascending keys, leaked nodes or not.\<close>

lemma kvs_rbtree_get_find:
  assumes "rbwf T t" "keyed T (io t)"
  shows "kvs_rbtree_get T (Some k) = Some (case find (\<lambda>a. kof T a = k) (io t) of None \<Rightarrow> None | Some a \<Rightarrow> vof T a)"
proof -
  have s: "rbtree_search T k = Some (case find (\<lambda>a. kof T a = k) (io t) of None \<Rightarrow> rb_nil T | Some a \<Rightarrow> a)"
    using search_from_tree [of T "rb_nil T" t k] assms by (simp add: rbtree_search_def rbwf_def)
  show ?thesis
  proof (cases "find (\<lambda>a. kof T a = k) (io t)")
    case (Some z)
    then have "z \<in> set (io t)" by (auto simp: find_Some_iff)
    then have "get_data T z = Some (Some (kof T z), vof T z)" "z \<noteq> rb_nil T" using assms by (auto simp: keyed_def rbwf_def)
    then show ?thesis using s Some by (auto simp: kvs_rbtree_get_def get_data_def)
  qed (use s in \<open>simp add: kvs_rbtree_get_def\<close>)
qed

subsection \<open>Properties\<close>



text \<open>C31: Rebalancing after an insertion: from any tree in which only the new red node may
  have a red parent, the loop of \<open>rbtree_insert_fixup\<close> terminates in a store that holds a proper
  red-black tree with the same nodes in the same order and untouched keys, values and sentinel.\<close>

theorem rbtree_insert_fixup_restores:
  assumes "ins_ok T z fs t"
  shows "\<exists>T' t'. rbtree_insert_fixup T z = Some T' \<and> rbwf T' t' \<and> rbt t' \<and> io t' = io (plug fs t) \<and> same T T'"
  by (rule insert_fixup_ok [OF assms])

theorem rbtree_insert_fixup_restores_witness:
  "\<exists>T z fs t T' t'. fs \<noteq> [] \<and> ins_ok T z fs t \<and> rbtree_insert_fixup T z = Some T' \<and> rbwf T' t' \<and> rbt t'"
proof -
  define n where "n = (\<lambda>c l r p. \<lparr>rb_color = c, rb_right = r, rb_left = l, rb_parent = p, rb_key = Some [], rb_value = None\<rparr> :: rbtree_node)"
  define T where "T = \<lparr>rb_root = 2, rb_nil = 1, rb_mem = [1 \<mapsto> n BLACK 0 0 0, 2 \<mapsto> n BLACK 3 1 1, 3 \<mapsto> n RED 1 4 2, 4 \<mapsto> n RED 1 1 3], rb_next = 5\<rparr>"
  have "ins_ok T 4 [FR L 3 RED, FL 2 BLACK L] (N L 4 RED L)"
    by (simp add: ins_ok_def rbwf_def getter_defs rb_get_def T_def n_def)
  from rbtree_insert_fixup_restores [OF this] this show ?thesis by blast
qed

text \<open>C32: Deleting a node of a red-black tree, whichever it is, terminates, unlinks exactly one
  node, leaves a proper red-black tree, and what remains in key order is the old sequence of key
  and value pairs without the pair of the deleted node.\<close>

theorem rbtree_delete_removes:
  assumes "rbwf T t" and "rbt t" and "z \<in> set (io t)"
  shows "\<exists>T' t' y as bs. rbtree_delete T z = Some (T', y) \<and> rbwf T' t' \<and> rbt t' \<and> rb_nil T' = rb_nil T \<and>
    rb_next T' = rb_next T \<and> (\<forall>a. get_data T' a = None \<longleftrightarrow> get_data T a = None) \<and>
    y \<in> set (io t) \<and> set (io t') = set (io t) - {y} \<and>
    io t = as @ z # bs \<and> map (get_data T') (io t') = map (get_data T) (as @ bs)"
  by (rule rbtree_delete_ok [OF assms])

theorem rbtree_delete_removes_witness:
  "\<exists>T t T' y. io t = [3, 2, 4] \<and> rbtree_delete T 2 = Some (T', y)"
proof -
  define n where "n = (\<lambda>c l r p. \<lparr>rb_color = c, rb_right = r, rb_left = l, rb_parent = p, rb_key = Some [], rb_value = None\<rparr> :: rbtree_node)"
  define T where "T = \<lparr>rb_root = 2, rb_nil = 1, rb_mem = [1 \<mapsto> n BLACK 0 0 0, 2 \<mapsto> n BLACK 3 4 1, 3 \<mapsto> n BLACK 1 1 2, 4 \<mapsto> n BLACK 1 1 2], rb_next = 5\<rparr>"
  have w: "rbwf T (N (N L 3 BLACK L) 2 BLACK (N L 4 BLACK L))"
    by (simp add: rbwf_def getter_defs rb_get_def T_def n_def)
  have r: "rbt (N (N L 3 BLACK L) 2 BLACK (N L 4 BLACK L))" "2 \<in> set (io (N (N L 3 BLACK L) 2 BLACK (N L 4 BLACK L)))"
    by (simp_all add: rbt_def)
  have "\<exists>T' y. rbtree_delete T 2 = Some (T', y)"
    using rbtree_delete_removes [OF w r] by (elim exE conjE) (intro exI)
  moreover have "io (N (N L 3 BLACK L) 2 BLACK (N L 4 BLACK L)) = [3, 2, 4]" by simp
  ultimately show ?thesis by blast
qed

text \<open>C33: Destroying a well-formed red-black tree terminates and frees every node, the sentinel
  included: no allocation of the tree survives.\<close>

theorem rbtree_destory_frees_all:
  assumes "rb_invar inst"
  shows "\<exists>inst'. kvs_rbtree_destory inst = Some inst' \<and> (\<forall>a. rb_get inst' a = None)"
  using assms kvs_rbtree_destory_ok by (auto simp: rb_invar_def)

theorem rbtree_destory_frees_all_witness:
  "\<exists>inst inst'. kvs_rbtree_create env0 rb_zero = Some (0, inst) \<and> kvs_rbtree_destory inst = Some inst' \<and> (\<forall>a. rb_get inst' a = None)"
proof -
  obtain inst where "kvs_rbtree_create env0 rb_zero = Some (0, inst)" "rb_invar inst"
    using kvs_rbtree_create_ok [of env0] by (auto simp: env0_def)
  with rbtree_destory_frees_all [of inst] show ?thesis by blast
qed

text \<open>C34: RMOD frees the old value before it allocates the new one.  When that allocation
  fails the value is lost: the call answers -2, RGET then finds nothing while REXIST still finds
  the key, and a later RSET of the key with working allocations answers 0 without storing anything.\<close>

theorem rbtree_mod_nomem:
  assumes "rb_invar inst" and "rb_lookup inst k = Some w" and "\<not> mem e 0" and "mem_ok e'"
  shows "\<exists>inst' inst''. kvs_rbtree_mod e inst (Some k) (Some v) = Some (-2, inst') \<and>
    kvs_rbtree_get inst' (Some k) = Some None \<and> kvs_rbtree_exist inst' (Some k) = Some 0 \<and>
    kvs_rbtree_set e' inst' (Some k) (Some u) = Some (0, inst'') \<and> kvs_rbtree_get inst'' (Some k) = Some None"
proof -
  obtain t where t: "rb_tree inst t" "\<forall>a \<in> set (io t). vof inst a \<noteq> None" using assms(1) by (auto simp: rb_invar_def)
  have k: "k \<in> kof inst ` set (io t)" using rb_lookup_dom [OF t, of k] assms(2) by simp
  obtain T' where m: "kvs_rbtree_mod e inst (Some k) (Some v) = Some (-2, T')" "rb_tree T' t" "rb_lookup T' k = None"
    "k \<in> kof T' ` set (io t)" using kvs_rbtree_mod_tree [OF t(1) k, of e v] assms(3) k by auto
  let ?E = "rb_ext T' (rb_newnode e' k u)"
  note nx = rb_tree_next [OF m(2)] and ex = rb_ext_tree [OF m(2), of "rb_newnode e' k u"]
  have "get_data ?E (rb_next T') = Some (Some k, Some u)" using nx by (simp add: get_data_def rb_get_ext rb_newnode_def)
  moreover have "kof ?E ` set (io t) = kof T' ` set (io t)" using ex by (auto intro!: image_cong)
  ultimately have "rbtree_insert ?E (rb_next T') = Some ?E"
    using rbtree_insert_present [of ?E t "rb_next T'" k "Some u"] ex m(4) by auto
  then have s: "kvs_rbtree_set e' T' (Some k) (Some u) = Some (0, ?E)"
    using kvs_rbtree_set_run [of T' k e' u] kvs_rbtree_get_tree [OF m(2)] m(3) nx assms(4) by (simp add: mem_ok_def)
  have "find (\<lambda>a. kof ?E a = k) (io t) = find (\<lambda>a. kof T' a = k) (io t)" using ex by (intro find_cong) auto
  then have gE: "kvs_rbtree_get ?E (Some k) = Some (case find (\<lambda>a. kof T' a = k) (io t) of None \<Rightarrow> None | Some a \<Rightarrow> vof ?E a)"
    using kvs_rbtree_get_find [of ?E t k] ex by simp
  have gT: "kvs_rbtree_get T' (Some k) = Some (case find (\<lambda>a. kof T' a = k) (io t) of None \<Rightarrow> None | Some a \<Rightarrow> vof T' a)"
    using kvs_rbtree_get_find [of T' t k] m(2) by (simp add: rb_tree_def)
  have "a \<in> set (io t)" if "find (\<lambda>a. kof T' a = k) (io t) = Some a" for a using that by (auto simp: find_Some_iff)
  then have "kvs_rbtree_get ?E (Some k) = kvs_rbtree_get T' (Some k)" unfolding gE gT using ex by (auto split: option.split)
  then show ?thesis using m(1) s kvs_rbtree_get_tree [OF m(2)] m(3,4) kvs_rbtree_exist_tree [OF m(2)] by simp
qed

theorem rbtree_mod_nomem_witness:
  "\<exists>inst inst'. kvs_rbtree_mod \<lparr>mem = (\<lambda>_. False), rnd = (\<lambda>_. 0), junk = 0\<rparr> inst (Some ''k'') (Some ''v'') = Some (-2, inst') \<and>
     kvs_rbtree_exist inst' (Some ''k'') = Some 0"
proof -
  obtain inst where i: "kvs_rbtree_create env0 rb_zero = Some (0, inst)" "rb_invar inst"
    "rb_lookup inst = Map.empty" using kvs_rbtree_create_ok [of env0] by (auto simp: env0_def)
  have "mem_ok env0" by (simp add: mem_ok_def env0_def)
  then obtain inst1 where "rb_invar inst1" "rb_lookup inst1 = (rb_lookup inst)(''k'' \<mapsto> ''w'')"
    using kvs_rbtree_set_fresh [OF i(2), of env0 "''k''" "''w''"] i(3) by auto
  then show ?thesis
    using rbtree_mod_nomem [of inst1 "''k''" "''w''" "\<lparr>mem = (\<lambda>_. False), rnd = (\<lambda>_. 0), junk = 0\<rparr>" env0 "''v''" "''u''"]
      \<open>mem_ok env0\<close> by auto
qed

end
