(* ===== verification/Kvs_Engines.thy ===== *)
theory Kvs_Engines
  imports Kvs_Array Kvs_Hash Kvs_Skiplist Kvs_Rbtree_Engine
begin

text \<open>
  The four engines of the server together: the globals of \<^verbatim>\<open>kvstore.c\<close>, \<open>init_kvengine\<close> and
  \<open>dest_kvengine\<close>, and the calls of the engines on their globals.  The store is four independent
  maps; each engine keeps its contract inside the store and leaves the other three alone.
\<close>

datatype kvs_engine_type = KVS_ARRAY | KVS_HASH | KVS_RBTREE | KVS_SKIPLIST

record kvs_store =
  global_array :: kvs_array_t
  global_rbtree :: rbtree
  global_hash :: hashtable_t
  global_skiplist :: SkipList

subsection \<open>Start and stop\<close>

text \<open>\<open>memset\<close> and the four \<open>create\<close> calls, whose results are not looked at; \<open>fa\<close> and \<open>fh\<close> are what
  the memory of the array's and the hash table's slots holds.\<close>

definition init_kvengine :: "env \<Rightarrow> kvs_array_item_t list \<Rightarrow> (nat \<Rightarrow> chain option) \<Rightarrow> (int \<times> kvs_store) option" where
  "init_kvengine e fa fh = do {
     let a = snd (kvs_array_create e fa \<lparr>table = None, idx = 0, total = 0\<rparr>);
     (_, r) \<leftarrow> kvs_rbtree_create (env_skip 1 e) rb_zero;
     let h = snd (kvs_hash_create (env_skip 2 e) fh \<lparr>nodes = None, max_slots = 0, hcount = 0\<rparr>);
     let l = snd (kvs_skiplist_create (env_skip 3 e) sl_zero);
     Some (0, \<lparr>global_array = a, global_rbtree = r, global_hash = h, global_skiplist = l\<rparr>) }"

definition dest_kvengine :: "kvs_store \<Rightarrow> kvs_store option" where
  "dest_kvengine s = do {
     (_, a) \<leftarrow> kvs_array_destory (global_array s);
     r \<leftarrow> kvs_rbtree_destory (global_rbtree s);
     (_, h) \<leftarrow> kvs_hash_destory (global_hash s);
     l \<leftarrow> kvs_skiplist_destroy (global_skiplist s);
     Some \<lparr>global_array = a, global_rbtree = r, global_hash = h, global_skiplist = l\<rparr> }"

subsection \<open>The calls\<close>

definition on_array :: "kvs_store \<Rightarrow> (int \<times> kvs_array_t) option \<Rightarrow> (int \<times> kvs_store) option" where
  "on_array s = map_option (\<lambda>(r, x). (r, s\<lparr>global_array := x\<rparr>))"
definition on_rbtree :: "kvs_store \<Rightarrow> (int \<times> rbtree) option \<Rightarrow> (int \<times> kvs_store) option" where
  "on_rbtree s = map_option (\<lambda>(r, x). (r, s\<lparr>global_rbtree := x\<rparr>))"
definition on_hash :: "kvs_store \<Rightarrow> (int \<times> hashtable_t) option \<Rightarrow> (int \<times> kvs_store) option" where
  "on_hash s = map_option (\<lambda>(r, x). (r, s\<lparr>global_hash := x\<rparr>))"
definition on_skiplist :: "kvs_store \<Rightarrow> (int \<times> SkipList) option \<Rightarrow> (int \<times> kvs_store) option" where
  "on_skiplist s = map_option (\<lambda>(r, x). (r, s\<lparr>global_skiplist := x\<rparr>))"

lemmas on_defs = on_array_def on_rbtree_def on_hash_def on_skiplist_def

fun eng_set :: "kvs_engine_type \<Rightarrow> env \<Rightarrow> kvs_store \<Rightarrow> string option \<Rightarrow> string option \<Rightarrow> (int \<times> kvs_store) option" where
  "eng_set KVS_ARRAY e s key value = on_array s (kvs_array_set e (global_array s) key value)"
| "eng_set KVS_RBTREE e s key value = on_rbtree s (kvs_rbtree_set e (global_rbtree s) key value)"
| "eng_set KVS_HASH e s key value = on_hash s (kvs_hash_set e (global_hash s) key value)"
| "eng_set KVS_SKIPLIST e s key value = on_skiplist s (kvs_skiplist_set e (global_skiplist s) key value)"

fun eng_mod :: "kvs_engine_type \<Rightarrow> env \<Rightarrow> kvs_store \<Rightarrow> string option \<Rightarrow> string option \<Rightarrow> (int \<times> kvs_store) option" where
  "eng_mod KVS_ARRAY e s key value = on_array s (kvs_array_mod e (global_array s) key value)"
| "eng_mod KVS_RBTREE e s key value = on_rbtree s (kvs_rbtree_mod e (global_rbtree s) key value)"
| "eng_mod KVS_HASH e s key value = on_hash s (kvs_hash_mod e (global_hash s) key value)"
| "eng_mod KVS_SKIPLIST e s key value = on_skiplist s (kvs_skiplist_mod e (global_skiplist s) key value)"

fun eng_del :: "kvs_engine_type \<Rightarrow> kvs_store \<Rightarrow> string option \<Rightarrow> (int \<times> kvs_store) option" where
  "eng_del KVS_ARRAY s key = on_array s (kvs_array_del (global_array s) key)"
| "eng_del KVS_RBTREE s key = on_rbtree s (kvs_rbtree_del (global_rbtree s) key)"
| "eng_del KVS_HASH s key = on_hash s (kvs_hash_del (global_hash s) key)"
| "eng_del KVS_SKIPLIST s key = on_skiplist s (kvs_skiplist_del (global_skiplist s) key)"

fun eng_get :: "kvs_engine_type \<Rightarrow> kvs_store \<Rightarrow> string option \<Rightarrow> string option option" where
  "eng_get KVS_ARRAY s key = kvs_array_get (global_array s) key"
| "eng_get KVS_RBTREE s key = kvs_rbtree_get (global_rbtree s) key"
| "eng_get KVS_HASH s key = kvs_hash_get (global_hash s) key"
| "eng_get KVS_SKIPLIST s key = kvs_skiplist_get (global_skiplist s) key"

fun eng_exist :: "kvs_engine_type \<Rightarrow> kvs_store \<Rightarrow> string option \<Rightarrow> int option" where
  "eng_exist KVS_ARRAY s key = kvs_array_exist (global_array s) key"
| "eng_exist KVS_RBTREE s key = kvs_rbtree_exist (global_rbtree s) key"
| "eng_exist KVS_HASH s key = kvs_hash_exist (global_hash s) key"
| "eng_exist KVS_SKIPLIST s key = kvs_skiplist_exist (global_skiplist s) key"

subsection \<open>The store as four maps\<close>

definition store_invar :: "kvs_store \<Rightarrow> bool" where
  "store_invar s \<longleftrightarrow> array_invar (global_array s) \<and> rb_invar (global_rbtree s) \<and> hash_invar (global_hash s) \<and> sl_invar (global_skiplist s)"

fun store_map :: "kvs_store \<Rightarrow> kvs_engine_type \<Rightarrow> kvmap" where
  "store_map s KVS_ARRAY = array_lookup (global_array s)"
| "store_map s KVS_RBTREE = rb_lookup (global_rbtree s)"
| "store_map s KVS_HASH = hash_lookup (global_hash s)"
| "store_map s KVS_SKIPLIST = sl_lookup (global_skiplist s)"

definition store_room :: "kvs_engine_type \<Rightarrow> kvs_store \<Rightarrow> bool" where
  "store_room t s \<longleftrightarrow> (t = KVS_ARRAY \<longrightarrow> array_room (global_array s))"

fun del_absent_ret :: "kvs_engine_type \<Rightarrow> int" where
  "del_absent_ret KVS_ARRAY = int KVS_ARRAY_SIZE"
| "del_absent_ret KVS_HASH = -1"
| "del_absent_ret _ = 1"

text \<open>An engine inside a larger state: its contract carries over to the calls on its part.\<close>

lemma kv_engine_lift:
  assumes "kv_engine invar lookup room d eset eget edel emod eexist"
    and "\<And>x s. sel (upd x s) = x" "\<And>s. upd (sel s) s = s" "\<And>x s. P s \<Longrightarrow> P (upd x s)"
  shows "kv_engine (\<lambda>s. invar (sel s) \<and> P s) (\<lambda>s. lookup (sel s)) (\<lambda>s. room (sel s)) d
    (\<lambda>e s k v. map_option (\<lambda>(r, x). (r, upd x s)) (eset e (sel s) k v)) (\<lambda>s. eget (sel s))
    (\<lambda>s k. map_option (\<lambda>(r, x). (r, upd x s)) (edel (sel s) k))
    (\<lambda>e s k v. map_option (\<lambda>(r, x). (r, upd x s)) (emod e (sel s) k v)) (\<lambda>s. eexist (sel s))"
proof -
  note E = kv_engine.finite_lookup [OF assms(1)] kv_engine.set_fresh [OF assms(1)] kv_engine.set_present [OF assms(1)]
    kv_engine.get_lookup [OF assms(1)] kv_engine.del_present [OF assms(1)] kv_engine.del_missing [OF assms(1)]
    kv_engine.del_absent_ne [OF assms(1)] kv_engine.mod_present [OF assms(1)] kv_engine.mod_missing [OF assms(1)]
    kv_engine.exist_lookup [OF assms(1)]
  show ?thesis
  proof (unfold_locales, goal_cases)
    case (1 s) then show ?case using E(1) by simp
  next
    case (2 s e k v) then show ?case using E(2) [of "sel s" e k v] assms(2,4) by auto
  next
    case (3 s k w e v) then show ?case using E(3) [of "sel s" k w e v] assms(3) by simp
  next
    case (4 s k) then show ?case using E(4) by simp
  next
    case (5 s k w) then show ?case using E(5) [of "sel s" k w] assms(2,4) by auto
  next
    case (6 s k) then show ?case using E(6) [of "sel s" k] assms(3) by simp
  next
    case 7 then show ?case using E(7) by simp
  next
    case (8 s e k w v) then show ?case using E(8) [of "sel s" e k w v] assms(2,4) by auto
  next
    case (9 s k e v) then show ?case using E(9) [of "sel s" k e v] assms(3) by auto
  next
    case (10 s k) then show ?case using E(10) [of "sel s" k] by simp
  qed
qed

lemma array_part:
  "store_invar = (\<lambda>s. array_invar (global_array s) \<and> (rb_invar (global_rbtree s) \<and> hash_invar (global_hash s) \<and> sl_invar (global_skiplist s)))"
  "(\<lambda>s. store_map s KVS_ARRAY) = (\<lambda>s. array_lookup (global_array s))" "store_room KVS_ARRAY = (\<lambda>s. array_room (global_array s))"
  "eng_set KVS_ARRAY = (\<lambda>e s k v. map_option (\<lambda>(r, x). (r, s\<lparr>global_array := x\<rparr>)) (kvs_array_set e (global_array s) k v))"
  "eng_get KVS_ARRAY = (\<lambda>s. kvs_array_get (global_array s))"
  "eng_del KVS_ARRAY = (\<lambda>s k. map_option (\<lambda>(r, x). (r, s\<lparr>global_array := x\<rparr>)) (kvs_array_del (global_array s) k))"
  "eng_mod KVS_ARRAY = (\<lambda>e s k v. map_option (\<lambda>(r, x). (r, s\<lparr>global_array := x\<rparr>)) (kvs_array_mod e (global_array s) k v))"
  "eng_exist KVS_ARRAY = (\<lambda>s. kvs_array_exist (global_array s))"
  by (auto intro!: ext simp: store_invar_def store_room_def on_array_def)

lemma rbtree_part:
  "store_invar = (\<lambda>s. rb_invar (global_rbtree s) \<and> (array_invar (global_array s) \<and> hash_invar (global_hash s) \<and> sl_invar (global_skiplist s)))"
  "(\<lambda>s. store_map s KVS_RBTREE) = (\<lambda>s. rb_lookup (global_rbtree s))" "store_room KVS_RBTREE = (\<lambda>s. True)"
  "eng_set KVS_RBTREE = (\<lambda>e s k v. map_option (\<lambda>(r, x). (r, s\<lparr>global_rbtree := x\<rparr>)) (kvs_rbtree_set e (global_rbtree s) k v))"
  "eng_get KVS_RBTREE = (\<lambda>s. kvs_rbtree_get (global_rbtree s))"
  "eng_del KVS_RBTREE = (\<lambda>s k. map_option (\<lambda>(r, x). (r, s\<lparr>global_rbtree := x\<rparr>)) (kvs_rbtree_del (global_rbtree s) k))"
  "eng_mod KVS_RBTREE = (\<lambda>e s k v. map_option (\<lambda>(r, x). (r, s\<lparr>global_rbtree := x\<rparr>)) (kvs_rbtree_mod e (global_rbtree s) k v))"
  "eng_exist KVS_RBTREE = (\<lambda>s. kvs_rbtree_exist (global_rbtree s))"
  by (auto intro!: ext simp: store_invar_def store_room_def on_rbtree_def)

lemma hash_part:
  "store_invar = (\<lambda>s. hash_invar (global_hash s) \<and> (array_invar (global_array s) \<and> rb_invar (global_rbtree s) \<and> sl_invar (global_skiplist s)))"
  "(\<lambda>s. store_map s KVS_HASH) = (\<lambda>s. hash_lookup (global_hash s))" "store_room KVS_HASH = (\<lambda>s. True)"
  "eng_set KVS_HASH = (\<lambda>e s k v. map_option (\<lambda>(r, x). (r, s\<lparr>global_hash := x\<rparr>)) (kvs_hash_set e (global_hash s) k v))"
  "eng_get KVS_HASH = (\<lambda>s. kvs_hash_get (global_hash s))"
  "eng_del KVS_HASH = (\<lambda>s k. map_option (\<lambda>(r, x). (r, s\<lparr>global_hash := x\<rparr>)) (kvs_hash_del (global_hash s) k))"
  "eng_mod KVS_HASH = (\<lambda>e s k v. map_option (\<lambda>(r, x). (r, s\<lparr>global_hash := x\<rparr>)) (kvs_hash_mod e (global_hash s) k v))"
  "eng_exist KVS_HASH = (\<lambda>s. kvs_hash_exist (global_hash s))"
  by (auto intro!: ext simp: store_invar_def store_room_def on_hash_def)

lemma skiplist_part:
  "store_invar = (\<lambda>s. sl_invar (global_skiplist s) \<and> (array_invar (global_array s) \<and> rb_invar (global_rbtree s) \<and> hash_invar (global_hash s)))"
  "(\<lambda>s. store_map s KVS_SKIPLIST) = (\<lambda>s. sl_lookup (global_skiplist s))" "store_room KVS_SKIPLIST = (\<lambda>s. True)"
  "eng_set KVS_SKIPLIST = (\<lambda>e s k v. map_option (\<lambda>(r, x). (r, s\<lparr>global_skiplist := x\<rparr>)) (kvs_skiplist_set e (global_skiplist s) k v))"
  "eng_get KVS_SKIPLIST = (\<lambda>s. kvs_skiplist_get (global_skiplist s))"
  "eng_del KVS_SKIPLIST = (\<lambda>s k. map_option (\<lambda>(r, x). (r, s\<lparr>global_skiplist := x\<rparr>)) (kvs_skiplist_del (global_skiplist s) k))"
  "eng_mod KVS_SKIPLIST = (\<lambda>e s k v. map_option (\<lambda>(r, x). (r, s\<lparr>global_skiplist := x\<rparr>)) (kvs_skiplist_mod e (global_skiplist s) k v))"
  "eng_exist KVS_SKIPLIST = (\<lambda>s. kvs_skiplist_exist (global_skiplist s))"
  by (auto intro!: ext simp: store_invar_def store_room_def on_skiplist_def)

lemma store_engine:
  "kv_engine store_invar (\<lambda>s. store_map s t) (store_room t) (del_absent_ret t) (eng_set t) (eng_get t) (eng_del t) (eng_mod t) (eng_exist t)"
proof (cases t)
  case KVS_ARRAY
  show ?thesis unfolding KVS_ARRAY array_part del_absent_ret.simps by (rule kv_engine_lift [OF arr.kv_engine_axioms]) simp_all
next
  case KVS_RBTREE
  show ?thesis unfolding KVS_RBTREE rbtree_part del_absent_ret.simps by (rule kv_engine_lift [OF rbe.kv_engine_axioms]) simp_all
next
  case KVS_HASH
  show ?thesis unfolding KVS_HASH hash_part del_absent_ret.simps by (rule kv_engine_lift [OF hsh.kv_engine_axioms]) simp_all
next
  case KVS_SKIPLIST
  show ?thesis unfolding KVS_SKIPLIST skiplist_part del_absent_ret.simps by (rule kv_engine_lift [OF skl.kv_engine_axioms]) simp_all
qed

interpretation eng: kv_engine store_invar "\<lambda>s. store_map s t" "store_room t" "del_absent_ret t"
    "eng_set t" "eng_get t" "eng_del t" "eng_mod t" "eng_exist t" for t
  by (rule store_engine)

text \<open>The other engines are not touched.\<close>

lemma eng_frame:
  assumes "kv_write (eng_set t) (eng_del t) (eng_mod t) e s w = Some (r, s')" "u \<noteq> t"
  shows "store_map s' u = store_map s u"
  using assms by (cases t; cases u; cases w) (auto simp: kv_write_def on_defs)

text \<open>A write of one engine, on the four maps.\<close>

lemma store_write:
  assumes "store_invar s" "mem_ok e" "store_room t s"
  shows "\<exists>r s'. kv_write (eng_set t) (eng_del t) (eng_mod t) e s w = Some (r, s') \<and> store_invar s' \<and>
    store_map s' = (store_map s)(t := kv_apply w (store_map s t)) \<and> (r = 0 \<longleftrightarrow> kv_applies w (store_map s t))"
proof -
  obtain r s' where w: "kv_write (eng_set t) (eng_del t) (eng_mod t) e s w = Some (r, s')" "store_invar s'"
    "store_map s' t = kv_apply w (store_map s t)" "r = 0 \<longleftrightarrow> kv_applies w (store_map s t)"
    using eng.write_refines [OF assms] by blast
  then have "store_map s' = (store_map s)(t := kv_apply w (store_map s t))"
    using eng_frame [OF w(1)] by (auto simp: fun_eq_iff)
  then show ?thesis using w by blast
qed

subsection \<open>Writes on the four maps\<close>

type_synonym store_maps = "kvs_engine_type \<Rightarrow> kvmap"

text \<open>Only the array has a bounded number of keys.\<close>

definition map_room :: "kvs_engine_type \<Rightarrow> kvmap \<Rightarrow> bool" where
  "map_room t m \<longleftrightarrow> (t = KVS_ARRAY \<longrightarrow> card (dom m) < KVS_ARRAY_SIZE)"

text \<open>The effect of a write and its result: a full array refuses every SET, also one of a stored key.\<close>

definition maps_write :: "kvs_engine_type \<Rightarrow> kv_op \<Rightarrow> store_maps \<Rightarrow> store_maps" where
  "maps_write t w M = (case w of
     OpSet k v \<Rightarrow> if map_room t (M t) then M(t := kv_apply w (M t)) else M
   | _ \<Rightarrow> M(t := kv_apply w (M t)))"

definition write_ret :: "kvs_engine_type \<Rightarrow> kv_op \<Rightarrow> store_maps \<Rightarrow> int \<Rightarrow> bool" where
  "write_ret t w M r \<longleftrightarrow> (case w of
     OpSet k v \<Rightarrow> r = (if \<not> map_room t (M t) then -1 else if M t k = None then 0 else 1)
   | OpDel k \<Rightarrow> r = (if M t k = None then del_absent_ret t else 0)
   | OpMod k v \<Rightarrow> (if M t k = None then 0 < r else r = 0))"

lemma array_total_card:
  assumes "array_invar a"
  shows "total a = int (card (dom (array_lookup a)))" "total a \<le> int KVS_ARRAY_SIZE"
proof -
  from assms obtain t where t: "table a = Some t" "length t = KVS_ARRAY_SIZE" "distinct (map fst (array_entries t))"
    "total a = int (length (array_entries t))" "array_lookup a = map_of (array_entries t)"
    by (elim array_invarE) blast
  have "card (dom (map_of (array_entries t))) = length (array_entries t)"
    using distinct_card [OF t(3)] by (simp add: dom_map_of_conv_image_fst)
  with t show "total a = int (card (dom (array_lookup a)))" by simp
  have "length (array_entries t) \<le> length t" by (simp add: array_entries_def List.map_filter_def length_filter_le)
  with t show "total a \<le> int KVS_ARRAY_SIZE" by simp
qed

lemma store_room_map: "store_invar s \<Longrightarrow> store_room t s \<longleftrightarrow> map_room t (store_map s t)"
  using array_total_card(1) [of "global_array s"]
  by (auto simp: store_room_def map_room_def array_room_def store_invar_def)

lemma eng_set_full:
  assumes "store_invar s" "\<not> store_room t s"
  shows "eng_set t e s (Some k) (Some v) = Some (-1, s)"
  using assms array_total_card(2) [of "global_array s"]
  by (auto simp: store_room_def array_room_def on_array_def store_invar_def kvs_array_set_def)

text \<open>Every write of every engine is defined on a well-formed store, room or not.\<close>

lemma eng_write:
  assumes s: "store_invar s" and e: "mem_ok e"
  shows "\<exists>r s'. kv_write (eng_set t) (eng_del t) (eng_mod t) e s w = Some (r, s') \<and> store_invar s' \<and>
    store_map s' = maps_write t w (store_map s) \<and> write_ret t w (store_map s) r"
proof -
  have "\<exists>r s'. kv_write (eng_set t) (eng_del t) (eng_mod t) e s w = Some (r, s') \<and> store_invar s' \<and>
    store_map s' t = maps_write t w (store_map s) t \<and> write_ret t w (store_map s) r"
  proof (cases w)
    case (OpSet k v)
    show ?thesis
      using eng.set_fresh [OF s e, of t k v] eng.set_present [OF s, of t k _ e v] eng_set_full [OF s, of t e k v] s
        store_room_map [OF s, of t] OpSet
      by (cases "store_room t s"; cases "store_map s t k") (auto simp: kv_write_def maps_write_def write_ret_def)
  next
    case (OpDel k)
    then show ?thesis
      using eng.del_present [OF s, of t k] eng.del_missing [OF s, of t k] s
      by (cases "store_map s t k") (auto simp: kv_write_def maps_write_def write_ret_def fun_eq_iff)
  next
    case (OpMod k v)
    then show ?thesis
      using eng.mod_present [OF s e, of t k _ v] eng.mod_missing [OF s, of t k e v] s
      by (cases "store_map s t k") (auto simp: kv_write_def maps_write_def write_ret_def)
  qed
  then obtain r s' where w: "kv_write (eng_set t) (eng_del t) (eng_mod t) e s w = Some (r, s')" "store_invar s'"
    "store_map s' t = maps_write t w (store_map s) t" "write_ret t w (store_map s) r" by blast
  have "store_map s' = maps_write t w (store_map s)"
  proof
    show "store_map s' u = maps_write t w (store_map s) u" for u
      using eng_frame [OF w(1), of u] w(3) by (cases "u = t") (simp_all add: maps_write_def split: kv_op.splits)
  qed
  then show ?thesis using w by blast
qed

subsection \<open>The start\<close>

lemma init_kvengine_ok:
  assumes "mem_ok e" "fa = replicate KVS_ARRAY_SIZE array_null_item" "fh = (\<lambda>_. Some [])"
  shows "\<exists>s. init_kvengine e fa fh = Some (0, s) \<and> store_invar s \<and> store_map s = (\<lambda>_. Map.empty)"
proof -
  obtain a where a: "kvs_array_create e fa \<lparr>table = None, idx = 0, total = 0\<rparr> = (0, a)" "array_invar a" "array_lookup a = Map.empty"
    using kvs_array_create_ok [of e "\<lparr>table = None, idx = 0, total = 0\<rparr>" fa] assms by auto
  obtain r where r: "kvs_rbtree_create (env_skip 1 e) rb_zero = Some (0, r)" "rb_invar r" "rb_lookup r = Map.empty"
    using kvs_rbtree_create_ok [of "env_skip 1 e"] assms(1) by auto
  have h: "kvs_hash_create (env_skip 2 e) fh \<lparr>nodes = None, max_slots = 0, hcount = 0\<rparr> = (0, hash0)"
    using kvs_hash_create_ok [of "env_skip 2 e"] assms by auto
  obtain l where l: "kvs_skiplist_create (env_skip 3 e) sl_zero = (0, l)" "sl_invar l" "sl_lookup l = Map.empty"
    using kvs_skiplist_create_ok [of "env_skip 3 e"] assms(1) by auto
  let ?s = "\<lparr>global_array = a, global_rbtree = r, global_hash = hash0, global_skiplist = l\<rparr>"
  have "init_kvengine e fa fh = Some (0, ?s)" using r(1) by (simp add: init_kvengine_def a h l)
  moreover have "store_map ?s t = Map.empty" for t by (cases t) (simp_all add: a r l hash0_ok)
  ultimately show ?thesis using a r l hash0_ok by (auto simp: store_invar_def fun_eq_iff)
qed

end
