(* ===== verification/Kvs_Config.thy ===== *)
theory Kvs_Config
  imports Kvs_Prelude
begin

text \<open>
  The configuration, \<open>kvs_config_init\<close> of \<^verbatim>\<open>kvstore.c\<close>: the file is read line by line (\<open>fgets\<close>), each
  line is split by \<open>strtok\<close> into a key and a value, and the value is stored into the field of the
  record \<open>kvs_conf_t\<close> the key names.  The three string fields are arrays of a fixed size; a copy that
  does not fit writes behind the array and has no result.  The contents of the file are a parameter.
\<close>

definition IPV4_MAX_STR_LEN :: nat where "IPV4_MAX_STR_LEN = 16"
definition PORT_MAX_STR_LEN :: nat where "PORT_MAX_STR_LEN = 6"
definition CONF_BUFFER_SIZE :: nat where "CONF_BUFFER_SIZE = 1024"

record kvs_conf_t =
  enable_log :: int
  enable_save :: int
  enable_sync :: int
  master_ip :: string
  master_port :: int
  conf_mode :: int
  conf_port :: int
  rdma_port :: string
  agent_ip :: string
  agent_port :: int

definition configuation :: "string list" where
  "configuation = [''ENABLE_MODULE_SYNC'', ''ENABLE_MODULE_LOG'', ''ENABLE_MODULE_SAVE'', ''Master_ip'', ''Master_port'',
     ''Mode'', ''Port'', ''Rdma_port'', ''Agent_ip'', ''Agent_port'']"

datatype kvs_conf_key = KVS_MODULE_SYC | KVS_MODULE_LOG | KVS_MODULE_SAVE | KVS_MASTER_IP | KVS_MASTER_PORT
  | KVS_MODE | KVS_PORT | KVS_RDMA_PORT | KVS_AGENT_IP | KVS_AGENT_PORT | KVS_CONF_COUNT

definition conf_keys :: "kvs_conf_key list" where
  "conf_keys = [KVS_MODULE_SYC, KVS_MODULE_LOG, KVS_MODULE_SAVE, KVS_MASTER_IP, KVS_MASTER_PORT,
     KVS_MODE, KVS_PORT, KVS_RDMA_PORT, KVS_AGENT_IP, KVS_AGENT_PORT]"

text \<open>\<open>fgets(buf, n, fp)\<close>: up to \<open>n - 1\<close> bytes, through the end of the line; the rest of the file.\<close>

fun fgets_from :: "nat \<Rightarrow> string \<Rightarrow> string \<times> string" where
  "fgets_from 0 s = ([], s)"
| "fgets_from (Suc n) [] = ([], [])"
| "fgets_from (Suc n) (c # s) = (if c = LF then ([LF], s) else (case fgets_from n s of (l, r) \<Rightarrow> (c # l, r)))"

text \<open>\<open>strtok\<close>: skip the delimiters, take the token, step over the delimiter behind it.\<close>

definition strtok :: "char set \<Rightarrow> string \<Rightarrow> string option \<times> string" where
  "strtok delim s = (let t = dropWhile (\<lambda>c. c \<in> delim) s in
     if t = [] then (None, [])
     else (Some (takeWhile (\<lambda>c. c \<notin> delim) t), drop 1 (dropWhile (\<lambda>c. c \<notin> delim) t)))"

text \<open>The search loop over \<open>configuation\<close>.\<close>

fun conf_lookup :: "string \<Rightarrow> string list \<Rightarrow> kvs_conf_key list \<Rightarrow> kvs_conf_key" where
  "conf_lookup key (c # cs) (k # ks) = (if strcmp key c = 0 then k else conf_lookup key cs ks)"
| "conf_lookup key _ _ = KVS_CONF_COUNT"

text \<open>\<open>atoi(value)\<close> with \<open>value\<close> NULL has no result.\<close>

definition conf_atoi :: "string option \<Rightarrow> int option" where
  "conf_atoi value = do { v \<leftarrow> value; atoi (v @ [NUL]) }"

text \<open>\<open>strncpy(dst, value, strlen(value) + 1)\<close> into an array of \<open>n\<close> bytes.\<close>

definition conf_copy :: "nat \<Rightarrow> string option \<Rightarrow> string option" where
  "conf_copy n value = do { v \<leftarrow> value; if length v + 1 \<le> n then Some v else None }"

definition conf_line :: "kvs_conf_t \<Rightarrow> string \<Rightarrow> kvs_conf_t option" where
  "conf_line conf buf =
     (case strtok {CHR '' '', LF} (takeWhile (\<lambda>c. c \<noteq> NUL) buf) of (key, rest) \<Rightarrow>
      case strtok {CHR ''='', CHR '' '', LF} rest of (value, _) \<Rightarrow>
      case key of None \<Rightarrow> Some conf
      | Some key \<Rightarrow>
          (case conf_lookup key configuation conf_keys of
             KVS_MODULE_SYC \<Rightarrow> do { n \<leftarrow> conf_atoi value; Some (conf\<lparr>enable_sync := n\<rparr>) }
           | KVS_MODULE_LOG \<Rightarrow> do { n \<leftarrow> conf_atoi value; Some (conf\<lparr>enable_log := n\<rparr>) }
           | KVS_MODULE_SAVE \<Rightarrow> do { n \<leftarrow> conf_atoi value; Some (conf\<lparr>enable_save := n\<rparr>) }
           | KVS_MASTER_IP \<Rightarrow> do { s \<leftarrow> conf_copy IPV4_MAX_STR_LEN value; Some (conf\<lparr>master_ip := s\<rparr>) }
           | KVS_MASTER_PORT \<Rightarrow> do { n \<leftarrow> conf_atoi value; Some (conf\<lparr>master_port := n\<rparr>) }
           | KVS_MODE \<Rightarrow> do { n \<leftarrow> conf_atoi value; Some (conf\<lparr>conf_mode := n\<rparr>) }
           | KVS_PORT \<Rightarrow> do { n \<leftarrow> conf_atoi value; Some (conf\<lparr>conf_port := n\<rparr>) }
           | KVS_RDMA_PORT \<Rightarrow> do { s \<leftarrow> conf_copy PORT_MAX_STR_LEN value; Some (conf\<lparr>rdma_port := s\<rparr>) }
           | KVS_AGENT_IP \<Rightarrow> do { s \<leftarrow> conf_copy IPV4_MAX_STR_LEN value; Some (conf\<lparr>agent_ip := s\<rparr>) }
           | KVS_AGENT_PORT \<Rightarrow> do { n \<leftarrow> conf_atoi value; Some (conf\<lparr>agent_port := n\<rparr>) }
           | KVS_CONF_COUNT \<Rightarrow> Some conf))"

lemma fgets_from_length: "fgets_from n s = (l, r) \<Longrightarrow> length l + length r = length s"
  by (induction n s arbitrary: l r rule: fgets_from.induct) (auto split: if_splits prod.splits)

lemma fgets_from_shorter:
  assumes "(l, r) = fgets_from n s" "0 < n" "s \<noteq> []"
  shows "length r < length s"
proof -
  obtain m c t where "n = Suc m" "s = c # t" using assms(2,3) by (cases n; cases s) auto
  then have "l \<noteq> []" using assms(1) by (auto split: if_splits prod.splits)
  then show ?thesis using fgets_from_length [OF assms(1) [symmetric]] by (cases l) auto
qed

function conf_lines :: "kvs_conf_t \<Rightarrow> string \<Rightarrow> kvs_conf_t option" where
  "conf_lines conf s =
     (if s = [] then Some conf
      else (case fgets_from (CONF_BUFFER_SIZE - 1) s of (buf, rest) \<Rightarrow>
        Option.bind (conf_line conf buf) (\<lambda>conf. conf_lines conf rest)))"
  by pat_completeness auto
termination
  by (relation "measure (\<lambda>(conf, s). length s)") (auto simp: CONF_BUFFER_SIZE_def dest: fgets_from_shorter)

declare conf_lines.simps [simp del]

text \<open>\<open>file\<close> is \<open>None\<close> when the file cannot be opened.\<close>

definition kvs_config_init :: "string option \<Rightarrow> kvs_conf_t \<Rightarrow> (int \<times> kvs_conf_t) option" where
  "kvs_config_init file conf =
     (case file of None \<Rightarrow> Some (-2, conf)
      | Some s \<Rightarrow> do { conf \<leftarrow> conf_lines conf s; Some (0, conf) })"

subsection \<open>Reading back a configuration\<close>

text \<open>A line of the file that assigns \<open>v\<close> to \<open>k\<close>.\<close>

definition conf_setting :: "string \<Rightarrow> string \<Rightarrow> string" where
  "conf_setting k v = k @ '' = '' @ v @ [LF]"

definition conf_word :: "string \<Rightarrow> bool" where
  "conf_word s \<longleftrightarrow> s \<noteq> [] \<and> (\<forall>c \<in> set s. c \<noteq> CHR '' '' \<and> c \<noteq> LF \<and> c \<noteq> CHR ''='' \<and> c \<noteq> NUL)"

lemma fgets_line:
  assumes "LF \<notin> set l" "length l < n"
  shows "fgets_from n (l @ LF # r) = (l @ [LF], r)"
  using assms
proof (induction l arbitrary: n)
  case Nil
  then show ?case by (cases n) auto
next
  case (Cons c l)
  then show ?case by (cases n) auto
qed

lemma dropWhile_word: "conf_word s \<Longrightarrow> \<not> P (hd s) \<Longrightarrow> dropWhile P (s @ r) = s @ r"
  by (cases s) (auto simp: conf_word_def)

lemma strtok_word:
  assumes "conf_word w" "set d \<subseteq> delim" "delim \<subseteq> {CHR ''='', CHR '' '', LF}" "c \<in> delim"
  shows "strtok delim (d @ w @ c # r) = (Some w, r)"
proof -
  have w: "x \<notin> delim" if "x \<in> set w" for x using that assms(1,3) by (auto simp: conf_word_def)
  obtain x xs where wx: "w = x # xs" using assms(1) by (cases w) (auto simp: conf_word_def)
  have "dropWhile (\<lambda>c. c \<in> delim) (d @ w @ c # r) = w @ c # r"
    using assms(2) w wx by (subst dropWhile_append2) auto
  moreover have "takeWhile (\<lambda>c. c \<notin> delim) (w @ c # r) = w" using w assms(4) by (simp add: takeWhile_append2)
  moreover have "dropWhile (\<lambda>c. c \<notin> delim) (w @ c # r) = c # r" using w assms(4) by (simp add: dropWhile_append2)
  ultimately show ?thesis by (simp add: strtok_def Let_def wx)
qed

lemma conf_line_setting:
  assumes "conf_word k" "conf_word v"
  shows "strtok {CHR '' '', LF} (takeWhile (\<lambda>c. c \<noteq> NUL) (conf_setting k v)) = (Some k, ''= '' @ v @ [LF])"
    "strtok {CHR ''='', CHR '' '', LF} (''= '' @ v @ [LF]) = (Some v, [])"
proof -
  have "takeWhile (\<lambda>c. c \<noteq> NUL) (conf_setting k v) = conf_setting k v"
    using assms by (subst takeWhile_eq_all_conv) (auto simp: conf_setting_def conf_word_def)
  then show "strtok {CHR '' '', LF} (takeWhile (\<lambda>c. c \<noteq> NUL) (conf_setting k v)) = (Some k, ''= '' @ v @ [LF])"
    using strtok_word [OF assms(1), of "[]" "{CHR '' '', LF}" "CHR '' ''"] by (simp add: conf_setting_def)
  show "strtok {CHR ''='', CHR '' '', LF} (''= '' @ v @ [LF]) = (Some v, [])"
    using strtok_word [OF assms(2), of "''= ''" "{CHR ''='', CHR '' '', LF}" LF "[]"] by simp
qed

lemma conf_lines_step:
  assumes "conf_word k" "conf_word v" "length k + length v < 1000"
  shows "conf_lines conf (conf_setting k v @ s) = Option.bind (conf_line conf (conf_setting k v)) (\<lambda>conf. conf_lines conf s)"
proof -
  have "fgets_from (CONF_BUFFER_SIZE - 1) ((k @ '' = '' @ v) @ LF # s) = ((k @ '' = '' @ v) @ [LF], s)"
    by (rule fgets_line) (use assms in \<open>auto simp: conf_word_def CONF_BUFFER_SIZE_def\<close>)
  then show ?thesis by (subst conf_lines.simps) (simp add: conf_setting_def)
qed

definition conf_print :: "kvs_conf_t \<Rightarrow> string" where
  "conf_print c =
     conf_setting ''Mode'' (dec (nat (conf_mode c))) @ conf_setting ''Port'' (dec (nat (conf_port c))) @
     conf_setting ''ENABLE_MODULE_SYNC'' (dec (nat (enable_sync c))) @ conf_setting ''ENABLE_MODULE_SAVE'' (dec (nat (enable_save c))) @
     conf_setting ''ENABLE_MODULE_LOG'' (dec (nat (enable_log c))) @ conf_setting ''Master_ip'' (master_ip c) @
     conf_setting ''Master_port'' (dec (nat (master_port c))) @ conf_setting ''Rdma_port'' (rdma_port c) @
     conf_setting ''Agent_ip'' (agent_ip c) @ conf_setting ''Agent_port'' (dec (nat (agent_port c)))"

definition conf_ok :: "kvs_conf_t \<Rightarrow> bool" where
  "conf_ok c \<longleftrightarrow> (\<forall>n \<in> {conf_mode c, conf_port c, enable_sync c, enable_save c, enable_log c, master_port c, agent_port c}. 0 \<le> n \<and> n \<le> INT_MAX) \<and>
     conf_word (master_ip c) \<and> length (master_ip c) < IPV4_MAX_STR_LEN \<and> conf_word (rdma_port c) \<and> length (rdma_port c) < PORT_MAX_STR_LEN \<and>
     conf_word (agent_ip c) \<and> length (agent_ip c) < IPV4_MAX_STR_LEN"

lemma conf_word_dec: "conf_word (dec n)"
  using dec_digits [of "CHR '' ''" n] dec_digits [of LF n] dec_digits [of "CHR ''=''" n] dec_digits [of NUL n]
  by (auto simp: conf_word_def is_digit_iff)

lemma conf_atoi_dec: "0 \<le> n \<Longrightarrow> n \<le> INT_MAX \<Longrightarrow> conf_atoi (Some (dec (nat n))) = Some n"
  using atoi_dec [of NUL "nat n" "[]"] by (simp add: conf_atoi_def)

lemma conf_int_line:
  assumes "0 \<le> n" "n \<le> INT_MAX" "conf_word k" "length k < 100"
  shows "conf_lines conf (conf_setting k (dec (nat n)) @ s) = Option.bind (conf_line conf (conf_setting k (dec (nat n)))) (\<lambda>conf. conf_lines conf s)"
proof (rule conf_lines_step [OF assms(3) conf_word_dec])
  have "length (dec (nat n)) \<le> 10" by (rule dec_length) (use assms in \<open>auto simp: INT_MAX_def\<close>)
  then show "length k + length (dec (nat n)) < 1000" using assms(4) by simp
qed

lemma conf_words: "conf_word ''Mode''" "conf_word ''Port''" "conf_word ''ENABLE_MODULE_SYNC''" "conf_word ''ENABLE_MODULE_SAVE''"
  "conf_word ''ENABLE_MODULE_LOG''" "conf_word ''Master_ip''" "conf_word ''Master_port''" "conf_word ''Rdma_port''"
  "conf_word ''Agent_ip''" "conf_word ''Agent_port''"
  by (simp_all add: conf_word_def)

lemma conf_line_int:
  assumes "0 \<le> n" "n \<le> INT_MAX"
  shows "conf_line conf (conf_setting ''Mode'' (dec (nat n))) = Some (conf\<lparr>conf_mode := n\<rparr>)"
    "conf_line conf (conf_setting ''Port'' (dec (nat n))) = Some (conf\<lparr>conf_port := n\<rparr>)"
    "conf_line conf (conf_setting ''ENABLE_MODULE_SYNC'' (dec (nat n))) = Some (conf\<lparr>enable_sync := n\<rparr>)"
    "conf_line conf (conf_setting ''ENABLE_MODULE_SAVE'' (dec (nat n))) = Some (conf\<lparr>enable_save := n\<rparr>)"
    "conf_line conf (conf_setting ''ENABLE_MODULE_LOG'' (dec (nat n))) = Some (conf\<lparr>enable_log := n\<rparr>)"
    "conf_line conf (conf_setting ''Master_port'' (dec (nat n))) = Some (conf\<lparr>master_port := n\<rparr>)"
    "conf_line conf (conf_setting ''Agent_port'' (dec (nat n))) = Some (conf\<lparr>agent_port := n\<rparr>)"
  using conf_atoi_dec [OF assms]
  by (simp_all only: conf_line_def conf_line_setting [OF conf_words(1) conf_word_dec] conf_line_setting [OF conf_words(2) conf_word_dec]
    conf_line_setting [OF conf_words(3) conf_word_dec] conf_line_setting [OF conf_words(4) conf_word_dec]
    conf_line_setting [OF conf_words(5) conf_word_dec] conf_line_setting [OF conf_words(7) conf_word_dec]
    conf_line_setting [OF conf_words(10) conf_word_dec] prod.case option.case)
    (simp_all add: configuation_def conf_keys_def)

lemma conf_line_string:
  assumes "conf_word v"
  shows "conf_line conf (conf_setting ''Master_ip'' v) = (if length v < IPV4_MAX_STR_LEN then Some (conf\<lparr>master_ip := v\<rparr>) else None)"
    "conf_line conf (conf_setting ''Rdma_port'' v) = (if length v < PORT_MAX_STR_LEN then Some (conf\<lparr>rdma_port := v\<rparr>) else None)"
    "conf_line conf (conf_setting ''Agent_ip'' v) = (if length v < IPV4_MAX_STR_LEN then Some (conf\<lparr>agent_ip := v\<rparr>) else None)"
  by (simp_all only: conf_line_def conf_line_setting [OF conf_words(6) assms] conf_line_setting [OF conf_words(8) assms]
    conf_line_setting [OF conf_words(9) assms] prod.case option.case)
    (simp_all add: configuation_def conf_keys_def conf_copy_def)

text \<open>C38: a configuration file that lists the settings of a configuration (numbers in the range of
  \<open>int\<close>, words that fit their arrays) is read back as that configuration, whatever the record held
  before.\<close>

theorem config_roundtrip:
  assumes "conf_ok c"
  shows "kvs_config_init (Some (conf_print c)) c0 = Some (0, c)"
proof -
  have lens: "length (master_ip c) < 100" "length (rdma_port c) < 100" "length (agent_ip c) < 100"
    using assms by (auto simp: conf_ok_def IPV4_MAX_STR_LEN_def PORT_MAX_STR_LEN_def)
  have end': "conf_lines x [] = Some x" for x by (simp add: conf_lines.simps)
  have "conf_lines c0 (conf_print c @ []) = Some c"
    unfolding conf_print_def append_assoc
    using assms lens
    by (simp add: conf_ok_def conf_int_line conf_int_line [where s = "[]", simplified] conf_words conf_line_int conf_lines_step
      conf_line_string end')
  then show ?thesis by (simp add: kvs_config_init_def)
qed

text \<open>C39: the copies of the configured strings are not bounded: a \<open>Master_ip\<close> or \<open>Agent_ip\<close> of 16 or
  more characters, or an \<open>Rdma_port\<close> of 6 or more, is written behind its array.\<close>

theorem config_string_overflow:
  assumes "conf_word v" "length v < 900"
  shows "(kvs_config_init (Some (conf_setting ''Master_ip'' v)) c = None \<longleftrightarrow> IPV4_MAX_STR_LEN \<le> length v) \<and>
    (kvs_config_init (Some (conf_setting ''Agent_ip'' v)) c = None \<longleftrightarrow> IPV4_MAX_STR_LEN \<le> length v) \<and>
    (kvs_config_init (Some (conf_setting ''Rdma_port'' v)) c = None \<longleftrightarrow> PORT_MAX_STR_LEN \<le> length v)"
proof -
  have end': "conf_lines x [] = Some x" for x by (simp add: conf_lines.simps)
  show ?thesis
    using assms conf_lines_step [OF conf_words(6) assms(1), of c "[]"] conf_lines_step [OF conf_words(9) assms(1), of c "[]"]
      conf_lines_step [OF conf_words(8) assms(1), of c "[]"]
    by (simp add: kvs_config_init_def conf_line_string end' not_less)
qed

definition conf0 :: kvs_conf_t where
  "conf0 = \<lparr>enable_log = 1, enable_save = 1, enable_sync = 0, master_ip = ''10.0.0.1'', master_port = 2000, conf_mode = 0,
     conf_port = 2000, rdma_port = ''9999'', agent_ip = ''10.0.0.2'', agent_port = 2200\<rparr>"

lemma config_roundtrip_witness: "kvs_config_init (Some (conf_print conf0)) (conf0\<lparr>conf_port := 7\<rparr>) = Some (0, conf0)"
  by (rule config_roundtrip)
    (simp add: conf_ok_def conf0_def INT_MAX_def conf_word_def IPV4_MAX_STR_LEN_def PORT_MAX_STR_LEN_def)

lemma config_string_overflow_witness:
  "(kvs_config_init (Some (conf_setting ''Master_ip'' ''db.internal.example'')) conf0 = None \<longleftrightarrow> IPV4_MAX_STR_LEN \<le> length ''db.internal.example'') \<and>
   (kvs_config_init (Some (conf_setting ''Agent_ip'' ''db.internal.example'')) conf0 = None \<longleftrightarrow> IPV4_MAX_STR_LEN \<le> length ''db.internal.example'') \<and>
   (kvs_config_init (Some (conf_setting ''Rdma_port'' ''db.internal.example'')) conf0 = None \<longleftrightarrow> PORT_MAX_STR_LEN \<le> length ''db.internal.example'')"
  by (rule config_string_overflow) (simp_all add: conf_word_def)

end
