(* ===== verification/Kvs_Log.thy ===== *)
theory Kvs_Log
  imports Kvs_Protocol Kvs_Config
begin

text \<open>
  The append-only log, \<^verbatim>\<open>kvs-module/kvs_log.c\<close>: \<open>kvs_log_write\<close> turns a command into a KVSP frame and
  queues it for writing at the end of the file, \<open>kvs_file_read\<close> feeds the frames of a file to a
  handler, \<open>kvs_log_init\<close> replays the file at the start.

  The writes are asynchronous (io_uring): the record keeps those submitted and not yet carried out,
  and \<open>log_complete\<close> is the kernel carrying out one of them, in any order, as a \<open>pwrite\<close>.  Whether a
  submission entry is free (\<open>sqe\<close>), and what \<open>open\<close>, \<open>fstat\<close> and \<open>mmap\<close> answer, are parameters.
\<close>

subsection \<open>Reading a file of frames\<close>

definition LOG_BUFFER_SIZE :: nat where "LOG_BUFFER_SIZE = 1024"

text \<open>The loop; \<open>handler\<close> is the function pointer, with the state \<open>'s\<close> it works on.\<close>

function file_read_loop ::
  "('s \<Rightarrow> client_info \<Rightarrow> (int \<times> 's \<times> client_info) option) \<Rightarrow> env \<Rightarrow> char list \<Rightarrow> nat \<Rightarrow> client_info \<Rightarrow> 's \<Rightarrow> 's option" where
  "file_read_loop handler e ptr pos cli s =
     (if pos < length ptr then
        Option.bind (kvsp_parse_bulk_size (drop pos ptr) (c_int (int (length ptr - pos))) 0) (\<lambda>(total_len, head_len).
          if total_len \<le> 0 then Some s
          else if total_len > r_cap cli \<and> \<not> mem e 0 then Some s
          else
            (let (e', cli) = (if total_len > r_cap cli
                  then (env_skip 1 e, cli\<lparr>rbuf := c_realloc e (rbuf cli) (nat total_len + 1), r_cap := total_len\<rparr>)
                  else (e, cli));
                 cli = cli\<lparr>cmd_hl := head_len, cmd_tl := total_len\<rparr> in
             Option.bind (memrd (drop pos ptr) 0 (nat total_len)) (\<lambda>d.
             Option.bind (memwr (rbuf cli) 0 d) (\<lambda>b.
             Option.bind (wr b total_len NUL) (\<lambda>b.
             Option.bind (handler s (cli\<lparr>rbuf := b\<rparr>)) (\<lambda>(ret, s, cli).
               if ret < 0 then Some s
               else file_read_loop handler e' ptr (pos + nat total_len) cli s))))))
      else Some s)"
  by pat_completeness auto
termination
  by (relation "measure (\<lambda>(handler, e, ptr, pos, cli, s). length ptr - pos)") auto

declare file_read_loop.simps [simp del]

definition file_client :: "env \<Rightarrow> client_info" where
  "file_client e = \<lparr>fd = 0, rbuf = replicate (LOG_BUFFER_SIZE + 1) (char_of (junk e)), r_cap = int LOG_BUFFER_SIZE, r_pos = 0,
     cmd_tl = 0, cmd_hl = 0, wbuf = replicate (LOG_BUFFER_SIZE + 1) (char_of (junk e)), w_cap = int LOG_BUFFER_SIZE, w_pos = 0,
     role = 0, protocol = PROTO_KVSP, recv_protocol = Some Recv_kvsp\<rparr>"

definition kvs_file_read ::
  "('s \<Rightarrow> client_info \<Rightarrow> (int \<times> 's \<times> client_info) option) \<Rightarrow> env \<Rightarrow> char list \<Rightarrow> 's \<Rightarrow> (int \<times> 's) option" where
  "kvs_file_read handler e ptr s =
     (if ptr = [] then Some (-1, s)
      else if \<not> mem e 0 \<or> \<not> mem e 1 then Some (-2, s)
      else do { s \<leftarrow> file_read_loop handler (env_skip 2 e) ptr 0 (file_client e) s; Some (0, s) })"

subsection \<open>The log\<close>

record kvs_log =
  fd_log :: int
  ring_log_inited :: int
  global_log_offset :: nat
  in_flight :: "(nat \<times> string) list"
  log_file :: string

text \<open>\<open>count\<close> tokens of the token array, whose unused entries are NULL.\<close>

definition tok :: "string option list \<Rightarrow> nat \<Rightarrow> string option" where
  "tok tokens i = (if i < length tokens then tokens ! i else None)"

definition kvs_log_write ::
  "kvs_conf_t \<Rightarrow> env \<Rightarrow> bool \<Rightarrow> string option list \<Rightarrow> int \<Rightarrow> kvs_log \<Rightarrow> (int \<times> kvs_log) option" where
  "kvs_log_write conf e sqe tokens count lg =
     (if enable_log conf = 0 then Some (0, lg)
      else if tok tokens 0 = None \<or> count \<le> 0 then Some (-1, lg)
      else if fd_log lg < 0 \<or> ring_log_inited lg \<noteq> 1 then Some (-1, lg)
      else do {
        f \<leftarrow> kvs_build_kvsp_frame e (map (tok tokens) [0..<nat count]);
        (case f of
           None \<Rightarrow> Some (-2, lg)
         | Some (buf, buf_len) \<Rightarrow>
             if buf_len \<le> 0 then Some (-2, lg)
             else if \<not> sqe then Some (-2, lg)
             else if \<not> mem e 1 then Some (-2, lg)
             else Some (0, lg\<lparr>in_flight := in_flight lg @ [(global_log_offset lg, buf)],
                             global_log_offset := global_log_offset lg + nat buf_len\<rparr>)) })"

text \<open>The kernel: a write at an offset; a gap behind the end of the file is filled with zeros.\<close>

definition pwrite :: "nat \<times> string \<Rightarrow> string \<Rightarrow> string" where
  "pwrite w f = (case w of (off, b) \<Rightarrow> take off (f @ replicate (off - length f) NUL) @ b @ drop (off + length b) f)"

definition log_complete :: "nat \<Rightarrow> kvs_log \<Rightarrow> kvs_log" where
  "log_complete i lg = (if i < length (in_flight lg)
     then lg\<lparr>in_flight := take i (in_flight lg) @ drop (Suc i) (in_flight lg), log_file := pwrite (in_flight lg ! i) (log_file lg)\<rparr>
     else lg)"

text \<open>\<open>opened\<close>: the descriptor \<open>open\<close> returns; \<open>stat\<close>, \<open>mapped\<close>: whether \<open>fstat\<close> and \<open>mmap\<close> succeed.\<close>

definition kvs_log_init ::
  "('s \<Rightarrow> client_info \<Rightarrow> (int \<times> 's \<times> client_info) option) \<Rightarrow> kvs_conf_t \<Rightarrow> env \<Rightarrow> int \<Rightarrow> bool \<Rightarrow> bool \<Rightarrow> kvs_log \<Rightarrow> 's \<Rightarrow>
   (int \<times> kvs_log \<times> 's) option" where
  "kvs_log_init handler conf e opened stat mapped lg s =
     (if enable_log conf = 0 then Some (0, lg, s)
      else (let lg = lg\<lparr>fd_log := opened\<rparr> in
        if opened < 0 then Some (-1, lg, s)
        else (let lg = lg\<lparr>ring_log_inited := 1\<rparr> in
          if \<not> stat then Some (-1, lg, s)
          else if log_file lg = [] then Some (0, lg, s)
          else (let lg = lg\<lparr>global_log_offset := length (log_file lg)\<rparr> in
            if \<not> mapped then Some (-2, lg\<lparr>fd_log := -1\<rparr>, s)
            else do { (_, s) \<leftarrow> kvs_file_read handler e (log_file lg) s; Some (0, lg, s) }))))"

text \<open>Closing changes none of the variables; the result also says whether the ring is torn down and the
  descriptor closed.  What is in flight then is up to the kernel.\<close>

definition kvs_log_close :: "kvs_conf_t \<Rightarrow> kvs_log \<Rightarrow> int \<times> bool \<times> bool" where
  "kvs_log_close conf lg =
     (if enable_log conf = 0 then (0, False, False) else (0, ring_log_inited lg = 1, fd_log lg \<ge> 0))"

subsection \<open>The order of completion does not matter\<close>

lemma pwrite_length: "length (pwrite (off, b) f) = max (length f) (off + length b)"
  by (simp add: pwrite_def)

lemma pwrite_nth:
  assumes "i < max (length f) (off + length b)"
  shows "pwrite (off, b) f ! i = (if off \<le> i \<and> i < off + length b then b ! (i - off) else if i < length f then f ! i else NUL)"
  using assms by (auto simp: pwrite_def nth_append min_def)

definition apart :: "nat \<times> string \<Rightarrow> nat \<times> string \<Rightarrow> bool" where
  "apart v w \<longleftrightarrow> fst v + length (snd v) \<le> fst w \<or> fst w + length (snd w) \<le> fst v"

lemma pwrite_commute:
  assumes "apart v w"
  shows "pwrite v (pwrite w f) = pwrite w (pwrite v f)"
proof -
  obtain o1 b1 o2 b2 where e: "v = (o1, b1)" "w = (o2, b2)" by (cases v; cases w) auto
  show ?thesis unfolding e
    by (rule nth_equalityI) (use assms e in \<open>auto simp: pwrite_length pwrite_nth apart_def\<close>)
qed

lemma pwrite_append: "pwrite (length f, b) f = f @ b"
  by (simp add: pwrite_def)

text \<open>The file as it will be when everything in flight has been written, in the order of submission.\<close>

definition log_final :: "kvs_log \<Rightarrow> string" where
  "log_final lg = fold pwrite (in_flight lg) (log_file lg)"

text \<open>The writes in flight cover consecutive stretches of the file, up to the log offset.\<close>

fun consecutive :: "(nat \<times> string) list \<Rightarrow> nat \<Rightarrow> bool" where
  "consecutive [] n \<longleftrightarrow> True"
| "consecutive (w # ws) n \<longleftrightarrow> fst w + length (snd w) \<le> n \<and> (\<forall>v \<in> set ws. fst w + length (snd w) \<le> fst v) \<and> consecutive ws n"

definition log_ok :: "kvs_log \<Rightarrow> bool" where
  "log_ok lg \<longleftrightarrow> consecutive (in_flight lg) (global_log_offset lg) \<and> length (log_final lg) = global_log_offset lg"

lemma consecutive_apart: "consecutive (us @ w # vs) n \<Longrightarrow> \<forall>v \<in> set (us @ vs). apart w v"
  by (induction us) (auto simp: apart_def)

lemma consecutive_remove: "consecutive (us @ w # vs) n \<Longrightarrow> consecutive (us @ vs) n"
  by (induction us) auto

lemma consecutive_snoc:
  "consecutive ws n \<Longrightarrow> consecutive (ws @ [(n, b)]) (n + length b)"
  by (induction ws) (auto simp: trans_le_add1)

lemma fold_pwrite_pull: "\<forall>v \<in> set us. apart w v \<Longrightarrow> fold pwrite us (pwrite w f) = pwrite w (fold pwrite us f)"
proof (induction us arbitrary: f)
  case (Cons u us)
  then show ?case using pwrite_commute [of w u f, symmetric] by simp
qed simp

lemma log_complete_final:
  assumes "log_ok lg"
  shows "log_final (log_complete i lg) = log_final lg \<and> log_ok (log_complete i lg) \<and> global_log_offset (log_complete i lg) = global_log_offset lg"
proof (cases "i < length (in_flight lg)")
  case True
  define us w vs where "us = take i (in_flight lg)" and "w = in_flight lg ! i" and "vs = drop (Suc i) (in_flight lg)"
  have fl: "in_flight lg = us @ w # vs" using True by (simp add: us_def w_def vs_def id_take_nth_drop)
  have c: "consecutive (us @ w # vs) (global_log_offset lg)" using assms fl by (simp add: log_ok_def)
  have e: "log_complete i lg = lg\<lparr>in_flight := us @ vs, log_file := pwrite w (log_file lg)\<rparr>"
    using True by (simp add: log_complete_def us_def w_def vs_def)
  have "log_final (log_complete i lg) = log_final lg"
    using fold_pwrite_pull [of us w "log_file lg"] consecutive_apart [OF c] by (simp add: e log_final_def fl)
  then show ?thesis using assms consecutive_remove [OF c] by (simp add: e log_ok_def)
qed (use assms in \<open>simp add: log_complete_def\<close>)

lemma log_append_final:
  assumes "log_ok lg"
  shows "log_final (lg\<lparr>in_flight := in_flight lg @ [(global_log_offset lg, b)], global_log_offset := global_log_offset lg + length b\<rparr>)
      = log_final lg @ b"
    "log_ok (lg\<lparr>in_flight := in_flight lg @ [(global_log_offset lg, b)], global_log_offset := global_log_offset lg + length b\<rparr>)"
proof -
  have l: "length (log_final lg) = global_log_offset lg" using assms by (simp add: log_ok_def)
  show f: "log_final (lg\<lparr>in_flight := in_flight lg @ [(global_log_offset lg, b)], global_log_offset := global_log_offset lg + length b\<rparr>)
      = log_final lg @ b" using pwrite_append [of "log_final lg" b] l by (simp add: log_final_def)
  show "log_ok (lg\<lparr>in_flight := in_flight lg @ [(global_log_offset lg, b)], global_log_offset := global_log_offset lg + length b\<rparr>)"
    using assms consecutive_snoc f l by (simp add: log_ok_def)
qed

subsection \<open>What the log holds\<close>

datatype log_event = LogWrite env bool "string list" | LogDone nat

fun log_run :: "kvs_conf_t \<Rightarrow> kvs_log \<Rightarrow> log_event list \<Rightarrow> (int list \<times> kvs_log) option" where
  "log_run conf lg [] = Some ([], lg)"
| "log_run conf lg (LogWrite e sqe ts # evs) = do {
     (r, lg) \<leftarrow> kvs_log_write conf e sqe (map Some ts) (int (length ts)) lg;
     (rs, lg) \<leftarrow> log_run conf lg evs;
     Some (r # rs, lg) }"
| "log_run conf lg (LogDone i # evs) = log_run conf (log_complete i lg) evs"

text \<open>The frames of the writes that got all the memory and the submission entry they need.\<close>

fun log_frames :: "log_event list \<Rightarrow> string" where
  "log_frames [] = []"
| "log_frames (LogWrite e sqe ts # evs) = (if mem e 0 \<and> sqe \<and> mem e 1 then kvsp_frame ts else []) @ log_frames evs"
| "log_frames (LogDone i # evs) = log_frames evs"

fun log_results :: "log_event list \<Rightarrow> int list" where
  "log_results [] = []"
| "log_results (LogWrite e sqe ts # evs) = (if mem e 0 \<and> sqe \<and> mem e 1 then 0 else -2) # log_results evs"
| "log_results (LogDone i # evs) = log_results evs"

lemma map_tok_Some: "map (tok (map Some ts)) [0..<length ts] = map Some ts"
  by (rule nth_equalityI) (auto simp: tok_def)

lemma kvs_build_frame_nomem:
  assumes "ts \<noteq> []" "int (length (kvsp_frame ts)) < INT_MAX" "\<not> mem e 0"
  shows "kvs_build_kvsp_frame e (map Some ts) = Some None"
proof -
  have "int (length (kvsp_body ts)) \<le> INT_MAX" using assms(2) by (simp add: kvsp_frame_def)
  then have "kvsp_body_len (map Some ts) 0 = Some (Some (int (length (kvsp_body ts))))"
    using kvsp_body_len_frame [of 0 ts] by simp
  moreover have "nat (int (length (kvsp_body ts)) + 2) = length (kvsp_body ts) + 2" by simp
  ultimately show ?thesis
    using assms unfolding kvs_build_kvsp_frame_def kvsp_lens
    by (simp add: kvsp_frame_def kvsp_head_def)
qed

lemma kvs_log_write_run:
  assumes "enable_log conf \<noteq> 0" "0 \<le> fd_log lg" "ring_log_inited lg = 1" "ts \<noteq> []" "int (length (kvsp_frame ts)) < INT_MAX"
  shows "kvs_log_write conf e sqe (map Some ts) (int (length ts)) lg =
    Some (if mem e 0 \<and> sqe \<and> mem e 1
      then (0, lg\<lparr>in_flight := in_flight lg @ [(global_log_offset lg, kvsp_frame ts)],
              global_log_offset := global_log_offset lg + length (kvsp_frame ts)\<rparr>)
      else (-2, lg))"
proof (cases "mem e 0")
  case True
  then have b: "kvs_build_kvsp_frame e (map Some ts) = Some (Some (kvsp_frame ts, int (length (kvsp_frame ts))))"
    using kvs_build_frame assms by simp
  have "kvsp_frame ts \<noteq> []" by (simp add: kvsp_frame_def kvsp_head_def)
  moreover have "tok (map Some ts) 0 \<noteq> None" using assms(4) by (simp add: tok_def)
  ultimately show ?thesis using assms True b map_tok_Some [of ts] by (simp add: kvs_log_write_def)
next
  case False
  moreover have "tok (map Some ts) 0 \<noteq> None" using assms(4) by (simp add: tok_def)
  ultimately show ?thesis using assms kvs_build_frame_nomem map_tok_Some [of ts] by (simp add: kvs_log_write_def)
qed

lemma log_run_final:
  assumes "enable_log conf \<noteq> 0" "0 \<le> fd_log lg" "ring_log_inited lg = 1" "log_ok lg"
    and "\<forall>e sqe ts. LogWrite e sqe ts \<in> set evs \<longrightarrow> ts \<noteq> [] \<and> int (length (kvsp_frame ts)) < INT_MAX"
  shows "\<exists>lg'. log_run conf lg evs = Some (log_results evs, lg') \<and> log_ok lg' \<and> log_final lg' = log_final lg @ log_frames evs"
  using assms
proof (induction evs arbitrary: lg)
  case (Cons ev evs)
  show ?case
  proof (cases ev)
    case (LogWrite e sqe ts)
    then have ts: "ts \<noteq> []" "int (length (kvsp_frame ts)) < INT_MAX" using Cons.prems(5) by auto
    let ?lg = "lg\<lparr>in_flight := in_flight lg @ [(global_log_offset lg, kvsp_frame ts)],
              global_log_offset := global_log_offset lg + length (kvsp_frame ts)\<rparr>"
    have app: "log_ok ?lg" "log_final ?lg = log_final lg @ kvsp_frame ts" using log_append_final [OF Cons.prems(4)] by auto
    show ?thesis
    proof (cases "mem e 0 \<and> sqe \<and> mem e 1")
      case True
      then show ?thesis
        using kvs_log_write_run [OF Cons.prems(1-3) ts, of e sqe] Cons.IH [of ?lg] Cons.prems app LogWrite by auto
    next
      case False
      then show ?thesis
        using kvs_log_write_run [OF Cons.prems(1-3) ts, of e sqe] Cons.IH [of lg] Cons.prems LogWrite by auto
    qed
  next
    case (LogDone i)
    have "fd_log (log_complete i lg) = fd_log lg" "ring_log_inited (log_complete i lg) = ring_log_inited lg"
      by (simp_all add: log_complete_def)
    then show ?thesis using Cons.IH [of "log_complete i lg"] log_complete_final [OF Cons.prems(4)] Cons.prems LogDone by auto
  qed
qed simp


definition log0 :: kvs_log where
  "log0 = \<lparr>fd_log = 3, ring_log_inited = 1, global_log_offset = 0, in_flight = [], log_file = []\<rparr>"


subsection \<open>Replaying a file\<close>

text \<open>The requests of a file, each handled in its order; a negative result ends the replay.\<close>

inductive replayed :: "('s \<Rightarrow> string list \<Rightarrow> int \<Rightarrow> 's \<Rightarrow> bool) \<Rightarrow> 's \<Rightarrow> string list list \<Rightarrow> 's \<Rightarrow> bool" for step where
  replay_done: "replayed step s [] s"
| replay_more: "step s ts r s1 \<Longrightarrow> 0 \<le> r \<Longrightarrow> replayed step s1 fs s' \<Longrightarrow> replayed step s (ts # fs) s'"
| replay_stop: "step s ts r s1 \<Longrightarrow> r < 0 \<Longrightarrow> replayed step s (ts # fs) s1"

inductive_cases replayed_NilE: "replayed step s [] s'"
inductive_cases replayed_ConsE: "replayed step s (ts # fs) s'"

text \<open>The contract of a handler: on a client whose buffer starts with the frame of an admissible
  request it is defined, does a step of its specification and leaves the receive buffer's size and the
  protocol alone.\<close>

locale frame_handler =
  fixes inv :: "'s \<Rightarrow> bool"
    and cl :: "client_info \<Rightarrow> bool"
    and okreq :: "string list \<Rightarrow> bool"
    and step :: "'s \<Rightarrow> string list \<Rightarrow> int \<Rightarrow> 's \<Rightarrow> bool"
    and handler :: "'s \<Rightarrow> client_info \<Rightarrow> (int \<times> 's \<times> client_info) option"
  assumes handles: "inv s \<Longrightarrow> cl cli \<Longrightarrow> protocol cli = PROTO_KVSP \<Longrightarrow> rbuf cli = kvsp_frame ts @ NUL # rest \<Longrightarrow>
      cmd_hl cli = int (length (kvsp_head ts)) \<Longrightarrow> cmd_tl cli = int (length (kvsp_frame ts)) \<Longrightarrow> okreq ts \<Longrightarrow>
      \<exists>r s' cli'. handler s cli = Some (r, s', cli') \<and> step s ts r s' \<and> inv s' \<and> cl cli' \<and>
        protocol cli' = PROTO_KVSP \<and> r_cap cli' = r_cap cli \<and> length (rbuf cli') = length (rbuf cli)"
    and cl_rbuf: "cl cli \<Longrightarrow> cl (cli\<lparr>rbuf := b, r_cap := n, cmd_hl := h, cmd_tl := t\<rparr>)"
    and okreq_len: "okreq ts \<Longrightarrow> int (length (kvsp_frame ts)) \<le> INT_MAX"
begin

text \<open>One round of the loop.\<close>

lemma loop_step:
  assumes e: "mem_ok e" and s: "inv s" and c: "cl cli" "protocol cli = PROTO_KVSP" "int (length (rbuf cli)) = r_cap cli + 1" "0 \<le> r_cap cli"
    and ts: "okreq ts" and ptr: "drop pos ptr = kvsp_frame ts @ rest" "int (length ptr) \<le> INT_MAX"
  shows "\<exists>e' r s' cli'. step s ts r s' \<and> file_read_loop handler e ptr pos cli s =
      (if r < 0 then Some s' else file_read_loop handler e' ptr (pos + length (kvsp_frame ts)) cli' s') \<and>
    mem_ok e' \<and> inv s' \<and> cl cli' \<and> protocol cli' = PROTO_KVSP \<and> int (length (rbuf cli')) = r_cap cli' + 1 \<and> 0 \<le> r_cap cli'"
proof -
  let ?n = "length (kvsp_frame ts)"
  have len: "length ptr - pos = ?n + length rest" using ptr(1) by (metis length_append length_drop)
  have pos: "pos < length ptr" using len by (simp add: kvsp_frame_def)
  have ci: "c_int (int (length ptr - pos)) = int (length ptr - pos)" using ptr(2) by (intro c_int_id) (auto simp: INT_MAX_def)
  have pm: "kvsp_parse_bulk_size (drop pos ptr) (int (length ptr - pos)) 0 = Some (int ?n, int (length (kvsp_head ts)))"
    using kvsp_parse_measure [of "int (length (kvsp_frame ts @ rest))" "kvsp_frame ts @ rest" 0]
      kvsp_measure_frame [OF okreq_len [OF ts], of rest 0] unfolding ptr(1) len by simp
  define e' where "e' = (if int ?n > r_cap cli then env_skip 1 e else e)"
  define b0 where "b0 = (if int ?n > r_cap cli then c_realloc e (rbuf cli) (?n + 1) else rbuf cli)"
  define cap where "cap = (if int ?n > r_cap cli then int ?n else r_cap cli)"
  define b where "b = kvsp_frame ts @ NUL # drop (Suc ?n) b0"
  have b0: "int (length b0) = cap + 1" "?n < length b0" "0 \<le> cap" using c by (auto simp: b0_def cap_def)
  then have lb: "length b = length b0" by (simp add: b_def)
  define cli1 where "cli1 = cli\<lparr>rbuf := b, r_cap := cap, cmd_hl := int (length (kvsp_head ts)), cmd_tl := int ?n\<rparr>"
  have cl1: "cl cli1" using cl_rbuf [OF c(1)] by (simp add: cli1_def)
  have "rbuf cli1 = kvsp_frame ts @ NUL # drop (Suc ?n) b0" "protocol cli1 = PROTO_KVSP" "cmd_hl cli1 = int (length (kvsp_head ts))"
    "cmd_tl cli1 = int ?n" using c(2) by (simp_all add: cli1_def b_def)
  from handles [OF s cl1 this(2,1,3,4) ts] obtain r s' cli' where
    h: "handler s cli1 = Some (r, s', cli')" "step s ts r s'" "inv s'" "cl cli'" "protocol cli' = PROTO_KVSP"
      "r_cap cli' = r_cap cli1" "length (rbuf cli') = length (rbuf cli1)" by blast
  have wm: "memrd (drop pos ptr) 0 ?n = Some (kvsp_frame ts)" "memwr b0 0 (kvsp_frame ts) = Some (kvsp_frame ts @ drop ?n b0)"
    "wr (kvsp_frame ts @ drop ?n b0) (int ?n) NUL = Some b"
    using ptr(1) b0(2) by (simp_all add: memwr_def wr_def b_def list_update_append Cons_nth_drop_Suc [symmetric])
  have ne: "kvsp_frame ts \<noteq> []" by (simp add: kvsp_frame_def)
  have "file_read_loop handler e ptr pos cli s = (if r < 0 then Some s' else file_read_loop handler e' ptr (pos + ?n) cli' s')"
  proof (cases "int ?n > r_cap cli")
    case True
    then have "cli\<lparr>r_cap := int ?n, cmd_hl := int (length (kvsp_head ts)), cmd_tl := int ?n, rbuf := b\<rparr> = cli1"
      by (intro client_info.equality) (simp_all add: cli1_def cap_def)
    then show ?thesis using True pos pm e wm h(1) ne unfolding file_read_loop.simps [of _ _ _ pos] ci b0_def e'_def
      by (simp add: Let_def del: of_nat_diff wr_in memrd_in)
  next
    case False
    then have "cli\<lparr>cmd_hl := int (length (kvsp_head ts)), cmd_tl := int ?n, rbuf := b\<rparr> = cli1"
      by (intro client_info.equality) (simp_all add: cli1_def cap_def)
    then show ?thesis using False pos pm e wm h(1) ne unfolding file_read_loop.simps [of _ _ _ pos] ci b0_def e'_def
      by (simp add: Let_def del: of_nat_diff wr_in memrd_in)
  qed
  moreover have "mem_ok e'" using e by (simp add: e'_def)
  moreover have "int (length (rbuf cli')) = r_cap cli' + 1" "0 \<le> r_cap cli'" using h(6,7) b0 lb by (simp_all add: cli1_def)
  ultimately show ?thesis using h(2-5)
    by (intro exI [of _ e'] exI [of _ r] exI [of _ s'] exI [of _ cli'] conjI)
qed

lemma loop_replays:
  assumes "mem_ok e" "inv s" "cl cli" "protocol cli = PROTO_KVSP" "int (length (rbuf cli)) = r_cap cli + 1" "0 \<le> r_cap cli"
    and "\<forall>ts \<in> set fs. okreq ts" "drop pos ptr = concat (map kvsp_frame fs)" "pos \<le> length ptr" "int (length ptr) \<le> INT_MAX"
  shows "\<exists>s'. file_read_loop handler e ptr pos cli s = Some s' \<and> replayed step s fs s' \<and> inv s'"
  using assms
proof (induction fs arbitrary: e s cli pos)
  case Nil
  then show ?case by (auto simp: file_read_loop.simps [of _ _ _ pos] intro: replay_done)
next
  case (Cons ts fs)
  from Cons.prems obtain e' r s1 cli1 where
    st: "step s ts r s1" "file_read_loop handler e ptr pos cli s =
      (if r < 0 then Some s1 else file_read_loop handler e' ptr (pos + length (kvsp_frame ts)) cli1 s1)"
    and inv1: "mem_ok e'" "inv s1" "cl cli1" "protocol cli1 = PROTO_KVSP" "int (length (rbuf cli1)) = r_cap cli1 + 1" "0 \<le> r_cap cli1"
    using loop_step [of e s cli ts pos ptr "concat (map kvsp_frame fs)"] by auto
  show ?case
  proof (cases "r < 0")
    case True
    then show ?thesis using st inv1(2) replay_stop [of step, OF st(1)] by auto
  next
    case False
    have d: "drop (pos + length (kvsp_frame ts)) ptr = concat (map kvsp_frame fs)"
      using arg_cong [OF Cons.prems(8), of "drop (length (kvsp_frame ts))"] by (simp add: add.commute)
    have "pos + length (kvsp_frame ts) \<le> length ptr"
      using arg_cong [OF Cons.prems(8), of length] Cons.prems(9) by simp
    from Cons.IH [OF inv1 _ d this] Cons.prems(7,10) False show ?thesis
      using st replay_more [of step, OF st(1)] by auto
  qed
qed

lemma file_replays:
  assumes "mem_ok e" "inv s" "cl (file_client e)" "fs \<noteq> []" "\<forall>ts \<in> set fs. okreq ts" "int (length (concat (map kvsp_frame fs))) \<le> INT_MAX"
  shows "\<exists>s'. kvs_file_read handler e (concat (map kvsp_frame fs)) s = Some (0, s') \<and> replayed step s fs s' \<and> inv s'"
proof -
  have "concat (map kvsp_frame fs) \<noteq> []" using assms(4) by (cases fs) (auto simp: kvsp_frame_def)
  moreover have "\<exists>s'. file_read_loop handler (env_skip 2 e) (concat (map kvsp_frame fs)) 0 (file_client e) s = Some s' \<and> replayed step s fs s' \<and> inv s'"
    by (rule loop_replays) (use assms in \<open>auto simp: file_client_def\<close>)
  ultimately show ?thesis using assms(1) by (auto simp: kvs_file_read_def)
qed

end

end
