(* ===== verification/Kvs_Save.thy ===== *)
theory Kvs_Save
  imports Kvs_Engines Kvs_Log
begin

text \<open>
  Snapshots, \<^verbatim>\<open>kvs-module/kvs_save.c\<close>: the dump of the four engines as KVSP frames
  (\<open>kvs_traversal_write\<close>, \<open>kvs_save_start\<close>), the load at the start (\<open>kvs_save_init\<close> with
  \<open>kvs_save_handler\<close>), and the child process that writes the dump (\<open>kvs_save_write\<close>,
  \<open>kvs_fork_save_child\<close>, \<open>kvs_save_child_done\<close>, \<open>kvs_check_save_status\<close>).

  The submission ring (liburing) is the lists of writes prepared and submitted and the number of
  completions not yet taken; whether a free entry is found when \<open>n\<close> entries are prepared
  (\<open>get_sqe n\<close>), how many completions a peek finds (\<open>ctx_ready\<close>) and what the kernel carries out of
  the submitted writes, in which order (\<open>kernel\<close>), are parameters.
\<close>

subsection \<open>Loading\<close>

text \<open>The state of the handler: the answers of the environment to the calls still to come, and the
  store.\<close>

type_synonym load_state = "(nat \<Rightarrow> env) \<times> kvs_store"

definition save_engine :: "char \<Rightarrow> kvs_engine_type option" where
  "save_engine c =
     (if c = CHR ''A'' then Some KVS_ARRAY else if c = CHR ''H'' then Some KVS_HASH
      else if c = CHR ''R'' then Some KVS_RBTREE else if c = CHR ''S'' then Some KVS_SKIPLIST else None)"

definition kvs_save_handler :: "load_state \<Rightarrow> client_info \<Rightarrow> (int \<times> load_state \<times> client_info) option" where
  "kvs_save_handler st cli = do {
     (count, cli, toks) \<leftarrow> kvs_split_token cli;
     if count \<noteq> 3 then Some (-2, st, cli)
     else do {
       tokens \<leftarrow> those (map (cstr_at (rbuf cli)) toks);
       (case save_engine (case tokens ! 0 of [] \<Rightarrow> NUL | c # _ \<Rightarrow> c) of
          None \<Rightarrow> Some (0, (\<lambda>i. fst st (Suc i), snd st), cli)
        | Some t \<Rightarrow> do {
            (ret, s) \<leftarrow> eng_set t (fst st 0) (snd st) (Some (tokens ! 1)) (Some (tokens ! 2));
            Some (ret, (\<lambda>i. fst st (Suc i), s), cli) }) } }"

text \<open>\<open>file\<close> is the dump (\<open>None\<close>: \<open>open\<close> fails); \<open>stat\<close>, \<open>mapped\<close>: whether \<open>fstat\<close> and \<open>mmap\<close>
  succeed.\<close>

definition kvs_save_init :: "kvs_conf_t \<Rightarrow> env \<Rightarrow> bool \<Rightarrow> bool \<Rightarrow> string option \<Rightarrow> load_state \<Rightarrow> (int \<times> load_state) option" where
  "kvs_save_init conf e stat mapped file st =
     (if enable_save conf = 0 then Some (0, st)
      else case file of
        None \<Rightarrow> Some (0, st)
      | Some f \<Rightarrow>
          if \<not> stat then Some (-1, st)
          else if f = [] then Some (0, st)
          else if \<not> mapped then Some (-2, st)
          else do { (_, st) \<leftarrow> kvs_file_read kvs_save_handler e f st; Some (0, st) })"

subsection \<open>Writing\<close>

fun save_engine_name :: "kvs_engine_type \<Rightarrow> string" where
  "save_engine_name KVS_ARRAY = ''ARRAY''"
| "save_engine_name KVS_HASH = ''HASH''"
| "save_engine_name KVS_RBTREE = ''RBTREE''"
| "save_engine_name KVS_SKIPLIST = ''SKIPLIST''"

text \<open>The inner \<open>None\<close> is \<open>return NULL\<close>.  \<open>snprintf\<close> answers a negative number for a body longer than an
  \<open>int\<close>; the length check at the end then fails.\<close>

definition build_save_protocol ::
  "env \<Rightarrow> string option \<Rightarrow> string option \<Rightarrow> kvs_engine_type \<Rightarrow> (string \<times> int) option option" where
  "build_save_protocol e key value type =
     (case (key, value) of
        (Some k, Some v) \<Rightarrow>
          (let body = kvsp_tok (save_engine_name type) @ kvsp_tok k @ kvsp_tok v @ CRLF;
               body_len = int (length body) in
           if body_len > INT_MAX then Some None
           else (let head = ''#'' @ dec (nat body_len) @ CRLF;
                     total_len = body_len + int (length head) in
                 if total_len + 1 > INT_MAX then None
                 else if \<not> mem e 0 then Some None
                 else Some (Some (head @ body, total_len))))
      | _ \<Rightarrow> Some None)"

definition TARGET_LENGTH :: nat where "TARGET_LENGTH = 512"
definition ENTRY_LENGTH :: nat where "ENTRY_LENGTH = 1024"

record io_write_ctx =
  tasks_count :: int
  offset :: nat
  ring_prepared :: "(nat \<times> string) list"
  ring_submitted :: "(nat \<times> string) list"
  ring_open :: nat
  ctx_env :: env
  ctx_ready :: "nat \<Rightarrow> nat"

definition io_uring_submit :: "io_write_ctx \<Rightarrow> io_write_ctx" where
  "io_uring_submit ctx = ctx\<lparr>ring_submitted := ring_submitted ctx @ ring_prepared ctx,
     ring_open := ring_open ctx + length (ring_prepared ctx), ring_prepared := []\<rparr>"

text \<open>The completions that are there are taken, at most \<open>TARGET_LENGTH\<close> of them.\<close>

definition io_uring_reap :: "io_write_ctx \<Rightarrow> io_write_ctx" where
  "io_uring_reap ctx = (let nready = min (ctx_ready ctx 0) (min TARGET_LENGTH (ring_open ctx)) in
     ctx\<lparr>tasks_count := tasks_count ctx - int nready, ring_open := ring_open ctx - nready,
         ctx_ready := (\<lambda>i. ctx_ready ctx (Suc i))\<rparr>)"

definition kvs_io_uring_write ::
  "(nat \<Rightarrow> bool) \<Rightarrow> int \<Rightarrow> (string \<times> int) option \<Rightarrow> io_write_ctx \<Rightarrow> int \<times> io_write_ctx" where
  "kvs_io_uring_write get_sqe file_fd buf ctx =
     (case buf of
        None \<Rightarrow> (-1, ctx)
      | Some (b, buf_len) \<Rightarrow>
          if file_fd < 0 \<or> buf_len \<le> 0 then (-1, ctx)
          else if \<not> mem (ctx_env ctx) 0 then (-2, ctx\<lparr>ctx_env := env_skip 1 (ctx_env ctx)\<rparr>)
          else (let ctx = ctx\<lparr>ctx_env := env_skip 1 (ctx_env ctx)\<rparr>;
                    ctx = (if tasks_count ctx \<ge> int TARGET_LENGTH then io_uring_submit ctx else ctx);
                    ctx = io_uring_reap ctx in
                if \<not> get_sqe (length (ring_prepared ctx)) then (-4, io_uring_submit ctx)
                else (0, ctx\<lparr>tasks_count := tasks_count ctx + 1,
                             ring_prepared := ring_prepared ctx @ [(offset ctx, b)],
                             offset := offset ctx + nat buf_len\<rparr>)))"

text \<open>The two calls every traversal makes for an entry.\<close>

definition save_entry ::
  "(nat \<Rightarrow> bool) \<Rightarrow> int \<Rightarrow> string option \<Rightarrow> string option \<Rightarrow> kvs_engine_type \<Rightarrow> io_write_ctx \<Rightarrow> (int \<times> io_write_ctx) option" where
  "save_entry get_sqe file_fd key value type ctx = do {
     buf \<leftarrow> build_save_protocol (ctx_env ctx) key value type;
     Some (kvs_io_uring_write get_sqe file_fd buf (ctx\<lparr>ctx_env := env_skip 1 (ctx_env ctx)\<rparr>)) }"

text \<open>The results of the two recursive calls are not looked at.\<close>

partial_function (option) kvs_save_write_rbtree ::
  "(nat \<Rightarrow> bool) \<Rightarrow> rbtree \<Rightarrow> addr \<Rightarrow> int \<Rightarrow> io_write_ctx \<Rightarrow> (int \<times> io_write_ctx) option" where
  "kvs_save_write_rbtree get_sqe T node file_fd ctx =
     (if file_fd < 0 then Some (file_fd, ctx)
      else if node \<noteq> rb_nil T then do {
        n \<leftarrow> rb_get T node;
        (ret, ctx) \<leftarrow> save_entry get_sqe file_fd (rb_key n) (rb_value n) KVS_RBTREE ctx;
        let file_fd = (if ret < 0 then ret else file_fd);
        (_, ctx) \<leftarrow> kvs_save_write_rbtree get_sqe T (rb_left n) file_fd ctx;
        (_, ctx) \<leftarrow> kvs_save_write_rbtree get_sqe T (rb_right n) file_fd ctx;
        Some (ret, ctx) }
      else Some (0, ctx))"

fun save_chain ::
  "(nat \<Rightarrow> bool) \<Rightarrow> int \<Rightarrow> chain \<Rightarrow> int \<Rightarrow> io_write_ctx \<Rightarrow> (int \<times> int \<times> io_write_ctx) option" where
  "save_chain get_sqe file_fd [] count ctx = Some (0, count, ctx)"
| "save_chain get_sqe file_fd (node # next) count ctx = do {
     (ret, ctx) \<leftarrow> save_entry get_sqe file_fd (Some (hn_key node)) (Some (hn_value node)) KVS_HASH ctx;
     if ret \<noteq> 0 then Some (ret, count, ctx) else save_chain get_sqe file_fd next (count - 1) ctx }"

function save_hash_slots ::
  "(nat \<Rightarrow> bool) \<Rightarrow> int \<Rightarrow> hashtable_t \<Rightarrow> int \<Rightarrow> int \<Rightarrow> io_write_ctx \<Rightarrow> (int \<times> io_write_ctx) option" where
  "save_hash_slots get_sqe file_fd H_inst i count ctx =
     (if i < max_slots H_inst then do {
        node \<leftarrow> hash_slot H_inst i;
        (ret, count, ctx) \<leftarrow> save_chain get_sqe file_fd node count ctx;
        if ret \<noteq> 0 then Some (ret, ctx)
        else if count \<le> 0 then Some (0, ctx)
        else save_hash_slots get_sqe file_fd H_inst (i + 1) count ctx }
      else Some (0, ctx))"
  by pat_completeness auto
termination
  by (relation "measure (\<lambda>(g, file_fd, H, i, c, ctx). nat (max_slots H - i))") auto

declare save_hash_slots.simps [simp del]

function save_array_slots ::
  "(nat \<Rightarrow> bool) \<Rightarrow> int \<Rightarrow> kvs_array_t \<Rightarrow> nat \<Rightarrow> int \<Rightarrow> io_write_ctx \<Rightarrow> (int \<times> io_write_ctx) option" where
  "save_array_slots get_sqe file_fd inst i count ctx =
     (if i < KVS_ARRAY_SIZE then do {
        t \<leftarrow> table inst;
        it \<leftarrow> lget t i;
        (ret, count, ctx) \<leftarrow>
          (if ai_key it \<noteq> None then do {
             (ret, ctx) \<leftarrow> save_entry get_sqe file_fd (ai_key it) (ai_value it) KVS_ARRAY ctx;
             Some (ret, count - 1, ctx) }
           else Some (0, count, ctx));
        if ret \<noteq> 0 then Some (ret, ctx)
        else if count \<le> 0 then Some (0, ctx)
        else save_array_slots get_sqe file_fd inst (i + 1) count ctx }
      else Some (0, ctx))"
  by pat_completeness auto
termination
  by (relation "measure (\<lambda>(g, file_fd, a, i, c, ctx). KVS_ARRAY_SIZE - i)") auto

declare save_array_slots.simps [simp del]

partial_function (option) save_skiplist ::
  "(nat \<Rightarrow> bool) \<Rightarrow> int \<Rightarrow> SkipList \<Rightarrow> addr \<Rightarrow> io_write_ctx \<Rightarrow> (int \<times> io_write_ctx) option" where
  "save_skiplist get_sqe file_fd L_inst current ctx =
     (if current \<noteq> 0 then do {
        n \<leftarrow> sl_node (sl_mem L_inst) current;
        (ret, ctx) \<leftarrow> save_entry get_sqe file_fd (n_key n) (n_value n) KVS_SKIPLIST ctx;
        if ret \<noteq> 0 then Some (ret, ctx)
        else do { nx \<leftarrow> sl_fwd (sl_mem L_inst) 0 current; save_skiplist get_sqe file_fd L_inst nx ctx } }
      else Some (0, ctx))"

text \<open>Waiting for the outstanding writes; \<open>waited i\<close>: the \<open>i\<close>-th \<open>io_uring_wait_cqe\<close> succeeds.\<close>

partial_function (option) save_wait :: "(nat \<Rightarrow> bool) \<Rightarrow> nat \<Rightarrow> int \<Rightarrow> int option" where
  "save_wait waited i n =
     (if waited i then (if n - 1 = 0 then Some 0 else save_wait waited (Suc i) (n - 1)) else Some n)"

definition kvs_traversal_write ::
  "(nat \<Rightarrow> bool) \<Rightarrow> (nat \<Rightarrow> bool) \<Rightarrow> int \<Rightarrow> kvs_store \<Rightarrow> io_write_ctx \<Rightarrow> (int \<times> io_write_ctx) option" where
  "kvs_traversal_write get_sqe waited file_fd s ctx = do {
     (ret, ctx) \<leftarrow> kvs_save_write_rbtree get_sqe (global_rbtree s) (rb_root (global_rbtree s)) file_fd ctx;
     if ret \<noteq> 0 then Some (ret, ctx) else do {
     (ret, ctx) \<leftarrow> (if hcount (global_hash s) > 0
        then save_hash_slots get_sqe file_fd (global_hash s) 0 (hcount (global_hash s)) ctx else Some (0, ctx));
     if ret \<noteq> 0 then Some (ret, ctx) else do {
     (ret, ctx) \<leftarrow> (if total (global_array s) > 0
        then save_array_slots get_sqe file_fd (global_array s) 0 (total (global_array s)) ctx else Some (0, ctx));
     if ret \<noteq> 0 then Some (ret, ctx) else do {
     current \<leftarrow> sl_fwd (sl_mem (global_skiplist s)) 0 (header (global_skiplist s));
     (ret, ctx) \<leftarrow> save_skiplist get_sqe file_fd (global_skiplist s) current ctx;
     if ret \<noteq> 0 then Some (ret, ctx) else do {
     let ctx = io_uring_submit ctx;
     n \<leftarrow> (if tasks_count ctx \<noteq> 0 then save_wait waited 0 (tasks_count ctx) else Some (tasks_count ctx));
     Some (ret, ctx\<lparr>tasks_count := n\<rparr>) } } } } }"

text \<open>The answers of the system to one dump: \<open>ring_ok\<close> (\<open>io_uring_queue_init\<close>), the descriptor of the
  temporary file, the ring's and the allocator's answers, what the kernel writes, and whether
  \<open>rename\<close> succeeds.\<close>

record save_ans =
  ring_ok :: bool
  tmp_fd :: int
  ans_sqe :: "nat \<Rightarrow> bool"
  ans_waited :: "nat \<Rightarrow> bool"
  ans_env :: env
  ans_ready :: "nat \<Rightarrow> nat"
  kernel :: "(nat \<times> string) list \<Rightarrow> (nat \<times> string) list"
  renamed :: bool

definition main_ctx :: "save_ans \<Rightarrow> io_write_ctx" where
  "main_ctx a = \<lparr>tasks_count = 0, offset = 0, ring_prepared = [], ring_submitted = [], ring_open = 0,
     ctx_env = ans_env a, ctx_ready = ans_ready a\<rparr>"

text \<open>The file the submitted writes leave behind, on an empty temporary file.\<close>

definition written :: "save_ans \<Rightarrow> io_write_ctx \<Rightarrow> string" where
  "written a ctx = fold pwrite (kernel a (ring_submitted ctx)) []"

definition kvs_save_start :: "save_ans \<Rightarrow> kvs_store \<Rightarrow> string option \<Rightarrow> (int \<times> string option) option" where
  "kvs_save_start a s dump =
     (if \<not> ring_ok a then Some (-1, dump)
      else if tmp_fd a < 0 then Some (-2, dump)
      else do {
        (ret, ctx) \<leftarrow> kvs_traversal_write (ans_sqe a) (ans_waited a) (tmp_fd a) s (main_ctx a);
        if ret \<noteq> 0 then Some (-3, dump)
        else Some (0, if renamed a then Some (written a ctx) else dump) })"

subsection \<open>The child process\<close>

datatype kvs_save_status = SAVE_STATUS_IDLE | SAVE_STATUS_RUNNING | SAVE_STATUS_ERROR

text \<open>The variables of the source, and what the system holds for them: the children not yet waited
  for and the number of \<open>kvs_save_child_done\<close> coroutines that wait for a notification.\<close>

record save_state =
  save_status :: kvs_save_status
  kvs_save_child_pid :: int
  is_save_pending :: int
  save_children :: "int list"
  save_watchers :: nat

text \<open>The answers to \<open>kvs_fork_save_child\<close> in the parent; the child runs \<open>kvs_save_start\<close> on its copy
  of the store.\<close>

record fork_ans =
  pair_ok :: bool
  fork_pid :: int
  notify_mem :: bool

definition kvs_fork_save_child :: "fork_ans \<Rightarrow> save_state \<Rightarrow> int \<times> save_state" where
  "kvs_fork_save_child f st =
     (if \<not> pair_ok f then (-1, st)
      else if fork_pid f < 0 then (-1, st\<lparr>save_status := SAVE_STATUS_ERROR\<rparr>)
      else (let st = st\<lparr>save_status := SAVE_STATUS_RUNNING, kvs_save_child_pid := fork_pid f,
                        save_children := fork_pid f # save_children st\<rparr> in
            if \<not> notify_mem f then (-1, st\<lparr>save_status := SAVE_STATUS_ERROR\<rparr>)
            else (0, st\<lparr>save_watchers := save_watchers st + 1\<rparr>)))"

text \<open>\<open>done_recv\<close>: the byte received, if any; \<open>done_wait\<close>: the result of \<open>waitpid\<close>; \<open>done_exit\<close>: the exit
  code, if the child exited.\<close>

record done_ans =
  done_recv :: "char option"
  done_wait :: int
  done_exit :: "int option"

definition waited_for :: "int \<Rightarrow> save_state \<Rightarrow> save_state" where
  "waited_for ret st = (if ret = kvs_save_child_pid st
     then st\<lparr>save_children := removeAll ret (save_children st)\<rparr> else st)"

definition kvs_save_child_done :: "done_ans \<Rightarrow> fork_ans \<Rightarrow> save_state \<Rightarrow> save_state" where
  "kvs_save_child_done d f st =
     (let pid = kvs_save_child_pid st;
          ret = done_wait d;
          st = waited_for ret st;
          st = st\<lparr>save_status := (if done_recv d = Some (CHR ''0'') \<and> ret = pid \<and> done_exit d = Some 0
                 then SAVE_STATUS_IDLE else SAVE_STATUS_ERROR)\<rparr>;
          st = (if ret = pid then st\<lparr>kvs_save_child_pid := 0\<rparr> else st);
          st = (if is_save_pending st = 1 \<and> save_status st = SAVE_STATUS_IDLE
                then snd (kvs_fork_save_child f (st\<lparr>is_save_pending := 0\<rparr>)) else st) in
      st\<lparr>save_watchers := save_watchers st - 1\<rparr>)"

definition kvs_check_save_status :: "kvs_conf_t \<Rightarrow> done_ans \<Rightarrow> fork_ans \<Rightarrow> save_state \<Rightarrow> save_state" where
  "kvs_check_save_status conf d f st =
     (if enable_save conf = 0 then st
      else if save_status st \<noteq> SAVE_STATUS_RUNNING \<or> kvs_save_child_pid st \<le> 0 then st
      else if done_wait d < 0 then st\<lparr>kvs_save_child_pid := 0, save_status := SAVE_STATUS_ERROR\<rparr>
      else if done_wait d = kvs_save_child_pid st then
        (let st = waited_for (done_wait d) st;
             st = st\<lparr>save_status := (if done_exit d = Some 0 then SAVE_STATUS_IDLE else SAVE_STATUS_ERROR),
                     kvs_save_child_pid := 0\<rparr> in
         if is_save_pending st = 1 then snd (kvs_fork_save_child f (st\<lparr>is_save_pending := 0\<rparr>)) else st)
      else st)"

text \<open>Built for the coroutine server, which does not poll.\<close>

definition kvs_save_write :: "kvs_conf_t \<Rightarrow> fork_ans \<Rightarrow> save_state \<Rightarrow> int \<times> save_state" where
  "kvs_save_write conf f st =
     (if enable_save conf = 0 then (0, st)
      else if save_status st = SAVE_STATUS_RUNNING then (1, st\<lparr>is_save_pending := 1\<rparr>)
      else if save_status st = SAVE_STATUS_ERROR then (-1, st)
      else kvs_fork_save_child f st)"

text \<open>The events: a SAVE command, and the notification of a watched child.  \<open>fork\<close> answers in the
  parent with the identity of a new process; \<open>waitpid\<close> answers with the process asked for or fails.\<close>

inductive save_step :: "kvs_conf_t \<Rightarrow> save_state \<Rightarrow> save_state \<Rightarrow> bool" for conf where
  save_command: "fork_pid f \<noteq> 0 \<Longrightarrow> save_step conf st (snd (kvs_save_write conf f st))"
| save_notified: "0 < save_watchers st \<Longrightarrow> fork_pid f \<noteq> 0 \<Longrightarrow> done_wait d \<in> {kvs_save_child_pid st, -1} \<Longrightarrow>
    save_step conf st (kvs_save_child_done d f st)"

definition save_state0 :: save_state where
  "save_state0 = \<lparr>save_status = SAVE_STATUS_IDLE, kvs_save_child_pid = 0, is_save_pending = 0, save_children = [], save_watchers = 0\<rparr>"

subsection \<open>What the traversal writes\<close>

type_synonym entry = "kvs_engine_type \<times> string \<times> string"

definition save_frame :: "entry \<Rightarrow> string" where
  "save_frame x = (case x of (t, k, v) \<Rightarrow> kvsp_frame [save_engine_name t, k, v])"

text \<open>Entries written one after the other; the first failure ends it.\<close>

fun save_all :: "(nat \<Rightarrow> bool) \<Rightarrow> int \<Rightarrow> entry list \<Rightarrow> io_write_ctx \<Rightarrow> (int \<times> io_write_ctx) option" where
  "save_all g file_fd [] ctx = Some (0, ctx)"
| "save_all g file_fd ((t, k, v) # xs) ctx = do {
     (ret, ctx) \<leftarrow> save_entry g file_fd (Some k) (Some v) t ctx;
     if ret \<noteq> 0 then Some (ret, ctx) else save_all g file_fd xs ctx }"

lemma save_all_append:
  "save_all g file_fd (xs @ ys) ctx = do { (ret, ctx) \<leftarrow> save_all g file_fd xs ctx; if ret \<noteq> 0 then Some (ret, ctx) else save_all g file_fd ys ctx }"
  by (induction g file_fd xs ctx rule: save_all.induct) (auto split: Option.bind_split)

subsubsection \<open>The hash table\<close>

definition chain_ents :: "chain \<Rightarrow> entry list" where
  "chain_ents c = map (\<lambda>n. (KVS_HASH, hn_key n, hn_value n)) c"

definition hash_ents :: "hashtable_t \<Rightarrow> nat \<Rightarrow> entry list" where
  "hash_ents H i = concat (map (\<lambda>j. chain_ents (hash_chain H j)) [i..<nat MAX_TABLE_SIZE])"

lemma save_chain_all:
  "save_chain g file_fd c cnt ctx = do { (ret, ctx) \<leftarrow> save_all g file_fd (chain_ents c) ctx;
     Some (ret, cnt - int (length c), ctx) } \<or>
   (\<exists>ret ctx' n. ret \<noteq> 0 \<and> save_all g file_fd (chain_ents c) ctx = Some (ret, ctx') \<and> save_chain g file_fd c cnt ctx = Some (ret, n, ctx'))"
proof (induction c arbitrary: cnt ctx)
  case (Cons n c)
  show ?case
  proof (cases "save_entry g file_fd (Some (hn_key n)) (Some (hn_value n)) KVS_HASH ctx")
    case (Some rc)
    obtain ret ctx1 where rc: "rc = (ret, ctx1)" by (cases rc)
    show ?thesis using Cons.IH [of "cnt - 1" ctx1] Some rc
      by (cases "ret = 0") (auto simp: chain_ents_def algebra_simps split: Option.bind_splits)
  qed (simp add: chain_ents_def)
qed (simp add: chain_ents_def)

lemma save_hash_slots_all:
  assumes "hash_shape H" "i \<le> nat MAX_TABLE_SIZE" "cnt = int (length (hash_ents H i))"
  shows "save_hash_slots g file_fd H (int i) cnt ctx = save_all g file_fd (hash_ents H i) ctx"
  using assms(2,3)
proof (induction "nat MAX_TABLE_SIZE - i" arbitrary: i cnt ctx)
  case 0
  then have "\<not> int i < MAX_TABLE_SIZE" by linarith
  then show ?case using 0 assms(1) by (simp add: save_hash_slots.simps hash_ents_def hash_shape_def)
next
  case (Suc n)
  then have i: "i < nat MAX_TABLE_SIZE" by simp
  then have m: "int i < MAX_TABLE_SIZE" by linarith
  have h: "hash_ents H i = chain_ents (hash_chain H i) @ hash_ents H (Suc i)" using i by (simp add: hash_ents_def upt_conv_Cons)
  have sl: "hash_slot H (int i) = Some (hash_chain H i)" "max_slots H = MAX_TABLE_SIZE"
    using assms(1) i by (auto simp: hash_shape_def hash_chain_def)
  have cnt: "cnt - int (length (hash_chain H i)) = int (length (hash_ents H (Suc i)))" using Suc.prems h by (simp add: chain_ents_def)
  have IH: "save_hash_slots g file_fd H (int i + 1) (int (length (hash_ents H (Suc i)))) ctx' = save_all g file_fd (hash_ents H (Suc i)) ctx'" for ctx'
    using Suc.hyps(1) [of "Suc i" _ ctx'] Suc.hyps(2) i by (simp add: add.commute)
  show ?case unfolding save_hash_slots.simps [of _ _ _ "int i"] h save_all_append
    using save_chain_all [of g file_fd "hash_chain H i" cnt ctx] m cnt IH
    by (auto simp: sl split: Option.bind_splits)
qed

subsubsection \<open>The array\<close>

definition item_ents :: "kvs_array_item_t list \<Rightarrow> entry list" where
  "item_ents t = map (Pair KVS_ARRAY) (array_entries t)"

definition array_ents :: "kvs_array_t \<Rightarrow> entry list" where
  "array_ents a = (case table a of None \<Rightarrow> [] | Some t \<Rightarrow> item_ents t)"

lemma save_array_slots_all:
  assumes "table a = Some t" "length t = KVS_ARRAY_SIZE" "\<And>it. it \<in> set t \<Longrightarrow> ai_key it = None \<longleftrightarrow> ai_value it = None"
    and "i \<le> KVS_ARRAY_SIZE" "cnt = int (length (item_ents (drop i t)))"
  shows "save_array_slots g file_fd a i cnt ctx = save_all g file_fd (item_ents (drop i t)) ctx"
  using assms(4,5)
proof (induction "KVS_ARRAY_SIZE - i" arbitrary: i cnt ctx)
  case 0
  then show ?case using assms(2) by (simp add: save_array_slots.simps item_ents_def array_entries_def List.map_filter_def)
next
  case (Suc n)
  then have i: "i < KVS_ARRAY_SIZE" by simp
  have d: "drop i t = t ! i # drop (Suc i) t" using i assms(2) by (simp add: Cons_nth_drop_Suc)
  have it: "ai_key (t ! i) = None \<longleftrightarrow> ai_value (t ! i) = None" using assms(2,3) i by simp
  have IH: "save_array_slots g file_fd a (Suc i) (int (length (item_ents (drop (Suc i) t)))) ctx' = save_all g file_fd (item_ents (drop (Suc i) t)) ctx'" for ctx'
    using Suc.hyps(1) [of "Suc i" _ ctx'] Suc.hyps(2) i by simp
  have l: "lget t i = Some (t ! i)" using i assms(2) by (simp add: lget_def)
  show ?case
  proof (cases "ai_key (t ! i)")
    case None
    then have "item_ents (drop i t) = item_ents (drop (Suc i) t)" using d it by (simp add: item_ents_def array_entries_def List.map_filter_def array_entry_def)
    then show ?thesis using None i l IH Suc.prems(2) assms(1) unfolding save_array_slots.simps [of _ _ _ i] by simp
  next
    case (Some k)
    then obtain v where v: "ai_value (t ! i) = Some v" using it by auto
    then have "item_ents (drop i t) = (KVS_ARRAY, k, v) # item_ents (drop (Suc i) t)"
      using d Some by (simp add: item_ents_def array_entries_def List.map_filter_def array_entry_def)
    then show ?thesis using Some v i l IH Suc.prems(2) assms(1) unfolding save_array_slots.simps [of _ _ _ i]
      by (auto split: Option.bind_splits)
  qed
qed

subsubsection \<open>The skip list\<close>

definition skiplist_ents :: "SkipList \<Rightarrow> entry list" where
  "skiplist_ents l = map (Pair KVS_SKIPLIST) (sl_entries l)"

lemma save_skiplist_all:
  assumes "sl_chain (sl_fwd (sl_mem l) 0) p xs" "\<forall>x \<in> set xs. sl_node_ok (sl_mem l) (sl_level l) x"
  shows "\<exists>q. sl_fwd (sl_mem l) 0 p = Some q \<and> save_skiplist g file_fd l q ctx =
    save_all g file_fd (map (\<lambda>p. (KVS_SKIPLIST, sl_keyof (sl_mem l) p, sl_valof (sl_mem l) p)) xs) ctx"
  using assms
proof (induction xs arbitrary: p ctx)
  case Nil
  then show ?case by (simp add: save_skiplist.simps)
next
  case (Cons x xs)
  from Cons.prems(2) obtain n k v where n: "sl_node (sl_mem l) x = Some n" "n_key n = Some k" "n_value n = Some v"
    by (auto simp: sl_node_ok_def split: option.splits)
  have "\<exists>q. sl_fwd (sl_mem l) 0 x = Some q \<and> save_skiplist g file_fd l q ctx' =
    save_all g file_fd (map (\<lambda>p. (KVS_SKIPLIST, sl_keyof (sl_mem l) p, sl_valof (sl_mem l) p)) xs) ctx'" for ctx'
    using Cons.IH [of x ctx'] Cons.prems by simp
  then show ?case using Cons.prems(1) n
    by (auto simp: save_skiplist.simps [of _ _ _ x] sl_keyof_def sl_valof_def split: Option.bind_splits)
qed

lemma save_skiplist_ents:
  assumes "sl_invar l"
  shows "\<exists>q. sl_fwd (sl_mem l) 0 (header l) = Some q \<and> save_skiplist g file_fd l q ctx = save_all g file_fd (skiplist_ents l) ctx"
proof -
  note ok = assms [unfolded sl_invar_def sl_ok_def]
  then have nodes: "\<forall>x \<in> set (sl_addrs l). sl_node_ok (sl_mem l) (sl_level l) x" by blast
  moreover have "sl_chain (sl_fwd (sl_mem l) 0) (header l) (sl_tall (sl_mem l) 0 (sl_addrs l))" using ok by blast
  moreover have "sl_tall (sl_mem l) 0 (sl_addrs l) = sl_addrs l"
    unfolding sl_tall_def by (rule filter_True) (use nodes in \<open>auto simp: sl_node_ok_def sl_height_def split: option.splits\<close>)
  ultimately show ?thesis using save_skiplist_all [of l "header l" "sl_addrs l"] by (simp add: skiplist_ents_def sl_entries_def comp_def)
qed

subsection \<open>A dump with memory to spare\<close>

lemma build_save_frame:
  assumes "int (length (kvsp_frame [save_engine_name t, k, v])) < INT_MAX"
  shows "build_save_protocol e (Some k) (Some v) t =
    Some (if mem e 0 then Some (kvsp_frame [save_engine_name t, k, v], int (length (kvsp_frame [save_engine_name t, k, v]))) else None)"
proof -
  define body where "body = kvsp_tok (save_engine_name t) @ kvsp_tok k @ kvsp_tok v @ CRLF"
  have f: "kvsp_frame [save_engine_name t, k, v] = (''#'' @ dec (length body) @ CRLF) @ body"
    by (simp add: kvsp_frame_def kvsp_head_def body_def)
  have "int (length body) \<le> INT_MAX" using assms unfolding f by simp
  then show ?thesis using assms unfolding f build_save_protocol_def Let_def option.case prod.case body_def [symmetric] nat_int by simp
qed

definition ctx_writes :: "io_write_ctx \<Rightarrow> (nat \<times> string) list" where
  "ctx_writes ctx = ring_submitted ctx @ ring_prepared ctx"

text \<open>The counter is the number of writes prepared or under way, and no more than \<open>TARGET_LENGTH\<close> are
  prepared at a time, half of what the ring has room for.\<close>

definition save_ok :: "io_write_ctx \<Rightarrow> bool" where
  "save_ok ctx \<longleftrightarrow> mem_ok (ctx_env ctx) \<and> tasks_count ctx = int (length (ring_prepared ctx) + ring_open ctx) \<and>
     length (ring_prepared ctx) \<le> TARGET_LENGTH"

definition entry_ok :: "entry \<Rightarrow> bool" where
  "entry_ok x \<longleftrightarrow> (case x of (t, k, v) \<Rightarrow> cstring k \<and> cstring v \<and> int (length (save_frame x)) < INT_MAX)"

fun place :: "nat \<Rightarrow> string list \<Rightarrow> (nat \<times> string) list" where
  "place n [] = []"
| "place n (f # fs) = (n, f) # place (n + length f) fs"

lemma kvs_io_uring_write_ok:
  assumes "save_ok ctx" "\<forall>n < ENTRY_LENGTH. g n" "0 \<le> file_fd" "b \<noteq> []"
  shows "\<exists>ctx'. kvs_io_uring_write g file_fd (Some (b, int (length b))) ctx = (0, ctx') \<and> save_ok ctx' \<and>
    ctx_writes ctx' = ctx_writes ctx @ [(offset ctx, b)] \<and> offset ctx' = offset ctx + length b"
proof -
  define ctx1 where "ctx1 = ctx\<lparr>ctx_env := env_skip 1 (ctx_env ctx)\<rparr>"
  define ctx2 where "ctx2 = (if tasks_count ctx1 \<ge> int TARGET_LENGTH then io_uring_submit ctx1 else ctx1)"
  define ctx3 where "ctx3 = io_uring_reap ctx2"
  have 1: "mem_ok (ctx_env ctx1)" "tasks_count ctx1 = int (length (ring_prepared ctx1) + ring_open ctx1)" "ctx_writes ctx1 = ctx_writes ctx" "offset ctx1 = offset ctx"
    using assms(1) by (simp_all add: ctx1_def save_ok_def ctx_writes_def)
  then have 2: "mem_ok (ctx_env ctx2)" "tasks_count ctx2 = int (length (ring_prepared ctx2) + ring_open ctx2)" "ctx_writes ctx2 = ctx_writes ctx" "offset ctx2 = offset ctx"
    "length (ring_prepared ctx2) < TARGET_LENGTH"
    by (auto simp: ctx2_def io_uring_submit_def ctx_writes_def TARGET_LENGTH_def)
  then have 3: "mem_ok (ctx_env ctx3)" "tasks_count ctx3 = int (length (ring_prepared ctx3) + ring_open ctx3)" "ctx_writes ctx3 = ctx_writes ctx" "offset ctx3 = offset ctx"
    "length (ring_prepared ctx3) < TARGET_LENGTH"
    by (auto simp: ctx3_def io_uring_reap_def ctx_writes_def Let_def of_nat_diff min_def)
  then have "g (length (ring_prepared ctx3))" using assms(2) by (simp add: TARGET_LENGTH_def ENTRY_LENGTH_def)
  moreover have "mem (ctx_env ctx) 0" using assms(1) by (simp add: save_ok_def mem_ok_def)
  ultimately have "kvs_io_uring_write g file_fd (Some (b, int (length b))) ctx =
    (0, ctx3\<lparr>tasks_count := tasks_count ctx3 + 1, ring_prepared := ring_prepared ctx3 @ [(offset ctx3, b)], offset := offset ctx3 + length b\<rparr>)"
    using assms(3,4)
    unfolding kvs_io_uring_write_def Let_def ctx1_def [symmetric] ctx2_def [symmetric] ctx3_def [symmetric] by simp
  then show ?thesis using 3 by (auto simp: save_ok_def ctx_writes_def)
qed

lemma save_entry_ok:
  assumes "save_ok ctx" "\<forall>n < ENTRY_LENGTH. g n" "0 \<le> file_fd" "entry_ok (t, k, v)"
  shows "\<exists>ctx'. save_entry g file_fd (Some k) (Some v) t ctx = Some (0, ctx') \<and> save_ok ctx' \<and>
    ctx_writes ctx' = ctx_writes ctx @ [(offset ctx, save_frame (t, k, v))] \<and> offset ctx' = offset ctx + length (save_frame (t, k, v))"
proof -
  let ?ctx = "ctx\<lparr>ctx_env := env_skip 1 (ctx_env ctx)\<rparr>"
  have "save_ok ?ctx" "ctx_writes ?ctx = ctx_writes ctx" "offset ?ctx = offset ctx" using assms(1) by (simp_all add: save_ok_def ctx_writes_def)
  moreover have "save_frame (t, k, v) \<noteq> []" by (simp add: save_frame_def kvsp_frame_def kvsp_head_def)
  ultimately show ?thesis
    using kvs_io_uring_write_ok [of ?ctx g file_fd "save_frame (t, k, v)"] assms build_save_frame [of t k v "ctx_env ctx"]
    by (simp add: save_entry_def save_frame_def entry_ok_def save_ok_def mem_ok_def)
qed

lemma save_all_ok:
  assumes "save_ok ctx" "\<forall>n < ENTRY_LENGTH. g n" "0 \<le> file_fd" "\<forall>x \<in> set xs. entry_ok x"
  shows "\<exists>ctx'. save_all g file_fd xs ctx = Some (0, ctx') \<and> save_ok ctx' \<and>
    ctx_writes ctx' = ctx_writes ctx @ place (offset ctx) (map save_frame xs) \<and> offset ctx' = offset ctx + length (concat (map save_frame xs))"
  using assms(1,4)
proof (induction xs arbitrary: ctx)
  case (Cons x xs)
  obtain t k v where x: "x = (t, k, v)" by (cases x)
  from save_entry_ok [OF Cons.prems(1) assms(2,3), of t k v] Cons.prems(2) x obtain ctx1 where
    1: "save_entry g file_fd (Some k) (Some v) t ctx = Some (0, ctx1)" "save_ok ctx1"
    "ctx_writes ctx1 = ctx_writes ctx @ [(offset ctx, save_frame x)]" "offset ctx1 = offset ctx + length (save_frame x)" by auto
  with Cons.IH [OF 1(2)] Cons.prems(2) x show ?case by auto
qed simp

subsubsection \<open>The tree\<close>

fun preorder :: "tr \<Rightarrow> addr list" where
  "preorder L = []"
| "preorder (N l a c r) = a # preorder l @ preorder r"

lemma set_preorder: "set (preorder t) = set (io t)"
  by (induction t) auto

lemma distinct_preorder: "distinct (map f (io t)) \<Longrightarrow> distinct (map f (preorder t))"
  by (induction t) (auto simp: set_preorder)

definition node_ent :: "rbtree \<Rightarrow> addr \<Rightarrow> entry" where
  "node_ent T a = (KVS_RBTREE, kof T a, the (vof T a))"

lemma save_rbtree_ok:
  assumes "rep T p t" "rb_nil T \<notin> set (io t)" "\<forall>a \<in> set (io t). get_data T a = Some (Some (kof T a), Some (the (vof T a)))"
    and "save_ok ctx" "\<forall>n < ENTRY_LENGTH. g n" "0 \<le> file_fd" "\<forall>a \<in> set (io t). entry_ok (node_ent T a)"
  shows "kvs_save_write_rbtree g T (ptr T t) file_fd ctx = save_all g file_fd (map (node_ent T) (preorder t)) ctx"
  using assms(1-4,7)
proof (induction t arbitrary: p ctx)
  case L
  then show ?case using assms(6) by (simp add: kvs_save_write_rbtree.simps)
next
  case (N l a c r)
  obtain n where n: "rb_get T a = Some n" "rb_key n = Some (kof T a)" "rb_value n = Some (the (vof T a))" "rb_left n = ptr T l" "rb_right n = ptr T r"
    using N.prems by (auto simp: getter_defs)
  obtain ctx1 where 1: "save_entry g file_fd (Some (kof T a)) (Some (the (vof T a))) KVS_RBTREE ctx = Some (0, ctx1)" "save_ok ctx1"
    using save_entry_ok [OF N.prems(4) assms(5,6), of KVS_RBTREE "kof T a" "the (vof T a)"] N.prems(5) by (auto simp: node_ent_def)
  have l: "kvs_save_write_rbtree g T (ptr T l) file_fd ctx1 = save_all g file_fd (map (node_ent T) (preorder l)) ctx1"
    using N.IH(1) [of a ctx1] N.prems 1(2) by auto
  obtain ctx2 where 2: "save_all g file_fd (map (node_ent T) (preorder l)) ctx1 = Some (0, ctx2)" "save_ok ctx2"
    using save_all_ok [OF 1(2) assms(5,6), of "map (node_ent T) (preorder l)"] N.prems(5) by (auto simp: set_preorder)
  have r: "kvs_save_write_rbtree g T (ptr T r) file_fd ctx2 = save_all g file_fd (map (node_ent T) (preorder r)) ctx2"
    using N.IH(2) [of a ctx2] N.prems 2(2) by auto
  obtain ctx3 where 3: "save_all g file_fd (map (node_ent T) (preorder r)) ctx2 = Some (0, ctx3)"
    using save_all_ok [OF 2(2) assms(5,6), of "map (node_ent T) (preorder r)"] N.prems(5) by (auto simp: set_preorder)
  have "a \<noteq> rb_nil T" using N.prems(2) by auto
  then show ?case using assms(6) 1 2 3 l r n by (simp add: kvs_save_write_rbtree.simps [of _ _ a] node_ent_def [of T a] save_all_append)
qed

subsubsection \<open>The four engines\<close>

text \<open>The entries list the maps: every stored pair once.\<close>

definition lists_maps :: "entry list \<Rightarrow> store_maps \<Rightarrow> bool" where
  "lists_maps xs M \<longleftrightarrow> distinct (map (\<lambda>(t, k, v). (t, k)) xs) \<and> (\<forall>t k v. (t, k, v) \<in> set xs \<longleftrightarrow> M t k = Some v)"

definition lists_map :: "kvs_engine_type \<Rightarrow> entry list \<Rightarrow> kvmap \<Rightarrow> bool" where
  "lists_map t xs m \<longleftrightarrow> (\<forall>x \<in> set xs. fst x = t) \<and> distinct (map (fst \<circ> snd) xs) \<and> (\<forall>k v. (t, k, v) \<in> set xs \<longleftrightarrow> m k = Some v)"

lemma lists_map_alist:
  assumes "distinct (map fst kvs)" "m = map_of kvs"
  shows "lists_map t (map (Pair t) kvs) m"
  using assms by (auto simp: lists_map_def map_of_eq_Some_iff image_iff comp_def)

lemma lists_map_card: "lists_map t xs m \<Longrightarrow> card (dom m) = length xs"
proof -
  assume l: "lists_map t xs m"
  have "set (map (fst \<circ> snd) xs) = dom m"
  proof (intro set_eqI iffI)
    show "k \<in> dom m" if "k \<in> set (map (fst \<circ> snd) xs)" for k using that l by (fastforce simp: lists_map_def)
    show "k \<in> set (map (fst \<circ> snd) xs)" if "k \<in> dom m" for k
    proof -
      from that obtain v where "m k = Some v" by blast
      then have "(t, k, v) \<in> set xs" using l by (simp add: lists_map_def)
      then show ?thesis by force
    qed
  qed
  then show ?thesis using l distinct_card [of "map (fst \<circ> snd) xs"] by (simp add: lists_map_def)
qed

lemma hash_lists:
  assumes "hash_shape H"
  shows "lists_map KVS_HASH (hash_ents H 0) (hash_lookup H)"
proof -
  have ok: "chain_ok i (hash_chain H i)" if "i < nat MAX_TABLE_SIZE" for i using assms that by (simp add: hash_shape_def)
  have mem: "(KVS_HASH, k, v) \<in> set (hash_ents H i) \<longleftrightarrow>
      (\<exists>j. i \<le> j \<and> j < nat MAX_TABLE_SIZE \<and> (\<exists>n \<in> set (hash_chain H j). hn_key n = k \<and> hn_value n = v))" for k v i
    by (auto simp: hash_ents_def chain_ents_def)
  have "(KVS_HASH, k, v) \<in> set (hash_ents H 0) \<longleftrightarrow> hash_lookup H k = Some v" for k v
  proof -
    have ix: "hash_ix k < nat MAX_TABLE_SIZE" by (rule hash_key_ix(2))
    have "(\<exists>j. j < nat MAX_TABLE_SIZE \<and> (\<exists>n \<in> set (hash_chain H j). hn_key n = k \<and> hn_value n = v)) \<longleftrightarrow>
        (\<exists>n \<in> set (hash_chain H (hash_ix k)). hn_key n = k \<and> hn_value n = v)" using ok ix by (auto simp: chain_ok_def)
    also have "\<dots> \<longleftrightarrow> map_of (map (\<lambda>n. (hn_key n, hn_value n)) (hash_chain H (hash_ix k))) k = Some v"
      using ok [OF ix] by (subst map_of_eq_Some_iff) (auto simp: chain_ok_def comp_def)
    finally show ?thesis using mem [of k v 0] by (simp add: hash_lookup_def chain_get_map_of)
  qed
  moreover have "distinct (map (fst \<circ> snd) (hash_ents H i))" if "i \<le> nat MAX_TABLE_SIZE" for i
    using that
  proof (induction "nat MAX_TABLE_SIZE - i" arbitrary: i)
    case (Suc n)
    then have i: "i < nat MAX_TABLE_SIZE" by simp
    then have h: "hash_ents H i = chain_ents (hash_chain H i) @ hash_ents H (Suc i)" by (simp add: hash_ents_def upt_conv_Cons)
    have "map (fst \<circ> snd) (chain_ents (hash_chain H i)) = map hn_key (hash_chain H i)" by (simp add: chain_ents_def comp_def)
    moreover have "distinct (map hn_key (hash_chain H i))" using ok [OF i] by (simp add: chain_ok_def)
    moreover have "hash_ix k = i" if "k \<in> hn_key ` set (hash_chain H i)" for k using ok [OF i] that by (auto simp: chain_ok_def)
    moreover have "i < hash_ix k" if "k \<in> (fst \<circ> snd) ` set (hash_ents H (Suc i))" for k
      using that ok by (fastforce simp: hash_ents_def chain_ents_def chain_ok_def)
    ultimately show ?case using Suc.hyps(1) [of "Suc i"] Suc.hyps(2) i unfolding h by fastforce
  qed (simp add: hash_ents_def)
  ultimately show ?thesis by (auto simp: lists_map_def) (auto simp: hash_ents_def chain_ents_def)
qed

lemma rb_lists:
  assumes "rb_tree T t" "\<forall>a \<in> set (io t). vof T a \<noteq> None"
  shows "lists_map KVS_RBTREE (map (node_ent T) (preorder t)) (rb_lookup T)"
proof -
  have d: "distinct (map (kof T) (io t))" using assms(1) keyed_distinct by (auto simp: rb_tree_def)
  then have "distinct (map fst (ents T (io t)))" by (simp add: ents_def comp_def)
  then have m: "map_of (ents T (io t)) k = Some w \<longleftrightarrow> (\<exists>a \<in> set (io t). k = kof T a \<and> w = vof T a)" for k w
    by (simp add: ents_def image_iff)
  have "rb_lookup T k = Some v \<longleftrightarrow> map_of (ents T (io t)) k = Some (Some v)" for k v
    by (simp add: rb_lookup_ents [OF assms(1)] split: option.splits)
  moreover have "Some v = vof T a \<longleftrightarrow> v = the (vof T a)" if "a \<in> set (io t)" for a v using assms(2) that by force
  ultimately have "(KVS_RBTREE, k, v) \<in> set (map (node_ent T) (preorder t)) \<longleftrightarrow> rb_lookup T k = Some v" for k v
    unfolding m by (auto simp: node_ent_def set_preorder image_iff)
  moreover have "distinct (map (fst \<circ> snd) (map (node_ent T) (preorder t)))"
    using distinct_preorder [OF d] by (simp add: node_ent_def comp_def)
  ultimately show ?thesis by (simp only: lists_map_def) (simp add: node_ent_def)
qed

lemma array_lists: "array_invar a \<Longrightarrow> lists_map KVS_ARRAY (array_ents a) (array_lookup a)"
  by (auto simp: array_ents_def item_ents_def array_invar_def array_lookup_def intro: lists_map_alist split: option.splits)

lemma sl_lists: "sl_invar l \<Longrightarrow> lists_map KVS_SKIPLIST (skiplist_ents l) (sl_lookup l)"
  unfolding skiplist_ents_def
  by (rule lists_map_alist)
     (auto simp: sl_lookup_def sl_entries_def sl_invar_def sl_ok_def comp_def strict_sorted_iff)

lemma lists_maps_union:
  assumes "lists_map KVS_RBTREE r (M KVS_RBTREE)" "lists_map KVS_HASH h (M KVS_HASH)"
    "lists_map KVS_ARRAY a (M KVS_ARRAY)" "lists_map KVS_SKIPLIST l (M KVS_SKIPLIST)"
  shows "lists_maps (r @ h @ a @ l) M"
proof -
  let ?key = "\<lambda>(t, k, v). (t, k)"
  have d: "distinct (map ?key xs)" if "lists_map t xs m" for t m and xs :: "entry list"
  proof -
    have "map snd (map ?key xs) = map (fst \<circ> snd) xs" by (rule nth_equalityI) (auto simp: split_beta)
    then have "distinct (map snd (map ?key xs))" using that by (simp only: lists_map_def)
    then show ?thesis unfolding distinct_map [of snd] by blast
  qed
  have f: "fst x = t" if "lists_map t xs m" "x \<in> set xs" for t m x and xs :: "entry list" using that by (simp add: lists_map_def)
  have g: "(u, k, v) \<in> set xs \<longleftrightarrow> u = t \<and> m k = Some v" if "lists_map t xs m" for t u m k v and xs :: "entry list"
    using that f [OF that, of "(u, k, v)"] by (auto simp: lists_map_def)
  have disj: "set (map ?key xs) \<inter> set (map ?key ys) = {}" if "lists_map t xs m" "lists_map u ys n" "t \<noteq> u"
    for t u m n and xs ys :: "entry list"
    using f [OF that(1)] f [OF that(2)] that(3) by fastforce
  note A = assms
  have "(t, k, v) \<in> set (r @ h @ a @ l) \<longleftrightarrow> M t k = Some v" for t k v
    by (cases t) (simp_all add: g [OF A(1)] g [OF A(2)] g [OF A(3)] g [OF A(4)])
  moreover have "distinct (map ?key (r @ h @ a @ l))"
    using d [OF A(1)] d [OF A(2)] d [OF A(3)] d [OF A(4)] disj [OF A(1,2)] disj [OF A(1,3)] disj [OF A(1,4)] disj [OF A(2,3)] disj [OF A(2,4)] disj [OF A(3,4)]
    unfolding map_append distinct_append set_append Int_Un_distrib by simp
  ultimately show ?thesis by (simp add: lists_maps_def)
qed

lemma save_wait_ok: "0 < n \<Longrightarrow> \<forall>i. waited i \<Longrightarrow> save_wait waited i n = Some 0"
proof (induction "nat n" arbitrary: n i)
  case (Suc m)
  then show ?case by (cases "n = 1") (auto simp: save_wait.simps [of _ i])
qed simp

definition dumpable :: "store_maps \<Rightarrow> bool" where
  "dumpable M \<longleftrightarrow> (\<forall>t k v. M t k = Some v \<longrightarrow> entry_ok (t, k, v))"

lemma lists_entry_ok: "lists_maps xs M \<Longrightarrow> dumpable M \<Longrightarrow> \<forall>x \<in> set xs. entry_ok x"
  by (auto simp: lists_maps_def dumpable_def)

lemma lists_map_empty: "lists_map t xs Map.empty \<Longrightarrow> xs = []"
  by (cases xs) (auto simp: lists_map_def, blast)

lemma store_tree:
  assumes "store_invar s" "dumpable (store_map s)" "T = global_rbtree s"
  obtains t where "lists_map KVS_RBTREE (map (node_ent T) (preorder t)) (store_map s KVS_RBTREE)"
    "rep T (rb_nil T) t" "rb_nil T \<notin> set (io t)" "rb_root T = ptr T t"
    "\<forall>a \<in> set (io t). get_data T a = Some (Some (kof T a), Some (the (vof T a)))" "\<forall>a \<in> set (io t). entry_ok (node_ent T a)"
proof -
  obtain t where t: "rb_tree T t" "\<forall>a \<in> set (io t). vof T a \<noteq> None"
    using assms(1,3) by (auto simp: store_invar_def rb_invar_def)
  have l: "lists_map KVS_RBTREE (map (node_ent T) (preorder t)) (store_map s KVS_RBTREE)" using rb_lists [OF t] assms(3) by simp
  then have "\<forall>x \<in> set (map (node_ent T) (preorder t)). entry_ok x"
    using assms(2) unfolding lists_map_def dumpable_def by (metis prod.collapse)
  then have e: "\<forall>a \<in> set (io t). entry_ok (node_ent T a)" by (simp add: set_preorder)
  have w: "rep T (rb_nil T) t" "rb_nil T \<notin> set (io t)" "rb_root T = ptr T t" "\<forall>a \<in> set (io t). get_data T a = Some (Some (kof T a), vof T a)"
    using t(1) by (auto simp: rb_tree_def rbwf_def keyed_def)
  have "\<forall>a \<in> set (io t). get_data T a = Some (Some (kof T a), Some (the (vof T a)))" using w(4) t(2) by auto
  with that [OF l w(1-3) _ e] show ?thesis .
qed

text \<open>One engine after the other.\<close>

lemma traversal_engines:
  assumes s: "store_invar s" "dumpable (store_map s)" and c: "save_ok ctx" "\<forall>n < ENTRY_LENGTH. g n" "0 \<le> file_fd"
  shows "\<exists>r. lists_map KVS_RBTREE r (store_map s KVS_RBTREE) \<and>
      kvs_save_write_rbtree g (global_rbtree s) (rb_root (global_rbtree s)) file_fd ctx = save_all g file_fd r ctx"
    and "(if hcount (global_hash s) > 0 then save_hash_slots g file_fd (global_hash s) 0 (hcount (global_hash s)) ctx' else Some (0, ctx'))
      = save_all g file_fd (hash_ents (global_hash s) 0) ctx'"
    and "(if total (global_array s) > 0 then save_array_slots g file_fd (global_array s) 0 (total (global_array s)) ctx' else Some (0, ctx'))
      = save_all g file_fd (array_ents (global_array s)) ctx'"
proof -
  from store_tree [OF s refl] obtain t where t: "lists_map KVS_RBTREE (map (node_ent (global_rbtree s)) (preorder t)) (store_map s KVS_RBTREE)"
    "rep (global_rbtree s) (rb_nil (global_rbtree s)) t" "rb_nil (global_rbtree s) \<notin> set (io t)" "rb_root (global_rbtree s) = ptr (global_rbtree s) t"
    "\<forall>a \<in> set (io t). get_data (global_rbtree s) a = Some (Some (kof (global_rbtree s) a), Some (the (vof (global_rbtree s) a)))"
    "\<forall>a \<in> set (io t). entry_ok (node_ent (global_rbtree s) a)" .
  show "\<exists>r. lists_map KVS_RBTREE r (store_map s KVS_RBTREE) \<and>
      kvs_save_write_rbtree g (global_rbtree s) (rb_root (global_rbtree s)) file_fd ctx = save_all g file_fd r ctx"
    using save_rbtree_ok [OF t(2,3,5) c t(6)] t(1,4) by auto
  have h: "hash_shape (global_hash s)" "hcount (global_hash s) = int (length (hash_ents (global_hash s) 0))"
    using s(1) lists_map_card [OF hash_lists, of "global_hash s"] by (auto simp: store_invar_def hash_invar_def)
  show "(if hcount (global_hash s) > 0 then save_hash_slots g file_fd (global_hash s) 0 (hcount (global_hash s)) ctx' else Some (0, ctx'))
      = save_all g file_fd (hash_ents (global_hash s) 0) ctx'"
    using save_hash_slots_all [OF h(1) _ h(2), of g file_fd ctx'] h(2) by auto
  obtain t where t: "table (global_array s) = Some t" "length t = KVS_ARRAY_SIZE" "\<And>it. it \<in> set t \<Longrightarrow> ai_key it = None \<longleftrightarrow> ai_value it = None"
    "total (global_array s) = int (length (array_entries t))"
    using s(1) unfolding store_invar_def by (elim conjE array_invarE) blast
  show "(if total (global_array s) > 0 then save_array_slots g file_fd (global_array s) 0 (total (global_array s)) ctx' else Some (0, ctx'))
      = save_all g file_fd (array_ents (global_array s)) ctx'"
    using save_array_slots_all [OF t(1-3), of 0 _ g file_fd ctx'] t by (auto simp: array_ents_def item_ents_def)
qed

lemma traversal_writes:
  assumes s: "store_invar s" "dumpable (store_map s)" and c: "save_ok ctx" "\<forall>n < ENTRY_LENGTH. g n" "0 \<le> file_fd" and w: "\<forall>i. waited i"
  shows "\<exists>xs ctx'. kvs_traversal_write g waited file_fd s ctx = Some (0, ctx') \<and> lists_maps xs (store_map s) \<and>
    ring_submitted ctx' = ctx_writes ctx @ place (offset ctx) (map save_frame xs)"
proof -
  obtain r where r: "lists_map KVS_RBTREE r (store_map s KVS_RBTREE)"
    "kvs_save_write_rbtree g (global_rbtree s) (rb_root (global_rbtree s)) file_fd ctx = save_all g file_fd r ctx"
    using traversal_engines(1) [OF s c] by blast
  let ?h = "hash_ents (global_hash s) 0" and ?a = "array_ents (global_array s)" and ?l = "skiplist_ents (global_skiplist s)"
  have inv: "hash_shape (global_hash s)" "array_invar (global_array s)" "sl_invar (global_skiplist s)" using s(1) by (auto simp: store_invar_def hash_invar_def)
  have xs: "lists_maps (r @ ?h @ ?a @ ?l) (store_map s)"
    by (rule lists_maps_union) (use r(1) hash_lists [OF inv(1)] array_lists [OF inv(2)] sl_lists [OF inv(3)] in simp_all)
  obtain ctx4 where all: "save_all g file_fd (r @ ?h @ ?a @ ?l) ctx = Some (0, ctx4)" "save_ok ctx4"
    "ctx_writes ctx4 = ctx_writes ctx @ place (offset ctx) (map save_frame (r @ ?h @ ?a @ ?l))"
    using save_all_ok [OF c lists_entry_ok [OF xs s(2)]] by auto
  obtain q where q: "sl_fwd (sl_mem (global_skiplist s)) 0 (header (global_skiplist s)) = Some q" "\<And>ctx'. save_skiplist g file_fd (global_skiplist s) q ctx' = save_all g file_fd ?l ctx'"
    using save_skiplist_ents [OF inv(3), of g file_fd] by (metis option.inject)
  from all(1) obtain ctx1 ctx2 ctx3 where p: "save_all g file_fd r ctx = Some (0, ctx1)" "save_all g file_fd ?h ctx1 = Some (0, ctx2)"
    "save_all g file_fd ?a ctx2 = Some (0, ctx3)" "save_all g file_fd ?l ctx3 = Some (0, ctx4)"
    by (auto simp: save_all_append split: Option.bind_splits if_splits)
  define n where "n = tasks_count (io_uring_submit ctx4)"
  have "0 \<le> n" using all(2) by (simp add: n_def io_uring_submit_def save_ok_def)
  then have "\<exists>m. (if n \<noteq> 0 then save_wait waited 0 n else Some n) = Some m" using save_wait_ok [OF _ w, of n] by auto
  then obtain m where "(if n \<noteq> 0 then save_wait waited 0 n else Some n) = Some m" by blast
  then have "kvs_traversal_write g waited file_fd s ctx = Some (0, (io_uring_submit ctx4)\<lparr>tasks_count := m\<rparr>)"
    using p q r(2) traversal_engines(2,3) [OF s c] unfolding n_def by (simp add: kvs_traversal_write_def Let_def)
  moreover have "ring_submitted (io_uring_submit ctx4) = ctx_writes ctx4" by (simp add: io_uring_submit_def ctx_writes_def)
  ultimately show ?thesis using xs all(3) by auto
qed

subsection \<open>The dump file\<close>

lemma consecutive_place: "consecutive (place n fs) (n + length (concat fs))"
proof (induction fs arbitrary: n)
  case (Cons f fs)
  have "n + length f \<le> fst v" if "v \<in> set (place (n + length f) fs)" for v
  proof -
    have "m \<le> fst v" if "v \<in> set (place m gs)" for m gs using that by (induction gs arbitrary: m) fastforce+
    then show ?thesis using that by blast
  qed
  then show ?case using Cons.IH [of "n + length f"] by (simp add: add.assoc)
qed simp

lemma fold_pwrite_place: "fold pwrite (place (length f) fs) f = f @ concat fs"
proof (induction fs arbitrary: f)
  case (Cons b fs)
  then show ?case using Cons.IH [of "f @ b"] by (simp add: pwrite_append)
qed simp

text \<open>Writes that do not overlap may be carried out in any order.\<close>

lemma fold_pwrite_order:
  assumes "consecutive ws n" "distinct ws" "distinct vs" "set vs = set ws"
  shows "fold pwrite vs f = fold pwrite ws f"
  using assms
proof (induction ws arbitrary: vs f)
  case (Cons w ws)
  then obtain us us' where vs: "vs = us @ w # us'" using split_list [of w vs] by auto
  have "set (us @ us') = set ws" using Cons.prems(2-4) unfolding vs by auto
  moreover have "distinct (us @ us')" using Cons.prems(3) by (simp add: vs)
  ultimately have "fold pwrite (us @ us') (pwrite w f) = fold pwrite ws (pwrite w f)"
    using Cons.IH [of "us @ us'"] Cons.prems by simp
  moreover have "fold pwrite us (pwrite w f) = pwrite w (fold pwrite us f)"
    using consecutive_apart [of "[]" w ws n] Cons.prems(1) \<open>set (us @ us') = set ws\<close> by (intro fold_pwrite_pull) auto
  ultimately show ?case by (simp add: vs)
qed simp

lemma distinct_place: "[] \<notin> set fs \<Longrightarrow> distinct (place n fs)"
proof (induction fs arbitrary: n)
  case (Cons f fs)
  have "m \<le> fst v" if "v \<in> set (place m gs)" for v m gs using that by (induction gs arbitrary: m) fastforce+
  then have "(n, f) \<notin> set (place (n + length f) fs)" using Cons.prems by fastforce
  then show ?case using Cons by simp
qed simp

text \<open>What is relied on of the system: the ring finds an entry while fewer than \<open>ENTRY_LENGTH\<close> are
  prepared, waiting succeeds, and the kernel carries out every submitted write, in some order.\<close>

definition save_system_ok :: "save_ans \<Rightarrow> bool" where
  "save_system_ok a \<longleftrightarrow> ring_ok a \<and> 0 \<le> tmp_fd a \<and> renamed a \<and> mem_ok (ans_env a) \<and>
     (\<forall>n < ENTRY_LENGTH. ans_sqe a n) \<and> (\<forall>i. ans_waited a i) \<and>
     (\<forall>ws. set (kernel a ws) = set ws \<and> (distinct ws \<longrightarrow> distinct (kernel a ws)))"

lemma snapshot_writes:
  assumes "store_invar s" "dumpable (store_map s)" "save_system_ok a" "0 \<le> file_fd"
  shows "\<exists>xs ctx'. kvs_traversal_write (ans_sqe a) (ans_waited a) file_fd s (main_ctx a) = Some (0, ctx') \<and>
    written a ctx' = concat (map save_frame xs) \<and> lists_maps xs (store_map s)"
proof -
  have c: "save_ok (main_ctx a)" "ctx_writes (main_ctx a) = []" "offset (main_ctx a) = 0"
    using assms(3) by (simp_all add: save_ok_def main_ctx_def save_system_ok_def ctx_writes_def)
  from traversal_writes [OF assms(1,2) c(1), of "ans_sqe a" file_fd "ans_waited a"] assms(3,4) c obtain xs ctx' where
    t: "kvs_traversal_write (ans_sqe a) (ans_waited a) file_fd s (main_ctx a) = Some (0, ctx')" "lists_maps xs (store_map s)"
    "ring_submitted ctx' = place 0 (map save_frame xs)" by (auto simp: save_system_ok_def)
  have ne: "[] \<notin> set (map save_frame xs)" by (auto simp: save_frame_def kvsp_frame_def kvsp_head_def)
  have "written a ctx' = fold pwrite (place 0 (map save_frame xs)) []" unfolding written_def t(3)
    by (rule fold_pwrite_order [OF consecutive_place distinct_place [OF ne]]) (use assms(3) distinct_place [OF ne] in \<open>auto simp: save_system_ok_def\<close>)
  also have "\<dots> = concat (map save_frame xs)" using fold_pwrite_place [of "[]"] by simp
  finally show ?thesis using t by blast
qed

lemma save_start_writes:
  assumes "store_invar s" "dumpable (store_map s)" "save_system_ok a"
  shows "\<exists>xs. kvs_save_start a s dump = Some (0, Some (concat (map save_frame xs))) \<and> lists_maps xs (store_map s)"
proof -
  have "0 \<le> tmp_fd a" using assms(3) by (simp add: save_system_ok_def)
  from snapshot_writes [OF assms this] obtain xs ctx' where
    "kvs_traversal_write (ans_sqe a) (ans_waited a) (tmp_fd a) s (main_ctx a) = Some (0, ctx')"
    "written a ctx' = concat (map save_frame xs)" "lists_maps xs (store_map s)" by blast
  moreover from this(1,2) have "kvs_save_start a s dump = Some (0, Some (concat (map save_frame xs)))"
    using assms(3) by (simp add: kvs_save_start_def save_system_ok_def)
  ultimately show ?thesis by blast
qed

subsection \<open>Loading a dump\<close>

lemma save_engine_name:
  "\<exists>c n. save_engine_name t = c # n \<and> save_engine c = Some t" "cstring (save_engine_name t)"
  by (cases t; simp add: save_engine_def)+

definition load_inv :: "load_state \<Rightarrow> bool" where
  "load_inv st \<longleftrightarrow> store_invar (snd st) \<and> (\<forall>i. mem_ok (fst st i))"

definition load_req :: "string list \<Rightarrow> bool" where
  "load_req ts \<longleftrightarrow> (\<exists>t k v. ts = [save_engine_name t, k, v] \<and> entry_ok (t, k, v))"

definition load_step :: "load_state \<Rightarrow> string list \<Rightarrow> int \<Rightarrow> load_state \<Rightarrow> bool" where
  "load_step st ts r st' \<longleftrightarrow> (\<exists>t k v. ts = [save_engine_name t, k, v] \<and>
     store_map (snd st') = maps_write t (OpSet k v) (store_map (snd st)) \<and> write_ret t (OpSet k v) (store_map (snd st)) r)"

lemma save_handler_step:
  assumes st: "load_inv st" and cli: "protocol cli = PROTO_KVSP" "rbuf cli = kvsp_frame ts @ NUL # rest"
    "cmd_hl cli = int (length (kvsp_head ts))" "cmd_tl cli = int (length (kvsp_frame ts))" and ts: "load_req ts"
  shows "\<exists>r st' cli'. kvs_save_handler st cli = Some (r, st', cli') \<and> load_step st ts r st' \<and> load_inv st' \<and>
    protocol cli' = PROTO_KVSP \<and> r_cap cli' = r_cap cli \<and> length (rbuf cli') = length (rbuf cli)"
proof -
  obtain t k v where e: "ts = [save_engine_name t, k, v]" "entry_ok (t, k, v)" using ts by (auto simp: load_req_def)
  obtain c n where c: "save_engine_name t = c # n" "save_engine c = Some t" using save_engine_name(1) by blast
  have "\<forall>t \<in> set ts. cstring t" "length ts \<le> KVS_MAX_TOKENS" "int (length (kvsp_frame ts)) \<le> INT_MAX"
    using e save_engine_name(2) [of t] by (auto simp: entry_ok_def save_frame_def KVS_MAX_TOKENS_def)
  from kvs_split_kvsp_frame [OF cli(2,1,3,4) this] obtain f toks where
    sp: "kvs_split_token cli = Some (3, cli\<lparr>rbuf := f @ NUL # rest\<rparr>, toks)" "length f = length (kvsp_frame ts)"
      "map (cstr_at (f @ NUL # rest)) toks = map Some ts" using e(1) by auto
  obtain r s' where w: "kv_write (eng_set t) (eng_del t) (eng_mod t) (fst st 0) (snd st) (OpSet k v) = Some (r, s')" "store_invar s'"
    "store_map s' = maps_write t (OpSet k v) (store_map (snd st))" "write_ret t (OpSet k v) (store_map (snd st)) r"
    using eng_write [of "snd st" "fst st 0" t "OpSet k v"] st by (auto simp: load_inv_def)
  then have "kvs_save_handler st cli = Some (r, (\<lambda>i. fst st (Suc i), s'), cli\<lparr>rbuf := f @ NUL # rest\<rparr>)"
    using sp e(1) c by (simp add: kvs_save_handler_def kv_write_def)
  moreover have "load_step st ts r (\<lambda>i. fst st (Suc i), s')" using w e(1) by (auto simp: load_step_def)
  moreover have "load_inv (\<lambda>i. fst st (Suc i), s')" using w st by (simp add: load_inv_def)
  ultimately show ?thesis using sp(2) cli by auto
qed

interpretation load: frame_handler load_inv "\<lambda>_. True" load_req load_step kvs_save_handler
  by unfold_locales (use save_handler_step in \<open>auto simp: load_req_def entry_ok_def save_frame_def\<close>)

text \<open>Loading entries with distinct keys into maps that have none of them and enough room.\<close>

definition maps_add :: "store_maps \<Rightarrow> entry list \<Rightarrow> store_maps" where
  "maps_add M xs = (\<lambda>t k. case M t k of Some v \<Rightarrow> Some v | None \<Rightarrow> map_of (map (\<lambda>(t, k, v). ((t, k), v)) xs) (t, k))"

definition save_tokens :: "entry \<Rightarrow> string list" where
  "save_tokens x = (case x of (t, k, v) \<Rightarrow> [save_engine_name t, k, v])"

lemma save_frame_tokens: "save_frame x = kvsp_frame (save_tokens x)"
  by (cases x) (simp add: save_frame_def save_tokens_def)

lemma save_tokens_inj: "[save_engine_name t', k', v'] = save_tokens (t, k, v) \<longleftrightarrow> t' = t \<and> k' = k \<and> v' = v"
  by (cases t; cases t') (auto simp: save_tokens_def)

lemma maps_add_Cons:
  "map_room t (M t) \<Longrightarrow> maps_add (maps_write t (OpSet k v) M) xs = maps_add M ((t, k, v) # xs)"
  by (auto simp: maps_add_def maps_write_def fun_eq_iff split: option.splits)

definition array_keys :: "entry list \<Rightarrow> string set" where
  "array_keys xs = {k. \<exists>v. (KVS_ARRAY, k, v) \<in> set xs}"

text \<open>Every SET finds a free slot: the array has room for the old and the new keys together, and for one
  more when a key is stored already.\<close>

definition load_room :: "store_maps \<Rightarrow> entry list \<Rightarrow> bool" where
  "load_room M xs \<longleftrightarrow> (let D = dom (M KVS_ARRAY); K = array_keys xs in
     finite D \<and> card (D \<union> K) \<le> KVS_ARRAY_SIZE \<and> (D \<inter> K = {} \<or> card (D \<union> K) < KVS_ARRAY_SIZE))"

lemma finite_array_keys [simp]: "finite (array_keys xs)"
proof -
  have "array_keys xs \<subseteq> (fst \<circ> snd) ` set xs" unfolding array_keys_def by force
  then show ?thesis by (rule finite_subset) simp
qed

lemma array_keys_simps [simp]: "array_keys [] = {}" "array_keys ((KVS_ARRAY, k, v) # xs) = insert k (array_keys xs)"
  "t \<noteq> KVS_ARRAY \<Longrightarrow> array_keys ((t, k, v) # xs) = array_keys xs"
  by (auto simp: array_keys_def)

lemma load_room_Cons:
  assumes "load_room M ((t, k, v) # xs)" "(t, k) \<notin> set (map (\<lambda>(t, k, v). (t, k)) xs)"
  shows "map_room t (M t)" "load_room (maps_write t (OpSet k v) M) xs"
proof -
  have nk: "k \<notin> array_keys xs" if "t = KVS_ARRAY" using assms(2) that by (force simp: array_keys_def)
  have "map_room t (M t) \<and> load_room (maps_write t (OpSet k v) M) xs"
  proof (cases "t = KVS_ARRAY")
    case True
    let ?D = "dom (M KVS_ARRAY)"
    have f: "finite ?D" and c: "card (insert k (?D \<union> array_keys xs)) \<le> KVS_ARRAY_SIZE"
      and d: "k \<notin> ?D \<and> ?D \<inter> array_keys xs = {} \<or> card (insert k (?D \<union> array_keys xs)) < KVS_ARRAY_SIZE"
      using assms(1) True by (auto simp: load_room_def Let_def)
    have "card ?D < KVS_ARRAY_SIZE"
    proof (cases "k \<in> ?D")
      case True
      then have "card ?D \<le> card (insert k (?D \<union> array_keys xs))" using f by (intro card_mono) auto
      then show ?thesis using d True by simp
    next
      case False
      then have "card ?D < card (insert k (?D \<union> array_keys xs))" using f by (intro psubset_card_mono) auto
      then show ?thesis using c by simp
    qed
    then have room: "map_room t (M t)" using True by (simp add: map_room_def)
    have "dom (maps_write t (OpSet k v) M KVS_ARRAY) = insert k ?D"
      using room True by (auto simp: maps_write_def split: option.splits)
    then have "load_room (maps_write t (OpSet k v) M) xs" using f c d nk [OF True] by (auto simp: load_room_def Let_def)
    with room show ?thesis by blast
  next
    case False
    then show ?thesis using assms(1) by (auto simp: map_room_def load_room_def maps_write_def Let_def)
  qed
  then show "map_room t (M t)" "load_room (maps_write t (OpSet k v) M) xs" by auto
qed

lemma replay_load:
  assumes "replayed load_step st (map save_tokens xs) st'" "load_room (store_map (snd st)) xs"
    "distinct (map (\<lambda>(t, k, v). (t, k)) xs)"
  shows "store_map (snd st') = maps_add (store_map (snd st)) xs"
  using assms
proof (induction xs arbitrary: st)
  case Nil
  then show ?case by (auto simp: maps_add_def fun_eq_iff elim!: replayed_NilE split: option.splits)
next
  case (Cons x xs)
  obtain t k v where x: "x = (t, k, v)" by (cases x)
  note room = load_room_Cons [OF Cons.prems(2) [unfolded x]] 
  have d: "(t, k) \<notin> set (map (\<lambda>(t, k, v). (t, k)) xs)" "distinct (map (\<lambda>(t, k, v). (t, k)) xs)" using Cons.prems(3) x by auto
  have step: "store_map (snd st1) = maps_write t (OpSet k v) (store_map (snd st)) \<and> 0 \<le> r" if "load_step st (save_tokens x) r st1" for r st1
    using that room(1) [OF d(1)] unfolding load_step_def x eq_commute [of "save_tokens _"] save_tokens_inj by (auto simp: write_ret_def)
  from Cons.prems(1) obtain r st1 where "load_step st (save_tokens x) r st1" "0 \<le> r" "replayed load_step st1 (map save_tokens xs) st'"
    unfolding list.map by (elim replayed_ConsE) (use step in fastforce)+
  then show ?case using Cons.IH [of st1] step [of r st1] room [OF d(1)] d(2) maps_add_Cons [of t "store_map (snd st)" k v xs]
    by (simp add: x)
qed

subsection \<open>Properties of dumps\<close>

lemma load_frames:
  assumes st: "load_inv st" "load_room (store_map (snd st)) xs" and xs: "lists_maps xs M" "dumpable M" "xs \<noteq> []"
    and e: "mem_ok e" and c: "int (length (concat (map save_frame xs))) \<le> INT_MAX"
  shows "\<exists>st'. kvs_file_read kvs_save_handler e (concat (map save_frame xs)) st = Some (0, st') \<and>
    load_inv st' \<and> store_map (snd st') = maps_add (store_map (snd st)) xs"
proof -
  have f: "concat (map save_frame xs) = concat (map kvsp_frame (map save_tokens xs))" by (induction xs) (simp_all add: save_frame_tokens)
  have "load_req (save_tokens x)" if "x \<in> set xs" for x
    using lists_entry_ok [OF xs(1,2)] that by (cases x) (auto simp: load_req_def save_tokens_def)
  then obtain st' where "kvs_file_read kvs_save_handler e (concat (map save_frame xs)) st = Some (0, st')"
    "replayed load_step st (map save_tokens xs) st'" "load_inv st'"
    using load.file_replays [OF e st(1), of "map save_tokens xs"] xs(3) c unfolding f by auto
  moreover from this(2) have "store_map (snd st') = maps_add (store_map (snd st)) xs"
    by (rule replay_load [OF _ st(2)]) (use xs(1) in \<open>simp add: lists_maps_def\<close>)
  ultimately show ?thesis by blast
qed

lemma save_frames_ne: "xs \<noteq> [] \<Longrightarrow> concat (map save_frame xs) \<noteq> []"
  by (cases xs) (auto simp: save_frame_def kvsp_frame_def split: prod.splits)

lemma maps_add_Nil [simp]: "maps_add M [] = M"
  by (auto simp: maps_add_def fun_eq_iff split: option.splits)

lemma load_file:
  assumes "load_inv st" "load_room (store_map (snd st)) xs" "lists_maps xs M" "dumpable M"
    and "mem_ok e" "enable_save conf \<noteq> 0" "int (length (concat (map save_frame xs))) \<le> INT_MAX"
  shows "\<exists>st'. kvs_save_init conf e True True (Some (concat (map save_frame xs))) st = Some (0, st') \<and>
    load_inv st' \<and> store_map (snd st') = maps_add (store_map (snd st)) xs"
proof (cases "xs = []")
  case True
  then show ?thesis using assms(1) by (cases st) (simp add: kvs_save_init_def)
next
  case False
  moreover obtain c cs where "concat (map save_frame xs) = c # cs" using save_frames_ne [OF False] by (meson neq_Nil_conv)
  ultimately show ?thesis using load_frames [OF assms(1-4) False assms(5,7)] assms(6) by (auto simp: kvs_save_init_def)
qed

lemma entry_alist:
  "map fst (map (\<lambda>(t, k, v). ((t, k), v)) xs) = map (\<lambda>(t, k, v). (t, k)) xs"
  "((t, k), v) \<in> set (map (\<lambda>(t, k, v). ((t, k), v)) xs) \<longleftrightarrow> (t, k, v) \<in> set xs"
  by (induction xs) auto

lemma singleton_list:
  assumes "set xs = {x}" "distinct xs"
  shows "xs = [x]"
proof -
  obtain ys where "xs = x # ys" using assms(1) by (cases xs) auto
  then show ?thesis using assms by (cases ys) auto
qed

lemma option_eqI: "(\<And>v. a = Some v \<longleftrightarrow> b = Some v) \<Longrightarrow> a = b"
  by (cases a) (auto, metis option.exhaust)

lemma maps_add_empty:
  assumes "lists_maps xs M"
  shows "maps_add (\<lambda>_. Map.empty) xs = M"
proof -
  have d: "distinct (map fst (map (\<lambda>(t, k, v). ((t, k), v)) xs))" using assms unfolding entry_alist(1) by (simp only: lists_maps_def)
  have "map_of (map (\<lambda>(t, k, v). ((t, k), v)) xs) (t, k) = M t k" for t k
  proof (rule option_eqI)
    show "map_of (map (\<lambda>(t, k, v). ((t, k), v)) xs) (t, k) = Some v \<longleftrightarrow> M t k = Some v" for v
      unfolding map_of_eq_Some_iff [OF d] entry_alist(2) using assms unfolding lists_maps_def by blast
  qed
  then show ?thesis by (simp add: maps_add_def fun_eq_iff)
qed

lemma lists_array_keys: "lists_maps xs M \<Longrightarrow> array_keys xs = dom (M KVS_ARRAY)"
  by (auto simp: lists_maps_def array_keys_def)

lemma store_array_card: "store_invar s \<Longrightarrow> card (dom (store_map s KVS_ARRAY)) \<le> KVS_ARRAY_SIZE"
  using array_total_card [of "global_array s"] by (simp add: store_invar_def)

text \<open>C5: a SAVE followed by a restart restores the four maps.  The dump of a well-formed store of any
  size is written completely, each stored pair once: the ring of 1024 entries never runs full,
  whatever the pace and the order in which the kernel completes the writes.  Loaded into the empty
  engines of a fresh start it gives the same maps again (files up to \<open>INT_MAX\<close> bytes).\<close>

theorem save_load_roundtrip:
  assumes "store_invar s" "dumpable (store_map s)" "save_system_ok a"
    and "load_inv st" "store_map (snd st) = (\<lambda>_. Map.empty)" "mem_ok e" "enable_save conf \<noteq> 0"
  shows "\<exists>xs. kvs_save_start a s dump = Some (0, Some (concat (map save_frame xs))) \<and> lists_maps xs (store_map s) \<and>
    (int (length (concat (map save_frame xs))) \<le> INT_MAX \<longrightarrow>
      (\<exists>st'. kvs_save_init conf e True True (Some (concat (map save_frame xs))) st = Some (0, st') \<and>
         store_invar (snd st') \<and> store_map (snd st') = store_map s))"
proof -
  obtain xs where xs: "kvs_save_start a s dump = Some (0, Some (concat (map save_frame xs)))" "lists_maps xs (store_map s)"
    using save_start_writes [OF assms(1-3)] by blast
  have "load_room (store_map (snd st)) xs"
    using store_array_card [OF assms(1)] lists_array_keys [OF xs(2)] assms(5) by (simp add: load_room_def)
  from load_file [OF assms(4) this xs(2) assms(2,6,7)]
  have "\<exists>st'. kvs_save_init conf e True True (Some (concat (map save_frame xs))) st = Some (0, st') \<and>
       store_invar (snd st') \<and> store_map (snd st') = store_map s" if "int (length (concat (map save_frame xs))) \<le> INT_MAX"
    using that maps_add_empty [OF xs(2)] unfolding assms(5) load_inv_def by metis
  then show ?thesis using xs by blast
qed

definition save_ans0 :: save_ans where
  "save_ans0 = \<lparr>ring_ok = True, tmp_fd = 3, ans_sqe = (\<lambda>n. n < 1024), ans_waited = (\<lambda>_. True), ans_env = env0,
     ans_ready = (\<lambda>_. 0), kernel = rev, renamed = True\<rparr>"

text \<open>A store with one pair in one engine.\<close>

lemma store_one:
  "\<exists>s. store_invar s \<and> store_map s = (\<lambda>_. Map.empty)(t := [k \<mapsto> v])"
proof -
  obtain s0 where s0: "store_invar s0" "store_map s0 = (\<lambda>_. Map.empty)" using init_kvengine_ok [OF mem_ok_env0 refl refl] by blast
  have "map_room t Map.empty" by (simp add: map_room_def KVS_ARRAY_SIZE_def)
  then have "maps_write t (OpSet k v) (\<lambda>_. Map.empty) = (\<lambda>_. Map.empty)(t := [k \<mapsto> v])" by (simp add: maps_write_def)
  then show ?thesis using eng_write [OF s0(1) mem_ok_env0, of t "OpSet k v"] s0(2) by auto
qed

lemma lists_one: "lists_maps xs ((\<lambda>_. Map.empty)(t := [k \<mapsto> v])) \<Longrightarrow> xs = [(t, k, v)]"
proof -
  assume l: "lists_maps xs ((\<lambda>_. Map.empty)(t := [k \<mapsto> v]))"
  then have "(u, j, w) \<in> set xs \<longleftrightarrow> (u, j, w) = (t, k, v)" for u j w by (cases "u = t"; cases "j = k") (auto simp: lists_maps_def)
  then have "set xs = {(t, k, v)}" by auto
  moreover have "distinct xs" using l unfolding lists_maps_def distinct_map by blast
  ultimately show ?thesis by (rule singleton_list)
qed

lemma save_load_roundtrip_witness:
  "\<exists>s st st'. store_map s = (\<lambda>_. Map.empty)(KVS_HASH := [''k'' \<mapsto> ''v'']) \<and>
     kvs_save_start save_ans0 s None = Some (0, Some (kvsp_frame [''HASH'', ''k'', ''v''])) \<and>
     kvs_save_init conf0 env0 True True (Some (kvsp_frame [''HASH'', ''k'', ''v''])) st = Some (0, st') \<and> store_map (snd st') = store_map s"
proof -
  obtain s where s: "store_invar s" "store_map s = (\<lambda>_. Map.empty)(KVS_HASH := [''k'' \<mapsto> ''v''])" using store_one by blast
  obtain s0 where s0: "store_invar s0" "store_map s0 = (\<lambda>_. Map.empty)" using init_kvengine_ok [OF mem_ok_env0 refl refl] by blast
  have len: "length (kvsp_frame [''HASH'', ''k'', ''v'']) = 22" by code_simp
  have "dumpable (store_map s)" using len unfolding s(2) by (simp add: dumpable_def entry_ok_def save_frame_def INT_MAX_def)
  moreover have "save_system_ok save_ans0" by (simp add: save_system_ok_def save_ans0_def ENTRY_LENGTH_def)
  moreover have "load_inv (\<lambda>_. env0, s0)" using s0 by (simp add: load_inv_def)
  moreover have "enable_save conf0 \<noteq> 0" by (simp add: conf0_def)
  ultimately obtain xs where xs: "kvs_save_start save_ans0 s None = Some (0, Some (concat (map save_frame xs)))" "lists_maps xs (store_map s)"
    "int (length (concat (map save_frame xs))) \<le> INT_MAX \<longrightarrow>
      (\<exists>st'. kvs_save_init conf0 env0 True True (Some (concat (map save_frame xs))) (\<lambda>_. env0, s0) = Some (0, st') \<and>
         store_invar (snd st') \<and> store_map (snd st') = store_map s)"
    using save_load_roundtrip [OF s(1) _ _ _ _ mem_ok_env0, of save_ans0 "(\<lambda>_. env0, s0)" conf0 None] s0(2) by auto
  have "xs = [(KVS_HASH, ''k'', ''v'')]" by (rule lists_one) (use xs(2) s(2) in simp)
  then have f: "concat (map save_frame xs) = kvsp_frame [''HASH'', ''k'', ''v'']" by (simp add: save_frame_def)
  have "int (length (kvsp_frame [''HASH'', ''k'', ''v''])) \<le> INT_MAX" using len by (simp add: INT_MAX_def)
  then show ?thesis using xs(1,3) s(2) unfolding f by blast
qed

text \<open>Out of memory: the node is not written, and neither is anything below it.\<close>

lemma save_rbtree_nomem:
  assumes "rep T p t" "rb_nil T \<notin> set (io t)" "\<forall>a \<in> set (io t). get_data T a = Some (Some (kof T a), Some (the (vof T a)))"
    and "\<forall>a \<in> set (io t). entry_ok (node_ent T a)" "\<not> mem (ctx_env ctx) 0" "0 \<le> file_fd"
  shows "kvs_save_write_rbtree g T (ptr T t) file_fd ctx =
    Some (if t = L then (0, ctx) else (-1, ctx\<lparr>ctx_env := env_skip 1 (ctx_env ctx)\<rparr>))"
proof (cases t)
  case L
  then show ?thesis using assms(6) by (simp add: kvs_save_write_rbtree.simps)
next
  case (N l a c r)
  then obtain n where n: "rb_get T a = Some n" "rb_key n = Some (kof T a)" "rb_value n = Some (the (vof T a))"
    using assms(3) by (auto simp: getter_defs)
  have "int (length (kvsp_frame [save_engine_name KVS_RBTREE, kof T a, the (vof T a)])) < INT_MAX"
    using assms(4) N by (simp add: entry_ok_def save_frame_def node_ent_def)
  then have "save_entry g file_fd (Some (kof T a)) (Some (the (vof T a))) KVS_RBTREE ctx = Some (-1, ctx\<lparr>ctx_env := env_skip 1 (ctx_env ctx)\<rparr>)"
    using assms(5) by (simp add: save_entry_def build_save_frame kvs_io_uring_write_def)
  moreover have "a \<noteq> rb_nil T" using assms(2) N by auto
  moreover have "kvs_save_write_rbtree g T q (-1) ctx' = Some (-1, ctx')" for q ctx' by (simp add: kvs_save_write_rbtree.simps)
  ultimately show ?thesis using assms(6) n N by (simp add: kvs_save_write_rbtree.simps [of _ _ a])
qed

lemma save_rbtree_root:
  assumes "rep T p (N l a c r)" "rb_nil T \<notin> set (io (N l a c r))"
    and d: "\<forall>b \<in> set (io (N l a c r)). get_data T b = Some (Some (kof T b), Some (the (vof T b)))"
    and k: "\<forall>b \<in> set (io (N l a c r)). entry_ok (node_ent T b)"
    and root: "save_entry g file_fd (Some (kof T a)) (Some (the (vof T a))) KVS_RBTREE ctx = Some (0, ctx1)"
    and mem: "\<forall>i. \<not> mem (ctx_env ctx1) i" and fd: "0 \<le> file_fd"
  shows "\<exists>e. kvs_save_write_rbtree g T a file_fd ctx = Some (0, ctx1\<lparr>ctx_env := e\<rparr>)"
proof -
  obtain n where n: "rb_get T a = Some n" "rb_key n = Some (kof T a)" "rb_value n = Some (the (vof T a))" "rb_left n = ptr T l" "rb_right n = ptr T r"
    using assms(1) d by (auto simp: getter_defs)
  have mem': "\<not> mem (ctx_env ctx1) 0" "\<not> mem (ctx_env (ctx1\<lparr>ctx_env := env_skip 1 (ctx_env ctx1)\<rparr>)) 0" using mem by (simp_all add: env_skip_def)
  have sub: "kvs_save_write_rbtree g T (ptr T t) file_fd ctx' = Some (if t = L then (0, ctx') else (-1, ctx'\<lparr>ctx_env := env_skip 1 (ctx_env ctx')\<rparr>))"
    if "t = l \<or> t = r" "\<not> mem (ctx_env ctx') 0" for t ctx'
    by (rule save_rbtree_nomem [of T a]) (use that assms in auto)
  have "a \<noteq> rb_nil T" using assms(2) by auto
  then have "kvs_save_write_rbtree g T a file_fd ctx = Some (0, ctx1\<lparr>ctx_env := (if l = L then (if r = L then ctx_env ctx1 else env_skip 1 (ctx_env ctx1))
      else (if r = L then env_skip 1 (ctx_env ctx1) else env_skip 1 (env_skip 1 (ctx_env ctx1))))\<rparr>)"
    using fd n root sub [of l ctx1] sub [of r ctx1] sub [of r "ctx1\<lparr>ctx_env := env_skip 1 (ctx_env ctx1)\<rparr>"] mem'
    by (simp add: kvs_save_write_rbtree.simps [of _ _ a])
  then show ?thesis by blast
qed



subsection \<open>The state machine of the child\<close>

definition save_inv :: "save_state \<Rightarrow> bool" where
  "save_inv st \<longleftrightarrow> length (save_children st) \<le> 1 \<and> (case save_status st of
     SAVE_STATUS_IDLE \<Rightarrow> save_watchers st = 0 \<and> save_children st = []
   | SAVE_STATUS_RUNNING \<Rightarrow> save_watchers st = 1 \<and> save_children st = [kvs_save_child_pid st] \<and> 0 < kvs_save_child_pid st
   | SAVE_STATUS_ERROR \<Rightarrow> save_watchers st = 0)"

lemma fork_inv:
  assumes "save_status st = SAVE_STATUS_IDLE" "save_children st = []" "fork_pid f \<noteq> 0"
  shows "length (save_children (snd (kvs_fork_save_child f st))) \<le> 1 \<and> (case save_status (snd (kvs_fork_save_child f st)) of
     SAVE_STATUS_IDLE \<Rightarrow> save_watchers (snd (kvs_fork_save_child f st)) = save_watchers st \<and> save_children (snd (kvs_fork_save_child f st)) = []
   | SAVE_STATUS_RUNNING \<Rightarrow> save_watchers (snd (kvs_fork_save_child f st)) = save_watchers st + 1 \<and>
       save_children (snd (kvs_fork_save_child f st)) = [kvs_save_child_pid (snd (kvs_fork_save_child f st))] \<and> 0 < kvs_save_child_pid (snd (kvs_fork_save_child f st))
   | SAVE_STATUS_ERROR \<Rightarrow> save_watchers (snd (kvs_fork_save_child f st)) = save_watchers st)"
  using assms by (auto simp: kvs_fork_save_child_def Let_def)

lemma save_step_inv:
  assumes "save_inv st" "save_step conf st st'"
  shows "save_inv st'"
  using assms(2)
proof cases
  case (save_command f)
  then show ?thesis using assms(1) fork_inv [of st f]
    by (cases "save_status st") (auto simp: kvs_save_write_def save_inv_def split: kvs_save_status.splits)
next
  case (save_notified f d)
  have run: "save_status st = SAVE_STATUS_RUNNING" using assms(1) save_notified(2) by (auto simp: save_inv_def split: kvs_save_status.splits)
  let ?st = "st\<lparr>save_status := SAVE_STATUS_IDLE, kvs_save_child_pid := 0, save_children := [], is_save_pending := 0\<rparr>"
  have "length (save_children (kvs_save_child_done d f st)) \<le> 1"
    using assms(1) save_notified(3,4) run by (auto simp: kvs_save_child_done_def kvs_fork_save_child_def waited_for_def save_inv_def Let_def)
  moreover have "case save_status (kvs_save_child_done d f st) of
     SAVE_STATUS_IDLE \<Rightarrow> save_watchers (kvs_save_child_done d f st) = 0 \<and> save_children (kvs_save_child_done d f st) = []
   | SAVE_STATUS_RUNNING \<Rightarrow> save_watchers (kvs_save_child_done d f st) = 1 \<and>
       save_children (kvs_save_child_done d f st) = [kvs_save_child_pid (kvs_save_child_done d f st)] \<and> 0 < kvs_save_child_pid (kvs_save_child_done d f st)
   | SAVE_STATUS_ERROR \<Rightarrow> save_watchers (kvs_save_child_done d f st) = 0"
    using assms(1) save_notified(3,4) run by (auto simp: kvs_save_child_done_def kvs_fork_save_child_def waited_for_def save_inv_def Let_def)
  ultimately show ?thesis using save_notified(1) by (simp add: save_inv_def)
qed




end
