(* ===== verification/Kvs_Server.thy ===== *)
theory Kvs_Server
  imports Kvs_Protocol
begin

text \<open>
  The coroutine server, \<^verbatim>\<open>kvs-server/ntyco.c\<close>: the record of a client (\<open>client_info_init\<close>) and the
  loop that reads from its socket (\<open>server_reader\<close>).  A coroutine runs alone between two calls that
  block, so one client is modelled at a time; \<open>handler\<close> is the function pointer \<open>kvs_handler\<close> with
  the state \<open>'s\<close> it works on.

  What \<open>recv\<close> delivers is the list of chunks (its end is the call that returns 0 or fails); whether a
  \<open>kvs_realloc\<close> succeeds and how much a \<open>send\<close> takes are the answers in \<open>srv_ans\<close>, one record per
  round.
\<close>

subsection \<open>The client\<close>

definition SRV_BUFFER_SIZE :: nat where "SRV_BUFFER_SIZE = 4096"
definition KVS_ERR_PROTO_LEN :: int where "KVS_ERR_PROTO_LEN = 22"

definition client_info_init :: "env \<Rightarrow> int \<Rightarrow> client_info option" where
  "client_info_init e sock =
     (if \<not> mem e 0 then None
      else if \<not> mem e 1 then None
      else if \<not> mem e 2 then None
      else Some \<lparr>fd = sock, rbuf = replicate (SRV_BUFFER_SIZE + 1) NUL, r_cap = int SRV_BUFFER_SIZE, r_pos = 0,
                 cmd_tl = 0, cmd_hl = 0, wbuf = replicate (SRV_BUFFER_SIZE + 1) NUL, w_cap = int SRV_BUFFER_SIZE,
                 w_pos = 0, role = 0, protocol = PROTO_UNKNOWN, recv_protocol = None\<rparr>)"

subsection \<open>The reader\<close>

record srv_ans =
  srv_mem :: env
  srv_send :: "nat \<Rightarrow> int"

text \<open>Storing what was received; the inner \<open>None\<close> leaves the loop.\<close>

definition server_store :: "env \<Rightarrow> string \<Rightarrow> client_info \<Rightarrow> client_info option option" where
  "server_store e recv_buf cli_info =
     (let ret = int (length recv_buf) in
      if r_pos cli_info + ret \<ge> r_cap cli_info \<and> 2 * r_cap cli_info + 1 > INT_MAX then None
      else if r_pos cli_info + ret \<ge> r_cap cli_info \<and> \<not> mem e 0 then Some None
      else (let cli_info = (if r_pos cli_info + ret \<ge> r_cap cli_info
                  then cli_info\<lparr>rbuf := c_realloc e (rbuf cli_info) (nat (2 * r_cap cli_info + 1)), r_cap := r_cap cli_info * 2\<rparr>
                  else cli_info) in
            do { b \<leftarrow> memwr (rbuf cli_info) (r_pos cli_info) recv_buf;
                 Some (Some (cli_info\<lparr>rbuf := b, r_pos := r_pos cli_info + ret\<rparr>)) }))"

text \<open>The inner loop ends with \<open>goto cleanup\<close> (and the bytes sent before it) or leaves the client for
  the next chunk.\<close>

datatype 's frames_result = Frames_cleanup string 's | Frames_more client_info 's

definition proto_error_msg :: string where
  "proto_error_msg = ''-ERR protocol error'' @ CRLF"

definition server_proto_error :: "env \<Rightarrow> client_info \<Rightarrow> 's \<Rightarrow> 's frames_result option" where
  "server_proto_error e cli_info s =
     (if w_cap cli_info - w_pos cli_info < KVS_ERR_PROTO_LEN \<and> \<not> mem e 1 then Some (Frames_cleanup [] s)
      else (let cli_info = (if w_cap cli_info - w_pos cli_info < KVS_ERR_PROTO_LEN
                  then cli_info\<lparr>wbuf := c_realloc e (wbuf cli_info) (nat (w_cap cli_info + 23)), w_cap := w_cap cli_info + KVS_ERR_PROTO_LEN\<rparr>
                  else cli_info) in
            do { _ \<leftarrow> memwr (wbuf cli_info) (w_pos cli_info) (proto_error_msg @ [NUL]);
                 Some (Frames_cleanup proto_error_msg s) }))"

partial_function (option) server_frames ::
  "('s \<Rightarrow> client_info \<Rightarrow> (int \<times> 's \<times> client_info) option) \<Rightarrow> env \<Rightarrow> client_info \<Rightarrow> 's \<Rightarrow> 's frames_result option" where
  "server_frames handler e cli_info s =
     (if r_pos cli_info > 0 then
        (case recv_protocol cli_info of
           None \<Rightarrow> Some (Frames_cleanup [] s)
         | Some f \<Rightarrow> do {
             (total_len, head_len) \<leftarrow> call_recv_protocol f (rbuf cli_info) (r_pos cli_info) 0;
             if total_len = 0 then Some (Frames_more cli_info s)
             else if total_len < 0 then server_proto_error e cli_info s
             else do {
               temp \<leftarrow> rd (rbuf cli_info) total_len;
               b \<leftarrow> wr (rbuf cli_info) total_len NUL;
               (slen, s, cli_info) \<leftarrow> handler s (cli_info\<lparr>cmd_tl := total_len, cmd_hl := head_len, rbuf := b\<rparr>);
               b \<leftarrow> wr (rbuf cli_info) total_len temp;
               if slen < 0 then Some (Frames_cleanup [] s)
               else do {
                 b \<leftarrow> (if r_pos cli_info - total_len > 0
                       then do { d \<leftarrow> memrd b total_len (nat (r_pos cli_info - total_len)); memwr b 0 d }
                       else Some b);
                 server_frames handler e (cli_info\<lparr>rbuf := b, w_pos := w_pos cli_info + slen, r_pos := r_pos cli_info - total_len\<rparr>) s } } })
      else Some (Frames_more cli_info s))"

text \<open>The loop that sends the replies \<open>buf[sent..w_end)\<close>; a \<open>send\<close> takes at most what it is given.  It
  returns whether everything went out, and the bytes that did.\<close>

function send_replies :: "(nat \<Rightarrow> int) \<Rightarrow> nat \<Rightarrow> char list \<Rightarrow> int \<Rightarrow> int \<Rightarrow> (bool \<times> string) option" where
  "send_replies tx i buf w_end sent =
     (if w_end - sent > 0 then do {
        d \<leftarrow> memrd buf sent (nat (w_end - sent));
        (let ret = min (tx i) (w_end - sent) in
         if ret \<le> 0 then Some (False, [])
         else do { (ok, out) \<leftarrow> send_replies tx (Suc i) buf w_end (sent + ret); Some (ok, take (nat ret) d @ out) }) }
      else Some (True, []))"
  by pat_completeness auto
termination
  by (relation "measure (\<lambda>(tx, i, buf, w_end, sent). nat (w_end - sent))") auto

declare send_replies.simps [simp del]

datatype 's round_result = Round_closed string 's | Round_next string client_info 's

definition server_round ::
  "('s \<Rightarrow> client_info \<Rightarrow> (int \<times> 's \<times> client_info) option) \<Rightarrow> srv_ans \<Rightarrow> string \<Rightarrow> client_info \<Rightarrow> 's \<Rightarrow> 's round_result option" where
  "server_round handler a recv_buf cli_info s = do {
     r \<leftarrow> server_store (srv_mem a) recv_buf cli_info;
     (case r of
        None \<Rightarrow> Some (Round_closed [] s)
      | Some cli_info \<Rightarrow> do {
          (dp_ret, cli_info) \<leftarrow> (if protocol cli_info = PROTO_UNKNOWN then kvs_detect_protocol cli_info else Some (0, cli_info));
          if dp_ret < 0 then Some (Round_closed [] s)
          else if dp_ret > 0 then Some (Round_next [] cli_info s)
          else do {
            fr \<leftarrow> server_frames handler (srv_mem a) cli_info s;
            (case fr of
               Frames_cleanup out s \<Rightarrow> Some (Round_closed out s)
             | Frames_more cli_info s \<Rightarrow>
                 if role cli_info = 1 then Some (Round_next [] (cli_info\<lparr>w_pos := 0\<rparr>) s)
                 else do {
                   (ok, out) \<leftarrow> send_replies (srv_send a) 0 (wbuf cli_info) (w_pos cli_info) 0;
                   if ok then Some (Round_next out (cli_info\<lparr>w_pos := 0\<rparr>) s) else Some (Round_closed out s) }) } }) }"

fun server_reader ::
  "('s \<Rightarrow> client_info \<Rightarrow> (int \<times> 's \<times> client_info) option) \<Rightarrow> (nat \<Rightarrow> srv_ans) \<Rightarrow> string list \<Rightarrow> client_info \<Rightarrow> 's \<Rightarrow> (string \<times> 's) option" where
  "server_reader handler a [] cli_info s = Some ([], s)"
| "server_reader handler a (recv_buf # later) cli_info s = do {
     r \<leftarrow> server_round handler (a 0) recv_buf cli_info s;
     (case r of
        Round_closed out s \<Rightarrow> Some (out, s)
      | Round_next out cli_info s \<Rightarrow> do {
          (out', s) \<leftarrow> server_reader handler (\<lambda>i. a (Suc i)) later cli_info s;
          Some (out @ out', s) }) }"

subsection \<open>The contract of a handler\<close>

text \<open>The write buffer: the replies collected so far fit, and the capacity is what was allocated or one less, up to
  the limit that keeps the doubling inside an \<open>int\<close>.\<close>

definition WBUF_LIMIT :: int where "WBUF_LIMIT = 2 ^ 30"

definition wbuf_ok :: "client_info \<Rightarrow> bool" where
  "wbuf_ok cli \<longleftrightarrow> 0 \<le> w_pos cli \<and> w_pos cli \<le> w_cap cli \<and> 32 \<le> w_cap cli \<and> w_cap cli \<le> WBUF_LIMIT \<and> w_cap cli \<le> int (length (wbuf cli)) \<and>
     int (length (wbuf cli)) \<le> w_cap cli + 1"

text \<open>What a handler does not touch.\<close>

definition same_conn :: "client_info \<Rightarrow> client_info \<Rightarrow> bool" where
  "same_conn cli cli' \<longleftrightarrow> fd cli' = fd cli \<and> r_cap cli' = r_cap cli \<and> role cli' = role cli \<and> protocol cli' = protocol cli \<and>
     recv_protocol cli' = recv_protocol cli"

text \<open>The size function says of a proper prefix of a frame that it is incomplete.\<close>

lemma kvsp_measure_prefix:
  assumes "p @ q = kvsp_frame ts @ r" "p \<noteq> []" "length p < length (kvsp_frame ts)" "int (length (kvsp_frame ts)) \<le> INT_MAX"
  shows "\<exists>h. kvsp_measure p hl = (0, h)"
proof -
  obtain n h where m: "kvsp_measure p hl = (n, h)" by (cases "kvsp_measure p hl")
  have "n = 0"
  proof (rule ccontr)
    assume "n \<noteq> 0"
    from kvsp_measure_append [OF assms(2) m this, of q] have "n = int (length (kvsp_frame ts))"
      using kvsp_measure_frame [OF assms(4), of r hl] by (simp add: assms(1))
    then show False using kvsp_measure_range [OF m] assms(2,3) by auto
  qed
  then show ?thesis using m by blast
qed

text \<open>Requests answered one after the other.\<close>

inductive answered :: "('s \<Rightarrow> string list \<Rightarrow> string \<Rightarrow> 's \<Rightarrow> bool) \<Rightarrow> 's \<Rightarrow> string list list \<Rightarrow> string list \<Rightarrow> 's \<Rightarrow> bool" for exec where
  answered_none: "answered exec s [] [] s"
| answered_one: "exec s ts reply s1 \<Longrightarrow> answered exec s1 reqs replies s' \<Longrightarrow> answered exec s (ts # reqs) (reply # replies) s'"

inductive_cases answered_NilE: "answered exec s [] replies s'"
inductive_cases answered_ConsE: "answered exec s (ts # reqs) replies s'"

lemma answered_append:
  "answered exec s reqs replies s1 \<Longrightarrow> answered exec s1 reqs' replies' s' \<Longrightarrow> answered exec s (reqs @ reqs') (replies @ replies') s'"
  by (induction rule: answered.induct) (auto intro: answered_one)

lemma answered_length: "answered exec s reqs replies s' \<Longrightarrow> length replies = length reqs"
  by (induction rule: answered.induct) auto

lemma send_replies_ok:
  assumes "w_end \<le> int (length buf)" "0 \<le> sent" "sent \<le> w_end" "\<forall>i. 0 < tx i"
  shows "send_replies tx i buf w_end sent = Some (True, take (nat (w_end - sent)) (drop (nat sent) buf))"
  using assms
proof (induction tx i buf w_end sent rule: send_replies.induct)
  case (1 tx i buf w_end sent)
  show ?case
  proof (cases "w_end - sent > 0")
    case True
    let ?r = "min (tx i) (w_end - sent)"
    have r: "0 < ?r" "?r \<le> w_end - sent" using True 1(5) by auto
    have IH: "send_replies tx (Suc i) buf w_end (sent + ?r) = Some (True, take (nat (w_end - (sent + ?r))) (drop (nat (sent + ?r)) buf))"
      using 1(1) [of "take (nat (w_end - sent)) (drop (nat sent) buf)" ?r] 1(2-5) True r by simp
    have n: "nat (w_end - sent) = nat ?r + nat (w_end - (sent + ?r))" "nat (sent + ?r) = nat ?r + nat sent" using r 1(3) by auto
    have "take x (take (x + y) zs) @ take y (drop x zs) = take (x + y) zs" for x y and zs :: string by (simp add: take_add [symmetric] min_def)
    from this [of "nat ?r" "nat (w_end - (sent + ?r))" "drop (nat sent) buf"]
    have "take (nat ?r) (take (nat (w_end - sent)) (drop (nat sent) buf)) @ take (nat (w_end - (sent + ?r))) (drop (nat (sent + ?r)) buf)
        = take (nat (w_end - sent)) (drop (nat sent) buf)" unfolding n drop_drop .
    moreover have "\<not> ?r \<le> 0" using r(1) by linarith
    ultimately show ?thesis using True IH 1(2,3) by (subst send_replies.simps) (simp add: Let_def)
  qed (simp add: send_replies.simps)
qed

lemma server_store_ok:
  assumes "0 \<le> r_pos cli" "r_pos cli < r_cap cli" "int SRV_BUFFER_SIZE \<le> r_cap cli" "int (length (rbuf cli)) = r_cap cli + 1"
    and "length chunk \<le> SRV_BUFFER_SIZE" "nat (r_pos cli) + length chunk \<le> T" "2 * int T + 1 \<le> INT_MAX" "mem e 0"
  shows "\<exists>b cap. server_store e chunk cli = Some (Some (cli\<lparr>rbuf := b, r_cap := cap, r_pos := r_pos cli + int (length chunk)\<rparr>)) \<and>
    r_pos cli + int (length chunk) < cap \<and> int SRV_BUFFER_SIZE \<le> cap \<and> int (length b) = cap + 1 \<and>
    take (nat (r_pos cli) + length chunk) b = take (nat (r_pos cli)) (rbuf cli) @ chunk"
proof -
  define g where "g \<longleftrightarrow> r_pos cli + int (length chunk) \<ge> r_cap cli"
  define cap where "cap = (if g then r_cap cli * 2 else r_cap cli)"
  define b0 where "b0 = (if g then c_realloc e (rbuf cli) (nat (2 * r_cap cli + 1)) else rbuf cli)"
  have ov: "\<not> (g \<and> 2 * r_cap cli + 1 > INT_MAX)" using assms(1,6,7) by (auto simp: g_def)
  have cap: "r_pos cli + int (length chunk) < cap" "int SRV_BUFFER_SIZE \<le> cap" "int (length b0) = cap + 1"
    using assms by (auto simp: cap_def g_def b0_def)
  have pre: "take (nat (r_pos cli)) b0 = take (nat (r_pos cli)) (rbuf cli)"
    using assms(1-4) by (auto simp: b0_def c_realloc_def min_def)
  let ?b = "take (nat (r_pos cli)) b0 @ chunk @ drop (nat (r_pos cli) + length chunk) b0"
  have "memwr b0 (r_pos cli) chunk = Some ?b" using cap assms(1) by (simp add: memwr_def)
  then have "server_store e chunk cli = Some (Some (cli\<lparr>rbuf := ?b, r_cap := cap, r_pos := r_pos cli + int (length chunk)\<rparr>))"
    using ov assms(8) by (auto simp: server_store_def Let_def g_def b0_def cap_def)
  moreover have "length (take (nat (r_pos cli)) b0) = nat (r_pos cli)" using cap assms(1) by simp
  moreover from this have "take (nat (r_pos cli) + length chunk) ?b = take (nat (r_pos cli)) (rbuf cli) @ chunk"
    using pre by (simp only: take_append) simp
  ultimately show ?thesis using cap assms(1-4)
    by (intro exI [of _ ?b] exI [of _ cap] conjI) (simp_all add: pre)
qed

lemma detect_frame:
  assumes "take (nat (r_pos cli)) (rbuf cli) @ later = kvsp_frame ts @ rest" "0 < r_pos cli" "r_pos cli < int (length (rbuf cli))"
  shows "kvs_detect_protocol cli = Some (0, cli\<lparr>protocol := PROTO_KVSP, recv_protocol := Some Recv_kvsp\<rparr>)"
proof -
  obtain c b where b: "rbuf cli = c # b" using assms(2,3) by (cases "rbuf cli") auto
  moreover obtain n where "nat (r_pos cli) = Suc n" using assms(2) by (metis Suc_pred zero_less_nat_eq)
  ultimately have "c = CHR ''#''" using assms(1) by (simp add: kvsp_frame_def kvsp_head_def)
  then show ?thesis using assms(2) b by (simp add: kvs_detect_protocol_def rd_def memrd_def kvsp_consts)
qed

text \<open>The state of a connection between two rounds: \<open>T\<close> bounds the bytes the client sends.\<close>

definition conn_ok :: "nat \<Rightarrow> client_info \<Rightarrow> bool" where
  "conn_ok T cli \<longleftrightarrow> 0 \<le> r_pos cli \<and> r_pos cli < r_cap cli \<and> int SRV_BUFFER_SIZE \<le> r_cap cli \<and> int (length (rbuf cli)) = r_cap cli + 1 \<and>
     w_pos cli = 0 \<and> wbuf_ok cli \<and> 2 * int T + 1 \<le> INT_MAX \<and>
     (protocol cli = PROTO_KVSP \<and> recv_protocol cli = Some Recv_kvsp \<or> protocol cli = PROTO_UNKNOWN \<and> r_pos cli = 0)"

lemma client_init_conn:
  assumes "client_info_init e sock = Some cli" "2 * int T + 1 \<le> INT_MAX"
  shows "conn_ok T cli" "r_pos cli = 0" "role cli = 0"
  using assms by (auto simp: client_info_init_def conn_ok_def wbuf_ok_def SRV_BUFFER_SIZE_def WBUF_LIMIT_def split: if_splits)

text \<open>A handler that gets the frame of an admissible request puts its reply, of at most \<open>maxlen\<close> bytes,
  behind the replies that are there, and changes nothing else but the bytes of the request.\<close>

locale reply_handler =
  fixes inv :: "'s \<Rightarrow> bool"
    and okreq :: "string list \<Rightarrow> bool"
    and maxlen :: nat
    and exec :: "'s \<Rightarrow> string list \<Rightarrow> string \<Rightarrow> 's \<Rightarrow> bool"
    and handler :: "'s \<Rightarrow> client_info \<Rightarrow> (int \<times> 's \<times> client_info) option"
  assumes replies: "inv s \<Longrightarrow> wbuf_ok cli \<Longrightarrow> 2 * (w_pos cli + int maxlen) + 64 \<le> WBUF_LIMIT \<Longrightarrow>
      protocol cli = PROTO_KVSP \<Longrightarrow> rbuf cli = kvsp_frame ts @ NUL # rest \<Longrightarrow>
      cmd_hl cli = int (length (kvsp_head ts)) \<Longrightarrow> cmd_tl cli = int (length (kvsp_frame ts)) \<Longrightarrow> okreq ts \<Longrightarrow>
      \<exists>reply s' f b c. handler s cli = Some (int (length reply), s', cli\<lparr>rbuf := f @ NUL # rest, wbuf := b, w_cap := c\<rparr>) \<and>
        length f = length (kvsp_frame ts) \<and> exec s ts reply s' \<and> inv s' \<and> length reply \<le> maxlen \<and>
        wbuf_ok (cli\<lparr>wbuf := b, w_cap := c, w_pos := w_pos cli + int (length reply)\<rparr>) \<and>
        take (nat (w_pos cli) + length reply) b = take (nat (w_pos cli)) (wbuf cli) @ reply"
    and req_len: "okreq ts \<Longrightarrow> int (length (kvsp_frame ts)) \<le> INT_MAX"
begin

lemma frame_step:
  assumes s: "inv s" and w: "wbuf_ok cli" "2 * (w_pos cli + int maxlen) + 64 \<le> WBUF_LIMIT"
    and c: "protocol cli = PROTO_KVSP" "recv_protocol cli = Some Recv_kvsp" "r_pos cli < int (length (rbuf cli))"
    and ts: "okreq ts" "int (length (kvsp_frame ts)) \<le> r_pos cli" "take (nat (r_pos cli)) (rbuf cli) @ later = kvsp_frame ts @ rest"
  shows "\<exists>reply s' cli'. server_frames handler e cli s = server_frames handler e cli' s' \<and> exec s ts reply s' \<and> inv s' \<and>
    length reply \<le> maxlen \<and> wbuf_ok cli' \<and> same_conn cli cli' \<and> r_pos cli' = r_pos cli - int (length (kvsp_frame ts)) \<and>
    length (rbuf cli') = length (rbuf cli) \<and> take (nat (r_pos cli')) (rbuf cli') @ later = rest \<and>
    w_pos cli' = w_pos cli + int (length reply) \<and> take (nat (w_pos cli')) (wbuf cli') = take (nat (w_pos cli)) (wbuf cli) @ reply"
proof -
  let ?f = "kvsp_frame ts" and ?n = "length (kvsp_frame ts)"
  have n: "?n < length (rbuf cli)" "?n \<le> nat (r_pos cli)" "0 < ?n" using ts(2) c(3) by (auto simp: kvsp_frame_def)
  define x y where "x = rbuf cli ! ?n" and "y = drop (Suc ?n) (rbuf cli)"
  have "take ?n (take (nat (r_pos cli)) (rbuf cli)) = ?f" using arg_cong [OF ts(3), of "take ?n"] n by simp
  then have buf: "rbuf cli = ?f @ x # y" using n id_take_nth_drop [OF n(1)] by (simp add: x_def y_def)
  have "take (nat (r_pos cli)) (rbuf cli) = ?f @ take (nat (r_pos cli) - ?n) (x # y)" using n(2) buf by simp
  then have rest: "take (nat (r_pos cli) - ?n) (x # y) @ later = rest" using ts(3) by simp
  have parse: "kvsp_parse_bulk_size (rbuf cli) (r_pos cli) 0 = Some (int ?n, int (length (kvsp_head ts)))"
    using kvsp_parse_measure [of "r_pos cli" "rbuf cli" 0] kvsp_measure_frame [OF req_len [OF ts(1)]] n(2) c(3) by (simp add: buf)
  let ?cli1 = "cli\<lparr>cmd_tl := int ?n, cmd_hl := int (length (kvsp_head ts)), rbuf := ?f @ NUL # y\<rparr>"
  obtain reply s' f b cap where h: "handler s ?cli1 = Some (int (length reply), s', ?cli1\<lparr>rbuf := f @ NUL # y, wbuf := b, w_cap := cap\<rparr>)"
      "length f = ?n" "exec s ts reply s'" "inv s'" "length reply \<le> maxlen"
      "wbuf_ok (?cli1\<lparr>wbuf := b, w_cap := cap, w_pos := w_pos cli + int (length reply)\<rparr>)"
      "take (nat (w_pos cli) + length reply) b = take (nat (w_pos cli)) (wbuf cli) @ reply"
    using replies [of s ?cli1 ts y] s w c ts(1) by (auto simp: wbuf_ok_def)
  let ?k = "nat (r_pos cli) - ?n"
  let ?b = "if r_pos cli - int ?n > 0 then take ?k (x # y) @ drop ?k (f @ x # y) else f @ x # y"
  let ?cli2 = "cli\<lparr>cmd_tl := int ?n, cmd_hl := int (length (kvsp_head ts)), wbuf := b, w_cap := cap, rbuf := ?b,
      w_pos := w_pos cli + int (length reply), r_pos := r_pos cli - int ?n\<rparr>"
  have k: "?k \<le> length (x # y)" "nat (r_pos cli - int ?n) = ?k" using n c(3) by (simp_all add: buf)
  have "0 < r_pos cli" using n ts(2) by linarith
  have io: "rd (?f @ x # y) (int ?n) = Some x" "wr (?f @ x # y) (int ?n) NUL = Some (?f @ NUL # y)"
    "wr (f @ NUL # y) (int ?n) x = Some (f @ x # y)" "memrd (f @ x # y) (int ?n) ?k = Some (take ?k (x # y))"
    "memwr (f @ x # y) 0 (take ?k (x # y)) = Some (take ?k (x # y) @ drop ?k (f @ x # y))"
    using h(2) k(1) by (simp_all add: rd_mid wr_mid memrd_def memwr_def del: rd_in wr_in memrd_in)
  have "server_frames handler e cli s = server_frames handler e ?cli2 s'"
    using parse c(1,2) n h(1) ts(2) \<open>0 < r_pos cli\<close>
    by (subst server_frames.simps)
      (simp add: call_recv_protocol_def buf io k(2) del: rd_in wr_in memrd_in take_append drop_append)
  moreover have "length ?b = length (rbuf cli)" using k(1) h(2) by (auto simp: buf)
  moreover have "take (nat (r_pos ?cli2)) (rbuf ?cli2) @ later = rest" using k rest by (auto simp: min_def)
  moreover have "wbuf_ok ?cli2" using h(6) by (simp add: wbuf_ok_def)
  moreover have "nat (w_pos cli + int (length reply)) = nat (w_pos cli) + length reply" using w(1) by (simp add: wbuf_ok_def nat_add_distrib)
  ultimately show ?thesis using h(3-5,7)
    by (intro exI [of _ reply] exI [of _ s'] exI [of _ ?cli2]) (simp add: same_conn_def)
qed

text \<open>The requests that are complete in the buffer are answered; what is left is an incomplete request.\<close>

lemma frames_answered:
  assumes "inv s" "wbuf_ok cli" "protocol cli = PROTO_KVSP" "recv_protocol cli = Some Recv_kvsp"
    and "0 \<le> r_pos cli" "r_pos cli < int (length (rbuf cli))" "take (nat (r_pos cli)) (rbuf cli) @ later = concat (map kvsp_frame reqs)"
    and "\<forall>ts \<in> set reqs. okreq ts" "2 * (w_pos cli + int (length reqs * maxlen)) + 64 \<le> WBUF_LIMIT"
  shows "\<exists>answer todo out s' cli'. server_frames handler e cli s = Some (Frames_more cli' s') \<and> reqs = answer @ todo \<and>
    answered exec s answer out s' \<and> inv s' \<and> wbuf_ok cli' \<and>
    same_conn cli cli' \<and>
    0 \<le> r_pos cli' \<and> r_pos cli' \<le> r_pos cli \<and> length (rbuf cli') = length (rbuf cli) \<and>
    take (nat (r_pos cli')) (rbuf cli') @ later = concat (map kvsp_frame todo) \<and> (todo = [] \<or> r_pos cli' < int (length (kvsp_frame (hd todo)))) \<and>
    w_pos cli' = w_pos cli + int (length (concat out)) \<and>
    take (nat (w_pos cli')) (wbuf cli') = take (nat (w_pos cli)) (wbuf cli) @ concat out"
  using assms
proof (induction reqs arbitrary: s cli)
  case Nil
  then have "r_pos cli = 0" by auto
  then show ?case using Nil
    by (intro exI [of _ "[]"] exI [of _ s] exI [of _ cli]) (simp add: server_frames.simps answered_none same_conn_def)
next
  case (Cons ts reqs)
  let ?p = "take (nat (r_pos cli)) (rbuf cli)" and ?n = "length (kvsp_frame ts)"
  have cat: "?p @ later = kvsp_frame ts @ concat (map kvsp_frame reqs)" using Cons.prems(7) by simp
  have len: "int ?n \<le> INT_MAX" using req_len Cons.prems(8) by simp
  have lp: "length ?p = nat (r_pos cli)" using Cons.prems(6) by simp
  have parse: "kvsp_parse_bulk_size (rbuf cli) (r_pos cli) 0 = Some (kvsp_measure ?p 0)" using Cons.prems(6) by (intro kvsp_parse_measure) simp
  show ?case
  proof (cases "?n \<le> nat (r_pos cli)")
    case False
    have "server_frames handler e cli s = Some (Frames_more cli s)"
    proof (cases "?p = []")
      case True
      then have "r_pos cli \<le> 0" using lp by auto
      then show ?thesis by (simp add: server_frames.simps)
    next
      case False
      then obtain h where "kvsp_measure ?p 0 = (0, h)" using kvsp_measure_prefix [OF cat False _ len, of 0] \<open>\<not> ?n \<le> nat (r_pos cli)\<close> lp by auto
      then show ?thesis using parse Cons.prems(4) by (simp add: server_frames.simps call_recv_protocol_def)
    qed
    then show ?thesis using Cons.prems cat False
      by (intro exI [of _ "[]"] exI [of _ "ts # reqs"] exI [of _ s] exI [of _ cli]) (auto simp: answered_none same_conn_def)
  next
    case True
    have "maxlen \<le> length (ts # reqs) * maxlen" by simp
    then have "int maxlen \<le> int (length (ts # reqs) * maxlen)" by (simp only: of_nat_le_iff)
    then have "2 * (w_pos cli + int maxlen) + 64 \<le> 2 * (w_pos cli + int (length (ts # reqs) * maxlen)) + 64"
      by (intro add_right_mono mult_left_mono add_left_mono) simp_all
    from order_trans [OF this Cons.prems(9)] have lim: "2 * (w_pos cli + int maxlen) + 64 \<le> WBUF_LIMIT" .
    from frame_step [OF Cons.prems(1,2) lim Cons.prems(3,4,6) _ _ cat, of e] True Cons.prems(8) obtain reply s1 cli1 where
      st: "server_frames handler e cli s = server_frames handler e cli1 s1" "exec s ts reply s1" "inv s1" "length reply \<le> maxlen"
        "wbuf_ok cli1" "same_conn cli cli1" "r_pos cli1 = r_pos cli - int ?n" "length (rbuf cli1) = length (rbuf cli)"
        "take (nat (r_pos cli1)) (rbuf cli1) @ later = concat (map kvsp_frame reqs)" "w_pos cli1 = w_pos cli + int (length reply)"
        "take (nat (w_pos cli1)) (wbuf cli1) = take (nat (w_pos cli)) (wbuf cli) @ reply"
      by (auto simp: le_nat_iff Cons.prems(5))
    have "2 * (w_pos cli1 + int (length reqs * maxlen)) + 64 \<le> WBUF_LIMIT" using Cons.prems(9) st(4,10) by simp
    moreover have "protocol cli1 = PROTO_KVSP" "recv_protocol cli1 = Some Recv_kvsp" "0 \<le> r_pos cli1" "r_pos cli1 < int (length (rbuf cli1))"
      using st(6-8) Cons.prems(3-6) True by (auto simp: same_conn_def)
    ultimately obtain answer todo out s' cli' where
      ih: "server_frames handler e cli1 s1 = Some (Frames_more cli' s')" "reqs = answer @ todo" "answered exec s1 answer out s'" "inv s'" "wbuf_ok cli'"
        "same_conn cli1 cli'" "0 \<le> r_pos cli'" "r_pos cli' \<le> r_pos cli1" "length (rbuf cli') = length (rbuf cli1)"
        "take (nat (r_pos cli')) (rbuf cli') @ later = concat (map kvsp_frame todo)" "todo = [] \<or> r_pos cli' < int (length (kvsp_frame (hd todo)))"
        "w_pos cli' = w_pos cli1 + int (length (concat out))"
        "take (nat (w_pos cli')) (wbuf cli') = take (nat (w_pos cli1)) (wbuf cli1) @ concat out"
      using Cons.IH [OF st(3,5) _ _ _ _ st(9)] Cons.prems(8) by (metis list.set_intros(2))
    have "same_conn cli cli'" using st(6) ih(6) by (simp add: same_conn_def)
    then show ?thesis using st ih
      by (intro exI [of _ "ts # answer"] exI [of _ todo] exI [of _ "reply # out"] exI [of _ s'] exI [of _ cli']) (simp add: answered_one)
  qed
qed

lemma round_answered:
  assumes s: "inv s" and c: "conn_ok T cli" "take (nat (r_pos cli)) (rbuf cli) @ chunk @ later = concat (map kvsp_frame reqs)"
    "nat (r_pos cli) + length chunk \<le> T" and ch: "chunk \<noteq> []" "length chunk \<le> SRV_BUFFER_SIZE"
    and q: "\<forall>ts \<in> set reqs. okreq ts" "2 * int (length reqs * maxlen) + 64 \<le> WBUF_LIMIT"
    and a: "mem_ok (srv_mem a)" "\<forall>i. 0 < srv_send a i"
  shows "\<exists>answer todo out s' cli'. server_round handler a chunk cli s = Some (Round_next (if role cli = 1 then [] else concat out) cli' s') \<and>
    reqs = answer @ todo \<and> answered exec s answer out s' \<and> inv s' \<and> conn_ok T cli' \<and> role cli' = role cli \<and>
    take (nat (r_pos cli')) (rbuf cli') @ later = concat (map kvsp_frame todo) \<and> r_pos cli' \<le> r_pos cli + int (length chunk) \<and>
    (todo = [] \<or> r_pos cli' < int (length (kvsp_frame (hd todo))))"
proof -
  have "\<exists>b cap. server_store (srv_mem a) chunk cli = Some (Some (cli\<lparr>rbuf := b, r_cap := cap, r_pos := r_pos cli + int (length chunk)\<rparr>)) \<and>
    r_pos cli + int (length chunk) < cap \<and> int SRV_BUFFER_SIZE \<le> cap \<and> int (length b) = cap + 1 \<and>
    take (nat (r_pos cli) + length chunk) b = take (nat (r_pos cli)) (rbuf cli) @ chunk"
    by (rule server_store_ok) (use c a ch in \<open>auto simp: conn_ok_def\<close>)
  then obtain b cap where b: "server_store (srv_mem a) chunk cli = Some (Some (cli\<lparr>rbuf := b, r_cap := cap, r_pos := r_pos cli + int (length chunk)\<rparr>))"
    "r_pos cli + int (length chunk) < cap" "int SRV_BUFFER_SIZE \<le> cap" "int (length b) = cap + 1"
    "take (nat (r_pos cli) + length chunk) b = take (nat (r_pos cli)) (rbuf cli) @ chunk" by blast
  define cli1 where "cli1 = cli\<lparr>rbuf := b, r_cap := cap, r_pos := r_pos cli + int (length chunk)\<rparr>"
  have "nat (r_pos cli + int (length chunk)) = nat (r_pos cli) + length chunk" using c(1) by (simp add: conn_ok_def nat_add_distrib)
  then have st: "server_store (srv_mem a) chunk cli = Some (Some cli1)"
    "r_pos cli1 = r_pos cli + int (length chunk)" "r_pos cli1 < r_cap cli1" "int SRV_BUFFER_SIZE \<le> r_cap cli1" "int (length (rbuf cli1)) = r_cap cli1 + 1"
    "take (nat (r_pos cli1)) (rbuf cli1) = take (nat (r_pos cli)) (rbuf cli) @ chunk"
    "wbuf_ok cli1" "w_pos cli1 = 0" "role cli1 = role cli" "protocol cli1 = protocol cli" "recv_protocol cli1 = recv_protocol cli"
    using b c(1) by (simp_all add: cli1_def conn_ok_def wbuf_ok_def)
  obtain ts reqs' where reqs: "reqs = ts # reqs'" using c(2) ch(1) by (cases reqs) auto
  have cat: "take (nat (r_pos cli1)) (rbuf cli1) @ later = concat (map kvsp_frame reqs)" using st(6) c(2) by simp
  obtain cli2 where dp: "(if protocol cli1 = PROTO_UNKNOWN then kvs_detect_protocol cli1 else Some (0, cli1)) = Some (0, cli2)"
    "cli2 = cli1\<lparr>protocol := PROTO_KVSP, recv_protocol := Some Recv_kvsp\<rparr>"
  proof (cases "protocol cli1 = PROTO_UNKNOWN")
    case True
    have "0 < r_pos cli1" using st(2) c(1) ch(1) by (cases chunk) (auto simp: conn_ok_def)
    then show ?thesis using detect_frame [OF cat [unfolded reqs list.map concat.simps]] st(3,5) True that by simp
  next
    case False
    show ?thesis
    proof (rule that)
      show "(if protocol cli1 = PROTO_UNKNOWN then kvs_detect_protocol cli1 else Some (0, cli1)) = Some (0, cli1)" using False by simp
      have "protocol cli1 = PROTO_KVSP" "recv_protocol cli1 = Some Recv_kvsp" using False st(10,11) c(1) by (auto simp: conn_ok_def)
      then show "cli1 = cli1\<lparr>protocol := PROTO_KVSP, recv_protocol := Some Recv_kvsp\<rparr>" by simp
    qed
  qed
  have pos: "0 \<le> r_pos cli1" using st(2) c(1) by (simp add: conn_ok_def)
  have "\<exists>answer todo out s' cli'. server_frames handler (srv_mem a) cli2 s = Some (Frames_more cli' s') \<and> reqs = answer @ todo \<and>
    answered exec s answer out s' \<and> inv s' \<and> wbuf_ok cli' \<and> same_conn cli2 cli' \<and>
    0 \<le> r_pos cli' \<and> r_pos cli' \<le> r_pos cli2 \<and> length (rbuf cli') = length (rbuf cli2) \<and>
    take (nat (r_pos cli')) (rbuf cli') @ later = concat (map kvsp_frame todo) \<and> (todo = [] \<or> r_pos cli' < int (length (kvsp_frame (hd todo)))) \<and>
    w_pos cli' = w_pos cli2 + int (length (concat out)) \<and>
    take (nat (w_pos cli')) (wbuf cli') = take (nat (w_pos cli2)) (wbuf cli2) @ concat out"
    by (rule frames_answered) (use s st dp(2) cat q pos in \<open>auto simp: wbuf_ok_def\<close>)
  then obtain answer todo out s' cli3 where fr: "server_frames handler (srv_mem a) cli2 s = Some (Frames_more cli3 s')" "reqs = answer @ todo"
    "answered exec s answer out s'" "inv s'" "wbuf_ok cli3" "same_conn cli2 cli3" "0 \<le> r_pos cli3" "r_pos cli3 \<le> r_pos cli2" "length (rbuf cli3) = length (rbuf cli2)"
    "take (nat (r_pos cli3)) (rbuf cli3) @ later = concat (map kvsp_frame todo)" "todo = [] \<or> r_pos cli3 < int (length (kvsp_frame (hd todo)))"
    "w_pos cli3 = w_pos cli2 + int (length (concat out))" "take (nat (w_pos cli3)) (wbuf cli3) = take (nat (w_pos cli2)) (wbuf cli2) @ concat out" by blast
  have w2: "w_pos cli2 = 0" using dp(2) st(8) by simp
  have "send_replies (srv_send a) 0 (wbuf cli3) (w_pos cli3) 0 = Some (True, concat out)"
    using send_replies_ok [of "w_pos cli3" "wbuf cli3" 0 "srv_send a" 0] fr(5,13) a(2) w2 by (simp add: wbuf_ok_def)
  then have "server_round handler a chunk cli s = Some (Round_next (if role cli = 1 then [] else concat out) (cli3\<lparr>w_pos := 0\<rparr>) s')"
    using st(1,9) dp fr(1,6) by (simp add: server_round_def same_conn_def)
  moreover have "conn_ok T (cli3\<lparr>w_pos := 0\<rparr>)"
    using fr(5-9) st c(1) dp(2) by (auto simp: conn_ok_def wbuf_ok_def same_conn_def)
  ultimately show ?thesis using fr st(2,9) dp(2)
    by (intro exI [of _ answer] exI [of _ todo] exI [of _ out] exI [of _ s'] exI [of _ "cli3\<lparr>w_pos := 0\<rparr>"]) (simp add: same_conn_def)
qed

lemma stream_answered:
  assumes "inv s" "conn_ok T cli" "take (nat (r_pos cli)) (rbuf cli) @ concat chunks = concat (map kvsp_frame reqs)"
    "length (concat (map kvsp_frame reqs)) \<le> T" "\<forall>c \<in> set chunks. c \<noteq> [] \<and> length c \<le> SRV_BUFFER_SIZE"
    and "\<forall>ts \<in> set reqs. okreq ts" "2 * int (length reqs * maxlen) + 64 \<le> WBUF_LIMIT"
    and "\<forall>i. mem_ok (srv_mem (a i)) \<and> (\<forall>j. 0 < srv_send (a i) j)" "reqs = [] \<or> r_pos cli < int (length (kvsp_frame (hd reqs)))"
  shows "\<exists>out s'. server_reader handler a chunks cli s = Some (if role cli = 1 then [] else concat out, s') \<and> answered exec s reqs out s' \<and> inv s'"
  using assms
proof (induction chunks arbitrary: s cli reqs a)
  case Nil
  have "reqs = []"
  proof (rule ccontr)
    assume "reqs \<noteq> []"
    then obtain ts reqs' where "reqs = ts # reqs'" by (cases reqs) auto
    then have "length (take (nat (r_pos cli)) (rbuf cli)) \<ge> length (kvsp_frame ts)" "r_pos cli < int (length (kvsp_frame ts))" using Nil.prems(3,9) by auto
    then show False using Nil.prems(2) by (auto simp: conn_ok_def)
  qed
  then show ?case using Nil.prems(1) by (intro exI [of _ "[]"] exI [of _ s]) (simp add: answered_none)
next
  case (Cons chunk chunks)
  have "length (take (nat (r_pos cli)) (rbuf cli) @ chunk @ concat chunks) \<le> T" using Cons.prems(3,4) by simp
  moreover have "length (take (nat (r_pos cli)) (rbuf cli)) = nat (r_pos cli)" using Cons.prems(2) by (auto simp: conn_ok_def)
  ultimately have T: "nat (r_pos cli) + length chunk \<le> T" by simp
  have "\<exists>answer todo out s' cli'. server_round handler (a 0) chunk cli s = Some (Round_next (if role cli = 1 then [] else concat out) cli' s') \<and>
    reqs = answer @ todo \<and> answered exec s answer out s' \<and> inv s' \<and> conn_ok T cli' \<and> role cli' = role cli \<and>
    take (nat (r_pos cli')) (rbuf cli') @ concat chunks = concat (map kvsp_frame todo) \<and> r_pos cli' \<le> r_pos cli + int (length chunk) \<and>
    (todo = [] \<or> r_pos cli' < int (length (kvsp_frame (hd todo))))"
    by (rule round_answered) (use Cons.prems T in \<open>simp_all del: of_nat_mult\<close>)
  then obtain answer todo out s1 cli1 where r: "server_round handler (a 0) chunk cli s = Some (Round_next (if role cli = 1 then [] else concat out) cli1 s1)"
    "reqs = answer @ todo" "answered exec s answer out s1" "inv s1" "conn_ok T cli1" "role cli1 = role cli"
    "take (nat (r_pos cli1)) (rbuf cli1) @ concat chunks = concat (map kvsp_frame todo)" "todo = [] \<or> r_pos cli1 < int (length (kvsp_frame (hd todo)))" by blast
  have "length (concat (map kvsp_frame todo)) \<le> T" using Cons.prems(4) r(2) by simp
  moreover have "int (length todo * maxlen) \<le> int (length reqs * maxlen)" unfolding of_nat_le_iff r(2) by simp
  then have "2 * int (length todo * maxlen) + 64 \<le> WBUF_LIMIT" using Cons.prems(7) by (simp only:)
  ultimately obtain out' s' where "server_reader handler (\<lambda>i. a (Suc i)) chunks cli1 s1 = Some (if role cli = 1 then [] else concat out', s')"
    "answered exec s1 todo out' s'" "inv s'"
    using Cons.IH [of s1 cli1 todo "\<lambda>i. a (Suc i)"] r Cons.prems(5,6,8) by auto
  then show ?case using r(1,2) answered_append [OF r(3)] by (intro exI [of _ "out @ out'"] exI [of _ s']) auto
qed

end


end
