(* ===== verification/Kvs_Sync.thy ===== *)
theory Kvs_Sync
  imports Kvs_Save Kvs_Server
begin

text \<open>
  Replication, \<^verbatim>\<open>kvs-module/kvs_sync.c\<close>, as it is built (\<open>sendfile\<close> for the snapshot, the agent for
  the later commands): the full synchronisation on the side of the master
  (\<open>kvs_master_full_sync\<close>) and of the slave (\<open>kvs_slave_sync\<close>), and the hooks for the incremental one.

  The bytes a side sends are part of its result; what the other side sends, and the answers of the
  system calls, are in the records \<open>master_ans\<close> and \<open>slave_ans\<close>.
\<close>

definition KVS_SYNC_COMMAND :: string where "KVS_SYNC_COMMAND = ''SYNC''"
definition KVS_SLAVE_FULLSYNC_READY :: string where "KVS_SLAVE_FULLSYNC_READY = ''FULLSYNC READY''"
definition KVS_SLAVE_FULLSYNC_FINISHED :: string where "KVS_SLAVE_FULLSYNC_FINISHED = ''FULLSYNC FINISHED''"
definition KVS_SLAVE_FULLSYNC_ERROR :: string where "KVS_SLAVE_FULLSYNC_ERROR = ''FULLSYNC ERROR''"
definition KVS_MASTER_FULLSYNC_OK :: "nat \<Rightarrow> string" where "KVS_MASTER_FULLSYNC_OK n = ''FULLSYNC OK '' @ dec n"
definition KVS_MASTER_FULLSYNC_ERROR :: string where "KVS_MASTER_FULLSYNC_ERROR = ''FULLSYNC ERROR''"
definition KVS_MASTER_FULLSYNC_BUSY :: string where "KVS_MASTER_FULLSYNC_BUSY = ''FULLSYNC BUSY''"
definition KVS_SYNC_RET_ERROR :: int where "KVS_SYNC_RET_ERROR = -100"
definition KVS_SYNC_RET_BUSY :: int where "KVS_SYNC_RET_BUSY = -101"
definition SYNC_BUFFER_SIZE :: nat where "SYNC_BUFFER_SIZE = 1024"

lemmas sync_consts = KVS_SYNC_COMMAND_def KVS_SLAVE_FULLSYNC_READY_def KVS_SLAVE_FULLSYNC_FINISHED_def KVS_SLAVE_FULLSYNC_ERROR_def
  KVS_MASTER_FULLSYNC_OK_def KVS_MASTER_FULLSYNC_ERROR_def KVS_MASTER_FULLSYNC_BUSY_def KVS_SYNC_RET_ERROR_def KVS_SYNC_RET_BUSY_def

text \<open>\<open>sock\<close>: the result of \<open>socket\<close>; \<open>connected\<close>: whether \<open>connect\<close> succeeds.\<close>

definition kvs_connect_to_remote :: "int \<Rightarrow> bool \<Rightarrow> nat \<Rightarrow> int" where
  "kvs_connect_to_remote sock connected port =
     (if port > 65535 then -1 else if sock < 0 then -2 else if \<not> connected then -3 else sock)"

text \<open>\<open>tokens[0]\<close> after \<open>kvs_recv_single_command\<close>, as \<open>strcmp\<close> reads it: there is none in a frame without
  tokens.\<close>

definition sync_command :: "char list \<Rightarrow> int list \<Rightarrow> string option" where
  "sync_command buf toks = (case toks of [] \<Rightarrow> None | t # _ \<Rightarrow> cstr_at buf t)"

subsection \<open>The master\<close>

record master_ans =
  snap_open :: int
  snap_pair :: bool
  snap_fork :: int
  snap_child :: save_ans
  snap_wait :: bool
  snap_recv :: bool
  ms_fstat :: bool
  ms_env :: env
  ms_sent :: "nat \<Rightarrow> string \<Rightarrow> int"
  ms_got :: "string option"
  ms_sendfile :: "nat \<Rightarrow> int"

definition kvs_sync_write_snapshot :: "save_ans \<Rightarrow> int \<Rightarrow> kvs_store \<Rightarrow> (int \<times> string) option" where
  "kvs_sync_write_snapshot a file_fd s =
     (if file_fd < 0 then Some (-1, [])
      else if \<not> ring_ok a then Some (-2, [])
      else do {
        (ret, ctx) \<leftarrow> kvs_traversal_write (ans_sqe a) (ans_waited a) file_fd s (main_ctx a);
        Some (if ret < 0 then -2 else 0, written a ctx) })"

text \<open>The descriptor and the contents of the snapshot.  The child works on its copy of the store; a crash
  of the child is an abnormal exit for the parent.  \<open>snap_wait\<close>: \<open>waitpid\<close> answers with the child;
  \<open>snap_recv\<close>: its byte arrives.\<close>

definition kvs_master_write_snapshot :: "master_ans \<Rightarrow> kvs_store \<Rightarrow> int \<times> string" where
  "kvs_master_write_snapshot m s =
     (if snap_open m < 0 then (-1, [])
      else if \<not> snap_pair m then (-1, [])
      else if snap_fork m < 0 then (-1, [])
      else case kvs_sync_write_snapshot (snap_child m) (snap_open m) s of
        None \<Rightarrow> (-1, [])
      | Some (ret, f) \<Rightarrow>
          if \<not> snap_wait m \<or> ret \<noteq> 0 then (-1, [])
          else if \<not> snap_recv m then (-1, [])
          else (snap_open m, f))"

text \<open>The loop over \<open>sendfile\<close>; the answer \<open>-1\<close> stands for \<open>EAGAIN\<close>, a smaller one for an error.\<close>

partial_function (option) sendfile_loop :: "(nat \<Rightarrow> int) \<Rightarrow> nat \<Rightarrow> nat \<Rightarrow> nat \<Rightarrow> (nat \<times> nat) option" where
  "sendfile_loop ans i start_pos remaining =
     (if remaining > 0 then
        (let bytes = min (ans i) (int remaining) in
         if bytes = -1 then sendfile_loop ans (Suc i) start_pos remaining
         else if bytes \<le> 0 then Some (start_pos, remaining)
         else sendfile_loop ans (Suc i) (start_pos + nat bytes) (remaining - nat bytes))
      else Some (start_pos, remaining))"

definition kvs_master_send_file :: "master_ans \<Rightarrow> int \<Rightarrow> string \<Rightarrow> (int \<times> string) option" where
  "kvs_master_send_file m file_fd f =
     (if f = [] then Some (0, [])
      else if file_fd < 0 then Some (-1, [])
      else do {
        (start_pos, remaining) \<leftarrow> sendfile_loop (ms_sendfile m) 0 0 (length f);
        Some (if remaining \<noteq> 0 then -2 else 0, take start_pos f) })"

definition kvs_master_notify_and_wait_slave :: "master_ans \<Rightarrow> client_info \<Rightarrow> nat \<Rightarrow> (int \<times> string) option" where
  "kvs_master_notify_and_wait_slave m cli file_size = do {
     let send_msg = take (SYNC_BUFFER_SIZE - 1) (KVS_MASTER_FULLSYNC_OK file_size);
     (r, out) \<leftarrow> kvs_send_single_command (ms_env m) (ms_sent m 0) (fd cli) (Some send_msg);
     if r \<noteq> 0 then Some (-2, out)
     else if file_size = 0 then Some (0, out)
     else do {
       (count, buf, toks) \<leftarrow> kvs_recv_single_command (ms_got m) (fd cli) (replicate SYNC_BUFFER_SIZE NUL);
       if count < 0 then Some (-2, out)
       else do {
         command \<leftarrow> sync_command buf toks;
         Some (if strcmp command KVS_SLAVE_FULLSYNC_READY \<noteq> 0 then -2 else 0, out) } } }"

text \<open>The result, the flag \<open>is_full_sync\<close> and the bytes sent to the slave.\<close>

definition kvs_master_full_sync ::
  "kvs_conf_t \<Rightarrow> master_ans \<Rightarrow> kvs_store \<Rightarrow> client_info \<Rightarrow> int \<Rightarrow> (int \<times> int \<times> string) option" where
  "kvs_master_full_sync conf m s cli is_full_sync =
     (if enable_sync conf = 0 then Some (0, is_full_sync, [])
      else if is_full_sync \<noteq> 0 then do {
        (_, out) \<leftarrow> kvs_send_single_command (ms_env m) (ms_sent m 0) (fd cli) (Some KVS_MASTER_FULLSYNC_BUSY);
        Some (0, is_full_sync, out) }
      else (case kvs_master_write_snapshot m s of (file_fd, f) \<Rightarrow> do {
        (ret, ok_sent, out) \<leftarrow>
          (if file_fd < 0 then Some (-2, False, [])
           else if \<not> ms_fstat m then Some (-2, False, [])
           else do {
             (r, out) \<leftarrow> kvs_master_notify_and_wait_slave m cli (length f);
             if r \<noteq> 0 then Some (-2, False, out)
             else do {
               (r, sent) \<leftarrow> kvs_master_send_file m file_fd f;
               Some (if r \<noteq> 0 then -2 else 0, True, out @ sent) } });
        (_, err) \<leftarrow> (if ret \<noteq> 0 \<and> \<not> ok_sent
           then kvs_send_single_command (env_skip 1 (ms_env m)) (ms_sent m 1) (fd cli) (Some KVS_MASTER_FULLSYNC_ERROR) else Some (0, []));
        Some (ret, 0, out @ err) }))"

definition kvs_master_incr_sync :: "kvs_conf_t \<Rightarrow> int \<Rightarrow> int" where
  "kvs_master_incr_sync conf count = (if enable_sync conf = 0 then 0 else if count \<le> 0 then -1 else 0)"

subsection \<open>The slave\<close>

text \<open>\<open>sscanf(command, "FULLSYNC OK %zu", ...)\<close>: a blank of the format matches any white space, the
  conversion skips white space, takes a sign and saturates.\<close>

definition scan_lit :: "string \<Rightarrow> string \<Rightarrow> string option" where
  "scan_lit lit s = (if take (length lit) s = lit then Some (drop (length lit) s) else None)"

definition scan_size :: "string \<Rightarrow> int option" where
  "scan_size s = do {
     s \<leftarrow> scan_lit ''FULLSYNC'' s;
     s \<leftarrow> scan_lit ''OK'' (dropWhile c_isspace s);
     let s = dropWhile c_isspace s;
     let neg = (case s of c # _ \<Rightarrow> c = CHR ''-'' | [] \<Rightarrow> False);
     let s = (case s of c # r \<Rightarrow> if c = CHR ''-'' \<or> c = CHR ''+'' then r else s | [] \<Rightarrow> s);
     let ds = takeWhile is_digit s;
     if ds = [] then None
     else Some (let v = dec_val 0 ds in if v > SIZE_MAX then SIZE_MAX else if neg then c_size (- v) else v) }"

record slave_ans =
  sl_env :: env
  sl_sent :: "nat \<Rightarrow> string \<Rightarrow> int"
  sl_got :: "string option"
  sl_mem :: bool
  sl_rx :: "nat \<Rightarrow> string"
  sl_load :: env

definition SSIZE_MAX :: int where "SSIZE_MAX = 2 ^ 63 - 1"

definition kvs_slave_obtain_file_size :: "slave_ans \<Rightarrow> int \<Rightarrow> (int \<times> string) option" where
  "kvs_slave_obtain_file_size a sockfd =
     (if sockfd < 0 then Some (-1, [])
      else do {
        (r, out) \<leftarrow> kvs_send_single_command (sl_env a) (sl_sent a 0) sockfd (Some KVS_SYNC_COMMAND);
        if r \<noteq> 0 then Some (-2, out)
        else do {
          (count, buf, toks) \<leftarrow> kvs_recv_single_command (sl_got a) sockfd (replicate SYNC_BUFFER_SIZE NUL);
          if count < 0 then Some (-2, out)
          else do {
            command \<leftarrow> sync_command buf toks;
            Some (if strcmp command KVS_MASTER_FULLSYNC_BUSY = 0 then KVS_SYNC_RET_BUSY
                  else if strcmp command KVS_MASTER_FULLSYNC_ERROR = 0 then KVS_SYNC_RET_ERROR
                  else case scan_size command of
                    None \<Rightarrow> KVS_SYNC_RET_ERROR
                  | Some file_size \<Rightarrow> if file_size > SSIZE_MAX then KVS_SYNC_RET_ERROR else file_size, out) } } })"

text \<open>The receive loop: the \<open>i\<close>-th \<open>recv\<close> delivers what is asked for of \<open>rx i\<close>, nothing when it fails.\<close>

function slave_recv_loop :: "(nat \<Rightarrow> string) \<Rightarrow> nat \<Rightarrow> nat \<Rightarrow> string \<Rightarrow> string" where
  "slave_recv_loop rx i file_size buf =
     (if length buf < file_size then
        (let d = take (file_size - length buf) (rx i) in
         if d = [] then buf else slave_recv_loop rx (Suc i) file_size (buf @ d))
      else buf)"
  by pat_completeness auto
termination
  by (relation "measure (\<lambda>(rx, i, n, buf). n - length buf)") (auto simp: Let_def intro!: diff_less_mono2 split: if_splits)

declare slave_recv_loop.simps [simp del]

definition kvs_slave_obtain_file :: "slave_ans \<Rightarrow> int \<Rightarrow> int \<Rightarrow> (string option \<times> string) option" where
  "kvs_slave_obtain_file a file_size sockfd =
     (if file_size \<le> 0 \<or> sockfd < 0 then Some (None, [])
      else if \<not> sl_mem a then Some (None, [])
      else do {
        (r, out) \<leftarrow> kvs_send_single_command (env_skip 1 (sl_env a)) (sl_sent a 1) sockfd (Some KVS_SLAVE_FULLSYNC_READY);
        if r \<noteq> 0 then Some (None, out)
        else (let buf = slave_recv_loop (sl_rx a) 0 (nat file_size) [] in
              if int (length buf) < file_size then Some (None, out) else Some (Some buf, out)) })"

definition kvs_slave_full_sync :: "slave_ans \<Rightarrow> int \<Rightarrow> load_state \<Rightarrow> (int \<times> string \<times> load_state) option" where
  "kvs_slave_full_sync a sockfd st =
     (if sockfd < 0 then Some (-1, [], st)
      else do {
        (file_size, out) \<leftarrow> kvs_slave_obtain_file_size a sockfd;
        if file_size = KVS_SYNC_RET_BUSY then Some (KVS_SYNC_RET_BUSY, out, st)
        else if file_size = KVS_SYNC_RET_ERROR then Some (KVS_SYNC_RET_ERROR, out, st)
        else if file_size = 0 then Some (0, out, st)
        else do {
          (ret, out, st) \<leftarrow>
            (if file_size < 0 then Some (-2, out, st)
             else do {
               (buf, out') \<leftarrow> kvs_slave_obtain_file a file_size sockfd;
               (case buf of
                  None \<Rightarrow> Some (-3, out @ out', st)
                | Some f \<Rightarrow> do {
                    (r, st) \<leftarrow> kvs_file_read kvs_save_handler (sl_load a) f st;
                    Some (if r \<noteq> 0 then -3 else 0, out @ out', st) }) });
          (_, err) \<leftarrow> (if ret \<noteq> 0
             then kvs_send_single_command (env_skip 2 (sl_env a)) (sl_sent a 2) sockfd (Some KVS_SLAVE_FULLSYNC_ERROR) else Some (0, []));
          Some (ret, out @ err, st) } })"

text \<open>\<open>cli_info->role = 1\<close> is stored whether or not \<open>client_info_init\<close> got its memory.  The result, the
  reader that is started, and the bytes sent to the master.\<close>

definition kvs_slave_incr_sync ::
  "int \<Rightarrow> env \<Rightarrow> env \<Rightarrow> (string \<Rightarrow> int) \<Rightarrow> int \<Rightarrow> (int \<times> client_info option \<times> string) option" where
  "kvs_slave_incr_sync agent_fd e_cli e_send sent master_fd =
     (if master_fd < 0 then Some (-1, None, [])
      else if agent_fd < 0 then Some (-1, None, [])
      else do {
        cli_info \<leftarrow> client_info_init e_cli agent_fd;
        (ret, out) \<leftarrow> kvs_send_single_command e_send sent master_fd (Some KVS_SLAVE_FULLSYNC_FINISHED);
        Some (if ret \<noteq> 0 then -2 else 0, Some (cli_info\<lparr>role := 1\<rparr>), out) })"

text \<open>\<open>master_sock\<close> and \<open>agent_sock\<close>: what \<open>socket\<close> and \<open>connect\<close> answer for the two connections.\<close>

definition kvs_slave_sync ::
  "kvs_conf_t \<Rightarrow> int \<times> bool \<Rightarrow> int \<times> bool \<Rightarrow> slave_ans \<Rightarrow> env \<Rightarrow> load_state \<Rightarrow> (int \<times> client_info option \<times> string \<times> load_state) option" where
  "kvs_slave_sync conf master_sock agent_sock a e_cli st =
     (if enable_sync conf = 0 then Some (0, None, [], st)
      else (let master_fd = kvs_connect_to_remote (fst master_sock) (snd master_sock) (nat (master_port conf mod 2 ^ 32)) in
        if master_fd < 0 then Some (-1, None, [], st)
        else do {
          (ret, out, st) \<leftarrow> kvs_slave_full_sync a master_fd st;
          if ret = KVS_SYNC_RET_BUSY then Some (KVS_SYNC_RET_BUSY, None, out, st)
          else if ret \<noteq> 0 then Some (-2, None, out, st)
          else do {
            (ret, cli, out') \<leftarrow> kvs_slave_incr_sync (kvs_connect_to_remote (fst agent_sock) (snd agent_sock) (nat (agent_port conf mod 2 ^ 32)))
               e_cli (env_skip 3 (sl_env a)) (sl_sent a 3) master_fd;
            Some (if ret \<noteq> 0 then -2 else 0, cli, out @ out', st) } }))"

subsection \<open>Messages\<close>

lemma send_command_ok:
  assumes "mem e 0" "0 \<le> sock" "int (length (kvsp_frame [msg])) < INT_MAX" "\<And>b. sent b = int (length b)"
  shows "kvs_send_single_command e sent sock (Some msg) = Some (0, kvsp_frame [msg])"
proof -
  have "kvsp_frame [msg] \<noteq> []" by (simp add: kvsp_frame_def)
  then show ?thesis using kvs_build_frame [of "[msg]" e] assms by (simp add: kvs_send_single_command_def)
qed

lemma recv_command_ok:
  assumes "0 \<le> sock" "cstring msg" "length (kvsp_frame [msg]) \<le> SYNC_BUFFER_SIZE"
  shows "\<exists>buf t. kvs_recv_single_command (Some (kvsp_frame [msg])) sock (replicate SYNC_BUFFER_SIZE NUL) = Some (1, buf, [t]) \<and>
    cstr_at buf t = Some msg"
proof -
  let ?f = "kvsp_frame [msg]" and ?pad = "replicate (SYNC_BUFFER_SIZE - length (kvsp_frame [msg])) NUL"
  have len: "int (length ?f) \<le> INT_MAX" using assms(3) by (simp add: INT_MAX_def SYNC_BUFFER_SIZE_def)
  have ne: "?f \<noteq> []" by (simp add: kvsp_frame_def)
  have m: "memwr (replicate SYNC_BUFFER_SIZE NUL) 0 ?f = Some (?f @ ?pad)" using assms(3) by (simp add: memwr_def)
  have p: "kvsp_parse_bulk_size (?f @ ?pad) (int (length ?f)) 0 = Some (int (length ?f), int (length (kvsp_head [msg])))"
    using kvsp_parse_measure [of "int (length ?f)" "?f @ ?pad" 0] kvsp_measure_frame [OF len, of "[]" 0] by simp
  let ?cli = "\<lparr>fd = 0, rbuf = ?f @ ?pad, r_cap = 0, r_pos = 0, cmd_tl = int (length ?f), cmd_hl = int (length (kvsp_head [msg])),
      wbuf = [], w_cap = 0, w_pos = 0, role = 0, protocol = PROTO_KVSP, recv_protocol = None\<rparr>"
  obtain f toks where s: "kvs_split_token ?cli = Some (1, ?cli\<lparr>rbuf := f @ ?pad\<rparr>, toks)" "map (cstr_at (f @ ?pad)) toks = [Some msg]"
    using kvs_split_kvsp_frame [of ?cli "[msg]" ?pad] assms(2) len by (auto simp: KVS_MAX_TOKENS_def)
  then obtain t where t: "toks = [t]" "cstr_at (f @ ?pad) t = Some msg" by (cases toks) auto
  have "kvs_recv_single_command (Some ?f) sock (replicate SYNC_BUFFER_SIZE NUL) = Some (1, f @ ?pad, [t])"
    using assms(1) ne m p s t by (simp add: kvs_recv_single_command_def SYNC_BUFFER_SIZE_def)
  then show ?thesis using t by blast
qed

lemma scan_size_ok:
  assumes "int n \<le> SIZE_MAX"
  shows "scan_size (KVS_MASTER_FULLSYNC_OK n) = Some (int n)"
proof -
  obtain c r where c: "dec n = c # r" by (cases "dec n") auto
  have d: "is_digit c" "\<forall>x \<in> set (dec n). is_digit x" using dec_digits [of _ n] c by auto
  then have sp: "\<not> c_isspace c" "c \<noteq> CHR ''-''" "c \<noteq> CHR ''+''" by (auto simp: is_digit_iff c_isspace_def)
  have tw: "takeWhile is_digit r = r" using d(2) c by (simp add: takeWhile_eq_all_conv)
  have "dec_val 0 (c # r) = int n" using dec_val_dec [of n] c by simp
  moreover have "\<not> c_isspace (CHR ''O'')" "c_isspace (CHR '' '')" by (simp_all add: c_isspace_def)
  ultimately show ?thesis using sp d(1) assms by (simp add: scan_size_def scan_lit_def KVS_MASTER_FULLSYNC_OK_def c Let_def tw)
qed

lemma command_size: "n < 10 ^ 20 \<Longrightarrow> length (kvsp_frame [KVS_MASTER_FULLSYNC_OK n]) \<le> SYNC_BUFFER_SIZE" "cstring (KVS_MASTER_FULLSYNC_OK n)"
proof -
  assume "n < 10 ^ 20"
  then have "length (dec n) \<le> 20" by (intro dec_length) simp_all
  then have a: "length (KVS_MASTER_FULLSYNC_OK n) \<le> 32" by (simp add: KVS_MASTER_FULLSYNC_OK_def)
  then have b: "length (dec (length (KVS_MASTER_FULLSYNC_OK n))) \<le> 2" by (intro dec_length) simp_all
  let ?body = "kvsp_body [KVS_MASTER_FULLSYNC_OK n]"
  have "length ?body \<le> 36" using a b by (simp add: length_kvsp_tok)
  then have "length (dec (length ?body + 2)) \<le> 2" by (intro dec_length) simp_all
  then show "length (kvsp_frame [KVS_MASTER_FULLSYNC_OK n]) \<le> SYNC_BUFFER_SIZE"
    using \<open>length ?body \<le> 36\<close> by (simp add: kvsp_frame_def kvsp_head_def SYNC_BUFFER_SIZE_def)
qed (simp add: KVS_MASTER_FULLSYNC_OK_def)

subsection \<open>Files\<close>

lemma sendfile_all:
  assumes "\<forall>i. 0 < ans i"
  shows "sendfile_loop ans i start remaining = Some (start + remaining, 0)"
proof (induction remaining arbitrary: i start rule: less_induct)
  case (less remaining)
  show ?case
  proof (cases "remaining = 0")
    case False
    let ?b = "min (ans i) (int remaining)"
    have b: "0 < ?b" "?b \<le> int remaining" using assms False by auto
    then have "sendfile_loop ans (Suc i) (start + nat ?b) (remaining - nat ?b) = Some (start + nat ?b + (remaining - nat ?b), 0)"
      using less.IH [of "remaining - nat ?b"] False by simp
    moreover have "start + nat ?b + (remaining - nat ?b) = start + remaining" using b by simp
    moreover have "\<not> ?b \<le> 0" "?b \<noteq> -1" using b(1) by linarith+
    ultimately show ?thesis using False by (subst sendfile_loop.simps) (simp add: Let_def)
  qed (simp add: sendfile_loop.simps)
qed

text \<open>What was sent arrives, cut into any non-empty pieces.\<close>

lemma recv_all:
  assumes "buf @ concat (map rx [i..<i + n]) = f" "\<forall>j. i \<le> j \<and> j < i + n \<longrightarrow> rx j \<noteq> []"
  shows "slave_recv_loop rx i (length f) buf = f"
  using assms
proof (induction n arbitrary: i buf)
  case 0
  then show ?case by (simp add: slave_recv_loop.simps)
next
  case (Suc n)
  have up: "[i..<i + Suc n] = i # [Suc i..<Suc i + n]" by (simp add: upt_conv_Cons)
  have ne: "rx i \<noteq> []" using Suc.prems(2) by simp
  have f: "f = buf @ rx i @ concat (map rx [Suc i..<Suc i + n])" using Suc.prems(1) unfolding up by simp
  then have l: "length f - length buf = length (rx i) + length (concat (map rx [Suc i..<Suc i + n]))" by simp
  have "take (length f - length buf) (rx i) = rx i" using l by simp
  moreover have "length buf < length f" using f ne by (cases "rx i") auto
  moreover have "slave_recv_loop rx (Suc i) (length f) (buf @ rx i) = f"
    by (rule Suc.IH) (use Suc.prems(2) f in auto)
  ultimately show ?case using ne by (simp add: slave_recv_loop.simps [of _ i])
qed

subsection \<open>Full synchronisation\<close>

text \<open>The system calls succeed, whatever the pace of the transfers.\<close>

definition master_ok :: "master_ans \<Rightarrow> bool" where
  "master_ok m \<longleftrightarrow> 0 \<le> snap_open m \<and> snap_pair m \<and> 0 \<le> snap_fork m \<and> save_system_ok (snap_child m) \<and> snap_wait m \<and> snap_recv m \<and>
     ms_fstat m \<and> mem_ok (ms_env m) \<and> (\<forall>i b. ms_sent m i b = int (length b)) \<and> (\<forall>i. 0 < ms_sendfile m i)"

definition slave_ok :: "slave_ans \<Rightarrow> bool" where
  "slave_ok a \<longleftrightarrow> mem_ok (sl_env a) \<and> (\<forall>i b. sl_sent a i b = int (length b)) \<and> sl_mem a \<and> mem_ok (sl_load a)"

lemma fixed_commands:
  "cmd \<in> {KVS_SYNC_COMMAND, KVS_SLAVE_FULLSYNC_READY, KVS_SLAVE_FULLSYNC_FINISHED} \<Longrightarrow>
     cstring cmd \<and> length (kvsp_frame [cmd]) \<le> SYNC_BUFFER_SIZE \<and> int (length (kvsp_frame [cmd])) < INT_MAX"
proof -
  have "length (kvsp_frame [KVS_SYNC_COMMAND]) \<le> 40" "length (kvsp_frame [KVS_SLAVE_FULLSYNC_READY]) \<le> 40"
    "length (kvsp_frame [KVS_SLAVE_FULLSYNC_FINISHED]) \<le> 40" by code_simp+
  then show "cmd \<in> {KVS_SYNC_COMMAND, KVS_SLAVE_FULLSYNC_READY, KVS_SLAVE_FULLSYNC_FINISHED} \<Longrightarrow> ?thesis"
    by (auto simp: sync_consts SYNC_BUFFER_SIZE_def INT_MAX_def)
qed

lemma master_snapshot:
  assumes "store_invar s" "dumpable (store_map s)" "master_ok m"
  shows "\<exists>xs. kvs_master_write_snapshot m s = (snap_open m, concat (map save_frame xs)) \<and> lists_maps xs (store_map s)"
proof -
  obtain xs ctx' where
    "kvs_traversal_write (ans_sqe (snap_child m)) (ans_waited (snap_child m)) (snap_open m) s (main_ctx (snap_child m)) = Some (0, ctx')"
    "written (snap_child m) ctx' = concat (map save_frame xs)" "lists_maps xs (store_map s)"
    using snapshot_writes [OF assms(1,2), of "snap_child m" "snap_open m"] assms(3) by (auto simp: master_ok_def)
  moreover from this(1,2) have "kvs_master_write_snapshot m s = (snap_open m, concat (map save_frame xs))"
    using assms(3) by (simp add: kvs_master_write_snapshot_def kvs_sync_write_snapshot_def master_ok_def save_system_ok_def)
  ultimately show ?thesis by blast
qed

lemma size_command:
  assumes "int n \<le> INT_MAX"
  shows "length (kvsp_frame [KVS_MASTER_FULLSYNC_OK n]) \<le> SYNC_BUFFER_SIZE" "int (length (kvsp_frame [KVS_MASTER_FULLSYNC_OK n])) < INT_MAX"
    "take (SYNC_BUFFER_SIZE - 1) (KVS_MASTER_FULLSYNC_OK n) = KVS_MASTER_FULLSYNC_OK n"
proof -
  have n: "n < 10 ^ 20" using assms by (simp add: INT_MAX_def)
  show l: "length (kvsp_frame [KVS_MASTER_FULLSYNC_OK n]) \<le> SYNC_BUFFER_SIZE" by (rule command_size(1) [OF n])
  then show "int (length (kvsp_frame [KVS_MASTER_FULLSYNC_OK n])) < INT_MAX" by (simp add: SYNC_BUFFER_SIZE_def INT_MAX_def)
  have "length (dec n) \<le> 20" using n by (intro dec_length) simp_all
  then show "take (SYNC_BUFFER_SIZE - 1) (KVS_MASTER_FULLSYNC_OK n) = KVS_MASTER_FULLSYNC_OK n"
    by (simp add: KVS_MASTER_FULLSYNC_OK_def SYNC_BUFFER_SIZE_def)
qed

lemma master_notify:
  assumes "master_ok m" "0 \<le> fd cli" "int n \<le> INT_MAX" "n = 0 \<or> ms_got m = Some (kvsp_frame [KVS_SLAVE_FULLSYNC_READY])"
  shows "kvs_master_notify_and_wait_slave m cli n = Some (0, kvsp_frame [KVS_MASTER_FULLSYNC_OK n])"
proof -
  have "kvs_send_single_command (ms_env m) (ms_sent m 0) (fd cli) (Some (KVS_MASTER_FULLSYNC_OK n)) = Some (0, kvsp_frame [KVS_MASTER_FULLSYNC_OK n])"
    by (rule send_command_ok) (use assms size_command [OF assms(3)] in \<open>auto simp: master_ok_def mem_okD\<close>)
  moreover obtain buf t where
    "kvs_recv_single_command (Some (kvsp_frame [KVS_SLAVE_FULLSYNC_READY])) (fd cli) (replicate SYNC_BUFFER_SIZE NUL) = Some (1, buf, [t])"
    "cstr_at buf t = Some KVS_SLAVE_FULLSYNC_READY"
    using recv_command_ok [OF assms(2)] fixed_commands by blast
  ultimately show ?thesis using assms(4) size_command(3) [OF assms(3)]
    by (auto simp: kvs_master_notify_and_wait_slave_def sync_command_def strcmp_eq_0)
qed

lemma master_full_sync_ok:
  assumes "master_ok m" "0 \<le> fd cli" "enable_sync conf \<noteq> 0" "kvs_master_write_snapshot m s = (snap_open m, f)" "int (length f) \<le> INT_MAX"
    and "f = [] \<or> ms_got m = Some (kvsp_frame [KVS_SLAVE_FULLSYNC_READY])"
  shows "kvs_master_full_sync conf m s cli 0 = Some (0, 0, kvsp_frame [KVS_MASTER_FULLSYNC_OK (length f)] @ f)"
proof -
  have "kvs_master_notify_and_wait_slave m cli (length f) = Some (0, kvsp_frame [KVS_MASTER_FULLSYNC_OK (length f)])"
    by (rule master_notify) (use assms in auto)
  moreover have "kvs_master_send_file m (snap_open m) f = Some (0, f)"
    using assms(1) sendfile_all [of "ms_sendfile m"] by (auto simp: kvs_master_send_file_def master_ok_def)
  ultimately show ?thesis using assms(1,3,4) by (simp add: kvs_master_full_sync_def master_ok_def)
qed

lemma slave_file_size:
  assumes "slave_ok a" "0 \<le> sockfd" "int n \<le> INT_MAX" "sl_got a = Some (kvsp_frame [KVS_MASTER_FULLSYNC_OK n])"
  shows "kvs_slave_obtain_file_size a sockfd = Some (int n, kvsp_frame [KVS_SYNC_COMMAND])"
proof -
  have "kvs_send_single_command (sl_env a) (sl_sent a 0) sockfd (Some KVS_SYNC_COMMAND) = Some (0, kvsp_frame [KVS_SYNC_COMMAND])"
    by (rule send_command_ok) (use assms fixed_commands in \<open>auto simp: slave_ok_def mem_okD\<close>)
  moreover obtain buf t where
    "kvs_recv_single_command (sl_got a) sockfd (replicate SYNC_BUFFER_SIZE NUL) = Some (1, buf, [t])"
    "cstr_at buf t = Some (KVS_MASTER_FULLSYNC_OK n)"
    using recv_command_ok [OF assms(2) command_size(2) size_command(1) [OF assms(3)]] assms(4) by auto
  moreover have "KVS_MASTER_FULLSYNC_OK n \<noteq> KVS_MASTER_FULLSYNC_BUSY" "KVS_MASTER_FULLSYNC_OK n \<noteq> KVS_MASTER_FULLSYNC_ERROR"
    by (simp_all add: sync_consts)
  moreover have "scan_size (KVS_MASTER_FULLSYNC_OK n) = Some (int n)" "\<not> int n > SSIZE_MAX"
    using assms(3) by (auto intro!: scan_size_ok simp: INT_MAX_def SIZE_MAX_def SSIZE_MAX_def)
  ultimately show ?thesis using assms(2) by (simp add: kvs_slave_obtain_file_size_def sync_command_def)
qed

text \<open>The snapshot \<open>f\<close> is on its way in the pieces of \<open>recv\<close>.\<close>

definition arrives :: "(nat \<Rightarrow> string) \<Rightarrow> string \<Rightarrow> bool" where
  "arrives rx f \<longleftrightarrow> (\<exists>n. concat (map rx [0..<n]) = f \<and> (\<forall>j < n. rx j \<noteq> []))"

lemma slave_file:
  assumes "slave_ok a" "0 \<le> sockfd" "f \<noteq> []" "arrives (sl_rx a) f"
  shows "kvs_slave_obtain_file a (int (length f)) sockfd = Some (Some f, kvsp_frame [KVS_SLAVE_FULLSYNC_READY])"
proof -
  have "kvs_send_single_command (env_skip 1 (sl_env a)) (sl_sent a 1) sockfd (Some KVS_SLAVE_FULLSYNC_READY) = Some (0, kvsp_frame [KVS_SLAVE_FULLSYNC_READY])"
    by (rule send_command_ok) (use assms fixed_commands in \<open>auto simp: slave_ok_def mem_okD\<close>)
  moreover obtain n where "concat (map (sl_rx a) [0..<n]) = f" "\<forall>j < n. sl_rx a j \<noteq> []" using assms(4) by (auto simp: arrives_def)
  then have "slave_recv_loop (sl_rx a) 0 (length f) [] = f" by (intro recv_all [where n = n]) auto
  ultimately show ?thesis using assms(1-3) by (simp add: kvs_slave_obtain_file_def slave_ok_def Let_def)
qed

definition merged :: "store_maps \<Rightarrow> store_maps \<Rightarrow> store_maps" where
  "merged M M' = (\<lambda>t k. case M t k of Some v \<Rightarrow> Some v | None \<Rightarrow> M' t k)"

lemma maps_add_merged: "lists_maps xs M' \<Longrightarrow> maps_add M xs = merged M M'"
  using maps_add_empty [of xs M'] by (auto simp: maps_add_def merged_def fun_eq_iff split: option.splits)

lemma slave_full_sync_ok:
  assumes a: "slave_ok a" "0 \<le> sockfd" "f = concat (map save_frame xs)" "int (length f) \<le> INT_MAX"
    and rx: "sl_got a = Some (kvsp_frame [KVS_MASTER_FULLSYNC_OK (length f)])" "f = [] \<or> arrives (sl_rx a) f"
    and st: "load_inv st" "load_room (store_map (snd st)) xs" and xs: "lists_maps xs M" "dumpable M"
  shows "\<exists>st'. kvs_slave_full_sync a sockfd st =
      Some (0, kvsp_frame [KVS_SYNC_COMMAND] @ (if f = [] then [] else kvsp_frame [KVS_SLAVE_FULLSYNC_READY]), st') \<and>
    load_inv st' \<and> store_map (snd st') = merged (store_map (snd st)) M"
proof (cases "xs = []")
  case True
  then show ?thesis using slave_file_size [OF a(1,2,4) rx(1)] a(2,3) st maps_add_merged [OF xs(1), of "store_map (snd st)"]
    by (simp add: kvs_slave_full_sync_def KVS_SYNC_RET_BUSY_def KVS_SYNC_RET_ERROR_def)
next
  case False
  then have ne: "f \<noteq> []" using save_frames_ne a(3) by simp
  have "mem_ok (sl_load a)" using a(1) by (simp add: slave_ok_def)
  from load_frames [OF st xs False this] a(3,4) obtain st' where
    "kvs_file_read kvs_save_handler (sl_load a) f st = Some (0, st')" "load_inv st'"
    "store_map (snd st') = maps_add (store_map (snd st)) xs" by auto
  then show ?thesis
    using slave_file_size [OF a(1,2,4) rx(1)] slave_file [OF a(1,2) ne] a(2) rx(2) ne maps_add_merged [OF xs(1), of "store_map (snd st)"]
    by (auto simp: kvs_slave_full_sync_def KVS_SYNC_RET_BUSY_def KVS_SYNC_RET_ERROR_def)
qed

text \<open>C6: the full synchronisation copies the data.  A slave connects to a master with a well-formed store:
  the master sends the size of its snapshot and, when the slave is ready, the snapshot itself, and is
  free for the next slave; the slave, in whatever pieces the bytes reach it, ends with the pairs of the
  master added to its own, where its own value stays when it has the key already.\<close>

theorem full_sync_copies:
  assumes "store_invar s" "dumpable (store_map s)" "master_ok m" "0 \<le> fd cli" "enable_sync conf \<noteq> 0"
    and "load_inv st" "slave_ok a" "enable_sync conf' \<noteq> 0" "0 \<le> mfd" "0 \<le> afd" "0 \<le> master_port conf'" "master_port conf' \<le> 65535"
    "0 \<le> agent_port conf'" "agent_port conf' \<le> 65535" "client_info_init e_cli afd = Some rc"
  shows "\<exists>xs. lists_maps xs (store_map s) \<and>
    (let f = concat (map save_frame xs); ok = kvsp_frame [KVS_MASTER_FULLSYNC_OK (length f)]; ready = kvsp_frame [KVS_SLAVE_FULLSYNC_READY] in
     int (length f) \<le> INT_MAX \<and> load_room (store_map (snd st)) xs \<and> ms_got m = Some ready \<and> sl_got a = Some ok \<and> (f = [] \<or> arrives (sl_rx a) f) \<longrightarrow>
     kvs_master_full_sync conf m s cli 0 = Some (0, 0, ok @ f) \<and>
     (\<exists>st'. kvs_slave_sync conf' (mfd, True) (afd, True) a e_cli st = Some (0, Some (rc\<lparr>role := 1\<rparr>),
          (kvsp_frame [KVS_SYNC_COMMAND] @ (if f = [] then [] else ready)) @ kvsp_frame [KVS_SLAVE_FULLSYNC_FINISHED], st') \<and>
        store_invar (snd st') \<and> store_map (snd st') = merged (store_map (snd st)) (store_map s)))"
proof -
  obtain xs where xs: "kvs_master_write_snapshot m s = (snap_open m, concat (map save_frame xs))" "lists_maps xs (store_map s)"
    using master_snapshot [OF assms(1-3)] by blast
  define f where "f = concat (map save_frame xs)"
  have port: "nat (p mod 2 ^ 32) \<le> 65535" if "0 \<le> p" "p \<le> 65535" for p :: int using that by simp
  have con: "kvs_connect_to_remote mfd True (nat (master_port conf' mod 2 ^ 32)) = mfd" "kvs_connect_to_remote afd True (nat (agent_port conf' mod 2 ^ 32)) = afd"
    using assms(9-14) port [of "master_port conf'"] port [of "agent_port conf'"] by (simp_all add: kvs_connect_to_remote_def)
  have fin: "kvs_send_single_command (env_skip 3 (sl_env a)) (sl_sent a 3) mfd (Some KVS_SLAVE_FULLSYNC_FINISHED) = Some (0, kvsp_frame [KVS_SLAVE_FULLSYNC_FINISHED])"
    by (rule send_command_ok) (use assms fixed_commands in \<open>auto simp: slave_ok_def mem_okD\<close>)
  have incr: "kvs_slave_incr_sync afd e_cli (env_skip 3 (sl_env a)) (sl_sent a 3) mfd = Some (0, Some (rc\<lparr>role := 1\<rparr>), kvsp_frame [KVS_SLAVE_FULLSYNC_FINISHED])"
    using fin assms(9,10,15) by (simp add: kvs_slave_incr_sync_def)
  have "\<exists>st'. kvs_slave_sync conf' (mfd, True) (afd, True) a e_cli st = Some (0, Some (rc\<lparr>role := 1\<rparr>),
        (kvsp_frame [KVS_SYNC_COMMAND] @ (if f = [] then [] else kvsp_frame [KVS_SLAVE_FULLSYNC_READY])) @ kvsp_frame [KVS_SLAVE_FULLSYNC_FINISHED], st') \<and>
      store_invar (snd st') \<and> store_map (snd st') = merged (store_map (snd st)) (store_map s)"
    if h: "int (length f) \<le> INT_MAX" "load_room (store_map (snd st)) xs" "sl_got a = Some (kvsp_frame [KVS_MASTER_FULLSYNC_OK (length f)])"
      "f = [] \<or> arrives (sl_rx a) f"
  proof -
    from slave_full_sync_ok [OF assms(7,9) f_def h(1,3,4) assms(6) h(2) xs(2) assms(2)] obtain st' where
      st': "kvs_slave_full_sync a mfd st = Some (0, kvsp_frame [KVS_SYNC_COMMAND] @ (if f = [] then [] else kvsp_frame [KVS_SLAVE_FULLSYNC_READY]), st')"
      "load_inv st'" "store_map (snd st') = merged (store_map (snd st)) (store_map s)" by blast
    then have "kvs_slave_sync conf' (mfd, True) (afd, True) a e_cli st = Some (0, Some (rc\<lparr>role := 1\<rparr>),
        (kvsp_frame [KVS_SYNC_COMMAND] @ (if f = [] then [] else kvsp_frame [KVS_SLAVE_FULLSYNC_READY])) @ kvsp_frame [KVS_SLAVE_FULLSYNC_FINISHED], st')"
      using assms(8,9) con incr by (simp add: kvs_slave_sync_def KVS_SYNC_RET_BUSY_def Let_def)
    then show ?thesis using st'(2,3) unfolding load_inv_def by blast
  qed
  moreover have "kvs_master_full_sync conf m s cli 0 = Some (0, 0, kvsp_frame [KVS_MASTER_FULLSYNC_OK (length f)] @ f)"
    if "int (length f) \<le> INT_MAX" "ms_got m = Some (kvsp_frame [KVS_SLAVE_FULLSYNC_READY])"
    by (rule master_full_sync_ok [OF assms(3-5)]) (use xs(1) that in \<open>auto simp: f_def\<close>)
  ultimately show ?thesis using xs(2) unfolding Let_def f_def by blast
qed

definition master_ans0 :: master_ans where
  "master_ans0 = \<lparr>snap_open = 5, snap_pair = True, snap_fork = 7, snap_child = save_ans0, snap_wait = True, snap_recv = True, ms_fstat = True,
     ms_env = env0, ms_sent = (\<lambda>_ b. int (length b)), ms_got = Some (kvsp_frame [KVS_SLAVE_FULLSYNC_READY]), ms_sendfile = (\<lambda>_. 5)\<rparr>"

definition slave_ans0 :: "string \<Rightarrow> slave_ans" where
  "slave_ans0 f = \<lparr>sl_env = env0, sl_sent = (\<lambda>_ b. int (length b)), sl_got = Some (kvsp_frame [KVS_MASTER_FULLSYNC_OK (length f)]), sl_mem = True,
     sl_rx = (\<lambda>i. if i = 0 then take 3 f else drop 3 f), sl_load = env0\<rparr>"

definition conn0 :: client_info where
  "conn0 = \<lparr>fd = 4, rbuf = replicate (SRV_BUFFER_SIZE + 1) NUL, r_cap = int SRV_BUFFER_SIZE, r_pos = 0, cmd_tl = 0, cmd_hl = 0,
     wbuf = replicate (SRV_BUFFER_SIZE + 1) NUL, w_cap = int SRV_BUFFER_SIZE, w_pos = 0, role = 0, protocol = PROTO_UNKNOWN, recv_protocol = None\<rparr>"

lemma conn0: "client_info_init env0 4 = Some conn0"
  by (simp add: client_info_init_def conn0_def mem_okD)

lemma full_sync_copies_witness:
  "\<exists>s st st' out cli out'. store_map s = (\<lambda>_. Map.empty)(KVS_HASH := [''k'' \<mapsto> ''v'']) \<and>
     store_map (snd st) = (\<lambda>_. Map.empty)(KVS_HASH := [''j'' \<mapsto> ''w'']) \<and>
     kvs_master_full_sync (conf0\<lparr>enable_sync := 1\<rparr>) master_ans0 s conn0 0 = Some (0, 0, out) \<and>
     kvs_slave_sync (conf0\<lparr>enable_sync := 1\<rparr>) (3, True) (4, True) (slave_ans0 (kvsp_frame [''HASH'', ''k'', ''v''])) env0 st = Some (0, cli, out', st') \<and>
     store_map (snd st') KVS_HASH = [''j'' \<mapsto> ''w'', ''k'' \<mapsto> ''v'']"
proof -
  let ?f = "kvsp_frame [''HASH'', ''k'', ''v'']" and ?a = "slave_ans0 (kvsp_frame [''HASH'', ''k'', ''v''])" and ?conf = "conf0\<lparr>enable_sync := 1\<rparr>"
  obtain s where s: "store_invar s" "store_map s = (\<lambda>_. Map.empty)(KVS_HASH := [''k'' \<mapsto> ''v''])" using store_one by blast
  obtain s0 where s0: "store_invar s0" "store_map s0 = (\<lambda>_. Map.empty)(KVS_HASH := [''j'' \<mapsto> ''w''])" using store_one by blast
  have len: "length ?f \<le> 22" by code_simp
  have "dumpable (store_map s)" using len unfolding s(2) by (simp add: dumpable_def entry_ok_def save_frame_def INT_MAX_def)
  moreover have "master_ok master_ans0"
    by (simp add: master_ok_def master_ans0_def save_system_ok_def save_ans0_def ENTRY_LENGTH_def)
  moreover have "load_inv (\<lambda>_. env0, s0)" "slave_ok ?a" using s0 by (simp_all add: load_inv_def slave_ok_def slave_ans0_def)
  ultimately obtain xs where xs: "lists_maps xs (store_map s)"
    "let f = concat (map save_frame xs); ok = kvsp_frame [KVS_MASTER_FULLSYNC_OK (length f)]; ready = kvsp_frame [KVS_SLAVE_FULLSYNC_READY] in
     int (length f) \<le> INT_MAX \<and> load_room (store_map (snd (\<lambda>_. env0, s0))) xs \<and> ms_got master_ans0 = Some ready \<and> sl_got ?a = Some ok \<and> (f = [] \<or> arrives (sl_rx ?a) f) \<longrightarrow>
     kvs_master_full_sync ?conf master_ans0 s conn0 0 = Some (0, 0, ok @ f) \<and>
     (\<exists>st'. kvs_slave_sync ?conf (3, True) (4, True) ?a env0 (\<lambda>_. env0, s0) = Some (0, Some (conn0\<lparr>role := 1\<rparr>),
          (kvsp_frame [KVS_SYNC_COMMAND] @ (if f = [] then [] else ready)) @ kvsp_frame [KVS_SLAVE_FULLSYNC_FINISHED], st') \<and>
        store_invar (snd st') \<and> store_map (snd st') = merged (store_map (snd (\<lambda>_. env0, s0))) (store_map s))"
    using full_sync_copies [OF s(1), of master_ans0 conn0 ?conf "(\<lambda>_. env0, s0)" ?a ?conf 3 4 env0 conn0] conn0
    by (auto simp: conf0_def conn0_def)
  have x: "xs = [(KVS_HASH, ''k'', ''v'')]" by (rule lists_one) (use xs(1) s(2) in simp)
  then have f: "concat (map save_frame xs) = ?f" by (simp add: save_frame_def)
  have "load_room (store_map s0) xs" unfolding s0(2) x by (simp add: load_room_def KVS_ARRAY_SIZE_def)
  moreover have "arrives (sl_rx ?a) ?f" unfolding arrives_def
  proof (rule exI [of _ 2], rule conjI)
    show "concat (map (sl_rx ?a) [0..<2]) = ?f" by (simp add: slave_ans0_def upt_rec)
    have "take 3 ?f \<noteq> [] \<and> drop 3 ?f \<noteq> []" by code_simp
    then show "\<forall>j < 2. sl_rx ?a j \<noteq> []" by (simp add: slave_ans0_def)
  qed
  moreover have "int (length ?f) \<le> INT_MAX" using len by (simp add: INT_MAX_def)
  moreover have "ms_got master_ans0 = Some (kvsp_frame [KVS_SLAVE_FULLSYNC_READY])" "sl_got ?a = Some (kvsp_frame [KVS_MASTER_FULLSYNC_OK (length ?f)])"
    by (simp_all add: master_ans0_def slave_ans0_def)
  ultimately obtain st' out cli out' where r: "kvs_master_full_sync ?conf master_ans0 s conn0 0 = Some (0, 0, out)"
    "kvs_slave_sync ?conf (3, True) (4, True) ?a env0 (\<lambda>_. env0, s0) = Some (0, cli, out', st')" "store_map (snd st') = merged (store_map s0) (store_map s)"
    using xs(2) unfolding f Let_def snd_conv by blast
  have "merged (store_map s0) (store_map s) KVS_HASH = [''j'' \<mapsto> ''w'', ''k'' \<mapsto> ''v'']"
    unfolding s0(2) s(2) by (auto simp: merged_def fun_eq_iff)
  then show ?thesis using r s(2) s0(2)
    by (intro exI [of _ s] exI [of _ "(\<lambda>_. env0, s0)"] exI [of _ st'] exI [of _ out] exI [of _ cli] exI [of _ out']) simp
qed

end
