(* ===== verification/Kvs_Store.thy ===== *)
theory Kvs_Store
  imports Kvs_Sync
begin

text \<open>
  The command layer, \<^verbatim>\<open>kvstore.c\<close>: the table of commands, \<open>kvs_filter_protocol\<close> (the command is
  carried out on its engine, the reply goes into the client's write buffer, a successful write goes
  into the log), \<open>kvs_protocol\<close>, and the start of the server (\<open>kvs_init\<close>, \<open>main\<close>) and its end
  (\<open>kvs_deinit\<close>).

  The record \<open>kvs_server\<close> holds the globals; \<open>direct\<close> collects the bytes that a command sends past the
  write buffer.  Each command gets its answers of the environment from a \<open>cmd_env\<close>.
\<close>

subsection \<open>Commands\<close>

datatype kvs_cmd =
    KVS_CMD_SET | KVS_CMD_GET | KVS_CMD_DEL | KVS_CMD_MOD | KVS_CMD_EXIST
  | KVS_CMD_RSET | KVS_CMD_RGET | KVS_CMD_RDEL | KVS_CMD_RMOD | KVS_CMD_REXIST
  | KVS_CMD_HSET | KVS_CMD_HGET | KVS_CMD_HDEL | KVS_CMD_HMOD | KVS_CMD_HEXIST
  | KVS_CMD_LSET | KVS_CMD_LGET | KVS_CMD_LDEL | KVS_CMD_LMOD | KVS_CMD_LEXIST
  | KVS_CMD_SAVE | KVS_CMD_SYNC | KVS_CMD_FULLSYNC_FINISHED | KVS_CMD_COMMAND | KVS_CMD_COUNT

definition command :: "string list" where
  "command =
    [''SET'', ''GET'', ''DEL'', ''MOD'', ''EXIST'',
     ''RSET'', ''RGET'', ''RDEL'', ''RMOD'', ''REXIST'',
     ''HSET'', ''HGET'', ''HDEL'', ''HMOD'', ''HEXIST'',
     ''LSET'', ''LGET'', ''LDEL'', ''LMOD'', ''LEXIST'',
     ''SAVE'', ''SYNC'', ''FULLSYNC FINISHED'', ''COMMAND'']"

definition cmds :: "kvs_cmd list" where
  "cmds =
    [KVS_CMD_SET, KVS_CMD_GET, KVS_CMD_DEL, KVS_CMD_MOD, KVS_CMD_EXIST,
     KVS_CMD_RSET, KVS_CMD_RGET, KVS_CMD_RDEL, KVS_CMD_RMOD, KVS_CMD_REXIST,
     KVS_CMD_HSET, KVS_CMD_HGET, KVS_CMD_HDEL, KVS_CMD_HMOD, KVS_CMD_HEXIST,
     KVS_CMD_LSET, KVS_CMD_LGET, KVS_CMD_LDEL, KVS_CMD_LMOD, KVS_CMD_LEXIST,
     KVS_CMD_SAVE, KVS_CMD_SYNC, KVS_CMD_FULLSYNC_FINISHED, KVS_CMD_COMMAND]"

fun cmd_scan :: "string \<Rightarrow> (string \<times> kvs_cmd) list \<Rightarrow> kvs_cmd" where
  "cmd_scan s [] = KVS_CMD_COUNT"
| "cmd_scan s ((name, cmd) # rest) = (if strcmp s name = 0 then cmd else cmd_scan s rest)"

definition cmd_lookup :: "string \<Rightarrow> kvs_cmd" where
  "cmd_lookup s = cmd_scan s (zip command cmds)"

datatype kvs_reply_t = REPLY_START | REPLY_OK | REPLY_ERROR | REPLY_EXIST | REPLY_NO_EXIST | REPLY_VALUE | REPLY_NONE | REPLY_COMMAND

subsection \<open>The globals and the environment\<close>

record kvs_server =
  global_config :: kvs_conf_t
  kv_store :: kvs_store
  kv_log :: kvs_log
  kv_save :: save_state
  is_recovering :: int
  is_full_sync :: int
  direct :: "(int \<times> string) list"

record cmd_env =
  ce_buf :: env
  ce_eng :: env
  ce_fork :: fork_ans
  ce_master :: master_ans
  ce_log :: env
  ce_sqe :: bool

subsection \<open>The switch over the commands\<close>

text \<open>The reply, the value to send with it, whether a write succeeded, the length set so far, and the
  globals.\<close>

type_synonym cmd_out = "kvs_reply_t \<times> string option \<times> bool \<times> int \<times> kvs_server"

definition write_case :: "kvs_reply_t \<Rightarrow> kvs_server \<Rightarrow> (int \<times> kvs_store) option \<Rightarrow> cmd_out option" where
  "write_case other srv r = do {
     (ret, s) \<leftarrow> r;
     let srv = srv\<lparr>kv_store := s\<rparr>;
     Some (if ret < 0 then (REPLY_ERROR, None, False, 0, srv)
           else if ret = 0 then (REPLY_OK, None, True, 0, srv)
           else (other, None, False, 0, srv)) }"

definition get_case :: "kvs_server \<Rightarrow> string option option \<Rightarrow> cmd_out option" where
  "get_case srv r = do {
     result \<leftarrow> r;
     Some (if result = None then (REPLY_NO_EXIST, result, False, 0, srv) else (REPLY_VALUE, result, False, 0, srv)) }"

definition exist_case :: "kvs_server \<Rightarrow> int option \<Rightarrow> cmd_out option" where
  "exist_case srv r = do {
     ret \<leftarrow> r;
     Some (if ret = 0 then (REPLY_EXIST, None, False, 0, srv) else (REPLY_NO_EXIST, None, False, 0, srv)) }"

definition cmd_switch :: "cmd_env \<Rightarrow> kvs_cmd \<Rightarrow> string option \<Rightarrow> string option \<Rightarrow> client_info \<Rightarrow> kvs_server \<Rightarrow> cmd_out option" where
  "cmd_switch ce cmd key value cli srv = (let e = ce_eng ce; s = kv_store srv in
     case cmd of
       KVS_CMD_SET \<Rightarrow> write_case REPLY_EXIST srv (eng_set KVS_ARRAY e s key value)
     | KVS_CMD_GET \<Rightarrow> get_case srv (eng_get KVS_ARRAY s key)
     | KVS_CMD_DEL \<Rightarrow> write_case REPLY_NO_EXIST srv (eng_del KVS_ARRAY s key)
     | KVS_CMD_MOD \<Rightarrow> write_case REPLY_NO_EXIST srv (eng_mod KVS_ARRAY e s key value)
     | KVS_CMD_EXIST \<Rightarrow> exist_case srv (eng_exist KVS_ARRAY s key)
     | KVS_CMD_RSET \<Rightarrow> write_case REPLY_EXIST srv (eng_set KVS_RBTREE e s key value)
     | KVS_CMD_RGET \<Rightarrow> get_case srv (eng_get KVS_RBTREE s key)
     | KVS_CMD_RDEL \<Rightarrow> write_case REPLY_NO_EXIST srv (eng_del KVS_RBTREE s key)
     | KVS_CMD_RMOD \<Rightarrow> write_case REPLY_NO_EXIST srv (eng_mod KVS_RBTREE e s key value)
     | KVS_CMD_REXIST \<Rightarrow> exist_case srv (eng_exist KVS_RBTREE s key)
     | KVS_CMD_HSET \<Rightarrow> write_case REPLY_EXIST srv (eng_set KVS_HASH e s key value)
     | KVS_CMD_HGET \<Rightarrow> get_case srv (eng_get KVS_HASH s key)
     | KVS_CMD_HDEL \<Rightarrow> write_case REPLY_NO_EXIST srv (eng_del KVS_HASH s key)
     | KVS_CMD_HMOD \<Rightarrow> write_case REPLY_NO_EXIST srv (eng_mod KVS_HASH e s key value)
     | KVS_CMD_HEXIST \<Rightarrow> exist_case srv (eng_exist KVS_HASH s key)
     | KVS_CMD_LSET \<Rightarrow> write_case REPLY_EXIST srv (eng_set KVS_SKIPLIST e s key value)
     | KVS_CMD_LGET \<Rightarrow> get_case srv (eng_get KVS_SKIPLIST s key)
     | KVS_CMD_LDEL \<Rightarrow> write_case REPLY_NO_EXIST srv (eng_del KVS_SKIPLIST s key)
     | KVS_CMD_LMOD \<Rightarrow> write_case REPLY_NO_EXIST srv (eng_mod KVS_SKIPLIST e s key value)
     | KVS_CMD_LEXIST \<Rightarrow> exist_case srv (eng_exist KVS_SKIPLIST s key)
     | KVS_CMD_SAVE \<Rightarrow>
         (case kvs_save_write (global_config srv) (ce_fork ce) (kv_save srv) of (ret, sv) \<Rightarrow>
            Some (if ret = 0 then REPLY_OK else if ret = 1 then REPLY_OK else REPLY_ERROR, None, False, 0, srv\<lparr>kv_save := sv\<rparr>))
     | KVS_CMD_SYNC \<Rightarrow> do {
         (ret, full, out) \<leftarrow> kvs_master_full_sync (global_config srv) (ce_master ce) s cli (is_full_sync srv);
         Some (REPLY_START, None, False, if ret < 0 then ret else 0,
               srv\<lparr>is_full_sync := full, direct := direct srv @ [(fd cli, out)]\<rparr>) }
     | KVS_CMD_FULLSYNC_FINISHED \<Rightarrow> Some (REPLY_START, None, False, 0, srv)
     | KVS_CMD_COMMAND \<Rightarrow> Some (REPLY_COMMAND, None, False, 0, srv)
     | KVS_CMD_COUNT \<Rightarrow> Some (REPLY_NONE, None, False, 0, srv))"

subsection \<open>The reply\<close>

text \<open>\<open>sprintf\<close> at the end of the replies collected so far, and its result.\<close>

definition buf_sprintf :: "client_info \<Rightarrow> string \<Rightarrow> (int \<times> client_info) option" where
  "buf_sprintf cli text = do {
     b \<leftarrow> memwr (wbuf cli) (w_pos cli) (text @ [NUL]);
     Some (int (length text), cli\<lparr>wbuf := b\<rparr>) }"

text \<open>Room for the fixed replies; the inner \<open>None\<close> is the failing \<open>kvs_realloc\<close>.\<close>

definition reply_room :: "env \<Rightarrow> client_info \<Rightarrow> client_info option option" where
  "reply_room e cli =
     (if w_cap cli - w_pos cli < 32 then
        if w_cap cli * 2 > INT_MAX then None
        else if \<not> mem e 0 then Some None
        else Some (Some (cli\<lparr>wbuf := c_realloc e (wbuf cli) (nat (w_cap cli * 2)), w_cap := w_cap cli * 2\<rparr>))
      else Some (Some cli))"

definition dec_int :: "int \<Rightarrow> string" where
  "dec_int n = (if n < 0 then CHR ''-'' # dec (nat (- n)) else dec (nat n))"

definition reply_value :: "env \<Rightarrow> string \<Rightarrow> client_info \<Rightarrow> (int \<times> client_info) option" where
  "reply_value e result cli =
     (let rlen = c_int (int (length result)); needed = rlen + 15 in
      if needed > INT_MAX then None
      else if needed > w_cap cli - w_pos cli then
        if w_cap cli + needed + 1 > INT_MAX then None
        else if \<not> mem e 1 then Some (-1, cli)
        else buf_sprintf (cli\<lparr>wbuf := c_realloc e (wbuf cli) (nat (w_cap cli + needed + 1)), w_cap := w_cap cli + needed\<rparr>)
               (''$'' @ dec_int rlen @ CRLF @ result @ CRLF)
      else buf_sprintf cli (''$'' @ dec_int rlen @ CRLF @ result @ CRLF))"

definition reply_switch :: "env \<Rightarrow> kvs_reply_t \<Rightarrow> string option \<Rightarrow> string \<Rightarrow> int \<Rightarrow> client_info \<Rightarrow> (int \<times> client_info) option" where
  "reply_switch e reply result token0 len cli = (case reply of
       REPLY_OK \<Rightarrow> buf_sprintf cli (''+OK'' @ CRLF)
     | REPLY_ERROR \<Rightarrow> buf_sprintf cli (''-ERR message'' @ CRLF)
     | REPLY_EXIST \<Rightarrow> buf_sprintf cli ('':1'' @ CRLF)
     | REPLY_NO_EXIST \<Rightarrow> buf_sprintf cli (''$-1'' @ CRLF)
     | REPLY_VALUE \<Rightarrow> do { r \<leftarrow> result; reply_value e r cli }
     | REPLY_NONE \<Rightarrow> buf_sprintf cli (''-ERR no such command '' @ [CHR 0x27] @ token0 @ [CHR 0x27] @ CRLF)
     | REPLY_COMMAND \<Rightarrow> buf_sprintf cli (''*0'' @ CRLF)
     | REPLY_START \<Rightarrow> Some (len, cli))"

subsection \<open>A request\<close>

definition kvs_filter_protocol ::
  "cmd_env \<Rightarrow> string option list \<Rightarrow> int \<Rightarrow> client_info \<Rightarrow> kvs_server \<Rightarrow> (int \<times> kvs_server \<times> client_info) option" where
  "kvs_filter_protocol ce tokens count cli srv =
     (case tok tokens 0 of
        None \<Rightarrow> Some (-1, srv, cli)
      | Some token0 \<Rightarrow>
          if count \<le> 0 then Some (-1, srv, cli)
          else (let cmd = cmd_lookup token0; key = tok tokens 1; value = tok tokens 2 in do {
            room \<leftarrow> reply_room (ce_buf ce) cli;
            (case room of
               None \<Rightarrow> Some (-1, srv, cli)
             | Some cli \<Rightarrow> do {
                 (reply, result, is_write_success, len, srv) \<leftarrow> cmd_switch ce cmd key value cli srv;
                 (len, cli) \<leftarrow> reply_switch (ce_buf ce) reply result token0 len cli;
                 if is_write_success \<and> is_recovering srv = 0 then do {
                   (_, lg) \<leftarrow> kvs_log_write (global_config srv) (ce_log ce) (ce_sqe ce) tokens count (kv_log srv);
                   let srv = srv\<lparr>kv_log := lg\<rparr>;
                   Some (if kvs_master_incr_sync (global_config srv) count \<noteq> 0 then -2 else len, srv, cli) }
                 else Some (len, srv, cli) }) }))"

text \<open>As the function pointer the readers call: the state carries the environments of the commands to
  come.  The tokens of the splitter end inside the buffer; the unused entries of \<open>tokens\<close> are NULL.\<close>

type_synonym srv_state = "(nat \<Rightarrow> cmd_env) \<times> kvs_server"

definition kvs_protocol :: "srv_state \<Rightarrow> client_info \<Rightarrow> (int \<times> srv_state \<times> client_info) option" where
  "kvs_protocol st cli = do {
     (count, cli, toks) \<leftarrow> kvs_split_token cli;
     if count < 0 then Some (-1, st, cli)
     else do {
       tokens \<leftarrow> those (map (cstr_at (rbuf cli)) toks);
       (r, srv, cli) \<leftarrow> kvs_filter_protocol (fst st 0) (map Some tokens) count cli (snd st);
       Some (r, (\<lambda>i. fst st (Suc i), srv), cli) } }"

subsection \<open>Start and stop\<close>

text \<open>What the system answers at the start: the configuration file, the memory of the engines, whether
  \<open>fstat\<close> and \<open>mmap\<close> succeed on the dump, the descriptor of the log and whether \<open>fstat\<close> and \<open>mmap\<close>
  succeed on it, and the environments of the entries loaded and of the requests replayed.  The dump is
  \<open>None\<close> when there is none.  \<open>is_recovering\<close> is 1 up to the end of \<open>kvs_init\<close>: a replayed request is
  not logged again.\<close>

record init_ans =
  ia_conf :: "string option"
  ia_eng :: env
  ia_array :: "kvs_array_item_t list"
  ia_hash :: "nat \<Rightarrow> chain option"
  ia_save_env :: env
  ia_save_stat :: bool
  ia_save_map :: bool
  ia_load :: "nat \<Rightarrow> env"
  ia_log_env :: env
  ia_log_open :: int
  ia_log_stat :: bool
  ia_log_map :: bool
  ia_cmds :: "nat \<Rightarrow> cmd_env"

definition kvs_init :: "init_ans \<Rightarrow> string option \<Rightarrow> kvs_server \<Rightarrow> kvs_server option" where
  "kvs_init a dump srv = do {
     (_, conf) \<leftarrow> kvs_config_init (ia_conf a) (global_config srv);
     (_, s) \<leftarrow> init_kvengine (ia_eng a) (ia_array a) (ia_hash a);
     (_, st) \<leftarrow> kvs_save_init conf (ia_save_env a) (ia_save_stat a) (ia_save_map a) dump (ia_load a, s);
     let srv = srv\<lparr>global_config := conf, kv_store := snd st\<rparr>;
     (_, lg, st) \<leftarrow> kvs_log_init kvs_protocol conf (ia_log_env a) (ia_log_open a) (ia_log_stat a) (ia_log_map a) (kv_log srv) (ia_cmds a, srv);
     Some ((snd st)\<lparr>kv_log := lg\<rparr>) }"

definition kvs_deinit :: "kvs_server \<Rightarrow> kvs_server option" where
  "kvs_deinit srv = do {
     s \<leftarrow> dest_kvengine (kv_store srv);
     let _ = kvs_log_close (global_config srv) (kv_log srv);
     Some (srv\<lparr>kv_store := s\<rparr>) }"

text \<open>\<open>main\<close> up to the event loop: the reader a slave starts, the bytes it sends to its master, and the
  globals.\<close>

definition main_start ::
  "init_ans \<Rightarrow> string option \<Rightarrow> int \<times> bool \<Rightarrow> int \<times> bool \<Rightarrow> slave_ans \<Rightarrow> (nat \<Rightarrow> env) \<Rightarrow> env \<Rightarrow> kvs_server \<Rightarrow>
   (client_info option \<times> string \<times> kvs_server) option" where
  "main_start a dump master_sock agent_sock sl load e_cli srv = do {
     srv \<leftarrow> kvs_init a dump srv;
     let srv = srv\<lparr>is_recovering := 0\<rparr>;
     if conf_mode (global_config srv) = 1 then do {
       (_, cli, out, st) \<leftarrow> kvs_slave_sync (global_config srv) master_sock agent_sock sl e_cli (load, kv_store srv);
       Some (cli, out, srv\<lparr>kv_store := snd st\<rparr>) }
     else Some (None, [], srv) }"

subsection \<open>Requests and what they mean\<close>

datatype kv_req = ReqWrite kvs_engine_type kv_op | ReqGet kvs_engine_type string | ReqExist kvs_engine_type string

fun eng_prefix :: "kvs_engine_type \<Rightarrow> string" where
  "eng_prefix KVS_ARRAY = []"
| "eng_prefix KVS_RBTREE = ''R''"
| "eng_prefix KVS_HASH = ''H''"
| "eng_prefix KVS_SKIPLIST = ''L''"

fun req_tokens :: "kv_req \<Rightarrow> string list" where
  "req_tokens (ReqWrite t (OpSet k v)) = [eng_prefix t @ ''SET'', k, v]"
| "req_tokens (ReqWrite t (OpDel k)) = [eng_prefix t @ ''DEL'', k]"
| "req_tokens (ReqWrite t (OpMod k v)) = [eng_prefix t @ ''MOD'', k, v]"
| "req_tokens (ReqGet t k) = [eng_prefix t @ ''GET'', k]"
| "req_tokens (ReqExist t k) = [eng_prefix t @ ''EXIST'', k]"

text \<open>The effect on the four maps, whether the request changes them, and the reply.\<close>

fun req_maps :: "kv_req \<Rightarrow> store_maps \<Rightarrow> store_maps" where
  "req_maps (ReqWrite t w) M = maps_write t w M"
| "req_maps _ M = M"

fun req_writes :: "kv_req \<Rightarrow> store_maps \<Rightarrow> bool" where
  "req_writes (ReqWrite t (OpSet k v)) M \<longleftrightarrow> map_room t (M t) \<and> M t k = None"
| "req_writes (ReqWrite t (OpDel k)) M \<longleftrightarrow> M t k \<noteq> None"
| "req_writes (ReqWrite t (OpMod k v)) M \<longleftrightarrow> M t k \<noteq> None"
| "req_writes _ M \<longleftrightarrow> False"

definition value_reply :: "string option \<Rightarrow> string" where
  "value_reply r = (case r of None \<Rightarrow> ''$-1'' @ CRLF | Some v \<Rightarrow> ''$'' @ dec (length v) @ CRLF @ v @ CRLF)"

fun req_reply :: "kv_req \<Rightarrow> store_maps \<Rightarrow> string" where
  "req_reply (ReqWrite t (OpSet k v)) M =
     (if \<not> map_room t (M t) then ''-ERR message'' else if M t k = None then ''+OK'' else '':1'') @ CRLF"
| "req_reply (ReqWrite t (OpDel k)) M =
     (if M t k \<noteq> None then ''+OK'' else if t = KVS_HASH then ''-ERR message'' else ''$-1'') @ CRLF"
| "req_reply (ReqWrite t (OpMod k v)) M = (if M t k \<noteq> None then ''+OK'' else ''$-1'') @ CRLF"
| "req_reply (ReqGet t k) M = value_reply (M t k)"
| "req_reply (ReqExist t k) M = (if M t k \<noteq> None then '':1'' else ''$-1'') @ CRLF"

subsection \<open>The switches\<close>

lemma cmd_scan_zip: "distinct ns \<Longrightarrow> i < length ns \<Longrightarrow> length cs = length ns \<Longrightarrow> cmd_scan (ns ! i) (zip ns cs) = cs ! i"
proof (induction ns arbitrary: cs i)
  case (Cons n ns)
  then show ?case by (cases cs; cases i) auto
qed simp

lemma cmd_scan_none: "s \<notin> set ns \<Longrightarrow> cmd_scan s (zip ns cs) = KVS_CMD_COUNT"
proof (induction ns arbitrary: cs)
  case (Cons n ns)
  then show ?case by (cases cs) auto
qed simp

text \<open>The search finds each command of the table, and nothing else.\<close>

lemma cmd_lookup_table: "i < 24 \<Longrightarrow> cmd_lookup (command ! i) = cmds ! i" "s \<notin> set command \<Longrightarrow> cmd_lookup s = KVS_CMD_COUNT"
proof -
  have "distinct command" "length command = 24" "length cmds = 24" by (simp_all add: command_def cmds_def)
  then show "i < 24 \<Longrightarrow> cmd_lookup (command ! i) = cmds ! i" by (simp add: cmd_lookup_def cmd_scan_zip)
qed (simp add: cmd_lookup_def cmd_scan_none)

text \<open>The reply as text.\<close>

fun reply_text :: "kvs_reply_t \<Rightarrow> string option \<Rightarrow> string \<Rightarrow> string" where
  "reply_text REPLY_OK r t = ''+OK'' @ CRLF"
| "reply_text REPLY_ERROR r t = ''-ERR message'' @ CRLF"
| "reply_text REPLY_EXIST r t = '':1'' @ CRLF"
| "reply_text REPLY_NO_EXIST r t = ''$-1'' @ CRLF"
| "reply_text REPLY_VALUE r t = value_reply r"
| "reply_text REPLY_NONE r t = ''-ERR no such command '' @ [CHR 0x27] @ t @ [CHR 0x27] @ CRLF"
| "reply_text REPLY_COMMAND r t = ''*0'' @ CRLF"
| "reply_text REPLY_START r t = []"

lemma cmd_lookup_names:
  "cmd_lookup ''SET'' = KVS_CMD_SET" "cmd_lookup ''GET'' = KVS_CMD_GET" "cmd_lookup ''DEL'' = KVS_CMD_DEL"
  "cmd_lookup ''MOD'' = KVS_CMD_MOD" "cmd_lookup ''EXIST'' = KVS_CMD_EXIST"
  "cmd_lookup ''RSET'' = KVS_CMD_RSET" "cmd_lookup ''RGET'' = KVS_CMD_RGET" "cmd_lookup ''RDEL'' = KVS_CMD_RDEL"
  "cmd_lookup ''RMOD'' = KVS_CMD_RMOD" "cmd_lookup ''REXIST'' = KVS_CMD_REXIST"
  "cmd_lookup ''HSET'' = KVS_CMD_HSET" "cmd_lookup ''HGET'' = KVS_CMD_HGET" "cmd_lookup ''HDEL'' = KVS_CMD_HDEL"
  "cmd_lookup ''HMOD'' = KVS_CMD_HMOD" "cmd_lookup ''HEXIST'' = KVS_CMD_HEXIST"
  "cmd_lookup ''LSET'' = KVS_CMD_LSET" "cmd_lookup ''LGET'' = KVS_CMD_LGET" "cmd_lookup ''LDEL'' = KVS_CMD_LDEL"
  "cmd_lookup ''LMOD'' = KVS_CMD_LMOD" "cmd_lookup ''LEXIST'' = KVS_CMD_LEXIST"
  by (simp_all add: cmd_lookup_def command_def cmds_def)

lemma switch_req:
  assumes s: "store_invar (kv_store srv)" and e: "mem_ok (ce_eng ce)" and ts: "ts = map Some (req_tokens r)" and M: "M = store_map (kv_store srv)"
  shows "\<exists>reply result s'. cmd_switch ce (cmd_lookup (hd (req_tokens r))) (tok ts 1) (tok ts 2) cli srv =
      Some (reply, result, req_writes r M, 0, srv\<lparr>kv_store := s'\<rparr>) \<and>
    store_invar s' \<and> store_map s' = req_maps r M \<and> reply_text reply result t0 = req_reply r M \<and>
    reply \<noteq> REPLY_NONE \<and> (reply = REPLY_VALUE \<longrightarrow> (\<exists>v. result = Some v))"
proof (cases r)
  case (ReqWrite t w)
  obtain ret s' where w: "kv_write (eng_set t) (eng_del t) (eng_mod t) (ce_eng ce) (kv_store srv) w = Some (ret, s')" "store_invar s'"
    "store_map s' = maps_write t w M" "write_ret t w M ret" using eng_write [OF s e, of t w] M by blast
  have d: "KVS_ARRAY_SIZE > 0" by (simp add: KVS_ARRAY_SIZE_def)
  show ?thesis
  proof (cases w)
    case (OpSet k v)
    then show ?thesis using w ReqWrite ts
      by (cases t) (auto simp: cmd_lookup_names cmd_switch_def tok_def kv_write_def write_case_def write_ret_def)
  next
    case (OpDel k)
    then show ?thesis using w ReqWrite ts d
      by (cases t) (auto simp: cmd_lookup_names cmd_switch_def tok_def kv_write_def write_case_def write_ret_def)
  next
    case (OpMod k v)
    then show ?thesis using w ReqWrite ts
      by (cases t) (auto simp: cmd_lookup_names cmd_switch_def tok_def kv_write_def write_case_def write_ret_def split: if_splits)
  qed
next
  case (ReqGet t k)
  then show ?thesis using eng.get_lookup [OF s, of t k] ts M s
    by (cases t) (auto simp: cmd_lookup_names cmd_switch_def tok_def get_case_def value_reply_def intro!: exI [of _ "kv_store srv"])
next
  case (ReqExist t k)
  then show ?thesis using eng.exist_lookup [OF s, of t k] ts M s
    by (cases t) (auto simp: cmd_lookup_names cmd_switch_def tok_def exist_case_def intro!: exI [of _ "kv_store srv"])
qed

subsection \<open>The write buffer\<close>

lemma buf_sprintf_ok:
  assumes "0 \<le> w_pos cli" "w_pos cli + int (length text) + 1 \<le> int (length (wbuf cli))"
  shows "\<exists>b. buf_sprintf cli text = Some (int (length text), cli\<lparr>wbuf := b\<rparr>) \<and> length b = length (wbuf cli) \<and>
    take (nat (w_pos cli) + length text) b = take (nat (w_pos cli)) (wbuf cli) @ text"
proof -
  let ?b = "take (nat (w_pos cli)) (wbuf cli) @ (text @ [NUL]) @ drop (nat (w_pos cli) + length (text @ [NUL])) (wbuf cli)"
  have "memwr (wbuf cli) (w_pos cli) (text @ [NUL]) = Some ?b" using assms by (simp add: memwr_def)
  then have "buf_sprintf cli text = Some (int (length text), cli\<lparr>wbuf := ?b\<rparr>)" by (simp add: buf_sprintf_def)
  moreover have "length ?b = length (wbuf cli)" using assms by simp
  moreover have "length (take (nat (w_pos cli)) (wbuf cli)) = nat (w_pos cli)" using assms by simp
  then have "take (nat (w_pos cli) + length text) ?b = take (nat (w_pos cli)) (wbuf cli) @ text" by simp
  ultimately show ?thesis by blast
qed

lemma reply_room_ok:
  assumes "wbuf_ok cli" "2 * w_pos cli + 64 \<le> WBUF_LIMIT" "mem e 0"
  shows "\<exists>b c. reply_room e cli = Some (Some (cli\<lparr>wbuf := b, w_cap := c\<rparr>)) \<and> wbuf_ok (cli\<lparr>wbuf := b, w_cap := c\<rparr>) \<and>
    32 \<le> c - w_pos cli \<and> take (nat (w_pos cli)) b = take (nat (w_pos cli)) (wbuf cli)"
proof (cases "w_cap cli - w_pos cli < 32")
  case True
  let ?b = "c_realloc e (wbuf cli) (nat (w_cap cli * 2))"
  have "reply_room e cli = Some (Some (cli\<lparr>wbuf := ?b, w_cap := w_cap cli * 2\<rparr>))"
    using True assms by (auto simp: reply_room_def WBUF_LIMIT_def INT_MAX_def)
  moreover have "take (nat (w_pos cli)) ?b = take (nat (w_pos cli)) (wbuf cli)"
    using assms(1) by (auto simp: wbuf_ok_def c_realloc_def min_def)
  ultimately show ?thesis using True assms by (intro exI [of _ ?b] exI [of _ "w_cap cli * 2"]) (auto simp: wbuf_ok_def)
next
  case False
  then show ?thesis using assms by (intro exI [of _ "wbuf cli"] exI [of _ "w_cap cli"]) (auto simp: reply_room_def)
qed

lemma value_reply_length: "length v < 10 ^ 9 \<Longrightarrow> length (value_reply (Some v)) \<le> length v + 14" "length (value_reply r) \<ge> 5"
proof -
  assume "length v < 10 ^ 9"
  then have "length (dec (length v)) \<le> 9" by (intro dec_length) simp_all
  then show "length (value_reply (Some v)) \<le> length v + 14" by (simp add: value_reply_def)
next
  show "length (value_reply r) \<ge> 5" by (cases r) (simp_all add: value_reply_def)
qed

lemma reply_value_ok:
  assumes "wbuf_ok cli" "2 * (w_pos cli + int (length (value_reply (Some v)))) + 64 \<le> WBUF_LIMIT" "mem e 1"
  shows "\<exists>b c. reply_value e v cli = Some (int (length (value_reply (Some v))), cli\<lparr>wbuf := b, w_cap := c\<rparr>) \<and>
    wbuf_ok (cli\<lparr>wbuf := b, w_cap := c, w_pos := w_pos cli + int (length (value_reply (Some v)))\<rparr>) \<and>
    take (nat (w_pos cli) + length (value_reply (Some v))) b = take (nat (w_pos cli)) (wbuf cli) @ value_reply (Some v)"
proof -
  let ?t = "value_reply (Some v)" and ?n = "int (length v) + 15"
  have w: "0 \<le> w_pos cli" "w_pos cli \<le> w_cap cli" "32 \<le> w_cap cli" "w_cap cli \<le> WBUF_LIMIT" "w_cap cli \<le> int (length (wbuf cli))"
    "int (length (wbuf cli)) \<le> w_cap cli + 1" using assms(1) by (simp_all add: wbuf_ok_def)
  have "length v + 5 \<le> length ?t" by (simp add: value_reply_def)
  then have v: "2 * (w_pos cli + int (length v)) + 74 \<le> 2 ^ 30" using assms(2) by (simp add: WBUF_LIMIT_def)
  then have "length v < 10 ^ 9" using w(1) by simp
  then have t: "length ?t \<le> length v + 14" by (rule value_reply_length)
  have c: "c_int (int (length v)) = int (length v)" using v w(1) by (intro c_int_id) (auto simp: INT_MAX_def)
  have tx: "''$'' @ dec_int (int (length v)) @ CRLF @ v @ CRLF = ?t" by (simp add: value_reply_def dec_int_def)
  show ?thesis
  proof (cases "?n > w_cap cli - w_pos cli")
    case True
    let ?cli = "cli\<lparr>wbuf := c_realloc e (wbuf cli) (nat (w_cap cli + ?n + 1)), w_cap := w_cap cli + ?n\<rparr>"
    have "reply_value e v cli = buf_sprintf ?cli ?t"
      using True v w assms(3) c tx by (simp add: reply_value_def Let_def INT_MAX_def WBUF_LIMIT_def)
    moreover have "take (nat (w_pos cli)) (wbuf ?cli) = take (nat (w_pos cli)) (wbuf cli)" using w by (auto simp: c_realloc_def min_def)
    moreover obtain b where "buf_sprintf ?cli ?t = Some (int (length ?t), ?cli\<lparr>wbuf := b\<rparr>)" "length b = length (wbuf ?cli)"
      "take (nat (w_pos cli) + length ?t) b = take (nat (w_pos cli)) (wbuf ?cli) @ ?t"
      using buf_sprintf_ok [of ?cli ?t] w t by auto
    ultimately show ?thesis using True w t v
      by (intro exI [of _ b] exI [of _ "w_cap cli + ?n"]) (auto simp: wbuf_ok_def WBUF_LIMIT_def)
  next
    case False
    have "reply_value e v cli = buf_sprintf cli ?t" using False v w c tx by (simp add: reply_value_def Let_def INT_MAX_def)
    moreover obtain b where "buf_sprintf cli ?t = Some (int (length ?t), cli\<lparr>wbuf := b\<rparr>)" "length b = length (wbuf cli)"
      "take (nat (w_pos cli) + length ?t) b = take (nat (w_pos cli)) (wbuf cli) @ ?t"
      using buf_sprintf_ok [of cli ?t] False w t by auto
    ultimately show ?thesis using False w t
      by (intro exI [of _ b] exI [of _ "w_cap cli"]) (auto simp: wbuf_ok_def)
  qed
qed

text \<open>A reply other than the one for an unknown command goes behind the replies that are there.\<close>

lemma reply_ok:
  assumes "wbuf_ok cli" "2 * (w_pos cli + int (length text)) + 64 \<le> WBUF_LIMIT" "mem_ok e"
    and "text = reply_text reply result t0" "reply \<noteq> REPLY_NONE" "reply = REPLY_VALUE \<longrightarrow> (\<exists>v. result = Some v)"
  shows "\<exists>cli1 b c. reply_room e cli = Some (Some cli1) \<and> fd cli1 = fd cli \<and>
    reply_switch e reply result t0 0 cli1 = Some (int (length text), cli\<lparr>wbuf := b, w_cap := c\<rparr>) \<and>
    wbuf_ok (cli\<lparr>wbuf := b, w_cap := c, w_pos := w_pos cli + int (length text)\<rparr>) \<and>
    take (nat (w_pos cli) + length text) b = take (nat (w_pos cli)) (wbuf cli) @ text"
proof -
  have "2 * w_pos cli + 64 \<le> WBUF_LIMIT" using assms(2) by simp
  from reply_room_ok [OF assms(1) this, of e] assms(3) obtain b0 c0 where
    r: "reply_room e cli = Some (Some (cli\<lparr>wbuf := b0, w_cap := c0\<rparr>))" "wbuf_ok (cli\<lparr>wbuf := b0, w_cap := c0\<rparr>)"
      "32 \<le> c0 - w_pos cli" "take (nat (w_pos cli)) b0 = take (nat (w_pos cli)) (wbuf cli)" by (auto simp: mem_okD)
  let ?cli = "cli\<lparr>wbuf := b0, w_cap := c0\<rparr>"
  show ?thesis
  proof (cases "reply = REPLY_VALUE")
    case True
    then obtain v where v: "result = Some v" using assms(6) by blast
    from reply_value_ok [OF r(2), of v e] v True assms(2-4) obtain b c where
      "reply_value e v ?cli = Some (int (length text), ?cli\<lparr>wbuf := b, w_cap := c\<rparr>)"
      "wbuf_ok (?cli\<lparr>wbuf := b, w_cap := c, w_pos := w_pos cli + int (length text)\<rparr>)"
      "take (nat (w_pos cli) + length text) b = take (nat (w_pos cli)) b0 @ text" by (auto simp: mem_okD)
    then show ?thesis using r v True by (intro exI [of _ ?cli] exI [of _ b] exI [of _ c]) (simp add: reply_switch_def)
  next
    case False
    then have short: "length text \<le> 14" using assms(4,5) by (cases reply) (simp_all add: value_reply_def)
    then have "\<exists>b. buf_sprintf ?cli text = Some (int (length text), ?cli\<lparr>wbuf := b\<rparr>) \<and> length b = length (wbuf ?cli) \<and>
        take (nat (w_pos ?cli) + length text) b = take (nat (w_pos ?cli)) (wbuf ?cli) @ text"
      by (intro buf_sprintf_ok) (use r(2,3) in \<open>auto simp: wbuf_ok_def\<close>)
    then obtain b where b: "buf_sprintf ?cli text = Some (int (length text), ?cli\<lparr>wbuf := b\<rparr>)" "length b = length b0"
        "take (nat (w_pos cli) + length text) b = take (nat (w_pos cli)) b0 @ text" by auto
    define b' where "b' = (if reply = REPLY_START then b0 else b)"
    have "reply_switch e reply result t0 0 ?cli = Some (int (length text), cli\<lparr>wbuf := b', w_cap := c0\<rparr>)"
      using b(1) assms(4,5) False by (cases reply) (simp_all add: reply_switch_def b'_def)
    moreover have "take (nat (w_pos cli) + length text) b' = take (nat (w_pos cli)) b0 @ text" "length b' = length b0"
      using b(2,3) assms(4) by (auto simp: b'_def)
    ultimately show ?thesis using r short by (intro exI [of _ ?cli] exI [of _ b'] exI [of _ c0]) (auto simp: wbuf_ok_def)
  qed
qed

subsection \<open>A request from its frame to its reply\<close>

definition log_live :: "kvs_server \<Rightarrow> bool" where
  "log_live srv \<longleftrightarrow> enable_log (global_config srv) \<noteq> 0 \<and> 0 \<le> fd_log (kv_log srv) \<and> ring_log_inited (kv_log srv) = 1 \<and> log_ok (kv_log srv)"

definition cmd_env_ok :: "cmd_env \<Rightarrow> bool" where
  "cmd_env_ok ce \<longleftrightarrow> mem_ok (ce_buf ce) \<and> mem_ok (ce_eng ce) \<and> mem_ok (ce_log ce) \<and> ce_sqe ce"

text \<open>A well-formed server whose stored values have at most \<open>V\<close> bytes.\<close>

definition srv_ok :: "nat \<Rightarrow> srv_state \<Rightarrow> bool" where
  "srv_ok V st \<longleftrightarrow> store_invar (kv_store (snd st)) \<and> (\<forall>i. cmd_env_ok (fst st i)) \<and> (is_recovering (snd st) = 0 \<longrightarrow> log_live (snd st)) \<and>
     (\<forall>t k v. store_map (kv_store (snd st)) t k = Some v \<longrightarrow> length v \<le> V)"

fun req_value_ok :: "nat \<Rightarrow> kv_req \<Rightarrow> bool" where
  "req_value_ok V (ReqWrite t (OpSet k v)) \<longleftrightarrow> length v \<le> V"
| "req_value_ok V (ReqWrite t (OpMod k v)) \<longleftrightarrow> length v \<le> V"
| "req_value_ok V _ \<longleftrightarrow> True"

definition req_ok :: "nat \<Rightarrow> kv_req \<Rightarrow> bool" where
  "req_ok V r \<longleftrightarrow> (\<forall>t \<in> set (req_tokens r). cstring t) \<and> int (length (kvsp_frame (req_tokens r))) < INT_MAX \<and> req_value_ok V r"

text \<open>What a request does: the reply, the four maps, the log.\<close>

definition req_exec :: "srv_state \<Rightarrow> string list \<Rightarrow> string \<Rightarrow> srv_state \<Rightarrow> bool" where
  "req_exec st ts reply st' \<longleftrightarrow> (\<exists>r s' lg'. ts = req_tokens r \<and> snd st' = (snd st)\<lparr>kv_store := s', kv_log := lg'\<rparr> \<and>
     (let M = store_map (kv_store (snd st)) in
      reply = req_reply r M \<and> store_map s' = req_maps r M \<and>
      log_final lg' = log_final (kv_log (snd st)) @ (if req_writes r M \<and> is_recovering (snd st) = 0 then kvsp_frame ts else [])))"

lemma req_maps_values:
  assumes "\<forall>t k v. M t k = Some v \<longrightarrow> length v \<le> V" "req_value_ok V r"
  shows "\<forall>t k v. req_maps r M t k = Some v \<longrightarrow> length v \<le> V"
proof (cases r)
  case (ReqWrite t w)
  then show ?thesis using assms by (cases w) (auto simp: maps_write_def split: if_splits option.splits)
qed (use assms in auto)

lemma req_reply_length:
  assumes "\<forall>t k v. M t k = Some v \<longrightarrow> length v \<le> V" "V < 10 ^ 9"
  shows "length (req_reply r M) \<le> V + 14"
proof (cases r)
  case (ReqWrite t w)
  then show ?thesis by (cases w) auto
next
  case (ReqGet t k)
  show ?thesis
  proof (cases "M t k")
    case (Some v)
    then have "length v \<le> V" using assms(1) by blast
    then show ?thesis using value_reply_length(1) [of v] assms(2) ReqGet Some by simp
  qed (simp add: ReqGet value_reply_def)
qed auto

lemma log_write_live:
  assumes "log_live srv" "cmd_env_ok ce" "ts \<noteq> []" "int (length (kvsp_frame ts)) < INT_MAX"
  shows "\<exists>lg'. kvs_log_write (global_config srv) (ce_log ce) (ce_sqe ce) (map Some ts) (int (length ts)) (kv_log srv) = Some (0, lg') \<and>
    log_live (srv\<lparr>kv_log := lg'\<rparr>) \<and> log_final lg' = log_final (kv_log srv) @ kvsp_frame ts"
  using kvs_log_write_run [of "global_config srv" "kv_log srv" ts "ce_log ce" "ce_sqe ce"] log_append_final [of "kv_log srv" "kvsp_frame ts"] assms
  by (auto simp: log_live_def cmd_env_ok_def mem_okD)

lemma filter_req:
  assumes st: "srv_ok V st" and w: "wbuf_ok cli" "2 * (w_pos cli + int (V + 14)) + 64 \<le> WBUF_LIMIT" and r: "req_ok V r"
  shows "\<exists>reply srv' b c. kvs_filter_protocol (fst st 0) (map Some (req_tokens r)) (int (length (req_tokens r))) cli (snd st) =
      Some (int (length reply), srv', cli\<lparr>wbuf := b, w_cap := c\<rparr>) \<and>
    req_exec st (req_tokens r) reply (\<lambda>i. fst st (Suc i), srv') \<and> srv_ok V (\<lambda>i. fst st (Suc i), srv') \<and> length reply \<le> V + 14 \<and>
    wbuf_ok (cli\<lparr>wbuf := b, w_cap := c, w_pos := w_pos cli + int (length reply)\<rparr>) \<and>
    take (nat (w_pos cli) + length reply) b = take (nat (w_pos cli)) (wbuf cli) @ reply"
proof -
  define srv M ce where "srv = snd st" and "M = store_map (kv_store (snd st))" and "ce = fst st 0"
  define ts where "ts = req_tokens r"
  have inv: "store_invar (kv_store srv)" "cmd_env_ok ce" "is_recovering srv = 0 \<longrightarrow> log_live srv" "\<forall>t k v. M t k = Some v \<longrightarrow> length v \<le> V"
    using st by (auto simp: srv_ok_def srv_def M_def ce_def)
  have ts: "ts \<noteq> []" "tok (map Some ts) 0 = Some (hd ts)" "int (length (kvsp_frame ts)) < INT_MAX"
    using r by (cases r rule: req_tokens.cases; simp add: ts_def tok_def req_ok_def)+
  have "V < 10 ^ 9" using w by (simp add: wbuf_ok_def WBUF_LIMIT_def)
  with inv(4) have len: "length (req_reply r M) \<le> V + 14" by (rule req_reply_length)
  then have lim: "2 * (w_pos cli + int (length (req_reply r M))) + 64 \<le> WBUF_LIMIT" using w(2) by simp
  have mem: "mem_ok (ce_eng ce)" "mem_ok (ce_buf ce)" using inv(2) by (simp_all add: cmd_env_ok_def)
  have sw: "\<exists>reply result s'. cmd_switch ce (cmd_lookup (hd ts)) (tok (map Some ts) 1) (tok (map Some ts) 2) cli1 srv =
      Some (reply, result, req_writes r M, 0, srv\<lparr>kv_store := s'\<rparr>) \<and>
    store_invar s' \<and> store_map s' = req_maps r M \<and> reply_text reply result (hd ts) = req_reply r M \<and>
    reply \<noteq> REPLY_NONE \<and> (reply = REPLY_VALUE \<longrightarrow> (\<exists>v. result = Some v))" for cli1
    unfolding ts_def by (rule switch_req [OF inv(1) mem(1) refl]) (simp add: M_def srv_def)
  have "2 * w_pos cli + 64 \<le> WBUF_LIMIT" using w(2) by simp
  then obtain cli1 where room: "reply_room (ce_buf ce) cli = Some (Some cli1)" using reply_room_ok [OF w(1)] mem(2) mem_okD by blast
  obtain reply result s' where cs: "cmd_switch ce (cmd_lookup (hd ts)) (tok (map Some ts) 1) (tok (map Some ts) 2) cli1 srv =
      Some (reply, result, req_writes r M, 0, srv\<lparr>kv_store := s'\<rparr>)" "store_invar s'" "store_map s' = req_maps r M"
    "req_reply r M = reply_text reply result (hd ts)" "reply \<noteq> REPLY_NONE" "reply = REPLY_VALUE \<longrightarrow> (\<exists>v. result = Some v)"
    using sw [of cli1] by metis
  obtain b c where rs: "reply_switch (ce_buf ce) reply result (hd ts) 0 cli1 = Some (int (length (req_reply r M)), cli\<lparr>wbuf := b, w_cap := c\<rparr>)"
    "wbuf_ok (cli\<lparr>wbuf := b, w_cap := c, w_pos := w_pos cli + int (length (req_reply r M))\<rparr>)"
    "take (nat (w_pos cli) + length (req_reply r M)) b = take (nat (w_pos cli)) (wbuf cli) @ req_reply r M"
    using reply_ok [OF w(1) lim mem(2) cs(4-6)] room by auto
  obtain lg' where lg: "kvs_log_write (global_config srv) (ce_log ce) (ce_sqe ce) (map Some ts) (int (length ts)) (kv_log srv) = Some (0, lg') \<and>
      log_live (srv\<lparr>kv_log := lg'\<rparr>) \<and> log_final lg' = log_final (kv_log srv) @ kvsp_frame ts" if "is_recovering srv = 0"
    using log_write_live [OF _ inv(2) ts(1,3)] inv(3) by blast
  define srv' where "srv' = srv\<lparr>kv_store := s', kv_log := (if req_writes r M \<and> is_recovering srv = 0 then lg' else kv_log srv)\<rparr>"
  have "kvs_filter_protocol ce (map Some ts) (int (length ts)) cli srv = Some (int (length (req_reply r M)), srv', cli\<lparr>wbuf := b, w_cap := c\<rparr>)"
    using ts(1,2) room cs(1) rs(1) lg by (simp add: kvs_filter_protocol_def srv'_def kvs_master_incr_sync_def Let_def)
  moreover have "req_exec st ts (req_reply r M) (\<lambda>i. fst st (Suc i), srv')" unfolding req_exec_def Let_def
    by (intro exI [of _ r] exI [of _ s'] exI [of _ "kv_log srv'"]) (use cs(3) lg in \<open>auto simp: srv'_def srv_def M_def ts_def\<close>)
  moreover have vals: "\<forall>t k v. req_maps r M t k = Some v \<longrightarrow> length v \<le> V" by (rule req_maps_values [OF inv(4)]) (use r in \<open>simp add: req_ok_def\<close>)
  have "log_live srv'" if "is_recovering srv = 0" using lg inv(3) that by (simp add: srv'_def log_live_def)
  then have "srv_ok V (\<lambda>i. fst st (Suc i), srv')"
    using cs(2,3) st vals by (simp add: srv_ok_def srv'_def srv_def)
  ultimately show ?thesis using rs(2,3) len unfolding ts_def ce_def srv_def by blast
qed

lemma eng_prefix_eq:
  "a \<in> {''SET'', ''DEL'', ''MOD'', ''GET'', ''EXIST''} \<Longrightarrow> b \<in> {''SET'', ''DEL'', ''MOD'', ''GET'', ''EXIST''} \<Longrightarrow>
     eng_prefix t @ a = eng_prefix t' @ b \<longleftrightarrow> t = t' \<and> a = b"
  by (cases t; cases t') auto

lemma eng_prefix_inj [simp]: "eng_prefix t = eng_prefix t' \<longleftrightarrow> t = t'"
  by (cases t; cases t') auto

lemma req_tokens_inj: "req_tokens r = req_tokens r' \<Longrightarrow> r = r'"
  by (cases r rule: req_tokens.cases; cases r' rule: req_tokens.cases) (simp_all add: eng_prefix_eq)

lemma req_tokens_ok: "req_ok V r \<Longrightarrow> length (req_tokens r) \<le> KVS_MAX_TOKENS \<and> int (length (kvsp_frame (req_tokens r))) \<le> INT_MAX"
  by (cases r rule: req_tokens.cases) (simp_all add: req_ok_def KVS_MAX_TOKENS_def)

lemma protocol_split:
  assumes st: "srv_ok V st" and w: "wbuf_ok cli" "2 * (w_pos cli + int (V + 14)) + 64 \<le> WBUF_LIMIT" and r: "req_ok V r"
    and sp: "kvs_split_token cli = Some (int (length (req_tokens r)), cli\<lparr>rbuf := d\<rparr>, toks)" "map (cstr_at d) toks = map Some (req_tokens r)"
  shows "\<exists>reply st' b c. kvs_protocol st cli = Some (int (length reply), st', cli\<lparr>rbuf := d, wbuf := b, w_cap := c\<rparr>) \<and>
    req_exec st (req_tokens r) reply st' \<and> srv_ok V st' \<and> length reply \<le> V + 14 \<and>
    wbuf_ok (cli\<lparr>wbuf := b, w_cap := c, w_pos := w_pos cli + int (length reply)\<rparr>) \<and>
    take (nat (w_pos cli) + length reply) b = take (nat (w_pos cli)) (wbuf cli) @ reply"
proof -
  have "wbuf_ok (cli\<lparr>rbuf := d\<rparr>)" using w(1) by (simp add: wbuf_ok_def)
  from filter_req [OF st this _ r] w(2) obtain reply srv' b c where
    fr: "kvs_filter_protocol (fst st 0) (map Some (req_tokens r)) (int (length (req_tokens r))) (cli\<lparr>rbuf := d\<rparr>) (snd st) =
      Some (int (length reply), srv', cli\<lparr>rbuf := d, wbuf := b, w_cap := c\<rparr>)"
    "req_exec st (req_tokens r) reply (\<lambda>i. fst st (Suc i), srv')" "srv_ok V (\<lambda>i. fst st (Suc i), srv')" "length reply \<le> V + 14"
    "wbuf_ok (cli\<lparr>rbuf := d, wbuf := b, w_cap := c, w_pos := w_pos cli + int (length reply)\<rparr>)"
    "take (nat (w_pos cli) + length reply) b = take (nat (w_pos cli)) (wbuf cli) @ reply" by auto
  have "kvs_protocol st cli = Some (int (length reply), (\<lambda>i. fst st (Suc i), srv'), cli\<lparr>rbuf := d, wbuf := b, w_cap := c\<rparr>)"
    using sp fr(1) by (simp add: kvs_protocol_def)
  moreover have "wbuf_ok (cli\<lparr>wbuf := b, w_cap := c, w_pos := w_pos cli + int (length reply)\<rparr>)" using fr(5) by (simp add: wbuf_ok_def)
  ultimately show ?thesis using fr(2-4,6) by blast
qed

text \<open>The frame of a request in the buffer of a client, in either protocol, followed by the \<open>NUL\<close> the
  reader puts there.\<close>

definition has_request :: "client_info \<Rightarrow> string list \<Rightarrow> bool" where
  "has_request cli ts \<longleftrightarrow> (\<exists>rest. protocol cli = PROTO_KVSP \<and> rbuf cli = kvsp_frame ts @ NUL # rest \<and>
       cmd_hl cli = int (length (kvsp_head ts)) \<and> cmd_tl cli = int (length (kvsp_frame ts)) \<or>
     protocol cli = PROTO_RESP \<and> rbuf cli = resp_request ts @ NUL # rest \<and> cmd_hl cli = int (length (resp_head ts)) \<and>
       int (length (resp_request ts)) \<le> INT_MAX)"

lemma split_request:
  assumes "has_request cli (req_tokens r)" "req_ok V r"
  shows "\<exists>d toks. kvs_split_token cli = Some (int (length (req_tokens r)), cli\<lparr>rbuf := d\<rparr>, toks) \<and> map (cstr_at d) toks = map Some (req_tokens r)"
proof -
  have c: "\<forall>t \<in> set (req_tokens r). cstring t" "length (req_tokens r) \<le> KVS_MAX_TOKENS" "int (length (kvsp_frame (req_tokens r))) \<le> INT_MAX"
    using assms(2) req_tokens_ok by (auto simp: req_ok_def)
  from assms(1) consider
      rest where "protocol cli = PROTO_KVSP" "rbuf cli = kvsp_frame (req_tokens r) @ NUL # rest"
        "cmd_hl cli = int (length (kvsp_head (req_tokens r)))" "cmd_tl cli = int (length (kvsp_frame (req_tokens r)))"
    | rest where "protocol cli = PROTO_RESP" "rbuf cli = resp_request (req_tokens r) @ NUL # rest"
        "cmd_hl cli = int (length (resp_head (req_tokens r)))" "int (length (resp_request (req_tokens r))) \<le> INT_MAX"
    unfolding has_request_def by blast
  then show ?thesis
  proof cases
    case 1
    from kvs_split_kvsp_frame [OF this(2,1,3,4) c] show ?thesis by blast
  next
    case 2
    from kvs_split_resp_request [OF this(2,1,3) c(1,2) this(4)] show ?thesis by blast
  qed
qed

lemma protocol_req:
  assumes st: "srv_ok V st" and w: "wbuf_ok cli" "2 * (w_pos cli + int (V + 14)) + 64 \<le> WBUF_LIMIT"
    and c: "protocol cli = PROTO_KVSP" "rbuf cli = kvsp_frame (req_tokens r) @ NUL # rest"
    "cmd_hl cli = int (length (kvsp_head (req_tokens r)))" "cmd_tl cli = int (length (kvsp_frame (req_tokens r)))" and r: "req_ok V r"
  shows "\<exists>reply st' f b c. kvs_protocol st cli = Some (int (length reply), st', cli\<lparr>rbuf := f @ NUL # rest, wbuf := b, w_cap := c\<rparr>) \<and>
    length f = length (kvsp_frame (req_tokens r)) \<and> req_exec st (req_tokens r) reply st' \<and> srv_ok V st' \<and> length reply \<le> V + 14 \<and>
    wbuf_ok (cli\<lparr>wbuf := b, w_cap := c, w_pos := w_pos cli + int (length reply)\<rparr>) \<and>
    take (nat (w_pos cli) + length reply) b = take (nat (w_pos cli)) (wbuf cli) @ reply"
proof -
  from kvs_split_kvsp_frame [OF c(2,1,3,4)] r req_tokens_ok [OF r] obtain f toks where
    sp: "kvs_split_token cli = Some (int (length (req_tokens r)), cli\<lparr>rbuf := f @ NUL # rest\<rparr>, toks)"
      "length f = length (kvsp_frame (req_tokens r))" "map (cstr_at (f @ NUL # rest)) toks = map Some (req_tokens r)"
    by (auto simp: req_ok_def)
  from protocol_split [OF st w r sp(1,3)] sp(2) show ?thesis by blast
qed

text \<open>The command layer as the handler of the coroutine server, and of the replay of the log.\<close>

interpretation srv: reply_handler "srv_ok V" "\<lambda>ts. \<exists>r. ts = req_tokens r \<and> req_ok V r" "V + 14" req_exec kvs_protocol for V
proof (unfold_locales, goal_cases)
  case (1 st cli ts rest)
  then show ?case using protocol_req [of V st cli _ rest] by blast
next
  case (2 ts)
  then show ?case using req_tokens_ok by blast
qed

text \<open>The replay has its own client record; its replies start over at every request.\<close>

definition replay_client :: "nat \<Rightarrow> client_info \<Rightarrow> bool" where
  "replay_client V cli \<longleftrightarrow> wbuf_ok cli \<and> w_pos cli = 0 \<and> 2 * int (V + 14) + 64 \<le> WBUF_LIMIT"

definition replay_step :: "srv_state \<Rightarrow> string list \<Rightarrow> int \<Rightarrow> srv_state \<Rightarrow> bool" where
  "replay_step st ts r st' \<longleftrightarrow> (\<exists>reply. req_exec st ts reply st' \<and> r = int (length reply))"

interpretation replay: frame_handler "srv_ok V" "replay_client V" "\<lambda>ts. \<exists>r. ts = req_tokens r \<and> req_ok V r" replay_step kvs_protocol for V
proof (unfold_locales, goal_cases)
  case (1 st cli ts rest)
  then obtain r where r: "ts = req_tokens r" "req_ok V r" by blast
  from 1 r protocol_req [of V st cli r rest] obtain reply st' f b c where
    p: "kvs_protocol st cli = Some (int (length reply), st', cli\<lparr>rbuf := f @ NUL # rest, wbuf := b, w_cap := c\<rparr>)" "length f = length (kvsp_frame ts)"
      "req_exec st ts reply st'" "srv_ok V st'" "wbuf_ok (cli\<lparr>wbuf := b, w_cap := c, w_pos := w_pos cli + int (length reply)\<rparr>)"
    by (auto simp: replay_client_def)
  moreover have "replay_client V (cli\<lparr>rbuf := f @ NUL # rest, wbuf := b, w_cap := c\<rparr>)" using p(5) 1(2) by (simp add: replay_client_def wbuf_ok_def)
  ultimately show ?case using 1(3,4) unfolding replay_step_def
    by (intro exI [of _ "int (length reply)"] exI [of _ st'] exI [of _ "cli\<lparr>rbuf := f @ NUL # rest, wbuf := b, w_cap := c\<rparr>"]) auto
next
  case (2 cli b n h t)
  then show ?case by (simp add: replay_client_def wbuf_ok_def)
next
  case (3 ts)
  then show ?case using req_tokens_ok by blast
qed

subsection \<open>The theorems\<close>


definition cmd_env0 :: cmd_env where
  "cmd_env0 = \<lparr>ce_buf = env0, ce_eng = env0, ce_fork = \<lparr>pair_ok = True, fork_pid = 9, notify_mem = True\<rparr>, ce_master = master_ans0,
     ce_log = env0, ce_sqe = True\<rparr>"

definition server0 :: "kvs_store \<Rightarrow> kvs_server" where
  "server0 s = \<lparr>global_config = conf0, kv_store = s, kv_log = log0, kv_save = save_state0, is_recovering = 0, is_full_sync = 0, direct = []\<rparr>"

lemma server0_ok:
  assumes "store_invar s" "\<forall>t k v. store_map s t k = Some v \<longrightarrow> length v \<le> V"
  shows "srv_ok V (\<lambda>_. cmd_env0, server0 s)"
  using assms by (simp add: srv_ok_def server0_def cmd_env_ok_def cmd_env0_def log_live_def conf0_def log0_def log_ok_def log_final_def)


text \<open>A sequence of requests, by the specification: the replies, the log entries, the maps.\<close>

fun reqs_replies :: "store_maps \<Rightarrow> kv_req list \<Rightarrow> string list" where
  "reqs_replies M [] = []"
| "reqs_replies M (r # rs) = req_reply r M # reqs_replies (req_maps r M) rs"

fun reqs_log :: "store_maps \<Rightarrow> kv_req list \<Rightarrow> kv_req list" where
  "reqs_log M [] = []"
| "reqs_log M (r # rs) = (if req_writes r M then [r] else []) @ reqs_log (req_maps r M) rs"

definition log_text :: "kv_req list \<Rightarrow> string" where
  "log_text rs = concat (map (kvsp_frame \<circ> req_tokens) rs)"

lemma req_exec_spec:
  assumes "req_exec st (req_tokens r) reply st'"
  shows "reply = req_reply r (store_map (kv_store (snd st)))" "store_map (kv_store (snd st')) = req_maps r (store_map (kv_store (snd st)))"
    "log_final (kv_log (snd st')) = log_final (kv_log (snd st)) @
      log_text (if req_writes r (store_map (kv_store (snd st))) \<and> is_recovering (snd st) = 0 then [r] else [])"
    "is_recovering (snd st') = is_recovering (snd st)" "global_config (snd st') = global_config (snd st)"
proof -
  from assms obtain r' s' lg' where r': "req_tokens r = req_tokens r'" "snd st' = (snd st)\<lparr>kv_store := s', kv_log := lg'\<rparr>"
    "reply = req_reply r' (store_map (kv_store (snd st)))" "store_map s' = req_maps r' (store_map (kv_store (snd st)))"
    "log_final lg' = log_final (kv_log (snd st)) @
      (if req_writes r' (store_map (kv_store (snd st))) \<and> is_recovering (snd st) = 0 then kvsp_frame (req_tokens r) else [])"
    unfolding req_exec_def Let_def by blast
  have "r' = r" using r'(1) by (rule req_tokens_inj [symmetric])
  then show "reply = req_reply r (store_map (kv_store (snd st)))" "store_map (kv_store (snd st')) = req_maps r (store_map (kv_store (snd st)))"
    "log_final (kv_log (snd st')) = log_final (kv_log (snd st)) @
      log_text (if req_writes r (store_map (kv_store (snd st))) \<and> is_recovering (snd st) = 0 then [r] else [])"
    "is_recovering (snd st') = is_recovering (snd st)" "global_config (snd st') = global_config (snd st)"
    using r' by (auto simp: log_text_def)
qed

lemma answered_spec:
  assumes "answered req_exec st (map req_tokens rs) out st'" "is_recovering (snd st) = 0"
  shows "out = reqs_replies (store_map (kv_store (snd st))) rs \<and> store_map (kv_store (snd st')) = fold req_maps rs (store_map (kv_store (snd st))) \<and>
    log_final (kv_log (snd st')) = log_final (kv_log (snd st)) @ log_text (reqs_log (store_map (kv_store (snd st))) rs)"
  using assms
proof (induction rs arbitrary: st out)
  case Nil
  then show ?case by (auto elim: answered_NilE simp: log_text_def)
next
  case (Cons r rs)
  from Cons.prems(1) obtain reply st1 out' where a: "req_exec st (req_tokens r) reply st1" "answered req_exec st1 (map req_tokens rs) out' st'" "out = reply # out'"
    by (auto elim: answered_ConsE)
  note e = req_exec_spec [OF a(1)]
  from Cons.IH [OF a(2)] e Cons.prems(2) a(3) show ?case by (simp add: log_text_def)
qed



end
