(* ===== verification/Kvs_Recovery.thy ===== *)
theory Kvs_Recovery
  imports Kvs_Store
begin

text \<open>
  Histories of the server and their replay.  The log keeps the successful writes since the beginning,
  and it is replayed in full over the dump; the lemmas here show that this is harmless: on every key,
  a history replayed over a state it went through ends where the history ended.
\<close>

subsection \<open>Histories\<close>

text \<open>Requests of any clients, interleaved with the kernel carrying out writes of the log.\<close>

inductive serves :: "nat \<Rightarrow> srv_state \<Rightarrow> kv_req list \<Rightarrow> srv_state \<Rightarrow> bool" for V st where
  serves_none: "serves V st [] st"
| serves_req: "serves V st rs st1 \<Longrightarrow> has_request cli (req_tokens r) \<Longrightarrow> wbuf_ok cli \<Longrightarrow> 2 * (w_pos cli + int (V + 14)) + 64 \<le> WBUF_LIMIT \<Longrightarrow>
    req_ok V r \<Longrightarrow> kvs_protocol st1 cli = Some (n, st', cli') \<Longrightarrow> serves V st (rs @ [r]) st'"
| serves_disk: "serves V st rs st1 \<Longrightarrow> serves V st rs (fst st1, (snd st1)\<lparr>kv_log := log_complete i (kv_log (snd st1))\<rparr>)"

lemma srv_ok_disk:
  assumes "srv_ok V st"
  shows "srv_ok V (fst st, (snd st)\<lparr>kv_log := log_complete i (kv_log (snd st))\<rparr>)"
proof -
  have "fd_log (log_complete i lg) = fd_log lg" "ring_log_inited (log_complete i lg) = ring_log_inited lg" for lg
    by (simp_all add: log_complete_def)
  then show ?thesis using assms log_complete_final [of "kv_log (snd st)" i] by (auto simp: srv_ok_def log_live_def)
qed

lemma reqs_log_append: "reqs_log M (rs @ rs') = reqs_log M rs @ reqs_log (fold req_maps rs M) rs'"
  by (induction rs arbitrary: M) auto

lemma log_text_append [simp]: "log_text (rs @ rs') = log_text rs @ log_text rs'"
  by (simp add: log_text_def)

lemma protocol_exec:
  assumes "srv_ok V st" "wbuf_ok cli" "2 * (w_pos cli + int (V + 14)) + 64 \<le> WBUF_LIMIT" "has_request cli (req_tokens r)" "req_ok V r"
    and "kvs_protocol st cli = Some (n, st', cli')"
  shows "srv_ok V st' \<and> (\<exists>reply. req_exec st (req_tokens r) reply st')"
proof -
  obtain d toks where "kvs_split_token cli = Some (int (length (req_tokens r)), cli\<lparr>rbuf := d\<rparr>, toks)" "map (cstr_at d) toks = map Some (req_tokens r)"
    using split_request [OF assms(4,5)] by blast
  from protocol_split [OF assms(1-3,5) this] assms(6) show ?thesis by auto
qed

lemma serves_spec:
  assumes "serves V st rs st'" "srv_ok V st" "is_recovering (snd st) = 0"
  shows "srv_ok V st' \<and> is_recovering (snd st') = 0 \<and>
    store_map (kv_store (snd st')) = fold req_maps rs (store_map (kv_store (snd st))) \<and> (\<forall>r \<in> set rs. req_ok V r) \<and>
    log_final (kv_log (snd st')) = log_final (kv_log (snd st)) @ log_text (reqs_log (store_map (kv_store (snd st))) rs)"
  using assms
proof (induction rule: serves.induct)
  case serves_none
  then show ?case by (simp add: log_text_def)
next
  case (serves_req rs st1 cli r n st' cli')
  then obtain reply where "srv_ok V st'" and e: "req_exec st1 (req_tokens r) reply st'" using protocol_exec by blast
  with req_exec_spec [OF e] serves_req show ?case by (simp add: reqs_log_append)
next
  case (serves_disk rs st1 i)
  then have ok: "srv_ok V st1" "log_ok (kv_log (snd st1))" by (auto simp: srv_ok_def log_live_def)
  from srv_ok_disk [OF ok(1), of i] log_complete_final [OF ok(2), of i] serves_disk show ?case by simp
qed

subsection \<open>One key\<close>

text \<open>What a request does to the value of one key of one engine, when there is room.\<close>

fun kstep :: "kvs_engine_type \<Rightarrow> string \<Rightarrow> kv_req \<Rightarrow> string option \<Rightarrow> string option" where
  "kstep t k (ReqWrite u (OpSet j v)) x = (if u = t \<and> j = k \<and> x = None then Some v else x)"
| "kstep t k (ReqWrite u (OpDel j)) x = (if u = t \<and> j = k then None else x)"
| "kstep t k (ReqWrite u (OpMod j v)) x = (if u = t \<and> j = k \<and> x \<noteq> None then Some v else x)"
| "kstep t k _ x = x"

lemma req_maps_noop: "\<not> req_writes r M \<Longrightarrow> req_maps r M = M"
  by (cases "(r, M)" rule: req_writes.cases) (auto simp: maps_write_def fun_eq_iff split: option.splits)

lemma req_maps_kstep:
  assumes "req_writes r M \<or> map_room KVS_ARRAY (M KVS_ARRAY)"
  shows "req_maps r M t k = kstep t k r (M t k)"
  using assms
  by (cases "(r, M)" rule: req_writes.cases) (auto simp: maps_write_def map_room_def split: option.splits)

text \<open>The requests that change something, when they do.\<close>

fun effective :: "store_maps \<Rightarrow> kv_req list \<Rightarrow> bool" where
  "effective M [] \<longleftrightarrow> True"
| "effective M (r # rs) \<longleftrightarrow> req_writes r M \<and> effective (req_maps r M) rs"

lemma log_effective: "effective M (reqs_log M rs)" "fold req_maps (reqs_log M rs) M = fold req_maps rs M"
  by (induction rs arbitrary: M) (auto simp: req_maps_noop)

text \<open>A write that took effect leaves any other value of the key alone or makes it the same.\<close>

lemma kstep_cases: "req_writes r M \<Longrightarrow> kstep t k r x = x \<or> kstep t k r x = kstep t k r (M t k)"
  by (cases "(r, M)" rule: req_writes.cases) auto

lemma key_replay:
  "effective M rs \<Longrightarrow> fold (kstep t k) rs (fold (kstep t k) (take q rs) (M t k)) = fold (kstep t k) rs (M t k)"
proof (induction rs arbitrary: M q)
  case (Cons r rs)
  show ?case
  proof (cases q)
    case (Suc p)
    have w: "req_writes r M" "effective (req_maps r M) rs" using Cons.prems by auto
    let ?o = "kstep t k r (M t k)" and ?x = "fold (kstep t k) (take p rs) (kstep t k r (M t k))"
    have "req_maps r M t k = ?o" using w(1) by (simp add: req_maps_kstep)
    with Cons.IH [OF w(2), of p] have "fold (kstep t k) rs ?x = fold (kstep t k) rs ?o" by simp
    moreover have "kstep t k r ?x = ?x \<or> kstep t k r ?x = ?o" by (rule kstep_cases [OF w(1)])
    ultimately show ?thesis using Suc by auto
  qed simp
qed simp

subsection \<open>The array never fills up\<close>

definition array_in :: "string set \<Rightarrow> store_maps \<Rightarrow> bool" where
  "array_in K M \<longleftrightarrow> dom (M KVS_ARRAY) \<subseteq> K"

fun sets_in :: "string set \<Rightarrow> kv_req \<Rightarrow> bool" where
  "sets_in K (ReqWrite KVS_ARRAY (OpSet k v)) \<longleftrightarrow> k \<in> K"
| "sets_in K _ \<longleftrightarrow> True"

lemma array_in_room: "finite K \<Longrightarrow> card K < KVS_ARRAY_SIZE \<Longrightarrow> array_in K M \<Longrightarrow> map_room KVS_ARRAY (M KVS_ARRAY)"
  using card_mono [of K "dom (M KVS_ARRAY)"] by (simp add: array_in_def map_room_def)

lemma array_in_step: "array_in K M \<Longrightarrow> sets_in K r \<Longrightarrow> array_in K (req_maps r M)"
  by (cases "(K, r)" rule: sets_in.cases)
    (auto simp: array_in_def maps_write_def dom_def split: if_splits option.splits kv_op.splits)

lemma fold_kstep:
  assumes "finite K" "card K < KVS_ARRAY_SIZE" "array_in K M" "\<forall>r \<in> set rs. sets_in K r"
  shows "fold req_maps rs M t k = fold (kstep t k) rs (M t k) \<and> array_in K (fold req_maps rs M)"
  using assms(3,4)
proof (induction rs arbitrary: M)
  case (Cons r rs)
  have "req_maps r M t k = kstep t k r (M t k)" by (rule req_maps_kstep) (use array_in_room [OF assms(1,2)] Cons.prems(1) in blast)
  moreover have "array_in K (req_maps r M)" using array_in_step Cons.prems by simp
  ultimately show ?case using Cons.IH [of "req_maps r M"] Cons.prems(2) by simp
qed simp

lemma reqs_log_set: "set (reqs_log M rs) \<subseteq> set rs"
  by (induction rs arbitrary: M) auto

text \<open>The whole log replayed over the maps the server had at any earlier time.\<close>

lemma replay_over_prefix:
  assumes K: "finite K" "card K < KVS_ARRAY_SIZE" "array_in K M" "\<forall>r \<in> set (rs @ rs'). sets_in K r"
  shows "fold req_maps (reqs_log M (rs @ rs')) (fold req_maps rs M) = fold req_maps (rs @ rs') M"
proof (rule ext, rule ext)
  fix t k
  let ?L = "reqs_log M (rs @ rs')" and ?q = "length (reqs_log M rs)"
  have pre: "take ?q ?L = reqs_log M rs" by (simp add: reqs_log_append)
  have L: "\<forall>r \<in> set ?L. sets_in K r" using reqs_log_set [of M "rs @ rs'"] K(4) by blast
  have P: "\<forall>r \<in> set (reqs_log M rs). sets_in K r" using reqs_log_set [of M rs] K(4) by auto
  note p = fold_kstep [OF K(1-3) P, of t k]
  have "fold req_maps ?L (fold req_maps rs M) t k = fold req_maps ?L (fold req_maps (reqs_log M rs) M) t k" by (simp add: log_effective(2))
  also have "\<dots> = fold (kstep t k) ?L (fold (kstep t k) (take ?q ?L) (M t k))" using fold_kstep [OF K(1,2) _ L, of _ t k] p unfolding pre by simp
  also have "\<dots> = fold (kstep t k) ?L (M t k)" by (rule key_replay) (rule log_effective(1))
  also have "\<dots> = fold req_maps (rs @ rs') M t k" using fold_kstep [OF K(1-3) L, of t k] log_effective(2) [of M "rs @ rs'"] by simp
  finally show "fold req_maps ?L (fold req_maps rs M) t k = fold req_maps (rs @ rs') M t k" .
qed

subsection \<open>The replay of the log file\<close>

lemma replayed_spec:
  assumes "replayed replay_step st (map req_tokens rs) st'"
  shows "store_map (kv_store (snd st')) = fold req_maps rs (store_map (kv_store (snd st)))" "is_recovering (snd st') = is_recovering (snd st)"
    "global_config (snd st') = global_config (snd st)"
proof -
  have "store_map (kv_store (snd st')) = fold req_maps rs (store_map (kv_store (snd st))) \<and> is_recovering (snd st') = is_recovering (snd st) \<and>
    global_config (snd st') = global_config (snd st)"
    using assms
  proof (induction rs arbitrary: st)
    case Nil
    then show ?case by (auto elim: replayed_NilE)
  next
    case (Cons r rs)
    have nonneg: "0 \<le> n" if "replay_step st ts n st1" for ts n st1 using that by (auto simp: replay_step_def)
    from Cons.prems obtain n st1 where s: "replay_step st (req_tokens r) n st1" "replayed replay_step st1 (map req_tokens rs) st'"
      unfolding list.map by (elim replayed_ConsE) (blast, meson nonneg not_le)
    then obtain reply where "req_exec st (req_tokens r) reply st1" by (auto simp: replay_step_def)
    from req_exec_spec [OF this] Cons.IH [OF s(2)] show ?case by simp
  qed
  then show "store_map (kv_store (snd st')) = fold req_maps rs (store_map (kv_store (snd st)))" "is_recovering (snd st') = is_recovering (snd st)"
    "global_config (snd st') = global_config (snd st)" by simp_all
qed

lemma replay_client_file: "2 * int (V + 14) + 64 \<le> WBUF_LIMIT \<Longrightarrow> replay_client V (file_client e)"
  by (simp add: replay_client_def file_client_def wbuf_ok_def LOG_BUFFER_SIZE_def WBUF_LIMIT_def)

lemma log_init_replays:
  assumes "srv_ok V (cs, srv)" "2 * int (V + 14) + 64 \<le> WBUF_LIMIT" "\<forall>r \<in> set rs. req_ok V r"
    and "enable_log conf \<noteq> 0" "0 \<le> opened" "mem_ok e" "log_file lg = log_text rs" "int (length (log_text rs)) \<le> INT_MAX"
    and "global_log_offset lg = 0"
  shows "\<exists>lg' st'. kvs_log_init kvs_protocol conf e opened True True lg (cs, srv) = Some (0, lg', st') \<and> srv_ok V st' \<and>
    store_map (kv_store (snd st')) = fold req_maps rs (store_map (kv_store srv)) \<and> is_recovering (snd st') = is_recovering srv \<and>
    lg' = lg\<lparr>fd_log := opened, ring_log_inited := 1, global_log_offset := length (log_text rs)\<rparr>"
proof (cases "rs = []")
  case True
  then have "lg\<lparr>fd_log := opened, ring_log_inited := 1, global_log_offset := length (log_text rs)\<rparr> = lg\<lparr>fd_log := opened, ring_log_inited := 1\<rparr>"
    using assms(9) by (intro kvs_log.equality) (simp_all add: log_text_def)
  then show ?thesis using assms True by (simp add: kvs_log_init_def log_text_def)
next
  case False
  have lt: "log_text rs = concat (map kvsp_frame (map req_tokens rs))" by (simp add: log_text_def)
  then have ne: "log_text rs \<noteq> []" using False by (cases rs) (auto simp: kvsp_frame_def)
  have "\<exists>st'. kvs_file_read kvs_protocol e (concat (map kvsp_frame (map req_tokens rs))) (cs, srv) = Some (0, st') \<and>
      replayed replay_step (cs, srv) (map req_tokens rs) st' \<and> srv_ok V st'"
    by (rule replay.file_replays [OF assms(6,1) replay_client_file [OF assms(2)]]) (use assms(3,8) False in \<open>auto simp: lt\<close>)
  then obtain st' where "kvs_file_read kvs_protocol e (log_text rs) (cs, srv) = Some (0, st')" "replayed replay_step (cs, srv) (map req_tokens rs) st'" "srv_ok V st'"
    unfolding lt by blast
  then show ?thesis using replayed_spec [of "(cs, srv)" rs st'] assms(4,5,7) ne by (simp add: kvs_log_init_def Let_def)
qed

subsection \<open>The start\<close>

text \<open>Everything the start asks of the system succeeds.\<close>

definition init_ok :: "init_ans \<Rightarrow> bool" where
  "init_ok a \<longleftrightarrow> mem_ok (ia_eng a) \<and> ia_array a = replicate KVS_ARRAY_SIZE array_null_item \<and> ia_hash a = (\<lambda>_. Some []) \<and>
     mem_ok (ia_save_env a) \<and> ia_save_stat a \<and> ia_save_map a \<and> (\<forall>i. mem_ok (ia_load a i)) \<and>
     mem_ok (ia_log_env a) \<and> 0 \<le> ia_log_open a \<and> ia_log_stat a \<and> ia_log_map a \<and> (\<forall>i. cmd_env_ok (ia_cmds a i))"

lemma init_restores:
  assumes a: "init_ok a" "kvs_config_init (ia_conf a) (global_config srv) = Some (c, conf)" "enable_log conf \<noteq> 0" "enable_save conf \<noteq> 0"
    and srv: "is_recovering srv \<noteq> 0" "log_file (kv_log srv) = log_text rs" "in_flight (kv_log srv) = []" "global_log_offset (kv_log srv) = 0"
    and V: "2 * int (V + 14) + 64 \<le> WBUF_LIMIT" "\<forall>r \<in> set rs. req_ok V r" "int (length (log_text rs)) \<le> INT_MAX"
    and M: "\<forall>t k v. M t k = Some v \<longrightarrow> length v \<le> V" "card (dom (M KVS_ARRAY)) \<le> KVS_ARRAY_SIZE"
    and dump: "dump = None \<and> M = (\<lambda>_. Map.empty) \<or> (\<exists>xs. dump = Some (concat (map save_frame xs)) \<and> lists_maps xs M \<and> dumpable M \<and>
      int (length (concat (map save_frame xs))) \<le> INT_MAX)"
  shows "\<exists>srv'. kvs_init a dump srv = Some srv' \<and> store_invar (kv_store srv') \<and> store_map (kv_store srv') = fold req_maps rs M \<and>
    log_live (srv'\<lparr>global_config := conf\<rparr>) \<and> log_final (kv_log srv') = log_text rs"
proof -
  obtain s0 where s0: "init_kvengine (ia_eng a) (ia_array a) (ia_hash a) = Some (0, s0)" "store_invar s0" "store_map s0 = (\<lambda>_. Map.empty)"
    using init_kvengine_ok [of "ia_eng a" "ia_array a" "ia_hash a"] a(1) by (auto simp: init_ok_def)
  then have load: "load_inv (ia_load a, s0)" using a(1) by (simp add: load_inv_def init_ok_def)
  have "\<exists>st. kvs_save_init conf (ia_save_env a) True True dump (ia_load a, s0) = Some (0, st) \<and> load_inv st \<and> store_map (snd st) = M"
    using dump
  proof
    assume "dump = None \<and> M = (\<lambda>_. Map.empty)"
    then show ?thesis using load s0(3) by (simp add: kvs_save_init_def)
  next
    assume "\<exists>xs. dump = Some (concat (map save_frame xs)) \<and> lists_maps xs M \<and> dumpable M \<and> int (length (concat (map save_frame xs))) \<le> INT_MAX"
    then obtain xs where xs: "dump = Some (concat (map save_frame xs))" "lists_maps xs M" "dumpable M" "int (length (concat (map save_frame xs))) \<le> INT_MAX"
      by blast
    have "load_room (store_map (snd (ia_load a, s0))) xs" using lists_array_keys [OF xs(2)] M(2) s0(3) by (simp add: load_room_def)
    moreover have "mem_ok (ia_save_env a)" using a(1) by (simp add: init_ok_def)
    ultimately show ?thesis using load_file [OF load _ xs(2,3) _ a(4) xs(4)] maps_add_empty [OF xs(2)] s0(3) unfolding xs(1) by auto
  qed
  then obtain st where st: "kvs_save_init conf (ia_save_env a) True True dump (ia_load a, s0) = Some (0, st)" "store_invar (snd st)" "store_map (snd st) = M"
    by (auto simp: load_inv_def)
  define srv1 where "srv1 = srv\<lparr>global_config := conf, kv_store := snd st\<rparr>"
  have "srv_ok V (ia_cmds a, srv1)" using st(2,3) M(1) a(1) srv(1) by (simp add: srv_ok_def srv1_def init_ok_def)
  then have "\<exists>lg' st'. kvs_log_init kvs_protocol conf (ia_log_env a) (ia_log_open a) True True (kv_log srv1) (ia_cmds a, srv1) = Some (0, lg', st') \<and> srv_ok V st' \<and>
    store_map (kv_store (snd st')) = fold req_maps rs (store_map (kv_store srv1)) \<and> is_recovering (snd st') = is_recovering srv1 \<and>
    lg' = (kv_log srv1)\<lparr>fd_log := ia_log_open a, ring_log_inited := 1, global_log_offset := length (log_text rs)\<rparr>"
    by (rule log_init_replays) (use V a srv in \<open>auto simp: srv1_def init_ok_def\<close>)
  then obtain lg' st' where l: "kvs_log_init kvs_protocol conf (ia_log_env a) (ia_log_open a) True True (kv_log srv1) (ia_cmds a, srv1) = Some (0, lg', st')" "srv_ok V st'"
    "store_map (kv_store (snd st')) = fold req_maps rs (store_map (kv_store srv1))"
    "lg' = (kv_log srv1)\<lparr>fd_log := ia_log_open a, ring_log_inited := 1, global_log_offset := length (log_text rs)\<rparr>" by blast
  have "kvs_init a dump srv = Some ((snd st')\<lparr>kv_log := lg'\<rparr>)"
    using a(1,2) s0(1) st(1) l(1) by (simp add: kvs_init_def srv1_def init_ok_def Let_def)
  moreover have "log_live ((snd st')\<lparr>kv_log := lg', global_config := conf\<rparr>)" "log_final lg' = log_text rs"
    using l(4) a(1,3) srv by (simp_all add: log_live_def srv1_def log_ok_def log_final_def init_ok_def)
  ultimately show ?thesis using l(2,3) st(3) by (intro exI [of _ "(snd st')\<lparr>kv_log := lg'\<rparr>"]) (simp add: srv_ok_def srv1_def)
qed

subsection \<open>Histories exist\<close>

lemma serves_exists:
  assumes "srv_ok V st" "2 * int (V + 14) + 64 \<le> WBUF_LIMIT" "\<forall>r \<in> set rs. req_ok V r"
  shows "\<exists>st'. serves V st rs st' \<and> srv_ok V st'"
  using assms(3)
proof (induction rs rule: rev_induct)
  case Nil
  then show ?case using assms(1) serves_none by blast
next
  case (snoc r rs)
  then obtain st1 where st1: "serves V st rs st1" "srv_ok V st1" by auto
  define cli where "cli = conn0\<lparr>protocol := PROTO_KVSP, rbuf := kvsp_frame (req_tokens r) @ [NUL],
      cmd_hl := int (length (kvsp_head (req_tokens r))), cmd_tl := int (length (kvsp_frame (req_tokens r)))\<rparr>"
  have c: "has_request cli (req_tokens r)" "wbuf_ok cli" "2 * (w_pos cli + int (V + 14)) + 64 \<le> WBUF_LIMIT" "req_ok V r"
    using assms(2) snoc.prems by (auto simp: cli_def has_request_def wbuf_ok_def conn0_def SRV_BUFFER_SIZE_def WBUF_LIMIT_def)
  obtain d toks where "kvs_split_token cli = Some (int (length (req_tokens r)), cli\<lparr>rbuf := d\<rparr>, toks)" "map (cstr_at d) toks = map Some (req_tokens r)"
    using split_request [OF c(1,4)] by blast
  from protocol_split [OF st1(2) c(2-4) this] obtain n st' cli' where "kvs_protocol st1 cli = Some (n, st', cli')" "srv_ok V st'" by blast
  then show ?case using serves_req [OF st1(1) c] by blast
qed

lemma serves_flush:
  assumes "serves V st rs st'"
  shows "\<exists>st''. serves V st rs st'' \<and> in_flight (kv_log (snd st'')) = [] \<and> kv_store (snd st'') = kv_store (snd st')"
  using assms
proof (induction "length (in_flight (kv_log (snd st')))" arbitrary: st')
  case 0
  then show ?case by (intro exI [of _ st']) simp
next
  case (Suc n)
  let ?st = "(fst st', (snd st')\<lparr>kv_log := log_complete 0 (kv_log (snd st'))\<rparr>)"
  have "n = length (in_flight (kv_log (snd ?st)))" using Suc.hyps(2) by (auto simp: log_complete_def)
  from Suc.hyps(1) [OF this serves_disk [OF Suc.prems]] show ?case by auto
qed

end
