(* ===== verification/Kvs_Safety.thy ===== *)
theory Kvs_Safety
  imports Kvs_Store
begin

text \<open>
  Arbitrary requests.  Whatever bytes a frame of the protocol KVSP holds, the command layer is defined
  and keeps the server and the client well-formed, with two exceptions, which are described exactly: an
  unknown command whose name does not fit the reply buffer, and \<open>HMOD\<close> of a stored key without a value.
\<close>

subsection \<open>Missing arguments\<close>

lemma eng_set_null: "key = None \<or> value = None \<Longrightarrow> eng_set t e s key value = Some (-1, s)"
  by (cases t; cases key; cases "value")
    (simp_all add: on_defs kvs_array_set_def kvs_rbtree_set_def kvs_hash_set_def kvs_skiplist_set_def)

lemma eng_del_null: "\<exists>r. eng_del t s None = Some (r, s)"
  by (cases t) (simp_all add: on_defs kvs_array_del_def kvs_rbtree_del_def kvs_hash_del_def kvs_skiplist_del_def)

lemma eng_mod_null: "key = None \<or> value = None \<and> t \<noteq> KVS_HASH \<Longrightarrow> eng_mod t e s key value = Some (-1, s)"
  by (cases t; cases key; cases "value")
    (simp_all add: on_defs kvs_array_mod_def kvs_rbtree_mod_def kvs_hash_mod_def kvs_skiplist_mod_def)

lemma eng_get_null: "eng_get t s None = Some None"
  by (cases t) (simp_all add: kvs_array_get_def kvs_rbtree_get_def kvs_hash_get_def kvs_skiplist_get_def)

lemma eng_exist_null: "\<exists>r. eng_exist t s None = Some r"
  by (cases t) (simp_all add: kvs_array_exist_def kvs_rbtree_exist_def kvs_hash_exist_def kvs_hash_get_def kvs_skiplist_exist_def)

text \<open>\<open>kvs_hash_mod\<close> checks its key only.\<close>

lemma eng_mod_hash_null:
  assumes "store_invar s"
  shows "eng_mod KVS_HASH e s (Some k) None = (if store_map s KVS_HASH k = None then Some (1, s) else None)"
proof -
  have g: "kvs_hash_get (global_hash s) (Some k) = Some (store_map s KVS_HASH k)"
    using eng.get_lookup [OF assms, of KVS_HASH k] by simp
  then obtain i c where "hash_key (Some k) MAX_TABLE_SIZE = Some i" "hash_slot (global_hash s) i = Some c" "chain_get k c = store_map s KVS_HASH k"
    by (auto simp: kvs_hash_get_def bind_eq_Some_conv)
  then show ?thesis by (simp add: on_hash_def kvs_hash_mod_def)
qed

subsection \<open>Typed states\<close>

definition store_vals :: "nat \<Rightarrow> kvs_store \<Rightarrow> bool" where
  "store_vals V s \<longleftrightarrow> (\<forall>t k v. store_map s t k = Some v \<longrightarrow> length v \<le> V)"

definition srv_typed :: "nat \<Rightarrow> srv_state \<Rightarrow> bool" where
  "srv_typed V st \<longleftrightarrow> store_invar (kv_store (snd st)) \<and> store_vals V (kv_store (snd st)) \<and> log_ok (kv_log (snd st)) \<and>
     enable_sync (global_config (snd st)) = 0 \<and> (\<forall>i. mem_ok (ce_eng (fst st i)) \<and> mem_ok (ce_buf (fst st i)))"

text \<open>The two requests that are not handled.\<close>

definition unknown_fits :: "client_info \<Rightarrow> string \<Rightarrow> bool" where
  "unknown_fits cli name \<longleftrightarrow> w_pos cli + int (length name) + 26 \<le> (if w_cap cli - w_pos cli < 32 then 2 * w_cap cli else int (length (wbuf cli)))"

definition crashes :: "string list \<Rightarrow> client_info \<Rightarrow> kvs_store \<Rightarrow> bool" where
  "crashes ts cli s \<longleftrightarrow> ts \<noteq> [] \<and> (hd ts \<notin> set command \<and> \<not> unknown_fits cli (hd ts) \<or>
     (\<exists>k. ts = [''HMOD'', k] \<and> store_map s KVS_HASH k \<noteq> None))"

subsection \<open>Every call of an engine\<close>

lemma store_vals_write:
  assumes "store_vals V s" "store_map s' = maps_write t w (store_map s)" "\<forall>k v. w = OpSet k v \<or> w = OpMod k v \<longrightarrow> length v \<le> V"
  shows "store_vals V s'"
  using assms by (cases w) (auto simp: store_vals_def maps_write_def split: if_splits option.splits)

lemma eng_write_typed:
  assumes "store_invar s" "mem_ok e" "store_vals V s" "\<forall>k v. w = OpSet k v \<or> w = OpMod k v \<longrightarrow> length v \<le> V"
  shows "\<exists>r s'. kv_write (eng_set t) (eng_del t) (eng_mod t) e s w = Some (r, s') \<and> store_invar s' \<and> store_vals V s'"
  using eng_write [OF assms(1,2), of t w] store_vals_write [OF assms(3) _ assms(4)] by blast

lemma eng_set_typed:
  assumes "store_invar s" "mem_ok e" "store_vals V s" "\<forall>v. value = Some v \<longrightarrow> length v \<le> V"
  shows "\<exists>r s'. eng_set t e s key value = Some (r, s') \<and> store_invar s' \<and> store_vals V s'"
proof (cases "key = None \<or> value = None")
  case True
  then show ?thesis using eng_set_null [OF True] assms by blast
next
  case False
  then obtain k v where "key = Some k" "value = Some v" by auto
  then show ?thesis using eng_write_typed [OF assms(1-3), of "OpSet k v" t] assms(4) by (simp add: kv_write_def)
qed

lemma eng_del_typed:
  assumes "store_invar s" "store_vals V s"
  shows "\<exists>r s'. eng_del t s key = Some (r, s') \<and> store_invar s' \<and> store_vals V s'"
proof (cases key)
  case None
  then show ?thesis using eng_del_null [of t s] assms by blast
next
  case (Some k)
  then show ?thesis using eng_write_typed [OF assms(1) mem_ok_env0 assms(2), of "OpDel k" t] by (simp add: kv_write_def)
qed

lemma eng_mod_typed:
  assumes "store_invar s" "mem_ok e" "store_vals V s" "\<forall>v. value = Some v \<longrightarrow> length v \<le> V"
  shows "(\<exists>r s'. eng_mod t e s key value = Some (r, s') \<and> store_invar s' \<and> store_vals V s') \<or>
    t = KVS_HASH \<and> value = None \<and> (\<exists>k. key = Some k \<and> store_map s KVS_HASH k \<noteq> None) \<and> eng_mod t e s key value = None"
proof (cases "key = None \<or> value = None \<and> t \<noteq> KVS_HASH")
  case True
  then show ?thesis using eng_mod_null [OF True] assms by blast
next
  case False
  then obtain k where k: "key = Some k" by auto
  show ?thesis
  proof (cases "value")
    case None
    then show ?thesis using eng_mod_hash_null [OF assms(1), of e k] False k assms by auto
  next
    case (Some v)
    then show ?thesis using eng_write_typed [OF assms(1-3), of "OpMod k v" t] assms(4) k by (simp add: kv_write_def)
  qed
qed

lemma eng_get_typed:
  assumes "store_invar s" "store_vals V s"
  shows "\<exists>r. eng_get t s key = Some r \<and> (\<forall>v. r = Some v \<longrightarrow> length v \<le> V)"
  using eng_get_null [of t s] eng.get_lookup [OF assms(1), of t] assms(2) by (cases key) (auto simp: store_vals_def)

lemma eng_exist_typed: "store_invar s \<Longrightarrow> \<exists>r. eng_exist t s key = Some r"
  using eng_exist_null [of t s] eng.exist_lookup [of s t] by (cases key) auto

subsection \<open>The switch over the commands\<close>

definition cmd_typed :: "nat \<Rightarrow> kvs_server \<Rightarrow> cmd_out option \<Rightarrow> bool" where
  "cmd_typed V srv r \<longleftrightarrow> (\<exists>reply result wr srv'. r = Some (reply, result, wr, 0, srv') \<and>
     store_invar (kv_store srv') \<and> store_vals V (kv_store srv') \<and> kv_log srv' = kv_log srv \<and> global_config srv' = global_config srv \<and>
     reply \<noteq> REPLY_NONE \<and> (reply = REPLY_VALUE \<longrightarrow> (\<exists>v. result = Some v \<and> length v \<le> V)))"

lemma write_case_typed:
  "\<exists>r s'. x = Some (r, s') \<and> store_invar s' \<and> store_vals V s' \<Longrightarrow> other = REPLY_EXIST \<or> other = REPLY_NO_EXIST \<Longrightarrow> cmd_typed V srv (write_case other srv x)"
  by (auto simp: write_case_def cmd_typed_def Let_def)

lemma get_case_typed:
  "\<exists>r. x = Some r \<and> (\<forall>v. r = Some v \<longrightarrow> length v \<le> V) \<Longrightarrow> store_invar (kv_store srv) \<Longrightarrow> store_vals V (kv_store srv) \<Longrightarrow> cmd_typed V srv (get_case srv x)"
  by (auto simp: get_case_def cmd_typed_def)

lemma exist_case_typed:
  "\<exists>r. x = Some r \<Longrightarrow> store_invar (kv_store srv) \<Longrightarrow> store_vals V (kv_store srv) \<Longrightarrow> cmd_typed V srv (exist_case srv x)"
  by (auto simp: exist_case_def cmd_typed_def)

lemma cmd_typed_same:
  "store_invar (kv_store srv) \<Longrightarrow> store_vals V (kv_store srv) \<Longrightarrow> reply \<notin> {REPLY_NONE, REPLY_VALUE} \<Longrightarrow>
     kv_store srv' = kv_store srv \<Longrightarrow> kv_log srv' = kv_log srv \<Longrightarrow> global_config srv' = global_config srv \<Longrightarrow>
     cmd_typed V srv (Some (reply, None, False, 0, srv'))"
  by (auto simp: cmd_typed_def)

text \<open>\<open>HMOD\<close> of a stored key without a value dereferences NULL.\<close>

definition mod_null :: "kvs_cmd \<Rightarrow> string option \<Rightarrow> string option \<Rightarrow> kvs_store \<Rightarrow> bool" where
  "mod_null cmd key v s \<longleftrightarrow> cmd = KVS_CMD_HMOD \<and> v = None \<and> (\<exists>k. key = Some k \<and> store_map s KVS_HASH k \<noteq> None)"

lemma switch_typed:
  assumes s: "store_invar (kv_store srv)" "store_vals V (kv_store srv)" and e: "mem_ok (ce_eng ce)" and c: "enable_sync (global_config srv) = 0"
    and v: "\<forall>w. v = Some w \<longrightarrow> length w \<le> V" and cmd: "cmd \<noteq> KVS_CMD_COUNT"
  shows "if mod_null cmd key v (kv_store srv) then cmd_switch ce cmd key v cli srv = None else cmd_typed V srv (cmd_switch ce cmd key v cli srv)"
proof -
  note W = write_case_typed [OF eng_set_typed [OF s(1) e s(2) v]] write_case_typed [OF eng_del_typed [OF s]]
  note G = get_case_typed [OF eng_get_typed [OF s] s] exist_case_typed [OF eng_exist_typed [OF s(1)] s]
  have M: "cmd_typed V srv (write_case REPLY_NO_EXIST srv (eng_mod t (ce_eng ce) (kv_store srv) key v))" if "t \<noteq> KVS_HASH" for t
    using eng_mod_typed [OF s(1) e s(2) v, of t key] that by (auto intro!: write_case_typed)
  have H: "if mod_null KVS_CMD_HMOD key v (kv_store srv) then write_case REPLY_NO_EXIST srv (eng_mod KVS_HASH (ce_eng ce) (kv_store srv) key v) = None
      else cmd_typed V srv (write_case REPLY_NO_EXIST srv (eng_mod KVS_HASH (ce_eng ce) (kv_store srv) key v))"
    using eng_mod_typed [OF s(1) e s(2) v, of KVS_HASH key] eng_mod_hash_null [OF s(1), of "ce_eng ce"]
    by (auto simp: mod_null_def write_case_def intro!: write_case_typed [unfolded write_case_def])
  show ?thesis
  proof (cases "cmd = KVS_CMD_HMOD")
    case True
    show ?thesis using H unfolding True cmd_switch_def Let_def by (simp only: kvs_cmd.case)
  next
    case False
    then have n: "\<not> mod_null cmd key v (kv_store srv)" by (simp add: mod_null_def)
    have "cmd_typed V srv (cmd_switch ce cmd key v cli srv)"
      using False cmd s c unfolding cmd_switch_def Let_def
      by (cases cmd) (auto intro!: cmd_typed_same W G M simp: kvs_master_full_sync_def
        simp del: eng_set.simps eng_del.simps eng_mod.simps eng_get.simps eng_exist.simps split: prod.split)
    then show ?thesis using n by simp
  qed
qed

subsection \<open>The whole request\<close>

lemma cmd_lookup_cases:
  "(s \<notin> set command \<longleftrightarrow> cmd_lookup s = KVS_CMD_COUNT) \<and> (cmd_lookup s = KVS_CMD_HMOD \<longleftrightarrow> s = ''HMOD'')"
proof (cases "s \<in> set command")
  case True
  then show ?thesis by (auto simp: command_def cmd_lookup_def cmds_def)
next
  case False
  then have "s \<noteq> ''HMOD''" by (auto simp: command_def)
  then show ?thesis using cmd_lookup_table(2) [OF False] False by simp
qed

lemma mod_null_tokens:
  "ts \<noteq> [] \<Longrightarrow> mod_null (cmd_lookup (hd ts)) (tok (map Some ts) 1) (tok (map Some ts) 2) s \<longleftrightarrow> (\<exists>k. ts = [''HMOD'', k] \<and> store_map s KVS_HASH k \<noteq> None)"
  using cmd_lookup_cases [of "hd ts"]
  by (cases ts rule: list.exhaust; cases "tl ts" rule: list.exhaust; cases "tl (tl ts)" rule: list.exhaust) (auto simp: mod_null_def tok_def)

lemma buf_sprintf_overflow:
  "0 \<le> w_pos cli \<Longrightarrow> w_pos cli + int (length text) + 1 > int (length (wbuf cli)) \<Longrightarrow> buf_sprintf cli text = None"
  by (simp add: buf_sprintf_def memwr_def)

lemma log_write_typed:
  assumes "log_ok lg" "ts \<noteq> []" "int (length (kvsp_frame ts)) < INT_MAX"
  shows "\<exists>r lg'. kvs_log_write conf e sqe (map Some ts) (int (length ts)) lg = Some (r, lg') \<and> log_ok lg'"
proof (cases "enable_log conf \<noteq> 0 \<and> 0 \<le> fd_log lg \<and> ring_log_inited lg = 1")
  case True
  then show ?thesis using kvs_log_write_run [of conf lg ts e sqe] log_append_final(2) [OF assms(1), of "kvsp_frame ts"] assms by auto
next
  case False
  then show ?thesis using assms(1,2) by (auto simp: kvs_log_write_def tok_def)
qed

text \<open>The reply to an unknown command.\<close>

lemma unknown_reply:
  assumes "wbuf_ok cli" "reply_room e cli = Some (Some (cli\<lparr>wbuf := b, w_cap := c\<rparr>))" "w_pos cli \<le> c"
  shows "case reply_switch e REPLY_NONE None name 0 (cli\<lparr>wbuf := b, w_cap := c\<rparr>) of
      None \<Rightarrow> \<not> unknown_fits cli name
    | Some (r, cli') \<Rightarrow> unknown_fits cli name \<and> r = int (length name) + 25 \<and> (\<exists>b'. cli' = cli\<lparr>wbuf := b', w_cap := c\<rparr> \<and> length b' = length b)"
proof -
  let ?cli = "cli\<lparr>wbuf := b, w_cap := c\<rparr>" and ?t = "''-ERR no such command '' @ [CHR 0x27] @ name @ [CHR 0x27] @ CRLF"
  have len: "int (length b) = (if w_cap cli - w_pos cli < 32 then 2 * w_cap cli else int (length (wbuf cli)))"
  proof (cases "w_cap cli - w_pos cli < 32")
    case True
    then have "b = c_realloc e (wbuf cli) (nat (w_cap cli * 2))"
      using arg_cong [OF assms(2), of "\<lambda>x. map_option (map_option wbuf) x"] by (auto simp: reply_room_def split: if_splits)
    then show ?thesis using True assms(1) by (simp add: wbuf_ok_def)
  next
    case False
    then have "b = wbuf cli" using arg_cong [OF assms(2), of "\<lambda>x. map_option (map_option wbuf) x"] by (simp add: reply_room_def)
    then show ?thesis using False by simp
  qed
  have l: "length ?t = length name + 25" by simp
  have sw: "reply_switch e REPLY_NONE None name 0 ?cli = buf_sprintf ?cli ?t" by (simp add: reply_switch_def)
  have w: "0 \<le> w_pos cli" using assms(1) by (simp add: wbuf_ok_def)
  show ?thesis
  proof (cases "unknown_fits cli name")
    case True
    then have "w_pos cli + int (length name) + 26 \<le> int (length b)" using len by (simp add: unknown_fits_def)
    then obtain b' where "buf_sprintf ?cli ?t = Some (int (length ?t), ?cli\<lparr>wbuf := b'\<rparr>)" "length b' = length b"
      using buf_sprintf_ok [of ?cli ?t] w l by auto
    then show ?thesis using True unfolding sw l by (auto intro!: exI [of _ b'])
  next
    case False
    then have "w_pos cli + int (length name) + 26 > int (length b)" using len by (simp add: unknown_fits_def)
    then have "buf_sprintf ?cli ?t = None" using w l by (intro buf_sprintf_overflow) simp_all
    then show ?thesis using False unfolding sw by simp
  qed
qed

definition outcome_typed :: "nat \<Rightarrow> (nat \<Rightarrow> cmd_env) \<Rightarrow> (int \<times> kvs_server \<times> client_info) option \<Rightarrow> bool" where
  "outcome_typed V ce x \<longleftrightarrow> (\<exists>r srv' cli'. x = Some (r, srv', cli') \<and> srv_typed V (ce, srv') \<and> (0 \<le> r \<longrightarrow> wbuf_ok (cli'\<lparr>w_pos := w_pos cli' + r\<rparr>)))"

lemma log_step_typed:
  assumes "srv_typed V (ce, srv)" "ts \<noteq> []" "int (length (kvsp_frame ts)) < INT_MAX" "wbuf_ok (cli\<lparr>w_pos := w_pos cli + r\<rparr>)"
  shows "outcome_typed V ce (if lw \<and> is_recovering srv = 0 then do {
        (_, lg) \<leftarrow> kvs_log_write (global_config srv) e sqe (map Some ts) (int (length ts)) (kv_log srv);
        let srv = srv\<lparr>kv_log := lg\<rparr>;
        Some (if kvs_master_incr_sync (global_config srv) (int (length ts)) \<noteq> 0 then -2 else r, srv, cli) }
      else Some (r, srv, cli))"
proof -
  have "log_ok (kv_log srv)" using assms(1) by (simp add: srv_typed_def)
  from log_write_typed [OF this assms(2,3), of "global_config srv" e sqe] obtain n lg' where
    "kvs_log_write (global_config srv) e sqe (map Some ts) (int (length ts)) (kv_log srv) = Some (n, lg')" "log_ok lg'" by blast
  then show ?thesis using assms by (auto simp: outcome_typed_def srv_typed_def kvs_master_incr_sync_def)
qed

lemma filter_typed:
  assumes st: "srv_typed V st" and w: "wbuf_ok cli" "2 * (w_pos cli + int (V + 14)) + 64 \<le> WBUF_LIMIT"
    and ts: "\<forall>t \<in> set ts. length t \<le> V" "ts \<noteq> [] \<longrightarrow> int (length (kvsp_frame ts)) < INT_MAX"
  shows "if crashes ts cli (kv_store (snd st)) then kvs_filter_protocol (fst st 0) (map Some ts) (int (length ts)) cli (snd st) = None
    else outcome_typed V (\<lambda>i. fst st (Suc i)) (kvs_filter_protocol (fst st 0) (map Some ts) (int (length ts)) cli (snd st))"
proof (cases "ts = []")
  case True
  then show ?thesis using st by (simp add: crashes_def outcome_typed_def kvs_filter_protocol_def tok_def srv_typed_def)
next
  case False
  define ce srv cmd key v where "ce = fst st 0" and "srv = snd st" and "cmd = cmd_lookup (hd ts)" and "key = tok (map Some ts) 1" and "v = tok (map Some ts) 2"
  let ?ce = "\<lambda>i. fst st (Suc i)"
  have t0: "tok (map Some ts) 0 = Some (hd ts)" using False by (cases ts) (simp_all add: tok_def)
  have inv: "store_invar (kv_store srv)" "store_vals V (kv_store srv)" "enable_sync (global_config srv) = 0" "mem_ok (ce_eng ce)" "mem_ok (ce_buf ce)"
    using st by (auto simp: srv_typed_def srv_def ce_def)
  have frame: "int (length (kvsp_frame ts)) < INT_MAX" using ts(2) False by blast
  have vb: "\<forall>w. v = Some w \<longrightarrow> length w \<le> V" using ts(1) by (auto simp: v_def tok_def)
  have "2 * w_pos cli + 64 \<le> WBUF_LIMIT" using w(2) by simp
  from reply_room_ok [OF w(1) this, of "ce_buf ce"] inv(5) obtain b c where
    room: "reply_room (ce_buf ce) cli = Some (Some (cli\<lparr>wbuf := b, w_cap := c\<rparr>))" "wbuf_ok (cli\<lparr>wbuf := b, w_cap := c\<rparr>)" by auto
  let ?cli = "cli\<lparr>wbuf := b, w_cap := c\<rparr>"
  have run: "kvs_filter_protocol ce (map Some ts) (int (length ts)) cli srv = do {
       (reply, result, lw, len, srv) \<leftarrow> cmd_switch ce cmd key v ?cli srv;
       (len, cli) \<leftarrow> reply_switch (ce_buf ce) reply result (hd ts) len ?cli;
       if lw \<and> is_recovering srv = 0 then do {
         (_, lg) \<leftarrow> kvs_log_write (global_config srv) (ce_log ce) (ce_sqe ce) (map Some ts) (int (length ts)) (kv_log srv);
         let srv = srv\<lparr>kv_log := lg\<rparr>;
         Some (if kvs_master_incr_sync (global_config srv) (int (length ts)) \<noteq> 0 then -2 else len, srv, cli) }
       else Some (len, srv, cli) }"
    using False t0 room(1) by (simp add: kvs_filter_protocol_def cmd_def key_def v_def Let_def)
  have typed: "srv_typed V (?ce, srv')" if "store_invar (kv_store srv')" "store_vals V (kv_store srv')" "kv_log srv' = kv_log srv" "global_config srv' = global_config srv" for srv'
    using st that by (simp add: srv_typed_def srv_def)
  show ?thesis
  proof (cases "cmd = KVS_CMD_COUNT")
    case True
    then have unk: "hd ts \<notin> set command" "hd ts \<noteq> ''HMOD''" using cmd_lookup_cases [of "hd ts"] by (auto simp: cmd_def)
    then have cr: "crashes ts cli (kv_store srv) \<longleftrightarrow> \<not> unknown_fits cli (hd ts)" using False by (auto simp: crashes_def)
    have cs: "cmd_switch ce cmd key v ?cli srv = Some (REPLY_NONE, None, False, 0, srv)" by (simp add: True cmd_switch_def)
    have u: "case reply_switch (ce_buf ce) REPLY_NONE None (hd ts) 0 ?cli of None \<Rightarrow> \<not> unknown_fits cli (hd ts)
      | Some (r, cli') \<Rightarrow> unknown_fits cli (hd ts) \<and> r = int (length (hd ts)) + 25 \<and> (\<exists>b'. cli' = cli\<lparr>wbuf := b', w_cap := c\<rparr> \<and> length b' = length b)"
      by (rule unknown_reply [OF w(1) room(1)]) (use room(2) in \<open>simp add: wbuf_ok_def\<close>)
    show ?thesis
    proof (cases "reply_switch (ce_buf ce) REPLY_NONE None (hd ts) 0 ?cli")
      case None
      then show ?thesis using u cr cs run unfolding ce_def srv_def by simp
    next
      case (Some x)
      then obtain r b' where x: "reply_switch (ce_buf ce) REPLY_NONE None (hd ts) 0 ?cli = Some (r, cli\<lparr>wbuf := b', w_cap := c\<rparr>)"
        "unknown_fits cli (hd ts)" "r = int (length (hd ts)) + 25" "length b' = length b" using u by (cases x) auto
      have "w_pos cli + r + 1 \<le> int (length b')"
      proof (rule ccontr)
        assume "\<not> w_pos cli + r + 1 \<le> int (length b')"
        then have "buf_sprintf ?cli (''-ERR no such command '' @ [CHR 0x27] @ hd ts @ [CHR 0x27] @ CRLF) = None"
          using x(3,4) w(1) by (intro buf_sprintf_overflow) (simp_all add: wbuf_ok_def)
        then show False using x(1) by (simp add: reply_switch_def)
      qed
      then have "wbuf_ok (cli\<lparr>wbuf := b', w_cap := c, w_pos := w_pos cli + r\<rparr>)" using room(2) x(3,4) by (simp add: wbuf_ok_def)
      then show ?thesis using x(1,2) cr cs run typed [OF inv(1,2)] unfolding ce_def srv_def by (simp add: outcome_typed_def)
    qed
  next
    case known: False
    then have "hd ts \<in> set command" using cmd_lookup_cases [of "hd ts"] by (auto simp: cmd_def)
    then have cr: "crashes ts cli (kv_store srv) \<longleftrightarrow> mod_null cmd key v (kv_store srv)"
      using mod_null_tokens [OF False, of "kv_store srv"] False by (auto simp: crashes_def cmd_def key_def v_def)
    note sw = switch_typed [OF inv(1,2,4,3) vb known, of key ?cli]
    show ?thesis
    proof (cases "mod_null cmd key v (kv_store srv)")
      case True
      then show ?thesis using cr sw run unfolding ce_def srv_def by simp
    next
      case ok: False
      with sw obtain reply result lw srv' where cs: "cmd_switch ce cmd key v ?cli srv = Some (reply, result, lw, 0, srv')"
        "store_invar (kv_store srv')" "store_vals V (kv_store srv')" "kv_log srv' = kv_log srv" "global_config srv' = global_config srv"
        "reply \<noteq> REPLY_NONE" "reply = REPLY_VALUE \<longrightarrow> (\<exists>v. result = Some v \<and> length v \<le> V)" by (auto simp: cmd_typed_def)
      have "V < 10 ^ 9" using w by (simp add: wbuf_ok_def WBUF_LIMIT_def)
      then have "length (reply_text reply result (hd ts)) \<le> V + 14"
        using cs(6,7) by (cases reply) (auto intro: order_trans [OF value_reply_length(1)])
      then have lim: "2 * (w_pos cli + int (length (reply_text reply result (hd ts)))) + 64 \<le> WBUF_LIMIT" using w(2) by simp
      have rv: "reply = REPLY_VALUE \<longrightarrow> (\<exists>v. result = Some v)" using cs(7) by blast
      from reply_ok [OF w(1) lim inv(5) refl cs(6) rv] room(1) obtain b' c' where
        rs: "reply_switch (ce_buf ce) reply result (hd ts) 0 ?cli = Some (int (length (reply_text reply result (hd ts))), cli\<lparr>wbuf := b', w_cap := c'\<rparr>)"
          "wbuf_ok (cli\<lparr>wbuf := b', w_cap := c', w_pos := w_pos cli + int (length (reply_text reply result (hd ts)))\<rparr>)" by auto
      have "outcome_typed V ?ce (kvs_filter_protocol ce (map Some ts) (int (length ts)) cli srv)"
        unfolding run cs(1) bind.bind_lunit prod.case rs(1)
        by (rule log_step_typed [OF typed [OF cs(2-5)] False frame]) (use rs(2) in simp)
      then show ?thesis using cr ok unfolding ce_def srv_def by simp
    qed
  qed
qed

lemma kvsp_body_bound: "\<forall>t \<in> set ts. length t \<le> V \<Longrightarrow> V < 10 ^ k \<Longrightarrow> 0 < k \<Longrightarrow> length (kvsp_body ts) \<le> length ts * (V + k + 2)"
proof (induction ts)
  case (Cons t ts)
  then have "length (dec (length t)) \<le> k" by (intro dec_length) (auto intro: le_less_trans)
  moreover have "length (kvsp_body ts) \<le> length ts * (V + k + 2)" "length t \<le> V" using Cons by auto
  ultimately show ?case by (simp add: length_kvsp_tok)
qed simp

lemma kvsp_frame_bound:
  assumes "\<forall>t \<in> set ts. length t \<le> V" "V \<le> 10 ^ 7" "length ts \<le> KVS_MAX_TOKENS"
  shows "int (length (kvsp_frame ts)) < INT_MAX"
proof -
  have "length (kvsp_body ts) \<le> length ts * (V + 8 + 2)" by (rule kvsp_body_bound) (use assms in auto)
  also have "\<dots> \<le> 128 * (10 ^ 7 + 8 + 2)" by (rule mult_le_mono) (use assms in \<open>simp_all add: KVS_MAX_TOKENS_def\<close>)
  finally have b: "length (kvsp_body ts) \<le> 1280001280" by simp
  then have "length (dec (length (kvsp_body ts) + 2)) \<le> 10" by (intro dec_length) simp_all
  then show ?thesis using b by (simp add: kvsp_frame_def kvsp_head_def INT_MAX_def)
qed

lemma those_all: "(\<And>x. x \<in> set xs \<Longrightarrow> \<exists>y. f x = Some y \<and> P y) \<Longrightarrow> \<exists>ys. those (map f xs) = Some ys \<and> length ys = length xs \<and> (\<forall>y \<in> set ys. P y)"
proof (induction xs)
  case (Cons x xs)
  then obtain ys where "those (map f xs) = Some ys \<and> length ys = length xs \<and> (\<forall>y \<in> set ys. P y)" by fastforce
  moreover obtain y where "f x = Some y \<and> P y" using Cons.prems by fastforce
  ultimately show ?case by auto
qed simp

subsection \<open>Any frame\<close>



end
