(* ===== verification/Kvs_Mempool.thy ===== *)
theory Kvs_Mempool
  imports Kvs_Prelude
begin

text \<open>
  The memory pool, \<^verbatim>\<open>kvs-mempool/kvs_mempool.c\<close>, behind \<open>kvs_malloc\<close>, \<open>kvs_free\<close> and \<open>kvs_realloc\<close>.  Small
  requests are served from slabs, one list of partly used, full and empty slabs per size class.  A slab
  of blocks up to 128 bytes is aligned and begins with its \<open>slab_t\<close>, so that a block finds its slab
  by its address; larger blocks carry a header.  Free blocks are linked through their first bytes.

  Memory is a map from addresses to bytes, \<open>None\<close> where nothing is mapped.  The structures \<open>slab_t\<close> live in
  a store of their own by address (\<open>mp_slabs\<close>); what their bytes look like matters only to a read
  across the front of a block, see \<open>mp_byte\<close>.  The pool itself is the global \<open>pools\<close>, never NULL.
\<close>

subsection \<open>Bytes\<close>

type_synonym bytes = "nat \<rightharpoonup> nat"

text \<open>Little-endian numbers of \<open>n\<close> bytes.\<close>

fun load_le :: "nat \<Rightarrow> bytes \<Rightarrow> nat \<Rightarrow> nat option" where
  "load_le 0 m a = Some 0"
| "load_le (Suc n) m a = do { b \<leftarrow> m a; r \<leftarrow> load_le n m (Suc a); Some (b + 256 * r) }"

fun store_le :: "nat \<Rightarrow> bytes \<Rightarrow> nat \<Rightarrow> nat \<Rightarrow> bytes option" where
  "store_le 0 m a v = Some m"
| "store_le (Suc n) m a v = do { _ \<leftarrow> m a; store_le n (m(a \<mapsto> v mod 256)) (Suc a) (v div 256) }"

fun le_bytes :: "nat \<Rightarrow> nat \<Rightarrow> nat list" where
  "le_bytes 0 v = []"
| "le_bytes (Suc n) v = v mod 256 # le_bytes n (v div 256)"

definition map_region :: "bytes \<Rightarrow> nat \<Rightarrow> nat \<Rightarrow> nat \<Rightarrow> bytes" where
  "map_region m a n v = (\<lambda>x. if a \<le> x \<and> x < a + n then Some v else m x)"

definition unmap_region :: "bytes \<Rightarrow> nat \<Rightarrow> nat \<Rightarrow> bytes" where
  "unmap_region m a n = (\<lambda>x. if a \<le> x \<and> x < a + n then None else m x)"

subsection \<open>The data structures\<close>

definition MAX_EMPTY_SLABS :: int where "MAX_EMPTY_SLABS = 1"
definition BLOCK_MAGIC :: nat where "BLOCK_MAGIC = 0x20260602"
definition SLAB_MAGIC :: nat where "SLAB_MAGIC = 0x20260629"
definition LARGE_THRESHOLD :: nat where "LARGE_THRESHOLD = 8192"
definition BLOCK_FLAG_LARGE :: nat where "BLOCK_FLAG_LARGE = 1"
definition BLOCK_FLAG :: nat where "BLOCK_FLAG = 0"
definition CLASS_COUNT :: nat where "CLASS_COUNT = 35"
definition SLAB_SIZE_ALIGNMENT :: nat where "SLAB_SIZE_ALIGNMENT = 128 * 1024"
definition ALIGNMENT_THRESHOLD :: nat where "ALIGNMENT_THRESHOLD = 128"

definition ALIGN_UP :: "nat \<Rightarrow> nat" where
  "ALIGN_UP x = (x + 7) mod 2 ^ 64 div 8 * 8"

definition size_classes :: "nat list" where
  "size_classes = [8, 16, 32, 48, 56, 64, 72, 80, 96, 112, 128, 160, 192, 224, 256, 320, 384, 448, 512,
     640, 768, 896, 1024, 1280, 1536, 1792, 2048, 2560, 3072, 3584, 4096, 5120, 6144, 7168, 8192]"

definition slab_classes :: "nat list" where
  "slab_classes = [8 * 1024, 16 * 1024, 32 * 1024, 48 * 1024, 56 * 1024, 64 * 1024, 72 * 1024, 80 * 1024,
     96 * 512, 112 * 512, 128 * 512, 160 * 256, 192 * 256, 224 * 256, 256 * 256, 320 * 128, 384 * 128, 448 * 128, 512 * 128,
     640 * 64, 768 * 64, 896 * 64, 1024 * 64, 1280 * 32, 1536 * 32, 1792 * 32, 2048 * 32,
     2560 * 16, 3072 * 16, 3584 * 16, 4096 * 16, 5120 * 8, 6144 * 8, 7168 * 8, 8192 * 8]"

record slab_t =
  slab_prev :: nat
  slab_next :: nat
  slab_mem :: nat
  free_blocks :: int
  total_blocks :: int
  free_list :: nat
  slab_magic :: nat
  slab_classid :: nat

record mem_pool_t =
  block_size :: nat
  empty_slab_count :: int
  partial_slabs :: nat
  full_slabs :: nat
  empty_slabs :: nat

text \<open>\<open>sizeof(slab_t)\<close> and \<open>sizeof(block_header_t)\<close>; the header is magic (4 bytes), class (1), flag (1), two unused
  bytes, slab (8) and size (8).\<close>

definition SLAB_T_SIZE :: nat where "SLAB_T_SIZE = 48"
definition HEADER_SIZE :: nat where "HEADER_SIZE = 24"

text \<open>\<open>mp_chunks\<close>: the live allocations of the C library, with their sizes.\<close>

record mp_state =
  mp_classes :: "mem_pool_t list"
  mp_slabs :: "nat \<rightharpoonup> slab_t"
  mp_bytes :: bytes
  mp_chunks :: "nat \<rightharpoonup> nat"

definition zero_slab :: slab_t where
  "zero_slab = \<lparr>slab_prev = 0, slab_next = 0, slab_mem = 0, free_blocks = 0, total_blocks = 0, free_list = 0, slab_magic = 0, slab_classid = 0\<rparr>"

text \<open>The answers of the system to one request: \<open>malloc\<close>, \<open>mmap\<close> and the content of fresh memory from \<open>malloc\<close>.\<close>

record os_ans =
  os_malloc :: "nat option"
  os_mmap :: "nat option"
  os_junk :: nat

text \<open>A read through a block header in front of a block without one may hit the \<open>slab_t\<close> of the slab.\<close>

definition slab_image :: "slab_t \<Rightarrow> nat list" where
  "slab_image sl = le_bytes 8 (slab_prev sl) @ le_bytes 8 (slab_next sl) @ le_bytes 8 (slab_mem sl) @
     le_bytes 4 (nat (free_blocks sl mod 2 ^ 32)) @ le_bytes 4 (nat (total_blocks sl mod 2 ^ 32)) @ le_bytes 8 (free_list sl) @
     le_bytes 4 (slab_magic sl) @ le_bytes 1 (slab_classid sl) @ [0, 0, 0]"

definition ptr_to_slab :: "nat \<Rightarrow> nat" where
  "ptr_to_slab ptr = ptr div SLAB_SIZE_ALIGNMENT * SLAB_SIZE_ALIGNMENT"

definition mp_byte :: "mp_state \<Rightarrow> bytes" where
  "mp_byte st a = (case mp_bytes st a of
     Some b \<Rightarrow> Some b
   | None \<Rightarrow> (case mp_slabs st (ptr_to_slab a) of
       Some sl \<Rightarrow> if a - ptr_to_slab a < SLAB_T_SIZE then Some (slab_image sl ! (a - ptr_to_slab a)) else None
     | None \<Rightarrow> None))"

subsection \<open>The lists of slabs\<close>

definition upd_slab :: "(slab_t \<Rightarrow> slab_t) \<Rightarrow> nat \<Rightarrow> mp_state \<Rightarrow> mp_state option" where
  "upd_slab f s st = do { sl \<leftarrow> mp_slabs st s; Some (st\<lparr>mp_slabs := (mp_slabs st)(s \<mapsto> f sl)\<rparr>) }"

text \<open>The macros take the head of a list and give its new value.\<close>

definition LIST_INSERT :: "nat \<Rightarrow> nat \<Rightarrow> mp_state \<Rightarrow> (nat \<times> mp_state) option" where
  "LIST_INSERT list item st = do {
     st \<leftarrow> (if list \<noteq> 0 then upd_slab (\<lambda>s. s\<lparr>slab_prev := item\<rparr>) list st else Some st);
     st \<leftarrow> upd_slab (\<lambda>s. s\<lparr>slab_prev := 0\<rparr>) item st;
     st \<leftarrow> upd_slab (\<lambda>s. s\<lparr>slab_next := list\<rparr>) item st;
     Some (item, st) }"

definition LIST_REMOVE :: "nat \<Rightarrow> nat \<Rightarrow> mp_state \<Rightarrow> (nat \<times> mp_state) option" where
  "LIST_REMOVE list item st = do {
     it \<leftarrow> mp_slabs st item;
     st \<leftarrow> (if slab_next it \<noteq> 0 then upd_slab (\<lambda>s. s\<lparr>slab_prev := slab_prev it\<rparr>) (slab_next it) st else Some st);
     it \<leftarrow> mp_slabs st item;
     st \<leftarrow> (if slab_prev it \<noteq> 0 then upd_slab (\<lambda>s. s\<lparr>slab_next := slab_next it\<rparr>) (slab_prev it) st else Some st);
     list \<leftarrow> (if item = list then do { it \<leftarrow> mp_slabs st list; Some (slab_next it) } else Some list);
     st \<leftarrow> upd_slab (\<lambda>s. s\<lparr>slab_prev := 0\<rparr>) item st;
     st \<leftarrow> upd_slab (\<lambda>s. s\<lparr>slab_next := 0\<rparr>) item st;
     Some (list, st) }"

datatype slab_list = PARTIAL | FULL | EMPTY

fun list_head :: "slab_list \<Rightarrow> mem_pool_t \<Rightarrow> nat" where
  "list_head PARTIAL pool = partial_slabs pool"
| "list_head FULL pool = full_slabs pool"
| "list_head EMPTY pool = empty_slabs pool"

fun list_head_put :: "slab_list \<Rightarrow> nat \<Rightarrow> mem_pool_t \<Rightarrow> mem_pool_t" where
  "list_head_put PARTIAL h pool = pool\<lparr>partial_slabs := h\<rparr>"
| "list_head_put FULL h pool = pool\<lparr>full_slabs := h\<rparr>"
| "list_head_put EMPTY h pool = pool\<lparr>empty_slabs := h\<rparr>"

definition upd_pool :: "(mem_pool_t \<Rightarrow> mem_pool_t) \<Rightarrow> nat \<Rightarrow> mp_state \<Rightarrow> mp_state" where
  "upd_pool f c st = st\<lparr>mp_classes := (mp_classes st)[c := f (mp_classes st ! c)]\<rparr>"

text \<open>The macros at a list of the pool of a class.\<close>

definition slab_insert :: "slab_list \<Rightarrow> nat \<Rightarrow> nat \<Rightarrow> mp_state \<Rightarrow> mp_state option" where
  "slab_insert l c slab st = do {
     (h, st) \<leftarrow> LIST_INSERT (list_head l (mp_classes st ! c)) slab st;
     Some (upd_pool (list_head_put l h) c st) }"

definition slab_remove :: "slab_list \<Rightarrow> nat \<Rightarrow> nat \<Rightarrow> mp_state \<Rightarrow> mp_state option" where
  "slab_remove l c slab st = do {
     (h, st) \<leftarrow> LIST_REMOVE (list_head l (mp_classes st ! c)) slab st;
     Some (upd_pool (list_head_put l h) c st) }"

definition count_empty :: "int \<Rightarrow> mem_pool_t \<Rightarrow> mem_pool_t" where
  "count_empty n pool = pool\<lparr>empty_slab_count := empty_slab_count pool + n\<rparr>"

subsection \<open>Slabs\<close>

definition mp_create :: "mp_state \<Rightarrow> mp_state" where
  "mp_create st = st\<lparr>mp_classes := map (\<lambda>i. \<lparr>block_size = size_classes ! i, empty_slab_count = 0, partial_slabs = 0,
     full_slabs = 0, empty_slabs = 0\<rparr>) [0..<CLASS_COUNT]\<rparr>"

definition get_class_id :: "nat \<Rightarrow> nat option" where
  "get_class_id sz = find (\<lambda>i. sz \<le> size_classes ! i) [0..<CLASS_COUNT]"

text \<open>A region of twice the size is mapped and its ends are given back; \<open>x & ~(n - 1)\<close> for a power of two \<open>n\<close> is
  \<open>x div n * n\<close>.  The inner \<open>None\<close> is NULL.\<close>

definition alignment_to_slab_size :: "os_ans \<Rightarrow> nat \<Rightarrow> mp_state \<Rightarrow> nat option \<times> mp_state" where
  "alignment_to_slab_size a slab_size st =
     (if and slab_size (slab_size - 1) \<noteq> 0 then (None, st)
      else (case os_mmap a of
         None \<Rightarrow> (None, st)
       | Some raw_addr \<Rightarrow>
           (let alloc_size = slab_size * 2;
                m = map_region (mp_bytes st) raw_addr alloc_size 0;
                alignment_addr = (raw_addr + (slab_size - 1)) div slab_size * slab_size;
                head_excess = alignment_addr - raw_addr;
                m = (if head_excess > 0 then unmap_region m raw_addr head_excess else m);
                tail_excess = alloc_size - slab_size - head_excess;
                m = (if tail_excess > 0 then unmap_region m (alignment_addr + slab_size) tail_excess else m) in
            (Some alignment_addr, st\<lparr>mp_bytes := m\<rparr>))))"

text \<open>The loop that links the blocks of a new slab.\<close>

fun link_blocks :: "nat \<Rightarrow> nat \<Rightarrow> nat \<Rightarrow> bytes \<Rightarrow> bytes option" where
  "link_blocks sz 0 cur m = store_le 8 m cur 0"
| "link_blocks sz (Suc j) cur m = do { m \<leftarrow> store_le 8 m cur (cur + sz); link_blocks sz j (cur + sz) m }"

definition add_pool_with_header :: "os_ans \<Rightarrow> nat \<Rightarrow> mp_state \<Rightarrow> (int \<times> mp_state) option" where
  "add_pool_with_header a classid st =
     (case os_malloc a of
        None \<Rightarrow> Some (-2, st)
      | Some slab \<Rightarrow>
          (case os_mmap a of
             None \<Rightarrow> Some (-2, st)
           | Some region \<Rightarrow>
               (let sz = block_size (mp_classes st ! classid);
                    n = slab_classes ! classid div sz;
                    sl = zero_slab\<lparr>slab_mem := region, total_blocks := int n, free_blocks := int n, slab_magic := 0, free_list := region\<rparr>;
                    st = st\<lparr>mp_slabs := (mp_slabs st)(slab \<mapsto> sl)\<rparr> in do {
                m \<leftarrow> link_blocks sz (n - 1) region (map_region (mp_bytes st) region (slab_classes ! classid) 0);
                st \<leftarrow> slab_insert EMPTY classid slab (st\<lparr>mp_bytes := m\<rparr>);
                Some (0, upd_pool (count_empty 1) classid st) })))"

text \<open>The first bytes of the region become the \<open>slab_t\<close>.\<close>

definition add_pool_without_header :: "os_ans \<Rightarrow> nat \<Rightarrow> mp_state \<Rightarrow> (int \<times> mp_state) option" where
  "add_pool_without_header a classid st =
     (case alignment_to_slab_size a SLAB_SIZE_ALIGNMENT st of
        (None, st) \<Rightarrow> Some (-2, st)
      | (Some region, st) \<Rightarrow>
          (let sz = size_classes ! classid;
               n = (SLAB_SIZE_ALIGNMENT - ALIGN_UP SLAB_T_SIZE) div sz;
               first = region + ALIGN_UP SLAB_T_SIZE;
               sl = zero_slab\<lparr>slab_classid := classid, slab_magic := SLAB_MAGIC, slab_mem := region, total_blocks := int n, free_blocks := int n, free_list := first\<rparr>;
               st = st\<lparr>mp_slabs := (mp_slabs st)(region \<mapsto> sl)\<rparr> in do {
           m \<leftarrow> link_blocks sz (n - 1) first (unmap_region (mp_bytes st) region SLAB_T_SIZE);
           st \<leftarrow> slab_insert EMPTY classid region (st\<lparr>mp_bytes := m\<rparr>);
           Some (0, upd_pool (count_empty 1) classid st) }))"

definition add_pool :: "os_ans \<Rightarrow> nat \<Rightarrow> mp_state \<Rightarrow> (int \<times> mp_state) option" where
  "add_pool a classid st =
     (if size_classes ! classid \<le> ALIGNMENT_THRESHOLD then do {
        (r, st) \<leftarrow> add_pool_without_header a classid st; Some (if r \<noteq> 0 then -3 else 0, st) }
      else do {
        (r, st) \<leftarrow> add_pool_with_header a classid st; Some (if r \<noteq> 0 then -3 else 0, st) })"

text \<open>An empty slab becomes partly used.\<close>

definition take_empty :: "nat \<Rightarrow> mp_state \<Rightarrow> (nat \<times> mp_state) option" where
  "take_empty c st = (let slab = empty_slabs (mp_classes st ! c) in do {
     st \<leftarrow> slab_remove EMPTY c slab st;
     st \<leftarrow> slab_insert PARTIAL c slab st;
     Some (slab, upd_pool (count_empty (-1)) c st) })"

definition slab_malloc :: "os_ans \<Rightarrow> nat \<Rightarrow> mp_state \<Rightarrow> (nat \<times> mp_state) option" where
  "slab_malloc a class_id st = (let pool = mp_classes st ! class_id in
     if class_id \<ge> CLASS_COUNT then Some (0, st)
     else if partial_slabs pool \<noteq> 0 then Some (partial_slabs pool, st)
     else if empty_slabs pool \<noteq> 0 then take_empty class_id st
     else do {
       (r, st) \<leftarrow> add_pool a class_id st;
       if r \<noteq> 0 then Some (0, st) else take_empty class_id st })"

subsection \<open>Allocation\<close>

text \<open>The end of an allocation: a slab without free blocks moves to the full ones.\<close>

definition slab_used_up :: "nat \<Rightarrow> nat \<Rightarrow> mp_state \<Rightarrow> mp_state option" where
  "slab_used_up c slab st = do {
     sl \<leftarrow> mp_slabs st slab;
     if free_blocks sl = 0 then do { st \<leftarrow> slab_remove PARTIAL c slab st; slab_insert FULL c slab st } else Some st }"

text \<open>The first free block of a slab is unlinked.\<close>

definition slab_pop :: "nat \<Rightarrow> mp_state \<Rightarrow> (nat \<times> mp_state) option" where
  "slab_pop slab st = do {
     sl \<leftarrow> mp_slabs st slab;
     nx \<leftarrow> load_le 8 (mp_bytes st) (free_list sl);
     st \<leftarrow> upd_slab (\<lambda>s. s\<lparr>free_list := nx\<rparr>) slab st;
     Some (free_list sl, st) }"

definition write_header :: "nat \<Rightarrow> nat \<Rightarrow> nat \<Rightarrow> nat \<Rightarrow> nat \<Rightarrow> bytes \<Rightarrow> bytes option" where
  "write_header hdr class_id flag slab sz m = do {
     m \<leftarrow> store_le 1 m (hdr + 4) class_id;
     m \<leftarrow> store_le 1 m (hdr + 5) flag;
     m \<leftarrow> store_le 8 m (hdr + 8) slab;
     m \<leftarrow> store_le 4 m hdr BLOCK_MAGIC;
     store_le 8 m (hdr + 16) sz }"

definition block_with_header :: "os_ans \<Rightarrow> nat \<Rightarrow> mp_state \<Rightarrow> (nat \<times> mp_state) option" where
  "block_with_header a sz st =
     (case get_class_id sz of
        None \<Rightarrow> Some (0, st)
      | Some class_id \<Rightarrow> do {
          (slab, st) \<leftarrow> slab_malloc a class_id st;
          if slab = 0 then Some (0, st)
          else do {
            (hdr, st) \<leftarrow> slab_pop slab st;
            m \<leftarrow> write_header hdr class_id BLOCK_FLAG slab (size_classes ! class_id) (mp_bytes st);
            st \<leftarrow> upd_slab (\<lambda>s. s\<lparr>free_blocks := free_blocks s - 1\<rparr>) slab (st\<lparr>mp_bytes := m\<rparr>);
            st \<leftarrow> slab_used_up class_id slab st;
            Some (hdr + HEADER_SIZE, st) } })"

definition block_without_header :: "os_ans \<Rightarrow> nat \<Rightarrow> mp_state \<Rightarrow> (nat \<times> mp_state) option" where
  "block_without_header a sz st =
     (case get_class_id sz of
        None \<Rightarrow> Some (0, st)
      | Some class_id \<Rightarrow> do {
          (slab, st) \<leftarrow> slab_malloc a class_id st;
          if slab = 0 then Some (0, st)
          else do {
            (ptr, st) \<leftarrow> slab_pop slab st;
            st \<leftarrow> upd_slab (\<lambda>s. s\<lparr>free_blocks := free_blocks s - 1\<rparr>) slab st;
            st \<leftarrow> slab_used_up class_id slab st;
            Some (ptr, st) } })"

text \<open>A large request goes to \<open>malloc\<close>; its header has no class.\<close>

definition block_large :: "os_ans \<Rightarrow> nat \<Rightarrow> nat \<Rightarrow> mp_state \<Rightarrow> (nat \<times> mp_state) option" where
  "block_large a actual_size sz st =
     (case os_malloc a of
        None \<Rightarrow> Some (0, st)
      | Some hdr \<Rightarrow> do {
          m \<leftarrow> store_le 1 (map_region (mp_bytes st) hdr actual_size (os_junk a)) (hdr + 5) BLOCK_FLAG_LARGE;
          m \<leftarrow> store_le 4 m hdr BLOCK_MAGIC;
          m \<leftarrow> store_le 8 m (hdr + 8) 0;
          m \<leftarrow> store_le 8 m (hdr + 16) sz;
          Some (hdr + HEADER_SIZE, st\<lparr>mp_bytes := m, mp_chunks := (mp_chunks st)(hdr \<mapsto> actual_size)\<rparr>) })"

definition mp_malloc :: "os_ans \<Rightarrow> nat \<Rightarrow> mp_state \<Rightarrow> (nat \<times> mp_state) option" where
  "mp_malloc a sz st =
     (if sz = 0 then Some (0, st)
      else if ALIGN_UP sz \<le> ALIGNMENT_THRESHOLD then block_without_header a (ALIGN_UP sz) st
      else (let actual_size = ALIGN_UP ((sz + HEADER_SIZE) mod 2 ^ 64) in
        if actual_size > LARGE_THRESHOLD then block_large a actual_size sz st
        else block_with_header a actual_size st))"

subsection \<open>Release\<close>

text \<open>\<open>munmap\<close> of a slab; a \<open>slab_t\<close> at the front of the region goes with it, another one is freed.\<close>

definition drop_slab :: "nat \<Rightarrow> nat \<Rightarrow> nat \<Rightarrow> mp_state \<Rightarrow> mp_state" where
  "drop_slab slab region sz st = st\<lparr>mp_bytes := unmap_region (mp_bytes st) region sz, mp_slabs := (mp_slabs st)(slab := None)\<rparr>"

definition slab_free :: "nat \<Rightarrow> nat \<Rightarrow> nat \<Rightarrow> mp_state \<Rightarrow> mp_state option" where
  "slab_free c slab sz st = do {
     sl \<leftarrow> mp_slabs st slab;
     st \<leftarrow> (if free_blocks sl = 1 then do { st \<leftarrow> slab_remove FULL c slab st; slab_insert PARTIAL c slab st } else Some st);
     sl \<leftarrow> mp_slabs st slab;
     if free_blocks sl = total_blocks sl then
       (if empty_slab_count (mp_classes st ! c) \<ge> MAX_EMPTY_SLABS then do {
          st \<leftarrow> slab_remove PARTIAL c slab st;
          Some (if slab_magic sl = SLAB_MAGIC then drop_slab slab (slab_mem sl) SLAB_SIZE_ALIGNMENT st
                else drop_slab slab (slab_mem sl) sz st) }
        else do {
          st \<leftarrow> slab_remove PARTIAL c slab st;
          st \<leftarrow> slab_insert EMPTY c slab st;
          Some (upd_pool (count_empty 1) c st) })
     else Some st }"

text \<open>A block goes back to the front of the free list of its slab.\<close>

definition slab_push :: "nat \<Rightarrow> nat \<Rightarrow> mp_state \<Rightarrow> mp_state option" where
  "slab_push block slab st = do {
     sl \<leftarrow> mp_slabs st slab;
     m \<leftarrow> store_le 8 (mp_bytes st) block (free_list sl);
     upd_slab (\<lambda>s. s\<lparr>free_list := block, free_blocks := free_blocks s + 1\<rparr>) slab (st\<lparr>mp_bytes := m\<rparr>) }"

definition slab_free_with_header :: "nat \<Rightarrow> mp_state \<Rightarrow> mp_state option" where
  "slab_free_with_header hdr st = do {
     m \<leftarrow> store_le 4 (mp_bytes st) hdr 0;
     classid \<leftarrow> load_le 1 m (hdr + 4);
     slab \<leftarrow> load_le 8 m (hdr + 8);
     st \<leftarrow> slab_push hdr slab (st\<lparr>mp_bytes := m\<rparr>);
     slab_free classid slab (slab_classes ! classid) st }"

definition slab_free_without_header :: "nat \<Rightarrow> nat \<Rightarrow> mp_state \<Rightarrow> mp_state option" where
  "slab_free_without_header ptr slab st = do {
     st \<leftarrow> slab_push ptr slab st;
     sl \<leftarrow> mp_slabs st slab;
     slab_free (slab_classid sl) slab SLAB_SIZE_ALIGNMENT st }"

text \<open>The test \<open>header->class_id >= CLASS_COUNT || header->slab == NULL || header->slab->mem == NULL\<close>; a header whose
  slab is no \<open>slab_t\<close> is undefined.\<close>

definition bad_header :: "nat \<Rightarrow> mp_state \<Rightarrow> bool option" where
  "bad_header hdr st = do {
     class_id \<leftarrow> load_le 1 (mp_byte st) (hdr + 4);
     if class_id \<ge> CLASS_COUNT then Some True
     else do {
       slab \<leftarrow> load_le 8 (mp_byte st) (hdr + 8);
       if slab = 0 then Some True
       else do { sl \<leftarrow> mp_slabs st slab; Some (slab_mem sl = 0) } } }"

definition mp_free :: "nat \<Rightarrow> mp_state \<Rightarrow> mp_state option" where
  "mp_free ptr st =
     (if ptr = 0 then Some st
      else (let hdr = ptr - HEADER_SIZE in do {
        magic \<leftarrow> load_le 4 (mp_byte st) hdr;
        if magic = BLOCK_MAGIC then do {
          flag \<leftarrow> load_le 1 (mp_byte st) (hdr + 5);
          if flag = BLOCK_FLAG_LARGE then do {
            m \<leftarrow> store_le 4 (mp_bytes st) hdr 0;
            n \<leftarrow> mp_chunks st hdr;
            Some (st\<lparr>mp_bytes := unmap_region m hdr n, mp_chunks := (mp_chunks st)(hdr := None)\<rparr>) }
          else do {
            bad \<leftarrow> bad_header hdr st;
            if bad then Some st else slab_free_with_header hdr st } }
        else (let slab = ptr_to_slab ptr in
          if slab = 0 then Some st
          else do {
            sl \<leftarrow> mp_slabs st slab;
            if slab_magic sl = SLAB_MAGIC then slab_free_without_header ptr slab st else Some st }) }))"

definition mem_copy :: "nat \<Rightarrow> nat \<Rightarrow> nat \<Rightarrow> mp_state \<Rightarrow> mp_state option" where
  "mem_copy dst src n st = do {
     bs \<leftarrow> those (map (\<lambda>i. mp_byte st (src + i)) [0..<n]);
     if \<forall>i \<in> set [0..<n]. mp_bytes st (dst + i) \<noteq> None
     then Some (st\<lparr>mp_bytes := (\<lambda>x. if dst \<le> x \<and> x < dst + n then Some (bs ! (x - dst)) else mp_bytes st x)\<rparr>)
     else None }"

text \<open>The capacity of the old block; the inner \<open>None\<close> is \<open>return NULL\<close>.\<close>

definition old_capacity :: "nat \<Rightarrow> mp_state \<Rightarrow> nat option option" where
  "old_capacity ptr st = (let hdr = ptr - HEADER_SIZE in do {
     magic \<leftarrow> load_le 4 (mp_byte st) hdr;
     if magic = BLOCK_MAGIC then do {
       flag \<leftarrow> load_le 1 (mp_byte st) (hdr + 5);
       if flag = BLOCK_FLAG_LARGE then do { n \<leftarrow> load_le 8 (mp_byte st) (hdr + 16); Some (Some n) }
       else do {
         bad \<leftarrow> bad_header hdr st;
         if bad then Some None else do { n \<leftarrow> load_le 8 (mp_byte st) (hdr + 16); Some (Some n) } } }
     else (let slab = ptr_to_slab ptr in
       if slab = 0 then Some None
       else do {
         sl \<leftarrow> mp_slabs st slab;
         if slab_magic sl = SLAB_MAGIC then do { n \<leftarrow> (if slab_classid sl < CLASS_COUNT then Some (size_classes ! slab_classid sl) else None); Some (Some n) }
         else Some None }) })"

definition mp_realloc :: "os_ans \<Rightarrow> nat \<Rightarrow> nat \<Rightarrow> mp_state \<Rightarrow> (nat \<times> mp_state) option" where
  "mp_realloc a ptr sz st =
     (if ptr = 0 then mp_malloc a sz st
      else if sz = 0 then do { st \<leftarrow> mp_free ptr st; Some (0, st) }
      else do {
        cap \<leftarrow> old_capacity ptr st;
        (case cap of
           None \<Rightarrow> Some (0, st)
         | Some n \<Rightarrow>
             if sz \<le> n then Some (ptr, st)
             else do {
               (new_ptr, st) \<leftarrow> mp_malloc a sz st;
               if new_ptr = 0 then Some (0, st)
               else do {
                 st \<leftarrow> mem_copy new_ptr ptr n st;
                 st \<leftarrow> mp_free ptr st;
                 Some (new_ptr, st) } }) })"

subsection \<open>Destruction\<close>

partial_function (option) mp_free_slab :: "nat \<Rightarrow> nat \<Rightarrow> mp_state \<Rightarrow> mp_state option" where
  "mp_free_slab slab classid st =
     (if slab = 0 then Some st
      else do {
        sl \<leftarrow> mp_slabs st slab;
        mp_free_slab (slab_next sl) classid
          (drop_slab slab (slab_mem sl) (if size_classes ! classid > ALIGNMENT_THRESHOLD then slab_classes ! classid else SLAB_SIZE_ALIGNMENT) st) })"

definition mp_destroy_class :: "nat \<Rightarrow> mp_state \<Rightarrow> mp_state option" where
  "mp_destroy_class c st = do {
     st \<leftarrow> mp_free_slab (empty_slabs (mp_classes st ! c)) c st;
     let st = upd_pool (list_head_put EMPTY 0) c st;
     st \<leftarrow> mp_free_slab (full_slabs (mp_classes st ! c)) c st;
     let st = upd_pool (list_head_put FULL 0) c st;
     st \<leftarrow> mp_free_slab (partial_slabs (mp_classes st ! c)) c st;
     let st = upd_pool (list_head_put PARTIAL 0) c st;
     Some (upd_pool (\<lambda>p. p\<lparr>empty_slab_count := 0\<rparr>) c st) }"

definition mp_destroy :: "mp_state \<Rightarrow> mp_state option" where
  "mp_destroy st = fold (\<lambda>c r. do { st \<leftarrow> r; mp_destroy_class c st }) [0..<CLASS_COUNT] (Some st)"

subsection \<open>Loads and stores\<close>

lemma load_le_cong: "(\<And>i. i < n \<Longrightarrow> m (a + i) = m' (a + i)) \<Longrightarrow> load_le n m a = load_le n m' a"
proof (induction n arbitrary: a)
  case (Suc n)
  have "m a = m' a" using Suc.prems [of 0] by simp
  moreover have "load_le n m (Suc a) = load_le n m' (Suc a)" using Suc.prems [of "Suc i" for i] by (intro Suc.IH) simp
  ultimately show ?case by simp
qed simp

lemma load_le_defined: "(\<And>i. i < n \<Longrightarrow> m (a + i) \<noteq> None) \<Longrightarrow> \<exists>v. load_le n m a = Some v"
proof (induction n arbitrary: a)
  case (Suc n)
  have "m a \<noteq> None" using Suc.prems [of 0] by simp
  moreover have "\<exists>v. load_le n m (Suc a) = Some v" using Suc.prems [of "Suc i" for i] by (intro Suc.IH) simp
  ultimately show ?case by auto
qed simp

lemma store_le_other: "store_le n m a v = Some m' \<Longrightarrow> x < a \<or> a + n \<le> x \<Longrightarrow> m' x = m x"
proof (induction n arbitrary: m a v)
  case (Suc n)
  then have "store_le n (m(a \<mapsto> v mod 256)) (Suc a) (v div 256) = Some m'" by (auto split: bind_splits)
  then have "m' x = (m(a \<mapsto> v mod 256)) x" by (rule Suc.IH) (use Suc.prems in auto)
  then show ?case using Suc.prems by auto
qed simp

lemma store_le_dom: "store_le n m a v = Some m' \<Longrightarrow> dom m' = dom m"
proof (induction n arbitrary: m a v)
  case (Suc n)
  then have "store_le n (m(a \<mapsto> v mod 256)) (Suc a) (v div 256) = Some m'" "a \<in> dom m" by (auto split: bind_splits)
  then show ?case using Suc.IH by fastforce
qed simp

lemma store_le_defined: "{a..<a + n} \<subseteq> dom m \<Longrightarrow> \<exists>m'. store_le n m a v = Some m'"
proof (induction n arbitrary: m a v)
  case (Suc n)
  have "a \<in> {a..<a + Suc n}" by simp
  then have "m a \<noteq> None" using Suc.prems by blast
  moreover have "{Suc a..<Suc a + n} \<subseteq> {a..<a + Suc n}" by auto
  then have "{Suc a..<Suc a + n} \<subseteq> dom m" using Suc.prems by (rule order_trans)
  then have "{Suc a..<Suc a + n} \<subseteq> dom (m(a \<mapsto> v mod 256))" by (simp add: subset_insertI2)
  then have "\<exists>m'. store_le n (m(a \<mapsto> v mod 256)) (Suc a) (v div 256) = Some m'" by (rule Suc.IH)
  ultimately show ?case by auto
qed simp

lemma load_store_same: "store_le n m a v = Some m' \<Longrightarrow> v < 256 ^ n \<Longrightarrow> load_le n m' a = Some v"
proof (induction n arbitrary: m a v)
  case (Suc n)
  then have st: "store_le n (m(a \<mapsto> v mod 256)) (Suc a) (v div 256) = Some m'" by (auto split: bind_splits)
  have "v div 256 < 256 ^ n" using Suc.prems(2) by (simp add: div_less_iff_less_mult mult.commute)
  then have "load_le n m' (Suc a) = Some (v div 256)" using Suc.IH [OF st] by simp
  moreover have "m' a = Some (v mod 256)" using store_le_other [OF st, of a] by simp
  ultimately show ?case by simp
qed simp

lemma load_store_other:
  assumes "store_le n m a v = Some m'" "b + k \<le> a \<or> a + n \<le> b"
  shows "load_le k m' b = load_le k m b"
  by (rule load_le_cong) (use assms store_le_other [OF assms(1)] in auto)

subsection \<open>Size classes\<close>

definition hdr_class :: "nat \<Rightarrow> bool" where
  "hdr_class c \<longleftrightarrow> ALIGNMENT_THRESHOLD < size_classes ! c"

definition region_size :: "nat \<Rightarrow> nat" where
  "region_size c = (if hdr_class c then slab_classes ! c else SLAB_SIZE_ALIGNMENT)"

definition first_block :: "nat \<Rightarrow> nat" where
  "first_block c = (if hdr_class c then 0 else SLAB_T_SIZE)"

definition block_count :: "nat \<Rightarrow> nat" where
  "block_count c = (region_size c - first_block c) div size_classes ! c"

definition head_room :: "nat \<Rightarrow> nat" where
  "head_room c = (if hdr_class c then HEADER_SIZE else 0)"

lemmas class_defs = hdr_class_def region_size_def first_block_def block_count_def head_room_def CLASS_COUNT_def
  ALIGNMENT_THRESHOLD_def SLAB_SIZE_ALIGNMENT_def SLAB_T_SIZE_def HEADER_SIZE_def

lemma class_upt: "[0..<CLASS_COUNT] = [0, 1, 2, 3, 4, 5, 6, 7, 8, 9, 10, 11, 12, 13, 14, 15, 16, 17, 18, 19, 20, 21, 22, 23, 24, 25, 26, 27, 28, 29, 30, 31, 32, 33, 34]"
  by code_simp

lemma all_classes: "(\<forall>c < CLASS_COUNT. P c) \<longleftrightarrow> list_all P [0..<CLASS_COUNT]"
  by (auto simp: list_all_iff)

lemma class_facts_all:
  "\<forall>c < CLASS_COUNT. 8 \<le> size_classes ! c \<and> 2 \<le> block_count c \<and> block_count c < 2 ^ 31 \<and> size_classes ! c \<le> 8192 \<and>
     first_block c + block_count c * size_classes ! c \<le> region_size c \<and> region_size c \<le> SLAB_SIZE_ALIGNMENT \<and>
     (hdr_class c \<longrightarrow> HEADER_SIZE < size_classes ! c)"
  unfolding all_classes class_upt by (simp add: class_defs size_classes_def slab_classes_def)

lemma class_facts:
  assumes "c < CLASS_COUNT"
  shows "8 \<le> size_classes ! c" "2 \<le> block_count c" "block_count c < 2 ^ 31" "size_classes ! c \<le> 8192"
    "first_block c + block_count c * size_classes ! c \<le> region_size c" "region_size c \<le> SLAB_SIZE_ALIGNMENT"
    "hdr_class c \<Longrightarrow> HEADER_SIZE < size_classes ! c"
  using class_facts_all assms by blast+

subsection \<open>Doubly linked lists\<close>

fun dll :: "(nat \<rightharpoonup> slab_t) \<Rightarrow> nat \<Rightarrow> nat \<Rightarrow> nat list \<Rightarrow> bool" where
  "dll S prv p [] \<longleftrightarrow> p = 0"
| "dll S prv p (x # xs) \<longleftrightarrow> p = x \<and> x \<noteq> 0 \<and> (\<exists>sl. S x = Some sl \<and> slab_prev sl = prv \<and> dll S x (slab_next sl) xs)"

text \<open>Two stores of slabs that differ in the links only.\<close>

definition unlinked :: "slab_t \<Rightarrow> slab_t" where
  "unlinked sl = sl\<lparr>slab_prev := 0, slab_next := 0\<rparr>"

definition relinked :: "(nat \<rightharpoonup> slab_t) \<Rightarrow> (nat \<rightharpoonup> slab_t) \<Rightarrow> nat set \<Rightarrow> bool" where
  "relinked S S' A \<longleftrightarrow> (\<forall>x. map_option unlinked (S' x) = map_option unlinked (S x)) \<and> (\<forall>x. x \<notin> A \<longrightarrow> S' x = S x)"

lemma relinked_refl [simp]: "relinked S S A"
  by (simp add: relinked_def)

lemma relinked_trans: "relinked S S' A \<Longrightarrow> relinked S' S'' B \<Longrightarrow> relinked S S'' (A \<union> B)"
  by (simp add: relinked_def)

lemma relinked_mono: "relinked S S' A \<Longrightarrow> A \<subseteq> B \<Longrightarrow> relinked S S' B"
  by (auto simp: relinked_def)

lemma relinked_dom: "relinked S S' A \<Longrightarrow> S' x = None \<longleftrightarrow> S x = None"
  by (metis relinked_def option.map_disc_iff)

lemma relinked_Some:
  assumes "relinked S S' A" "S' x = Some sl'"
  shows "\<exists>sl. S x = Some sl \<and> unlinked sl' = unlinked sl"
proof -
  have "map_option unlinked (S x) = Some (unlinked sl')" using assms by (metis relinked_def option.simps(9))
  then show ?thesis by auto
qed

lemma relinked_put: "S x = Some sl \<Longrightarrow> unlinked sl' = unlinked sl \<Longrightarrow> relinked S (S(x \<mapsto> sl')) {x}"
  by (simp add: relinked_def)

lemma unlinked_simps [simp]: "unlinked (sl\<lparr>slab_prev := a\<rparr>) = unlinked sl" "unlinked (sl\<lparr>slab_next := a\<rparr>) = unlinked sl"
  by (simp_all add: unlinked_def)

lemma dll_cong: "(\<And>x. x \<in> set xs \<Longrightarrow> S x = S' x) \<Longrightarrow> dll S prv p xs = dll S' prv p xs"
  by (induction xs arbitrary: prv p) auto

lemma dll_frame: "relinked S S' A \<Longrightarrow> A \<inter> set xs = {} \<Longrightarrow> dll S prv p xs \<Longrightarrow> dll S' prv p xs"
  by (subst dll_cong [of xs S' S]) (auto simp: relinked_def)

lemma dll_mem: "dll S prv p xs \<Longrightarrow> x \<in> set xs \<Longrightarrow> x \<noteq> 0 \<and> S x \<noteq> None"
  by (induction xs arbitrary: prv p) auto

lemma dll_head: "dll S prv p xs \<Longrightarrow> p = (if xs = [] then 0 else hd xs)"
  by (cases xs) auto

lemma dll_set_prev:
  assumes "dll S prv p (x # xs)" "x \<notin> set xs" "S x = Some sl"
  shows "dll (S(x \<mapsto> sl\<lparr>slab_prev := q\<rparr>)) q p (x # xs)"
proof -
  have "dll (S(x \<mapsto> sl\<lparr>slab_prev := q\<rparr>)) x (slab_next sl) xs = dll S x (slab_next sl) xs" by (rule dll_cong) (use assms(2) in auto)
  then show ?thesis using assms by simp
qed

lemma LIST_INSERT_ok:
  assumes d: "dll (mp_slabs st) 0 list xs" "distinct xs" and i: "item \<notin> set xs" "item \<noteq> 0" "mp_slabs st item \<noteq> None"
  shows "\<exists>S. LIST_INSERT list item st = Some (item, st\<lparr>mp_slabs := S\<rparr>) \<and> dll S 0 item (item # xs) \<and>
    relinked (mp_slabs st) S (insert item (set xs))"
proof -
  let ?S = "mp_slabs st"
  obtain it where it: "?S item = Some it" using i by auto
  obtain S1 where S1: "(if list \<noteq> 0 then upd_slab (\<lambda>s. s\<lparr>slab_prev := item\<rparr>) list st else Some st) = Some (st\<lparr>mp_slabs := S1\<rparr>)"
    "relinked ?S S1 (set xs)" "dll S1 item list xs" "S1 item = Some it"
  proof (cases xs)
    case Nil
    then show ?thesis using d it that [of ?S] by simp
  next
    case (Cons x ys)
    then obtain sl where sl: "list = x" "x \<noteq> 0" "?S x = Some sl" using d by auto
    have "dll (?S(x \<mapsto> sl\<lparr>slab_prev := item\<rparr>)) item list xs" using dll_set_prev [of ?S 0 list x ys sl item] d sl(3) Cons by simp
    moreover have "relinked ?S (?S(x \<mapsto> sl\<lparr>slab_prev := item\<rparr>)) (set xs)" using sl(3) by (auto simp: relinked_def Cons)
    moreover have "x \<noteq> item" using i Cons by auto
    ultimately show ?thesis using sl it that [of "?S(x \<mapsto> sl\<lparr>slab_prev := item\<rparr>)"] by (simp add: upd_slab_def)
  qed
  let ?S2 = "S1(item \<mapsto> it\<lparr>slab_prev := 0, slab_next := list\<rparr>)"
  have run: "LIST_INSERT list item st = Some (item, st\<lparr>mp_slabs := ?S2\<rparr>)"
    using S1(1,4) by (simp add: LIST_INSERT_def upd_slab_def)
  have "dll ?S2 item list xs" using S1(3) i(1) by (subst dll_cong [of xs _ S1]) auto
  then have "dll ?S2 0 item (item # xs)" using i by simp
  moreover have "relinked S1 ?S2 {item}" using S1(4) by (simp add: relinked_put)
  from relinked_trans [OF S1(2) this] have "relinked ?S ?S2 (insert item (set xs))" by (rule relinked_mono) auto
  ultimately show ?thesis using run by blast
qed

lemma mp_slabs_put: "mp_slabs (st\<lparr>mp_slabs := S\<rparr>) = S"
  by simp

lemma upd_slab_Some: "mp_slabs st s = Some sl \<Longrightarrow> upd_slab f s st = Some (st\<lparr>mp_slabs := (mp_slabs st)(s \<mapsto> f sl)\<rparr>)"
  by (simp add: upd_slab_def)

text \<open>A list cut in front of an element: what comes before and where the element's back pointer leads.\<close>

lemma dll_split:
  "dll S prv p (ys @ x # zs) \<Longrightarrow> \<exists>sl. S x = Some sl \<and> x \<noteq> 0 \<and> slab_prev sl = (if ys = [] then prv else last ys) \<and> dll S x (slab_next sl) zs \<and>
     (if ys = [] then p = x else p = hd ys)"
proof (induction ys arbitrary: prv p)
  case (Cons y ys)
  then obtain sl where "S y = Some sl" "dll S y (slab_next sl) (ys @ x # zs)" "p = y" by auto
  then show ?case using Cons.IH [of y "slab_next sl"] by (auto split: if_splits)
qed auto

text \<open>Joining the parts around a removed element.\<close>

lemma dll_join:
  assumes "dll S prv p (ys @ x # zs)" "distinct (ys @ x # zs)" "ys \<noteq> []"
    and "dll S' (last ys) q zs" "\<And>y. y \<in> set (butlast ys) \<Longrightarrow> S' y = S y" "S (last ys) = Some sl" "S' (last ys) = Some (sl\<lparr>slab_next := q\<rparr>)"
  shows "dll S' prv p (ys @ zs)"
  using assms
proof (induction ys arbitrary: prv p)
  case (Cons y ys)
  then obtain yl where y: "S y = Some yl" "p = y" "y \<noteq> 0" "slab_prev yl = prv" "dll S y (slab_next yl) (ys @ x # zs)" by auto
  show ?case
  proof (cases "ys = []")
    case True
    then show ?thesis using y Cons.prems by auto
  next
    case False
    have "dll S' y (slab_next yl) (ys @ zs)" using Cons.IH [OF y(5)] Cons.prems False by auto
    moreover have "S' y = S y" using Cons.prems(5) False by auto
    ultimately show ?thesis using y by simp
  qed
qed simp

lemma LIST_REMOVE_ok:
  assumes d: "dll (mp_slabs st) 0 list (ys @ item # zs)" "distinct (ys @ item # zs)"
  shows "\<exists>h S. LIST_REMOVE list item st = Some (h, st\<lparr>mp_slabs := S\<rparr>) \<and> dll S 0 h (ys @ zs) \<and>
    relinked (mp_slabs st) S (set (ys @ item # zs))"
proof -
  let ?S = "mp_slabs st"
  define pv where "pv = (if ys = [] then 0 else last ys)"
  obtain it where it: "?S item = Some it" "item \<noteq> 0" "slab_prev it = pv" "dll ?S item (slab_next it) zs"
    "if ys = [] then list = item else list = hd ys" using dll_split [OF d(1)] unfolding pv_def by blast
  obtain S1 where S1: "(if slab_next it \<noteq> 0 then upd_slab (\<lambda>s. s\<lparr>slab_prev := pv\<rparr>) (slab_next it) st else Some st) = Some (st\<lparr>mp_slabs := S1\<rparr>)"
    "relinked ?S S1 (set zs)" "dll S1 pv (slab_next it) zs"
  proof (cases zs)
    case Nil
    then show ?thesis using it that [of ?S] by simp
  next
    case (Cons z zs')
    then obtain sl where sl: "slab_next it = z" "z \<noteq> 0" "?S z = Some sl" using it(4) by auto
    have "dll (?S(z \<mapsto> sl\<lparr>slab_prev := pv\<rparr>)) pv (slab_next it) zs"
      using dll_set_prev [of ?S item "slab_next it" z zs' sl pv] d(2) it(4) sl(3) Cons by simp
    moreover have "relinked ?S (?S(z \<mapsto> sl\<lparr>slab_prev := pv\<rparr>)) (set zs)" using sl(3) by (auto simp: relinked_def Cons)
    ultimately show ?thesis using sl that [of "?S(z \<mapsto> sl\<lparr>slab_prev := pv\<rparr>)"] by (simp add: upd_slab_def)
  qed
  have off: "S1 y = ?S y" if "y \<notin> set zs" for y using S1(2) that by (simp add: relinked_def)
  have item1: "S1 item = Some it" using off [of item] d(2) it(1) by simp
  obtain S2 where S2: "(if pv \<noteq> 0 then upd_slab (\<lambda>s. s\<lparr>slab_next := slab_next it\<rparr>) pv (st\<lparr>mp_slabs := S1\<rparr>) else Some (st\<lparr>mp_slabs := S1\<rparr>)) = Some (st\<lparr>mp_slabs := S2\<rparr>)"
    "relinked ?S S2 (set (ys @ zs))" "dll S2 0 (if ys = [] then slab_next it else list) (ys @ zs)" "S2 item = Some it"
  proof (cases "ys = []")
    case True
    then show ?thesis using S1 item1 that [of S1] by (simp add: pv_def)
  next
    case False
    let ?l = "last ys"
    have "?l \<in> set ys" using False by simp
    with d(2) have l: "?l \<in> set ys" "?l \<notin> set zs" "?l \<noteq> item" by auto
    then obtain sl where sl: "?S ?l = Some sl" "?l \<noteq> 0" using dll_mem [OF d(1), of ?l] by auto
    let ?S2 = "S1(?l \<mapsto> sl\<lparr>slab_next := slab_next it\<rparr>)"
    have z: "dll ?S2 ?l (slab_next it) zs" using S1(3) False l(2) by (subst dll_cong [of zs _ S1]) (auto simp: pv_def)
    have "?S2 y = ?S y" if "y \<in> set (butlast ys)" for y
      using off [of y] that d(2) False by (metis append_butlast_last_id distinct_append fun_upd_other in_set_butlastD not_distinct_conv_prefix disjoint_iff list.set_intros(2))
    then have "dll ?S2 0 list (ys @ zs)" by (intro dll_join [OF d False z _ sl(1)]) auto
    moreover have "relinked ?S ?S2 (set (ys @ zs))"
      by (rule relinked_mono [OF relinked_trans [OF S1(2), of _ "{?l}"]]) (use off [OF l(2)] sl(1) l(1) in \<open>auto intro: relinked_put\<close>)
    ultimately show ?thesis using False sl item1 l(3) off [OF l(2)] that [of ?S2] by (simp add: upd_slab_def pv_def)
  qed
  let ?h = "if ys = [] then slab_next it else list" and ?S3 = "S2(item \<mapsto> it\<lparr>slab_prev := 0, slab_next := 0\<rparr>)"
  have "item = list \<longleftrightarrow> ys = []" using it(5) d(2) by (cases ys) (auto split: if_splits)
  then have run: "LIST_REMOVE list item st = Some (?h, st\<lparr>mp_slabs := ?S3\<rparr>)"
    unfolding LIST_REMOVE_def it(1) Option.bind.bind_lunit it(3) S1(1) mp_slabs_put item1 S2(1)
    using S2(4) by (cases "ys = []") (simp_all add: upd_slab_Some)
  have "dll ?S3 0 ?h (ys @ zs)" using S2(3) d(2) by (subst dll_cong [of _ _ S2]) auto
  moreover have "relinked S2 ?S3 {item}" using S2(4) by (simp add: relinked_put)
  from relinked_trans [OF S2(2) this] have "relinked ?S ?S3 (set (ys @ item # zs))" by (rule relinked_mono) auto
  ultimately show ?thesis using run by blast
qed

subsection \<open>The lists of the pool\<close>

text \<open>The bookkeeping of a pool: the slabs on each list of each class, the class and the list of each slab, and its
  free blocks.\<close>

record pool_g =
  g_on :: "slab_list \<Rightarrow> nat \<Rightarrow> nat list"
  g_cls :: "nat \<Rightarrow> nat"
  g_lst :: "nat \<Rightarrow> slab_list"
  g_fr :: "nat \<Rightarrow> nat list"

definition g_ins :: "slab_list \<Rightarrow> nat \<Rightarrow> nat \<Rightarrow> pool_g \<Rightarrow> pool_g" where
  "g_ins l c s G = G\<lparr>g_on := (\<lambda>l' c'. if l' = l \<and> c' = c then s # g_on G l c else g_on G l' c'),
     g_lst := (g_lst G)(s := l), g_cls := (g_cls G)(s := c)\<rparr>"

definition g_del :: "nat \<Rightarrow> pool_g \<Rightarrow> pool_g" where
  "g_del s G = G\<lparr>g_on := (\<lambda>l c. remove1 s (g_on G l c))\<rparr>"

text \<open>Every slab but those of \<open>D\<close> is on exactly one list.\<close>

definition links_ok :: "mp_state \<Rightarrow> pool_g \<Rightarrow> nat set \<Rightarrow> bool" where
  "links_ok st G D \<longleftrightarrow> length (mp_classes st) = CLASS_COUNT \<and>
     (\<forall>l c. c < CLASS_COUNT \<longrightarrow> dll (mp_slabs st) 0 (list_head l (mp_classes st ! c)) (g_on G l c) \<and> distinct (g_on G l c)) \<and>
     (\<forall>l c s. c < CLASS_COUNT \<longrightarrow> s \<in> set (g_on G l c) \<longrightarrow> g_lst G s = l \<and> g_cls G s = c \<and> s \<notin> D) \<and>
     (\<forall>s. mp_slabs st s \<noteq> None \<longrightarrow> s \<notin> D \<longrightarrow> g_cls G s < CLASS_COUNT \<and> s \<in> set (g_on G (g_lst G s) (g_cls G s)))"

definition same_content :: "mp_state \<Rightarrow> mp_state \<Rightarrow> bool" where
  "same_content st st' \<longleftrightarrow> mp_bytes st' = mp_bytes st \<and> mp_chunks st' = mp_chunks st \<and>
     (\<forall>x. map_option unlinked (mp_slabs st' x) = map_option unlinked (mp_slabs st x)) \<and>
     (\<forall>c. block_size (mp_classes st' ! c) = block_size (mp_classes st ! c) \<and> empty_slab_count (mp_classes st' ! c) = empty_slab_count (mp_classes st ! c))"

lemma same_content_trans: "same_content st st' \<Longrightarrow> same_content st' st'' \<Longrightarrow> same_content st st''"
  by (simp add: same_content_def)

lemma list_head_put [simp]:
  "list_head l' (list_head_put l h p) = (if l' = l then h else list_head l' p)"
  "block_size (list_head_put l h p) = block_size p" "empty_slab_count (list_head_put l h p) = empty_slab_count p"
  by (cases l; cases l'; simp)+

lemma upd_pool_nth:
  "c < length (mp_classes st) \<Longrightarrow> mp_classes (upd_pool f c st) ! c' = (if c' = c then f (mp_classes st ! c) else mp_classes st ! c')"
  by (simp add: upd_pool_def nth_list_update)

lemma upd_pool_simps [simp]:
  "mp_slabs (upd_pool f c st) = mp_slabs st" "mp_bytes (upd_pool f c st) = mp_bytes st" "mp_chunks (upd_pool f c st) = mp_chunks st"
  "length (mp_classes (upd_pool f c st)) = length (mp_classes st)"
  by (simp_all add: upd_pool_def)

lemma links_okD:
  assumes "links_ok st G D" "c < CLASS_COUNT"
  shows "dll (mp_slabs st) 0 (list_head l (mp_classes st ! c)) (g_on G l c)" "distinct (g_on G l c)"
  using assms by (simp_all add: links_ok_def)

lemma links_ok_on: "links_ok st G D \<Longrightarrow> c < CLASS_COUNT \<Longrightarrow> s \<in> set (g_on G l c) \<Longrightarrow> g_lst G s = l \<and> g_cls G s = c \<and> s \<notin> D"
  by (simp add: links_ok_def)

lemma links_ok_slab: "links_ok st G D \<Longrightarrow> mp_slabs st s = Some sl \<Longrightarrow> s \<notin> D \<Longrightarrow> g_cls G s < CLASS_COUNT \<and> s \<in> set (g_on G (g_lst G s) (g_cls G s))"
  by (simp add: links_ok_def)

lemma links_okI:
  assumes "length (mp_classes st) = CLASS_COUNT"
    and "\<And>l c. c < CLASS_COUNT \<Longrightarrow> dll (mp_slabs st) 0 (list_head l (mp_classes st ! c)) (g_on G l c) \<and> distinct (g_on G l c)"
    and "\<And>l c s. c < CLASS_COUNT \<Longrightarrow> s \<in> set (g_on G l c) \<Longrightarrow> g_lst G s = l \<and> g_cls G s = c \<and> s \<notin> D"
    and "\<And>s sl. mp_slabs st s = Some sl \<Longrightarrow> s \<notin> D \<Longrightarrow> g_cls G s < CLASS_COUNT \<and> s \<in> set (g_on G (g_lst G s) (g_cls G s))"
  shows "links_ok st G D"
  using assms by (auto simp: links_ok_def)

lemma slab_insert_ok:
  assumes L: "links_ok st G D" and s: "s \<in> D" "mp_slabs st s \<noteq> None" "s \<noteq> 0" "c < CLASS_COUNT"
  shows "\<exists>st'. slab_insert l c s st = Some st' \<and> links_ok st' (g_ins l c s G) (D - {s}) \<and> same_content st st'"
proof -
  let ?xs = "g_on G l c"
  have ni: "s \<notin> set (g_on G l' c')" if "c' < CLASS_COUNT" for l' c' using links_ok_on [OF L that, of s l'] s(1) by blast
  from LIST_INSERT_ok [OF links_okD [OF L s(4), of l] ni [OF s(4)] s(3,2)] obtain S where
    S: "LIST_INSERT (list_head l (mp_classes st ! c)) s st = Some (s, st\<lparr>mp_slabs := S\<rparr>)" "dll S 0 s (s # ?xs)" "relinked (mp_slabs st) S (insert s (set ?xs))"
    by blast
  define st' where "st' = upd_pool (list_head_put l s) c (st\<lparr>mp_slabs := S\<rparr>)"
  have len: "length (mp_classes st) = CLASS_COUNT" using L by (simp add: links_ok_def)
  have cl: "mp_classes st' ! c' = (if c' = c then list_head_put l s (mp_classes st ! c) else mp_classes st ! c')" for c'
    unfolding st'_def by (subst upd_pool_nth) (simp_all add: len s(4))
  have sl: "mp_slabs st' = S" by (simp add: st'_def)
  have "links_ok st' (g_ins l c s G) (D - {s})"
  proof (rule links_okI)
    fix l' c' assume c': "c' < CLASS_COUNT"
    show "dll (mp_slabs st') 0 (list_head l' (mp_classes st' ! c')) (g_on (g_ins l c s G) l' c') \<and> distinct (g_on (g_ins l c s G) l' c')"
    proof (cases "l' = l \<and> c' = c")
      case True
      then show ?thesis using S(2) links_okD(2) [OF L c', of l] ni [OF c', of l] by (simp add: cl sl g_ins_def)
    next
      case False
      have "insert s (set ?xs) \<inter> set (g_on G l' c') = {}"
        using links_ok_on [OF L c', of _ l'] links_ok_on [OF L s(4), of _ l] ni [OF c', of l'] False by blast
      from dll_frame [OF S(3) this links_okD(1) [OF L c']] show ?thesis using False links_okD(2) [OF L c', of l'] by (auto simp: cl sl g_ins_def)
    qed
  next
    fix l' c' x assume "c' < CLASS_COUNT" "x \<in> set (g_on (g_ins l c s G) l' c')"
    then show "g_lst (g_ins l c s G) x = l' \<and> g_cls (g_ins l c s G) x = c' \<and> x \<notin> D - {s}"
      using links_ok_on [OF L, of c' x l'] ni [of c' l'] by (auto simp: g_ins_def split: if_splits)
  next
    fix x xl assume x: "mp_slabs st' x = Some xl" "x \<notin> D - {s}"
    then have "mp_slabs st x \<noteq> None" using relinked_dom [OF S(3), of x] by (simp add: sl)
    then show "g_cls (g_ins l c s G) x < CLASS_COUNT \<and> x \<in> set (g_on (g_ins l c s G) (g_lst (g_ins l c s G) x) (g_cls (g_ins l c s G) x))"
      using links_ok_slab [OF L, of x] x(2) s(4) by (auto simp: g_ins_def)
  qed (simp add: st'_def len)
  moreover have "same_content st st'" using S(3) by (simp add: same_content_def sl cl relinked_def) (simp add: st'_def)
  ultimately show ?thesis using S(1) by (simp add: slab_insert_def st'_def)
qed

lemma slab_remove_ok:
  assumes L: "links_ok st G D" and s: "s \<notin> D" "mp_slabs st s \<noteq> None" "g_lst G s = l" "g_cls G s = c"
  shows "\<exists>st'. slab_remove l c s st = Some st' \<and> links_ok st' (g_del s G) (insert s D) \<and> same_content st st'"
proof -
  have c: "c < CLASS_COUNT" "s \<in> set (g_on G l c)" using links_ok_slab [OF L, of s] s by auto
  obtain ys zs where xs: "g_on G l c = ys @ s # zs" using c(2) by (auto dest: split_list)
  note d = links_okD [OF L c(1), of l, unfolded xs]
  from LIST_REMOVE_ok [OF d] obtain h S where
    S: "LIST_REMOVE (list_head l (mp_classes st ! c)) s st = Some (h, st\<lparr>mp_slabs := S\<rparr>)" "dll S 0 h (ys @ zs)" "relinked (mp_slabs st) S (set (ys @ s # zs))"
    by blast
  define st' where "st' = upd_pool (list_head_put l h) c (st\<lparr>mp_slabs := S\<rparr>)"
  have len: "length (mp_classes st) = CLASS_COUNT" using L by (simp add: links_ok_def)
  have cl: "mp_classes st' ! c' = (if c' = c then list_head_put l h (mp_classes st ! c) else mp_classes st ! c')" for c'
    unfolding st'_def by (subst upd_pool_nth) (simp_all add: len c(1))
  have sl: "mp_slabs st' = S" by (simp add: st'_def)
  have other: "set (ys @ s # zs) \<inter> set (g_on G l' c') = {}" if "c' < CLASS_COUNT" "\<not> (l' = l \<and> c' = c)" for l' c'
    using links_ok_on [OF L that(1), of _ l'] links_ok_on [OF L c(1), of _ l] that(2) unfolding xs by blast
  have "links_ok st' (g_del s G) (insert s D)"
  proof (rule links_okI)
    fix l' c' assume c': "c' < CLASS_COUNT"
    show "dll (mp_slabs st') 0 (list_head l' (mp_classes st' ! c')) (g_on (g_del s G) l' c') \<and> distinct (g_on (g_del s G) l' c')"
    proof (cases "l' = l \<and> c' = c")
      case True
      then show ?thesis using S(2) d(2) by (simp add: cl sl g_del_def xs remove1_append)
    next
      case False
      have "s \<notin> set (g_on G l' c')" using other [OF c' False] by auto
      then show ?thesis using dll_frame [OF S(3) other [OF c' False] links_okD(1) [OF L c']] links_okD(2) [OF L c', of l'] False
        by (auto simp: cl sl g_del_def remove1_idem)
    qed
  next
    fix l' c' x assume x: "c' < CLASS_COUNT" "x \<in> set (g_on (g_del s G) l' c')"
    then have "x \<in> set (g_on G l' c')" "x \<noteq> s" using links_okD(2) [OF L x(1), of l'] by (auto simp: g_del_def)
    then show "g_lst (g_del s G) x = l' \<and> g_cls (g_del s G) x = c' \<and> x \<notin> insert s D"
      using links_ok_on [OF L x(1), of x l'] by (simp add: g_del_def)
  next
    fix x xl assume x: "mp_slabs st' x = Some xl" "x \<notin> insert s D"
    then have "mp_slabs st x \<noteq> None" using relinked_dom [OF S(3), of x] by (simp add: sl)
    then show "g_cls (g_del s G) x < CLASS_COUNT \<and> x \<in> set (g_on (g_del s G) (g_lst (g_del s G) x) (g_cls (g_del s G) x))"
      using links_ok_slab [OF L, of x] x(2) by (auto simp: g_del_def)
  qed (simp add: st'_def len)
  moreover have "same_content st st'" using S(3) by (simp add: same_content_def sl cl relinked_def) (simp add: st'_def)
  ultimately show ?thesis using S(1) by (simp add: slab_remove_def st'_def)
qed

text \<open>A slab changes its list.\<close>

definition g_move :: "slab_list \<Rightarrow> nat \<Rightarrow> pool_g \<Rightarrow> pool_g" where
  "g_move l s G = g_ins l (g_cls G s) s (g_del s G)"

lemma slab_move_ok:
  assumes L: "links_ok st G {}" and s: "mp_slabs st s \<noteq> None" "g_lst G s = l" "g_cls G s = c"
  shows "\<exists>st1 st'. slab_remove l c s st = Some st1 \<and> slab_insert l' c s st1 = Some st' \<and> links_ok st' (g_move l' s G) {} \<and> same_content st st'"
proof -
  from slab_remove_ok [OF L _ s] obtain st1 where st1: "slab_remove l c s st = Some st1" "links_ok st1 (g_del s G) {s}" "same_content st st1" by auto
  have c: "c < CLASS_COUNT" "s \<in> set (g_on G l c)" using links_ok_slab [OF L, of s] s by auto
  have "mp_slabs st1 s \<noteq> None" using st1(3) s(1) unfolding same_content_def by (metis option.map_disc_iff)
  moreover have "s \<noteq> 0" using dll_mem [OF links_okD(1) [OF L c(1)] c(2)] by simp
  ultimately obtain st' where "slab_insert l' c s st1 = Some st'" "links_ok st' (g_ins l' c s (g_del s G)) ({s} - {s})" "same_content st1 st'"
    using slab_insert_ok [OF st1(2), of s c l'] c(1) by auto
  then show ?thesis using st1 same_content_trans s(3) by (auto simp: g_move_def)
qed

lemma g_move_simps [simp]:
  "g_fr (g_move l s G) = g_fr G" "g_cls (g_move l s G) = g_cls G" "g_lst (g_move l s G) = (g_lst G)(s := l)"
  by (simp_all add: g_move_def g_ins_def g_del_def)

lemma length_move:
  assumes "links_ok st G {}" "mp_slabs st s = Some sl" "l' \<noteq> g_lst G s" "c < CLASS_COUNT"
  shows "length (g_on (g_move l' s G) l c) =
    (if c = g_cls G s \<and> l = l' then length (g_on G l c) + 1 else if c = g_cls G s \<and> l = g_lst G s then length (g_on G l c) - 1 else length (g_on G l c))"
proof -
  have m: "s \<in> set (g_on G (g_lst G s) (g_cls G s))" using links_ok_slab [OF assms(1,2)] by simp
  have o: "s \<notin> set (g_on G l c)" if "\<not> (c = g_cls G s \<and> l = g_lst G s)" for l
    using links_ok_on [OF assms(1,4), of s l] that by blast
  show ?thesis using m o assms(3) by (auto simp: g_move_def g_ins_def g_del_def length_remove1 remove1_idem)
qed

subsection \<open>The content of the slabs\<close>

definition block_set :: "nat \<Rightarrow> nat \<Rightarrow> nat set" where
  "block_set c base = (\<lambda>i. base + first_block c + i * size_classes ! c) ` {..<block_count c}"

lemma block_bounds:
  assumes "b \<in> block_set c base" "c < CLASS_COUNT"
  shows "base + first_block c \<le> b" "b + size_classes ! c \<le> base + region_size c"
proof -
  obtain i where i: "i < block_count c" "b = base + first_block c + i * size_classes ! c" using assms(1) by (auto simp: block_set_def)
  have "Suc i * size_classes ! c \<le> block_count c * size_classes ! c" using i(1) by (intro mult_le_mono1) simp
  then show "base + first_block c \<le> b" "b + size_classes ! c \<le> base + region_size c" using class_facts(5) [OF assms(2)] i(2) by simp_all
qed

lemma block_apart:
  assumes "b \<in> block_set c base" "b' \<in> block_set c base" "b \<noteq> b'"
  shows "b + size_classes ! c \<le> b' \<or> b' + size_classes ! c \<le> b"
proof -
  obtain i j where i: "b = base + first_block c + i * size_classes ! c" "b' = base + first_block c + j * size_classes ! c" using assms(1,2) by (auto simp: block_set_def)
  then have "i < j \<or> j < i" using assms(3) by auto
  then have "Suc i * size_classes ! c \<le> j * size_classes ! c \<or> Suc j * size_classes ! c \<le> i * size_classes ! c" by (metis Suc_leI mult_le_mono1)
  then show ?thesis using i by auto
qed

lemma card_block_set:
  assumes "c < CLASS_COUNT"
  shows "finite (block_set c base)" "card (block_set c base) = block_count c"
proof -
  have "0 < size_classes ! c" using class_facts(1) [OF assms] by simp
  then have "inj_on (\<lambda>i. base + first_block c + i * size_classes ! c) {..<block_count c}" by (auto simp: inj_on_def)
  then show "finite (block_set c base)" "card (block_set c base) = block_count c" by (simp_all add: block_set_def card_image)
qed

fun free_chain :: "bytes \<Rightarrow> nat \<Rightarrow> nat list \<Rightarrow> bool" where
  "free_chain m p [] \<longleftrightarrow> p = 0"
| "free_chain m p (b # bs) \<longleftrightarrow> p = b \<and> (\<exists>q. load_le 8 m b = Some q \<and> free_chain m q bs)"

definition header_ok :: "bytes \<Rightarrow> nat \<Rightarrow> nat \<Rightarrow> nat \<Rightarrow> bool" where
  "header_ok m b c s \<longleftrightarrow> load_le 4 m b = Some BLOCK_MAGIC \<and> load_le 1 m (b + 4) = Some c \<and> load_le 1 m (b + 5) = Some BLOCK_FLAG \<and>
     load_le 8 m (b + 8) = Some s \<and> load_le 8 m (b + 16) = Some (size_classes ! c)"

definition slab_ok :: "bytes \<Rightarrow> nat \<Rightarrow> nat \<Rightarrow> slab_t \<Rightarrow> nat list \<Rightarrow> bool" where
  "slab_ok m c s sl free \<longleftrightarrow> 0 < s \<and> s < 2 ^ 64 \<and> 0 < slab_mem sl \<and> slab_mem sl + region_size c \<le> 2 ^ 64 \<and>
     total_blocks sl = int (block_count c) \<and> free_blocks sl = int (length free) \<and>
     free_chain m (free_list sl) free \<and> distinct free \<and> set free \<subseteq> block_set c (slab_mem sl) \<and>
     {slab_mem sl + first_block c..<slab_mem sl + region_size c} \<subseteq> dom m \<and>
     (if hdr_class c then slab_magic sl = 0 \<and> (\<forall>b \<in> block_set c (slab_mem sl) - set free. header_ok m b c s)
      else slab_magic sl = SLAB_MAGIC \<and> slab_classid sl = c \<and> slab_mem sl = s \<and> SLAB_SIZE_ALIGNMENT dvd s)"

text \<open>The bytes of a slab that belong to the pool: the links of the free blocks and the headers of the others.\<close>

definition slab_meta :: "nat \<Rightarrow> nat \<Rightarrow> nat list \<Rightarrow> nat set" where
  "slab_meta c base free = (\<Union>b \<in> set free. {b..<b + 8}) \<union> (\<Union>b \<in> block_set c base - set free. {b..<b + head_room c})"

lemma free_chain_frame: "(\<And>b x. b \<in> set bs \<Longrightarrow> b \<le> x \<Longrightarrow> x < b + 8 \<Longrightarrow> m' x = m x) \<Longrightarrow> free_chain m p bs \<Longrightarrow> free_chain m' p bs"
proof (induction bs arbitrary: p)
  case (Cons b bs)
  have "load_le 8 m' b = load_le 8 m b" by (rule load_le_cong) (use Cons.prems(1) [of b] in simp)
  then show ?case using Cons by auto
qed simp

lemma header_ok_frame:
  assumes "\<And>x. b \<le> x \<Longrightarrow> x < b + HEADER_SIZE \<Longrightarrow> m' x = m x" "header_ok m b c s"
  shows "header_ok m' b c s"
proof -
  have "load_le n m' (b + i) = load_le n m (b + i)" if "i + n \<le> HEADER_SIZE" for n i by (rule load_le_cong) (use assms(1) that in simp)
  from this [of 0 4] this [of 4 1] this [of 5 1] this [of 8 8] this [of 16 8] show ?thesis
    using assms(2) by (simp add: header_ok_def HEADER_SIZE_def)
qed

lemma slab_ok_frame:
  assumes "slab_ok m c s sl free" "\<And>x. x \<in> slab_meta c (slab_mem sl) free \<Longrightarrow> m' x = m x" "dom m \<inter> {slab_mem sl..<slab_mem sl + region_size c} \<subseteq> dom m'"
  shows "slab_ok m' c s sl free"
proof -
  have "free_chain m' (free_list sl) free"
    by (rule free_chain_frame [of _ _ m]) (use assms(1,2) in \<open>auto simp: slab_ok_def slab_meta_def\<close>)
  moreover have "header_ok m' b c s" if "hdr_class c" "b \<in> block_set c (slab_mem sl) - set free" for b
    by (rule header_ok_frame [of _ _ m]) (use assms(1,2) that in \<open>auto simp: slab_ok_def slab_meta_def head_room_def\<close>)
  moreover have "{slab_mem sl + first_block c..<slab_mem sl + region_size c} \<subseteq> dom m'"
    using assms(1,3) by (auto simp: slab_ok_def subset_iff)
  ultimately show ?thesis using assms(1) by (auto simp: slab_ok_def)
qed

lemma slab_meta_region:
  assumes "c < CLASS_COUNT" "set free \<subseteq> block_set c base"
  shows "slab_meta c base free \<subseteq> {base..<base + region_size c}"
proof -
  have "{b..<b + n} \<subseteq> {base..<base + region_size c}" if "b \<in> block_set c base" "n \<le> size_classes ! c" for b n
    using block_bounds [OF that(1) assms(1)] that(2) by auto
  moreover have "head_room c \<le> size_classes ! c" using class_facts(7) [OF assms(1)] by (auto simp: head_room_def)
  ultimately show ?thesis using class_facts(1) [OF assms(1)] assms(2) unfolding slab_meta_def by blast
qed

lemma slab_ok_unlinked: "unlinked sl' = unlinked sl \<Longrightarrow> slab_ok m c s sl' free = slab_ok m c s sl free"
  by (cases sl; cases sl') (simp add: unlinked_def slab_ok_def)

definition chunk_ok :: "bytes \<Rightarrow> nat \<Rightarrow> nat \<Rightarrow> bool" where
  "chunk_ok m a n \<longleftrightarrow> 0 < a \<and> HEADER_SIZE < n \<and> {a..<a + n} \<subseteq> dom m \<and> load_le 4 m a = Some BLOCK_MAGIC \<and> load_le 1 m (a + 5) = Some BLOCK_FLAG_LARGE"

lemma chunk_ok_frame:
  assumes "chunk_ok m a n" "\<And>x. a \<le> x \<Longrightarrow> x < a + HEADER_SIZE \<Longrightarrow> m' x = m x" "dom m \<inter> {a..<a + n} \<subseteq> dom m'"
  shows "chunk_ok m' a n"
proof -
  have "load_le k m' (a + i) = load_le k m (a + i)" if "i + k \<le> HEADER_SIZE" for k i by (rule load_le_cong) (use assms(2) that in simp)
  note ld = this [of 0 4] this [of 5 1]
  have "{a..<a + n} \<subseteq> dom m'" using assms(1,3) unfolding chunk_ok_def by blast
  then show ?thesis using ld assms(1) by (simp add: chunk_ok_def HEADER_SIZE_def)
qed

text \<open>The regions of the system's memory that are in use.\<close>

definition slab_region :: "pool_g \<Rightarrow> nat \<Rightarrow> slab_t \<Rightarrow> nat set" where
  "slab_region G s sl = {slab_mem sl..<slab_mem sl + region_size (g_cls G s)}"

definition content_ok :: "mp_state \<Rightarrow> pool_g \<Rightarrow> bool" where
  "content_ok st G \<longleftrightarrow>
     (\<forall>s sl. mp_slabs st s = Some sl \<longrightarrow> slab_ok (mp_bytes st) (g_cls G s) s sl (g_fr G s)) \<and>
     (\<forall>s sl s' sl'. mp_slabs st s = Some sl \<longrightarrow> mp_slabs st s' = Some sl' \<longrightarrow> s \<noteq> s' \<longrightarrow> slab_region G s sl \<inter> slab_region G s' sl' = {}) \<and>
     (\<forall>a n. mp_chunks st a = Some n \<longrightarrow> chunk_ok (mp_bytes st) a n) \<and>
     (\<forall>a n s sl. mp_chunks st a = Some n \<longrightarrow> mp_slabs st s = Some sl \<longrightarrow> {a..<a + n} \<inter> slab_region G s sl = {}) \<and>
     (\<forall>a n a' n'. mp_chunks st a = Some n \<longrightarrow> mp_chunks st a' = Some n' \<longrightarrow> a \<noteq> a' \<longrightarrow> {a..<a + n} \<inter> {a'..<a' + n'} = {})"

lemma content_okD:
  assumes "content_ok st G"
  shows "mp_slabs st s = Some sl \<Longrightarrow> slab_ok (mp_bytes st) (g_cls G s) s sl (g_fr G s)"
    "mp_slabs st s = Some sl \<Longrightarrow> mp_slabs st s' = Some sl' \<Longrightarrow> s \<noteq> s' \<Longrightarrow> slab_region G s sl \<inter> slab_region G s' sl' = {}"
    "mp_chunks st a = Some n \<Longrightarrow> chunk_ok (mp_bytes st) a n"
    "mp_chunks st a = Some n \<Longrightarrow> mp_slabs st s = Some sl \<Longrightarrow> {a..<a + n} \<inter> slab_region G s sl = {}"
    "mp_chunks st a = Some n \<Longrightarrow> mp_chunks st a' = Some n' \<Longrightarrow> a \<noteq> a' \<Longrightarrow> {a..<a + n} \<inter> {a'..<a' + n'} = {}"
  using assms unfolding content_ok_def by blast+

lemma same_content_slab:
  assumes "same_content st st'" "mp_slabs st' s = Some sl'"
  shows "\<exists>sl. mp_slabs st s = Some sl \<and> unlinked sl' = unlinked sl"
proof -
  have "map_option unlinked (mp_slabs st s) = Some (unlinked sl')" using assms by (metis same_content_def option.simps(9))
  then show ?thesis by auto
qed

lemma same_content_slab':
  assumes "same_content st st'" "mp_slabs st s = Some sl"
  shows "\<exists>sl'. mp_slabs st' s = Some sl' \<and> unlinked sl' = unlinked sl"
proof -
  have "map_option unlinked (mp_slabs st' s) = Some (unlinked sl)" using assms by (metis same_content_def option.simps(9))
  then show ?thesis by auto
qed

lemma unlinked_fields: "unlinked sl' = unlinked sl \<Longrightarrow> slab_mem sl' = slab_mem sl \<and> free_blocks sl' = free_blocks sl \<and> total_blocks sl' = total_blocks sl \<and>
    free_list sl' = free_list sl \<and> slab_magic sl' = slab_magic sl \<and> slab_classid sl' = slab_classid sl"
  by (cases sl; cases sl') (simp add: unlinked_def)

lemma content_same:
  assumes C: "content_ok st G" and S: "same_content st st'" and G: "g_cls G' = g_cls G" "g_fr G' = g_fr G"
  shows "content_ok st' G'"
proof -
  have b: "mp_bytes st' = mp_bytes st" "mp_chunks st' = mp_chunks st" using S by (simp_all add: same_content_def)
  have r: "slab_region G' s sl' = slab_region G s sl" if "unlinked sl' = unlinked sl" for s sl sl'
    using unlinked_fields [OF that] G by (simp add: slab_region_def)
  note sl = same_content_slab [OF S]
  have "slab_ok (mp_bytes st') (g_cls G' s) s sl' (g_fr G' s)" if "mp_slabs st' s = Some sl'" for s sl'
    using sl [OF that] content_okD(1) [OF C, of s] slab_ok_unlinked b G by metis
  moreover have "slab_region G' s sl \<inter> slab_region G' s' sl' = {}" if "mp_slabs st' s = Some sl" "mp_slabs st' s' = Some sl'" "s \<noteq> s'" for s sl s' sl'
    using sl [OF that(1)] sl [OF that(2)] content_okD(2) [OF C _ _ that(3)] r by metis
  moreover have "{a..<a + n} \<inter> slab_region G' s sl = {}" if "mp_chunks st' a = Some n" "mp_slabs st' s = Some sl" for a n s sl
    using sl [OF that(2)] content_okD(4) [OF C, of a n s] r b that(1) by metis
  ultimately show ?thesis using content_okD(3,5) [OF C] b unfolding content_ok_def by auto
qed

text \<open>A change inside one slab.\<close>

lemma content_upd:
  assumes C: "content_ok st G" and s: "mp_slabs st s = Some sl" "slab_mem sl' = slab_mem sl" "slab_ok m' (g_cls G s) s sl' free'"
    and m: "\<And>x. x \<notin> slab_region G s sl \<Longrightarrow> m' x = mp_bytes st x" "dom m' = dom (mp_bytes st)"
    and cl: "\<And>s sl. mp_slabs st s = Some sl \<Longrightarrow> g_cls G s < CLASS_COUNT"
  shows "content_ok (st\<lparr>mp_slabs := (mp_slabs st)(s \<mapsto> sl'), mp_bytes := m'\<rparr>) (G\<lparr>g_fr := (g_fr G)(s := free')\<rparr>)"
proof -
  let ?st = "st\<lparr>mp_slabs := (mp_slabs st)(s \<mapsto> sl'), mp_bytes := m'\<rparr>" and ?G = "G\<lparr>g_fr := (g_fr G)(s := free')\<rparr>"
  have r: "\<exists>xl'. mp_slabs st x = Some xl' \<and> slab_region ?G x xl = slab_region G x xl'" if "mp_slabs ?st x = Some xl" for x xl
    using that s(1,2) by (cases "x = s") (auto simp: slab_region_def)
  have "slab_ok m' (g_cls G x) x xl (g_fr ?G x)" if x: "mp_slabs ?st x = Some xl" for x xl
  proof (cases "x = s")
    case False
    then have xs: "mp_slabs st x = Some xl" using x by simp
    note ok = content_okD(1) [OF C xs]
    have "slab_meta (g_cls G x) (slab_mem xl) (g_fr G x) \<subseteq> slab_region G x xl"
      unfolding slab_region_def by (rule slab_meta_region [OF cl [OF xs]]) (use ok in \<open>simp add: slab_ok_def\<close>)
    then have "m' y = mp_bytes st y" if "y \<in> slab_meta (g_cls G x) (slab_mem xl) (g_fr G x)" for y
      using content_okD(2) [OF C xs s(1) False] that m(1) by blast
    then show ?thesis using slab_ok_frame [OF ok, of m'] m(2) False by auto
  qed (use x s in simp)
  moreover have "chunk_ok m' a n" if a: "mp_chunks st a = Some n" for a n
  proof (rule chunk_ok_frame [OF content_okD(3) [OF C a]])
    fix y assume "a \<le> y" "y < a + HEADER_SIZE"
    then have "y \<in> {a..<a + n}" using content_okD(3) [OF C a] by (auto simp: chunk_ok_def)
    then show "m' y = mp_bytes st y" using content_okD(4) [OF C a s(1)] m(1) by blast
  qed (use m(2) in auto)
  moreover have "slab_region ?G x xl \<inter> slab_region ?G y yl = {}" if "mp_slabs ?st x = Some xl" "mp_slabs ?st y = Some yl" "x \<noteq> y" for x xl y yl
    using r [OF that(1)] r [OF that(2)] content_okD(2) [OF C _ _ that(3)] by metis
  moreover have "{a..<a + n} \<inter> slab_region ?G x xl = {}" if "mp_chunks st a = Some n" "mp_slabs ?st x = Some xl" for a n x xl
    using r [OF that(2)] content_okD(4) [OF C that(1)] by metis
  ultimately show ?thesis using content_okD(5) [OF C] unfolding content_ok_def by auto
qed

subsection \<open>Taking and returning a block of a slab\<close>

lemma slab_ok_pop:
  assumes ok: "slab_ok m c s sl (b # bs)" "c < CLASS_COUNT" and nx: "load_le 8 m b = Some nx"
    and m: "\<And>x. x < b \<or> b + head_room c \<le> x \<Longrightarrow> m' x = m x" "dom m' = dom m" and h: "hdr_class c \<Longrightarrow> header_ok m' b c s"
    and sl': "unlinked sl' = unlinked (sl\<lparr>free_list := nx, free_blocks := free_blocks sl - 1\<rparr>)"
  shows "slab_ok m' c s sl' bs"
proof -
  have bb: "b \<in> block_set c (slab_mem sl)" "b \<notin> set bs" "set bs \<subseteq> block_set c (slab_mem sl)" "free_chain m nx bs" using ok(1) nx by (auto simp: slab_ok_def)
  have hr: "head_room c \<le> size_classes ! c" "8 \<le> size_classes ! c" using class_facts(1,7) [OF ok(2)] by (auto simp: head_room_def)
  have off: "m' x = m x" if "b' \<in> block_set c (slab_mem sl)" "b' \<noteq> b" "b' \<le> x" "x < b' + size_classes ! c" for b' x
    using block_apart [OF that(1) bb(1) that(2)] that(3,4) hr(1) by (intro m(1)) auto
  have "free_chain m' nx bs"
  proof (rule free_chain_frame [OF _ bb(4)])
    fix b' x assume "b' \<in> set bs" "b' \<le> x" "x < b' + 8"
    then show "m' x = m x" using bb(2,3) hr(2) by (intro off [of b']) auto
  qed
  moreover have "header_ok m' b' c s" if "hdr_class c" "b' \<in> block_set c (slab_mem sl) - set bs" for b'
  proof (cases "b' = b")
    case False
    then have "header_ok m b' c s" using ok(1) that by (simp add: slab_ok_def)
    moreover have "HEADER_SIZE \<le> size_classes ! c" using class_facts(7) [OF ok(2) that(1)] by simp
    ultimately show ?thesis by (intro header_ok_frame [of b' m' m]) (use off [of b'] that(2) False in auto)
  qed (use h that in simp)
  ultimately show ?thesis using ok(1) nx m(2) unfolding slab_ok_unlinked [OF sl'] by (auto simp: slab_ok_def)
qed

lemma slab_ok_push:
  assumes ok: "slab_ok m c s sl bs" "c < CLASS_COUNT" and b: "b \<in> block_set c (slab_mem sl)" "b \<notin> set bs"
    and m: "load_le 8 m' b = Some (free_list sl)" "\<And>x. x < b \<or> b + 8 \<le> x \<Longrightarrow> m' x = m x" "dom m' = dom m"
    and sl': "unlinked sl' = unlinked (sl\<lparr>free_list := b, free_blocks := free_blocks sl + 1\<rparr>)"
  shows "slab_ok m' c s sl' (b # bs)"
proof -
  have bs: "set bs \<subseteq> block_set c (slab_mem sl)" "free_chain m (free_list sl) bs" using ok(1) by (auto simp: slab_ok_def)
  have sz: "8 \<le> size_classes ! c" using class_facts(1) [OF ok(2)] .
  have off: "m' x = m x" if "b' \<in> block_set c (slab_mem sl)" "b' \<noteq> b" "b' \<le> x" "x < b' + size_classes ! c" for b' x
    using block_apart [OF that(1) b(1) that(2)] that(3,4) sz by (intro m(2)) auto
  have "free_chain m' (free_list sl) bs"
  proof (rule free_chain_frame [OF _ bs(2)])
    fix b' x assume "b' \<in> set bs" "b' \<le> x" "x < b' + 8"
    then show "m' x = m x" using b(2) bs(1) sz by (intro off [of b']) auto
  qed
  moreover have "header_ok m' b' c s" if "hdr_class c" "b' \<in> block_set c (slab_mem sl) - set (b # bs)" for b'
  proof -
    have "header_ok m b' c s" using ok(1) that by (simp add: slab_ok_def)
    moreover have "HEADER_SIZE \<le> size_classes ! c" using class_facts(7) [OF ok(2) that(1)] by simp
    ultimately show ?thesis by (intro header_ok_frame [of b' m' m]) (use off [of b'] that(2) in auto)
  qed
  ultimately show ?thesis using ok(1) m b unfolding slab_ok_unlinked [OF sl'] by (auto simp: slab_ok_def)
qed

end
