(* ===== verification/Kvs_Mempool_Proof.thy ===== *)
theory Kvs_Mempool_Proof
  imports Kvs_Mempool
begin

text \<open>
  Correctness of the memory pool: the invariant, the blocks in use, and what \<open>mp_malloc\<close>, \<open>mp_free\<close>,
  \<open>mp_realloc\<close> and \<open>mp_destroy\<close> do to them.  The ghost record \<open>pool_g\<close> names the lists of slabs and of free blocks; a client sees
  a heap of disjoint blocks (\<open>heap_rep\<close>), the contract of the locale \<open>allocator\<close>.
\<close>

subsection \<open>The invariant\<close>

definition counts_ok :: "mp_state \<Rightarrow> pool_g \<Rightarrow> bool" where
  "counts_ok st G \<longleftrightarrow> (\<forall>c < CLASS_COUNT. block_size (mp_classes st ! c) = size_classes ! c \<and>
     empty_slab_count (mp_classes st ! c) = int (length (g_on G EMPTY c)))"

fun list_ok :: "slab_list \<Rightarrow> nat \<Rightarrow> nat \<Rightarrow> bool" where
  "list_ok PARTIAL c n \<longleftrightarrow> 0 < n \<and> n < block_count c"
| "list_ok FULL c n \<longleftrightarrow> n = 0"
| "list_ok EMPTY c n \<longleftrightarrow> n = block_count c"

definition lists_ok :: "mp_state \<Rightarrow> pool_g \<Rightarrow> nat set \<Rightarrow> bool" where
  "lists_ok st G A \<longleftrightarrow> (\<forall>s sl. mp_slabs st s = Some sl \<longrightarrow> s \<notin> A \<longrightarrow> list_ok (g_lst G s) (g_cls G s) (length (g_fr G s)))"

definition pool_core :: "mp_state \<Rightarrow> pool_g \<Rightarrow> bool" where
  "pool_core st G \<longleftrightarrow> links_ok st G {} \<and> content_ok st G \<and> counts_ok st G"

definition pool_ok :: "mp_state \<Rightarrow> pool_g \<Rightarrow> bool" where
  "pool_ok st G \<longleftrightarrow> pool_core st G \<and> lists_ok st G {}"

text \<open>The blocks in use: the address the caller has and the number of bytes behind it.\<close>

definition slab_live :: "pool_g \<Rightarrow> nat \<Rightarrow> slab_t \<Rightarrow> (nat \<times> nat) set" where
  "slab_live G s sl = (\<lambda>b. (b + head_room (g_cls G s), size_classes ! g_cls G s - head_room (g_cls G s))) `
     (block_set (g_cls G s) (slab_mem sl) - set (g_fr G s))"

definition live :: "mp_state \<Rightarrow> pool_g \<Rightarrow> (nat \<times> nat) set" where
  "live st G = {x. (\<exists>s sl. mp_slabs st s = Some sl \<and> x \<in> slab_live G s sl) \<or>
     (\<exists>a n. mp_chunks st a = Some n \<and> x = (a + HEADER_SIZE, n - HEADER_SIZE))}"

lemma core_class: "pool_core st G \<Longrightarrow> mp_slabs st s = Some sl \<Longrightarrow> g_cls G s < CLASS_COUNT"
  using links_ok_slab [of st G "{}" s sl] by (simp add: pool_core_def)

lemma slab_live_in:
  assumes "pool_core st G" "mp_slabs st s = Some sl" "(p, r) \<in> slab_live G s sl"
  shows "\<exists>b \<in> block_set (g_cls G s) (slab_mem sl) - set (g_fr G s). p = b + head_room (g_cls G s) \<and> p + r = b + size_classes ! g_cls G s \<and>
    {b..<b + size_classes ! g_cls G s} \<subseteq> slab_region G s sl \<and> 0 < r"
proof -
  obtain b where b: "b \<in> block_set (g_cls G s) (slab_mem sl) - set (g_fr G s)" "p = b + head_room (g_cls G s)" "r = size_classes ! g_cls G s - head_room (g_cls G s)"
    using assms(3) by (auto simp: slab_live_def)
  note c = core_class [OF assms(1,2)]
  have "head_room (g_cls G s) < size_classes ! g_cls G s" using class_facts(1,7) [OF c] by (auto simp: head_room_def)
  moreover have "slab_mem sl + first_block (g_cls G s) \<le> b" "b + size_classes ! g_cls G s \<le> slab_mem sl + region_size (g_cls G s)"
    using block_bounds [of b, OF _ c] b(1) by auto
  ultimately show ?thesis using b by (intro bexI [OF _ b(1)]) (auto simp: slab_region_def)
qed

lemma live_apart:
  assumes P: "pool_core st G" and x: "(p, r) \<in> live st G" "(q, k) \<in> live st G" "(p, r) \<noteq> (q, k)"
  shows "{p..<p + r} \<inter> {q..<q + k} = {}"
proof -
  note C = P [unfolded pool_core_def, THEN conjunct2, THEN conjunct1]
  have slab_in: "{p..<p + r} \<subseteq> slab_region G s sl" if s: "mp_slabs st s = Some sl" "(p, r) \<in> slab_live G s sl" for p r s sl
    using slab_live_in [OF P s] by fastforce
  have chunk_in: "{a + HEADER_SIZE..<a + HEADER_SIZE + (n - HEADER_SIZE)} \<subseteq> {a..<a + n}" if "mp_chunks st a = Some n" for a n
    using content_okD(3) [OF C that] by (auto simp: chunk_ok_def)
  have same: "{p..<p + r} \<inter> {q..<q + k} = {}" if s: "mp_slabs st s = Some sl" "(p, r) \<in> slab_live G s sl" "(q, k) \<in> slab_live G s sl" for s sl
  proof -
    obtain b b' where b: "b \<in> block_set (g_cls G s) (slab_mem sl)" "b' \<in> block_set (g_cls G s) (slab_mem sl)"
      "p = b + head_room (g_cls G s)" "q = b' + head_room (g_cls G s)" "p + r = b + size_classes ! g_cls G s" "q + k = b' + size_classes ! g_cls G s"
      using slab_live_in [OF P s(1,2)] slab_live_in [OF P s(1,3)] by fastforce
    then have "b \<noteq> b'" using x(3) s(2,3) by (auto simp: slab_live_def)
    then show ?thesis using block_apart [OF b(1,2)] b(3-6) by auto
  qed
  from x(1,2) consider s sl s' sl' where "mp_slabs st s = Some sl" "(p, r) \<in> slab_live G s sl" "mp_slabs st s' = Some sl'" "(q, k) \<in> slab_live G s' sl'"
    | s sl a n where "mp_slabs st s = Some sl" "(p, r) \<in> slab_live G s sl" "mp_chunks st a = Some n" "q = a + HEADER_SIZE" "k = n - HEADER_SIZE"
    | s sl a n where "mp_slabs st s = Some sl" "(q, k) \<in> slab_live G s sl" "mp_chunks st a = Some n" "p = a + HEADER_SIZE" "r = n - HEADER_SIZE"
    | a n a' n' where "mp_chunks st a = Some n" "p = a + HEADER_SIZE" "r = n - HEADER_SIZE" "mp_chunks st a' = Some n'" "q = a' + HEADER_SIZE" "k = n' - HEADER_SIZE"
    unfolding live_def by fast
  then show ?thesis
  proof cases
    case 1
    then show ?thesis
    proof (cases "s = s'")
      case False
      then show ?thesis using slab_in [OF 1(1,2)] slab_in [OF 1(3,4)] content_okD(2) [OF C 1(1,3)] by blast
    qed (use 1 same in auto)
  next
    case 2
    then show ?thesis using slab_in [OF 2(1,2)] chunk_in [OF 2(3)] content_okD(4) [OF C 2(3,1)] by blast
  next
    case 3
    then show ?thesis using slab_in [OF 3(1,2)] chunk_in [OF 3(3)] content_okD(4) [OF C 3(3,1)] by blast
  next
    case 4
    then have "a \<noteq> a'" using x(3) by auto
    then show ?thesis using 4 chunk_in [OF 4(1)] chunk_in [OF 4(4)] content_okD(5) [OF C 4(1,4)] by blast
  qed
qed

lemma live_nonempty:
  assumes "pool_core st G" "(p, r) \<in> live st G"
  shows "0 < r"
proof -
  have C: "content_ok st G" using assms(1) by (simp add: pool_core_def)
  from assms(2) consider s sl where "mp_slabs st s = Some sl" "(p, r) \<in> slab_live G s sl" | a n where "mp_chunks st a = Some n" "r = n - HEADER_SIZE"
    by (auto simp: live_def)
  then show ?thesis
  proof cases
    case 1
    then show ?thesis using slab_live_in [OF assms(1) 1] by blast
  next
    case 2
    then show ?thesis using content_okD(3) [OF C 2(1)] by (simp add: chunk_ok_def)
  qed
qed

lemma live_unique:
  assumes "pool_core st G" "(p, r) \<in> live st G" "(p, k) \<in> live st G"
  shows "r = k"
proof (rule ccontr)
  assume "r \<noteq> k"
  then have "{p..<p + r} \<inter> {p..<p + k} = {}" using live_apart [OF assms] by simp
  moreover have "p \<in> {p..<p + r} \<inter> {p..<p + k}" using live_nonempty [OF assms(1)] assms(2,3) by auto
  ultimately show False by blast
qed

subsection \<open>One slab changes\<close>

lemma dll_upd:
  "dll S prv p xs \<Longrightarrow> S s = Some sl \<Longrightarrow> slab_prev sl' = slab_prev sl \<Longrightarrow> slab_next sl' = slab_next sl \<Longrightarrow> dll (S(s \<mapsto> sl')) prv p xs"
  by (induction xs arbitrary: prv p) (auto split: if_splits)

abbreviation slab_put :: "mp_state \<Rightarrow> nat \<Rightarrow> slab_t \<Rightarrow> bytes \<Rightarrow> mp_state" where
  "slab_put st s sl m \<equiv> st\<lparr>mp_slabs := (mp_slabs st)(s \<mapsto> sl), mp_bytes := m\<rparr>"

abbreviation g_free_put :: "pool_g \<Rightarrow> nat \<Rightarrow> nat list \<Rightarrow> pool_g" where
  "g_free_put G s bs \<equiv> G\<lparr>g_fr := (g_fr G)(s := bs)\<rparr>"

lemma core_upd:
  assumes P: "pool_core st G" and s: "mp_slabs st s = Some sl" "slab_mem sl' = slab_mem sl" "slab_prev sl' = slab_prev sl" "slab_next sl' = slab_next sl"
    and ok: "slab_ok m' (g_cls G s) s sl' free'" and m: "\<And>x. x \<notin> slab_region G s sl \<Longrightarrow> m' x = mp_bytes st x" "dom m' = dom (mp_bytes st)"
  shows "pool_core (slab_put st s sl' m') (g_free_put G s free')"
proof -
  have L: "links_ok st G {}" and C: "content_ok st G" using P by (simp_all add: pool_core_def)
  have "links_ok (slab_put st s sl' m') (g_free_put G s free') {}"
    using L dll_upd [where S = "mp_slabs st" and s = s and sl = sl and sl' = sl'] s unfolding links_ok_def by (auto split: if_splits)
  moreover have "content_ok (slab_put st s sl' m') (g_free_put G s free')"
    by (rule content_upd [OF C s(1,2) ok m core_class [OF P]])
  ultimately show ?thesis using P by (simp add: pool_core_def counts_ok_def)
qed

lemma lists_upd:
  assumes "lists_ok st G A"
  shows "lists_ok (slab_put st s sl' m') (g_free_put G s free') (insert s A)"
  using assms by (auto simp: lists_ok_def split: if_splits)

lemma live_upd:
  assumes "mp_slabs st s = Some sl" "slab_mem sl' = slab_mem sl"
  shows "live (slab_put st s sl' m') (g_free_put G s free') =
    {x. x \<in> slab_live (g_free_put G s free') s sl \<or> (\<exists>t tl. t \<noteq> s \<and> mp_slabs st t = Some tl \<and> x \<in> slab_live G t tl) \<or>
        (\<exists>a n. mp_chunks st a = Some n \<and> x = (a + HEADER_SIZE, n - HEADER_SIZE))}"
  using assms unfolding live_def slab_live_def by (auto split: if_splits)

lemma live_split:
  assumes "mp_slabs st s = Some sl"
  shows "live st G = {x. x \<in> slab_live G s sl \<or> (\<exists>t tl. t \<noteq> s \<and> mp_slabs st t = Some tl \<and> x \<in> slab_live G t tl) \<or>
        (\<exists>a n. mp_chunks st a = Some n \<and> x = (a + HEADER_SIZE, n - HEADER_SIZE))}"
  using assms unfolding live_def by (intro Collect_cong) (metis option.inject)

lemma slab_live_tail:
  assumes "g_fr G s = b # bs" "slab_ok m (g_cls G s) s sl (b # bs)"
  shows "slab_live (g_free_put G s bs) s sl = insert (b + head_room (g_cls G s), size_classes ! g_cls G s - head_room (g_cls G s)) (slab_live G s sl)"
proof -
  have "block_set (g_cls G s) (slab_mem sl) - set bs = insert b (block_set (g_cls G s) (slab_mem sl) - set (b # bs))"
    using assms(2) by (auto simp: slab_ok_def)
  then show ?thesis using assms(1) by (simp add: slab_live_def)
qed

text \<open>The entry of a block of one slab is not the entry of anything else.\<close>

lemma slab_entry_only:
  assumes P: "pool_core st G" and s: "mp_slabs st s = Some sl" "(p, r) \<in> slab_live G s sl"
  shows "\<not> (\<exists>t tl. t \<noteq> s \<and> mp_slabs st t = Some tl \<and> (p, r) \<in> slab_live G t tl)" "\<not> (\<exists>a n. mp_chunks st a = Some n \<and> (p, r) = (a + HEADER_SIZE, n - HEADER_SIZE))"
proof -
  have C: "content_ok st G" using P by (simp add: pool_core_def)
  have p: "p \<in> slab_region G t tl" if "mp_slabs st t = Some tl" "(p, r) \<in> slab_live G t tl" for t tl
    using slab_live_in [OF P that] by fastforce
  show "\<not> (\<exists>t tl. t \<noteq> s \<and> mp_slabs st t = Some tl \<and> (p, r) \<in> slab_live G t tl)"
    using p [OF s] p content_okD(2) [OF C s(1)] by blast
  show "\<not> (\<exists>a n. mp_chunks st a = Some n \<and> (p, r) = (a + HEADER_SIZE, n - HEADER_SIZE))"
  proof
    assume "\<exists>a n. mp_chunks st a = Some n \<and> (p, r) = (a + HEADER_SIZE, n - HEADER_SIZE)"
    then obtain a n where a: "mp_chunks st a = Some n" "p = a + HEADER_SIZE" by auto
    then have "p \<in> {a..<a + n}" using content_okD(3) [OF C a(1)] by (simp add: chunk_ok_def)
    then show False using p [OF s] content_okD(4) [OF C a(1) s(1)] by blast
  qed
qed

lemma take_block:
  assumes P: "pool_core st G" "lists_ok st G A" and s: "mp_slabs st s = Some sl" "g_fr G s = b # bs" "g_cls G s = c"
    and nx: "load_le 8 (mp_bytes st) b = Some nx"
    and m: "\<And>x. x < b \<or> b + head_room c \<le> x \<Longrightarrow> m' x = mp_bytes st x" "dom m' = dom (mp_bytes st)" "hdr_class c \<Longrightarrow> header_ok m' b c s"
  shows "pool_core (slab_put st s (sl\<lparr>free_list := nx, free_blocks := free_blocks sl - 1\<rparr>) m') (g_free_put G s bs)"
    "lists_ok (slab_put st s (sl\<lparr>free_list := nx, free_blocks := free_blocks sl - 1\<rparr>) m') (g_free_put G s bs) (insert s A)"
    "live (slab_put st s (sl\<lparr>free_list := nx, free_blocks := free_blocks sl - 1\<rparr>) m') (g_free_put G s bs) =
       insert (b + head_room c, size_classes ! c - head_room c) (live st G)"
    "(b + head_room c, size_classes ! c - head_room c) \<notin> live st G"
proof -
  let ?sl = "sl\<lparr>free_list := nx, free_blocks := free_blocks sl - 1\<rparr>"
  have C: "content_ok st G" using P by (simp add: pool_core_def)
  note ok = content_okD(1) [OF C s(1), unfolded s(2,3)]
  have c: "c < CLASS_COUNT" using core_class [OF P(1) s(1)] s(3) by simp
  have b: "b \<in> block_set c (slab_mem sl)" "b \<notin> set bs" using ok by (simp_all add: slab_ok_def)
  have hr: "head_room c < size_classes ! c" using class_facts(1,7) [OF c] by (auto simp: head_room_def)
  have "{b..<b + head_room c} \<subseteq> slab_region G s sl" using block_bounds [OF b(1) c] hr s(3) by (auto simp: slab_region_def)
  then have off: "m' x = mp_bytes st x" if "x \<notin> slab_region G s sl" for x
    using that by (intro m(1)) (metis atLeastLessThan_iff leI subsetD)
  have ok': "slab_ok m' c s ?sl bs" by (rule slab_ok_pop [OF ok c nx m refl])
  show core: "pool_core (slab_put st s ?sl m') (g_free_put G s bs)"
    by (rule core_upd [OF P(1) s(1) _ _ _ _ off m(2)]) (use ok' s(3) in simp_all)
  show "lists_ok (slab_put st s ?sl m') (g_free_put G s bs) (insert s A)" by (rule lists_upd [OF P(2)])
  show l: "live (slab_put st s ?sl m') (g_free_put G s bs) = insert (b + head_room c, size_classes ! c - head_room c) (live st G)"
    unfolding live_upd [OF s(1), of ?sl, simplified] live_split [OF s(1), of G] using slab_live_tail [OF s(2), of "mp_bytes st" sl] ok s(3) by auto
  show "(b + head_room c, size_classes ! c - head_room c) \<notin> live st G"
  proof
    assume a: "(b + head_room c, size_classes ! c - head_room c) \<in> live st G"
    have n: "(b + head_room c, size_classes ! c - head_room c) \<in> slab_live (g_free_put G s bs) s ?sl" using b s(3) by (auto simp: slab_live_def)
    have "(b + head_room c, size_classes ! c - head_room c) \<notin> slab_live G s sl" using s(2,3) by (auto simp: slab_live_def)
    moreover have "slab_live (g_free_put G s bs) t tl = slab_live G t tl" if "t \<noteq> s" for t tl using that by (simp add: slab_live_def)
    ultimately show False using a slab_entry_only [OF core _ n] unfolding live_split [OF s(1), of G] by auto
  qed
qed

lemma return_block:
  assumes P: "pool_core st G" "lists_ok st G A" and s: "mp_slabs st s = Some sl" "g_cls G s = c" and b: "b \<in> block_set c (slab_mem sl) - set (g_fr G s)"
    and m: "load_le 8 m' b = Some (free_list sl)" "\<And>x. x < b \<or> b + 8 \<le> x \<Longrightarrow> m' x = mp_bytes st x" "dom m' = dom (mp_bytes st)"
  shows "pool_core (slab_put st s (sl\<lparr>free_list := b, free_blocks := free_blocks sl + 1\<rparr>) m') (g_free_put G s (b # g_fr G s))"
    "lists_ok (slab_put st s (sl\<lparr>free_list := b, free_blocks := free_blocks sl + 1\<rparr>) m') (g_free_put G s (b # g_fr G s)) (insert s A)"
    "live (slab_put st s (sl\<lparr>free_list := b, free_blocks := free_blocks sl + 1\<rparr>) m') (g_free_put G s (b # g_fr G s)) =
       live st G - {(b + head_room c, size_classes ! c - head_room c)}"
proof -
  let ?sl = "sl\<lparr>free_list := b, free_blocks := free_blocks sl + 1\<rparr>" and ?fr = "b # g_fr G s"
  have C: "content_ok st G" using P by (simp add: pool_core_def)
  note ok = content_okD(1) [OF C s(1), unfolded s(2)]
  have c: "c < CLASS_COUNT" using core_class [OF P(1) s(1)] s(2) by simp
  have "{b..<b + 8} \<subseteq> slab_region G s sl" using block_bounds [of b, OF _ c] b class_facts(1) [OF c] s(2) by (fastforce simp: slab_region_def)
  then have off: "m' x = mp_bytes st x" if "x \<notin> slab_region G s sl" for x
    using that by (intro m(2)) (metis atLeastLessThan_iff leI subsetD)
  have ok': "slab_ok m' c s ?sl ?fr" by (rule slab_ok_push [OF ok c _ _ m refl]) (use b in simp_all)
  show "pool_core (slab_put st s ?sl m') (g_free_put G s ?fr)"
    by (rule core_upd [OF P(1) s(1) _ _ _ _ off m(3)]) (use ok' s(2) in simp_all)
  show "lists_ok (slab_put st s ?sl m') (g_free_put G s ?fr) (insert s A)" by (rule lists_upd [OF P(2)])
  have e: "(b + head_room c, size_classes ! c - head_room c) \<in> slab_live G s sl" using b s(2) by (auto simp: slab_live_def)
  have "slab_live (g_free_put G s ?fr) s sl = slab_live G s sl - {(b + head_room c, size_classes ! c - head_room c)}"
    using s(2) by (auto simp: slab_live_def)
  then show "live (slab_put st s ?sl m') (g_free_put G s ?fr) = live st G - {(b + head_room c, size_classes ! c - head_room c)}"
    unfolding live_upd [OF s(1), of ?sl, simplified] live_split [OF s(1), of G] using slab_entry_only [OF P(1) s(1) e] by auto
qed

subsection \<open>A slab changes its list\<close>

lemma same_live:
  assumes "same_content st st'" "g_cls G' = g_cls G" "g_fr G' = g_fr G"
  shows "live st' G' = live st G"
proof -
  have e: "slab_live G' s sl' = slab_live G s sl" if "unlinked sl' = unlinked sl" for s sl sl'
    using unlinked_fields [OF that] assms(2,3) by (simp add: slab_live_def)
  have a: "\<exists>sl. mp_slabs st s = Some sl \<and> x \<in> slab_live G s sl" if "mp_slabs st' s = Some sl'" "x \<in> slab_live G' s sl'" for s sl' x
    using same_content_slab [OF assms(1) that(1)] that(2) e by blast
  have b: "\<exists>sl'. mp_slabs st' s = Some sl' \<and> x \<in> slab_live G' s sl'" if "mp_slabs st s = Some sl" "x \<in> slab_live G s sl" for s sl x
    using same_content_slab' [OF assms(1) that(1)] that(2) e by blast
  have "(\<exists>s sl. mp_slabs st' s = Some sl \<and> x \<in> slab_live G' s sl) \<longleftrightarrow> (\<exists>s sl. mp_slabs st s = Some sl \<and> x \<in> slab_live G s sl)" for x
    using a b by blast
  moreover have "mp_chunks st' = mp_chunks st" using assms(1) by (simp add: same_content_def)
  ultimately show ?thesis unfolding live_def by simp
qed

lemma live_upd_pool [simp]: "live (upd_pool f c st) G = live st G"
  by (simp add: live_def)

lemma links_upd_pool:
  assumes "links_ok st G D" "c < CLASS_COUNT" "\<And>l p. list_head l (f p) = list_head l p"
  shows "links_ok (upd_pool f c st) G D"
proof -
  have "length (mp_classes st) = CLASS_COUNT" using assms(1) by (simp add: links_ok_def)
  then have "list_head l (mp_classes (upd_pool f c st) ! c') = list_head l (mp_classes st ! c')" for l c' using assms(2,3) by (simp add: upd_pool_nth)
  then show ?thesis using assms(1) by (simp add: links_ok_def)
qed

lemma content_upd_pool [simp]: "content_ok (upd_pool f c st) G = content_ok st G"
  by (simp add: content_ok_def)

lemma lists_upd_pool [simp]: "lists_ok (upd_pool f c st) G A = lists_ok st G A"
  by (simp add: lists_ok_def)

lemma count_empty_simps [simp]:
  "list_head l (count_empty n p) = list_head l p" "block_size (count_empty n p) = block_size p" "empty_slab_count (count_empty n p) = empty_slab_count p + n"
  by (cases l; simp add: count_empty_def)+

lemma count_empty_0 [simp]: "count_empty 0 p = p"
  by (simp add: count_empty_def)

definition list_shift :: "slab_list \<Rightarrow> slab_list \<Rightarrow> int" where
  "list_shift l l' = (if l' = EMPTY then 1 else if l = EMPTY then -1 else 0)"

lemma core_move:
  assumes P: "pool_core st G" "lists_ok st G {s}" and s: "mp_slabs st s = Some sl" "g_lst G s = l" "g_cls G s = c" "l' \<noteq> l"
  shows "\<exists>st1 st2. slab_remove l c s st = Some st1 \<and> slab_insert l' c s st1 = Some st2 \<and> mp_bytes st2 = mp_bytes st \<and>
    pool_core (upd_pool (count_empty (list_shift l l')) c st2) (g_move l' s G) \<and> lists_ok st2 (g_move l' s G) {s} \<and>
    (list_ok l' c (length (g_fr G s)) \<longrightarrow> lists_ok st2 (g_move l' s G) {}) \<and> live st2 (g_move l' s G) = live st G \<and>
    (\<exists>sl'. mp_slabs st2 s = Some sl' \<and> unlinked sl' = unlinked sl) \<and>
    (\<forall>x. mp_slabs st2 x = None \<longleftrightarrow> mp_slabs st x = None) \<and> mp_chunks st2 = mp_chunks st"
proof -
  have L: "links_ok st G {}" and C: "content_ok st G" and N: "counts_ok st G" using P(1) by (simp_all add: pool_core_def)
  have c: "c < CLASS_COUNT" using core_class [OF P(1) s(1)] s(3) by simp
  from slab_move_ok [OF L _ s(2,3), of l'] s(1) obtain st1 st2 where
    st: "slab_remove l c s st = Some st1" "slab_insert l' c s st1 = Some st2" "links_ok st2 (g_move l' s G) {}" "same_content st st2" by auto
  let ?st = "upd_pool (count_empty (list_shift l l')) c st2" and ?G = "g_move l' s G"
  have len: "length (mp_classes st2) = CLASS_COUNT" using st(3) by (simp add: links_ok_def)
  have pos: "0 < length (g_on G l c)" using links_ok_slab [OF L s(1)] s(2,3) by auto
  have "counts_ok ?st ?G"
    using N st(4) len c pos s(2-4) length_move [OF L s(1), of l']
    by (auto simp: counts_ok_def same_content_def upd_pool_nth list_shift_def int_ops)
  moreover have i: "list_ok (g_lst ?G x) (g_cls ?G x) (length (g_fr ?G x))" if "mp_slabs st2 x = Some xl" "x \<noteq> s" for x xl
    using P(2) same_content_slab [OF st(4) that(1)] that(2) by (auto simp: lists_ok_def)
  have lo: "lists_ok st2 ?G {s}" "list_ok l' c (length (g_fr G s)) \<Longrightarrow> lists_ok st2 ?G {}"
    using i s(3) by (fastforce simp: lists_ok_def)+
  moreover have "links_ok ?st ?G {}" by (rule links_upd_pool [OF st(3) c]) simp
  moreover have "content_ok ?st ?G" using content_same [OF C st(4)] by simp
  ultimately have "pool_core ?st ?G" by (simp add: pool_core_def)
  moreover have "live st2 ?G = live st G" by (rule same_live [OF st(4)]) simp_all
  moreover have "mp_slabs st2 x = None \<longleftrightarrow> mp_slabs st x = None" for x using st(4) unfolding same_content_def by (metis option.map_disc_iff)
  ultimately show ?thesis using st same_content_slab' [OF st(4) s(1)] lo by (auto simp: same_content_def)
qed

subsection \<open>A new slab\<close>

text \<open>What the addresses of the pool occupy, and what the system promises of a fresh region.\<close>

definition mp_used :: "mp_state \<Rightarrow> nat set" where
  "mp_used st = dom (mp_bytes st) \<union> (\<Union>s \<in> dom (mp_slabs st). {s..<s + SLAB_T_SIZE})"

definition os_fresh :: "mp_state \<Rightarrow> nat \<Rightarrow> nat \<Rightarrow> bool" where
  "os_fresh st r n \<longleftrightarrow> 0 < r \<and> r + n \<le> 2 ^ 64 \<and> {r..<r + n} \<inter> mp_used st = {}"

definition os_ok :: "os_ans \<Rightarrow> nat \<Rightarrow> mp_state \<Rightarrow> bool" where
  "os_ok a n st \<longleftrightarrow> SLAB_T_SIZE \<le> n \<and> (\<forall>r. os_malloc a = Some r \<longrightarrow> os_fresh st r n) \<and> (\<forall>r. os_mmap a = Some r \<longrightarrow> os_fresh st r (2 * SLAB_SIZE_ALIGNMENT))"

lemma os_fresh_slab: "os_fresh st r n \<Longrightarrow> SLAB_T_SIZE \<le> n \<Longrightarrow> mp_slabs st r = None"
  by (auto simp: os_fresh_def mp_used_def SLAB_T_SIZE_def disjoint_iff) (metis domI le_refl less_add_same_cancel1 less_le_trans not_None_eq zero_less_numeral)

lemma region_used:
  assumes "content_ok st G" "mp_slabs st s = Some sl"
  shows "slab_region G s sl \<subseteq> mp_used st"
proof
  fix x assume x: "x \<in> slab_region G s sl"
  note ok = content_okD(1) [OF assms]
  show "x \<in> mp_used st"
  proof (cases "slab_mem sl + first_block (g_cls G s) \<le> x")
    case True
    then have "x \<in> {slab_mem sl + first_block (g_cls G s)..<slab_mem sl + region_size (g_cls G s)}" using x by (simp add: slab_region_def)
    then show ?thesis using ok unfolding slab_ok_def mp_used_def by blast
  next
    case False
    then have "slab_mem sl = s" "x \<in> {s..<s + SLAB_T_SIZE}" using x ok by (auto simp: slab_region_def slab_ok_def first_block_def split: if_splits)
    then show ?thesis using assms(2) by (auto simp: mp_used_def)
  qed
qed

lemma link_blocks_ok:
  assumes "{cur..<cur + Suc j * sz} \<subseteq> dom m" "8 \<le> sz" "cur + Suc j * sz \<le> 2 ^ 64"
  shows "\<exists>m'. link_blocks sz j cur m = Some m' \<and> dom m' = dom m \<and> (\<forall>x. x < cur \<or> cur + Suc j * sz \<le> x \<longrightarrow> m' x = m x) \<and>
    free_chain m' cur (map (\<lambda>i. cur + i * sz) [0..<Suc j])"
  using assms
proof (induction j arbitrary: cur m)
  case 0
  have "{cur..<cur + 8} \<subseteq> {cur..<cur + Suc 0 * sz}" using 0 by auto
  then obtain m' where m': "store_le 8 m cur 0 = Some m'" using store_le_defined [of cur 8 m 0] 0 by blast
  then show ?case using store_le_dom [OF m'] store_le_other [OF m'] load_store_same [OF m'] 0 by auto
next
  case (Suc j)
  have sub: "{cur..<cur + 8} \<subseteq> {cur..<cur + Suc (Suc j) * sz}" "{cur + sz..<cur + sz + Suc j * sz} \<subseteq> {cur..<cur + Suc (Suc j) * sz}" using Suc.prems by auto
  then obtain m1 where m1: "store_le 8 m cur (cur + sz) = Some m1" using store_le_defined [of cur 8 m "cur + sz"] Suc.prems by blast
  have d1: "dom m1 = dom m" by (rule store_le_dom [OF m1])
  have dm: "{cur + sz..<cur + sz + Suc j * sz} \<subseteq> dom m1" using sub(2) Suc.prems(1) unfolding d1 by (rule order_trans)
  have lim: "cur + sz + Suc j * sz \<le> 2 ^ 64" using Suc.prems(3) by (simp add: algebra_simps)
  obtain m' where m': "link_blocks sz j (cur + sz) m1 = Some m'" "dom m' = dom m1" "\<forall>x. x < cur + sz \<or> cur + sz + Suc j * sz \<le> x \<longrightarrow> m' x = m1 x"
    "free_chain m' (cur + sz) (map (\<lambda>i. cur + sz + i * sz) [0..<Suc j])"
    using Suc.IH [OF dm Suc.prems(2)] lim by blast
  have "load_le 8 m' cur = load_le 8 m1 cur" by (rule load_le_cong) (use m'(3) Suc.prems(2) in auto)
  moreover have "load_le 8 m1 cur = Some (cur + sz)" by (rule load_store_same [OF m1]) (use Suc.prems(2,3) in \<open>simp add: algebra_simps\<close>)
  moreover have "map (\<lambda>i. cur + i * sz) [0..<Suc (Suc j)] = cur # map (\<lambda>i. cur + sz + i * sz) [0..<Suc j]"
    by (rule nth_equalityI) (auto simp: nth_Cons' algebra_simps simp del: upt_Suc)
  moreover have "m' x = m x" if "x < cur \<or> cur + Suc (Suc j) * sz \<le> x" for x
  proof -
    have "m' x = m1 x" using m'(3) that by (auto simp: algebra_simps)
    also have "\<dots> = m x" by (rule store_le_other [OF m1]) (use that Suc.prems(2) in auto)
    finally show ?thesis .
  qed
  ultimately show ?case using m1 m'(1,2,4) d1 by (auto simp del: upt_Suc mult_Suc)
qed

definition all_blocks :: "nat \<Rightarrow> nat \<Rightarrow> nat list" where
  "all_blocks c base = map (\<lambda>i. base + first_block c + i * size_classes ! c) [0..<block_count c]"

lemma all_blocks_props:
  assumes "c < CLASS_COUNT"
  shows "set (all_blocks c base) = block_set c base" "distinct (all_blocks c base)" "length (all_blocks c base) = block_count c"
proof -
  have "0 < size_classes ! c" using class_facts(1) [OF assms] by simp
  then show "distinct (all_blocks c base)" by (auto simp: all_blocks_def distinct_map inj_on_def)
qed (auto simp: all_blocks_def block_set_def)

lemma link_all:
  assumes c: "c < CLASS_COUNT" and m: "{base + first_block c..<base + region_size c} \<subseteq> dom m" "base + region_size c \<le> 2 ^ 64"
  shows "\<exists>m'. link_blocks (size_classes ! c) (block_count c - 1) (base + first_block c) m = Some m' \<and> dom m' = dom m \<and>
    (\<forall>x. x < base + first_block c \<or> base + region_size c \<le> x \<longrightarrow> m' x = m x) \<and> free_chain m' (base + first_block c) (all_blocks c base)"
proof -
  have n: "Suc (block_count c - 1) = block_count c" using class_facts(2) [OF c] by simp
  have f: "base + first_block c + block_count c * size_classes ! c \<le> base + region_size c" using class_facts(5) [OF c] by simp
  then have "{base + first_block c..<base + first_block c + Suc (block_count c - 1) * size_classes ! c} \<subseteq> dom m"
    unfolding n by (intro order_trans [OF _ m(1)]) auto
  from link_blocks_ok [OF this class_facts(1) [OF c]] show ?thesis using f m(2) unfolding n all_blocks_def by (meson le_trans)
qed

lemma meta_dom:
  assumes "slab_ok m c s sl free" "c < CLASS_COUNT"
  shows "slab_meta c (slab_mem sl) free \<subseteq> dom m"
proof -
  have D: "{slab_mem sl + first_block c..<slab_mem sl + region_size c} \<subseteq> dom m" using assms(1) by (simp add: slab_ok_def)
  have "{b..<b + n} \<subseteq> dom m" if "b \<in> block_set c (slab_mem sl)" "n \<le> size_classes ! c" for b n
    by (rule order_trans [OF _ D]) (use block_bounds [OF that(1) assms(2)] that(2) in auto)
  moreover have "head_room c \<le> size_classes ! c" using class_facts(7) [OF assms(2)] by (auto simp: head_room_def)
  moreover have "set free \<subseteq> block_set c (slab_mem sl)" using assms(1) by (simp add: slab_ok_def)
  ultimately show ?thesis using class_facts(1) [OF assms(2)] unfolding slab_meta_def by blast
qed

text \<open>A slab on a fresh region joins the store.\<close>

lemma content_add:
  assumes C: "content_ok st G" and cl: "\<And>s sl. mp_slabs st s = Some sl \<Longrightarrow> g_cls G s < CLASS_COUNT" and s: "mp_slabs st s = None" "slab_ok m' c s sl free'"
    and r: "{slab_mem sl..<slab_mem sl + region_size c} \<inter> mp_used st = {}" and m: "\<And>x. x \<in> dom (mp_bytes st) \<Longrightarrow> m' x = mp_bytes st x"
  shows "content_ok (slab_put st s sl m') (G\<lparr>g_cls := (g_cls G)(s := c), g_fr := (g_fr G)(s := free')\<rparr>)"
proof -
  let ?st = "slab_put st s sl m'" and ?G = "G\<lparr>g_cls := (g_cls G)(s := c), g_fr := (g_fr G)(s := free')\<rparr>"
  have d: "dom (mp_bytes st) \<subseteq> dom m'" using m by fastforce
  have reg: "slab_region ?G s sl = {slab_mem sl..<slab_mem sl + region_size c}" "\<And>x xl. x \<noteq> s \<Longrightarrow> slab_region ?G x xl = slab_region G x xl"
    by (simp_all add: slab_region_def)
  have new: "slab_region ?G s sl \<inter> slab_region G x xl = {}" if "mp_slabs st x = Some xl" for x xl
    using region_used [OF C that] r unfolding reg by blast
  have "slab_ok m' (g_cls ?G x) x xl (g_fr ?G x)" if x: "mp_slabs ?st x = Some xl" for x xl
  proof (cases "x = s")
    case False
    then have xs: "mp_slabs st x = Some xl" using x by simp
    note ok = content_okD(1) [OF C xs]
    have "slab_ok m' (g_cls G x) x xl (g_fr G x)"
      by (rule slab_ok_frame [OF ok]) (use m d meta_dom [OF ok cl [OF xs]] in blast)+
    then show ?thesis using False by simp
  qed (use x s in simp)
  moreover have "chunk_ok m' a n" if a: "mp_chunks st a = Some n" for a n
  proof (rule chunk_ok_frame [OF content_okD(3) [OF C a]])
    fix y assume "a \<le> y" "y < a + HEADER_SIZE"
    then have "y \<in> {a..<a + n}" using content_okD(3) [OF C a] by (auto simp: chunk_ok_def)
    then show "m' y = mp_bytes st y" using content_okD(3) [OF C a] m unfolding chunk_ok_def by blast
  qed (use d in auto)
  moreover have "slab_region ?G x xl \<inter> slab_region ?G y yl = {}" if "mp_slabs ?st x = Some xl" "mp_slabs ?st y = Some yl" "x \<noteq> y" for x xl y yl
    using that new [of x xl] new [of y yl] content_okD(2) [OF C, of x xl y yl] reg(2) by (cases "x = s"; cases "y = s") auto
  moreover have "{a..<a + n} \<inter> slab_region ?G x xl = {}" if a: "mp_chunks st a = Some n" and x: "mp_slabs ?st x = Some xl" for a n x xl
  proof (cases "x = s")
    case True
    have "{a..<a + n} \<subseteq> mp_used st" using content_okD(3) [OF C a] by (auto simp: chunk_ok_def mp_used_def)
    moreover have "xl = sl" using True x by simp
    ultimately show ?thesis using r unfolding True reg(1) [symmetric] by blast
  next
    case False
    then show ?thesis using content_okD(4) [OF C a, of x xl] x reg(2) by simp
  qed
  ultimately show ?thesis using content_okD(5) [OF C] unfolding content_ok_def by auto
qed

lemma links_add:
  assumes "links_ok st G {}" "mp_slabs st s = None"
  shows "links_ok (slab_put st s sl m') (G\<lparr>g_cls := (g_cls G)(s := c), g_fr := f\<rparr>) {s}"
proof -
  have n: "s \<notin> set (g_on G l c')" if "c' < CLASS_COUNT" for l c' using dll_mem [OF links_okD(1) [OF assms(1) that], of s l] assms(2) by auto
  show ?thesis
  proof (rule links_okI)
    fix l c' assume c': "c' < CLASS_COUNT"
    have "dll ((mp_slabs st)(s \<mapsto> sl)) 0 (list_head l (mp_classes st ! c')) (g_on G l c')"
      using links_okD(1) [OF assms(1) c', of l] n [OF c', of l] by (subst dll_cong [of _ _ "mp_slabs st"]) auto
    then show "dll (mp_slabs (slab_put st s sl m')) 0 (list_head l (mp_classes (slab_put st s sl m') ! c')) (g_on (G\<lparr>g_cls := (g_cls G)(s := c), g_fr := f\<rparr>) l c') \<and>
        distinct (g_on (G\<lparr>g_cls := (g_cls G)(s := c), g_fr := f\<rparr>) l c')" using links_okD(2) [OF assms(1) c', of l] by simp
  next
    fix l c' x assume "c' < CLASS_COUNT" "x \<in> set (g_on (G\<lparr>g_cls := (g_cls G)(s := c), g_fr := f\<rparr>) l c')"
    then show "g_lst (G\<lparr>g_cls := (g_cls G)(s := c), g_fr := f\<rparr>) x = l \<and> g_cls (G\<lparr>g_cls := (g_cls G)(s := c), g_fr := f\<rparr>) x = c' \<and> x \<notin> {s}"
      using links_ok_on [OF assms(1), of c' x l] n [of c' l] by auto
  next
    fix x xl assume "mp_slabs (slab_put st s sl m') x = Some xl" "x \<notin> {s}"
    then show "g_cls (G\<lparr>g_cls := (g_cls G)(s := c), g_fr := f\<rparr>) x < CLASS_COUNT \<and>
        x \<in> set (g_on (G\<lparr>g_cls := (g_cls G)(s := c), g_fr := f\<rparr>) (g_lst (G\<lparr>g_cls := (g_cls G)(s := c), g_fr := f\<rparr>) x) (g_cls (G\<lparr>g_cls := (g_cls G)(s := c), g_fr := f\<rparr>) x))"
      using links_ok_slab [OF assms(1), of x] by simp
  qed (use assms(1) in \<open>simp add: links_ok_def\<close>)
qed

text \<open>The new slab goes to the list of the empty ones.\<close>

definition g_new :: "nat \<Rightarrow> nat \<Rightarrow> nat \<Rightarrow> pool_g \<Rightarrow> pool_g" where
  "g_new c s base G = g_ins EMPTY c s (G\<lparr>g_cls := (g_cls G)(s := c), g_fr := (g_fr G)(s := all_blocks c base)\<rparr>)"

lemma pool_add:
  assumes P: "pool_ok st G" and s: "mp_slabs st s = None" "slab_ok m' c s sl (all_blocks c (slab_mem sl))" and c: "c < CLASS_COUNT"
    and r: "{slab_mem sl..<slab_mem sl + region_size c} \<inter> mp_used st = {}" and m: "\<And>x. x \<in> dom (mp_bytes st) \<Longrightarrow> m' x = mp_bytes st x"
  shows "\<exists>st2. slab_insert EMPTY c s (slab_put st s sl m') = Some st2 \<and> pool_ok (upd_pool (count_empty 1) c st2) (g_new c s (slab_mem sl) G) \<and>
    live st2 (g_new c s (slab_mem sl) G) = live st G \<and> mp_bytes st2 = m' \<and> (\<exists>sl'. mp_slabs st2 s = Some sl' \<and> unlinked sl' = unlinked sl)"
proof -
  let ?st = "slab_put st s sl m'" and ?G = "G\<lparr>g_cls := (g_cls G)(s := c), g_fr := (g_fr G)(s := all_blocks c (slab_mem sl))\<rparr>"
    and ?G' = "g_new c s (slab_mem sl) G"
  have L: "links_ok st G {}" and C: "content_ok st G" and N: "counts_ok st G" and core: "pool_core st G" and I: "lists_ok st G {}"
    using P by (simp_all add: pool_ok_def pool_core_def)
  have LA: "links_ok ?st ?G {s}" by (rule links_add [OF L s(1)])
  have "0 < s" using s(2) by (simp add: slab_ok_def)
  with slab_insert_ok [OF LA, of s c EMPTY] c obtain st2 where
    st2: "slab_insert EMPTY c s ?st = Some st2" "links_ok st2 ?G' {}" "same_content ?st st2" by (auto simp: g_new_def)
  have eq: "g_cls ?G' = g_cls ?G" "g_fr ?G' = g_fr ?G" "g_lst ?G' = (g_lst G)(s := EMPTY)"
    and on: "g_on ?G' l c' = (if l = EMPTY \<and> c' = c then s # g_on G EMPTY c else g_on G l c')" for l c' by (auto simp: g_new_def g_ins_def)
  have "content_ok st2 ?G'" using content_same [OF content_add [OF C core_class [OF core] s r m] st2(3)] eq by simp
  moreover have "length (mp_classes st2) = CLASS_COUNT" using st2(2) by (simp add: links_ok_def)
  then have "counts_ok (upd_pool (count_empty 1) c st2) ?G'"
    using N st2(3) c by (auto simp: counts_ok_def same_content_def upd_pool_nth on)
  moreover have "lists_ok st2 ?G' {}" unfolding lists_ok_def
  proof (intro allI impI)
    fix x xl assume "mp_slabs st2 x = Some xl"
    then obtain xl' where "mp_slabs ?st x = Some xl'" using same_content_slab [OF st2(3)] by blast
    then show "list_ok (g_lst ?G' x) (g_cls ?G' x) (length (g_fr ?G' x))"
      using I all_blocks_props(3) [OF c] unfolding eq by (cases "x = s") (auto simp: lists_ok_def)
  qed
  moreover have "links_ok (upd_pool (count_empty 1) c st2) ?G' {}" by (rule links_upd_pool [OF st2(2) c]) simp
  ultimately have "pool_ok (upd_pool (count_empty 1) c st2) ?G'" by (simp add: pool_ok_def pool_core_def)
  moreover have "live st2 ?G' = live ?st ?G" by (rule same_live [OF st2(3)]) (simp_all add: eq)
  moreover have "live ?st ?G = live st G"
  proof -
    have e: "slab_live ?G s sl = {}" "\<And>y yl. y \<noteq> s \<Longrightarrow> slab_live ?G y yl = slab_live G y yl"
      using all_blocks_props(1) [OF c] by (simp_all add: slab_live_def)
    have "(\<exists>y yl. mp_slabs ?st y = Some yl \<and> x \<in> slab_live ?G y yl) \<longleftrightarrow> (\<exists>y yl. mp_slabs st y = Some yl \<and> x \<in> slab_live G y yl)" for x
    proof
      assume "\<exists>y yl. mp_slabs ?st y = Some yl \<and> x \<in> slab_live ?G y yl"
      then obtain y yl where y: "mp_slabs ?st y = Some yl" "x \<in> slab_live ?G y yl" by blast
      then have "y \<noteq> s" using e(1) by auto
      then show "\<exists>y yl. mp_slabs st y = Some yl \<and> x \<in> slab_live G y yl" using y e(2) by auto
    next
      assume "\<exists>y yl. mp_slabs st y = Some yl \<and> x \<in> slab_live G y yl"
      then obtain y yl where y: "mp_slabs st y = Some yl" "x \<in> slab_live G y yl" "y \<noteq> s" using s(1) by fastforce
      then show "\<exists>y yl. mp_slabs ?st y = Some yl \<and> x \<in> slab_live ?G y yl" using e(2) by (intro exI [of _ y] exI [of _ yl]) simp
    qed
    then show ?thesis unfolding live_def by simp
  qed
  moreover have "mp_bytes st2 = m'" using st2(3) by (simp add: same_content_def)
  ultimately show ?thesis using st2(1) same_content_slab' [OF st2(3), of s sl] by auto
qed

lemma align_ok:
  assumes "os_mmap a = Some raw" "os_fresh st raw (2 * SLAB_SIZE_ALIGNMENT)"
  shows "\<exists>al. alignment_to_slab_size a SLAB_SIZE_ALIGNMENT st = (Some al, st\<lparr>mp_bytes := map_region (mp_bytes st) al SLAB_SIZE_ALIGNMENT 0\<rparr>) \<and>
    SLAB_SIZE_ALIGNMENT dvd al \<and> raw \<le> al \<and> al + SLAB_SIZE_ALIGNMENT \<le> raw + 2 * SLAB_SIZE_ALIGNMENT"
proof -
  let ?A = SLAB_SIZE_ALIGNMENT
  define al where "al = (raw + (?A - 1)) div ?A * ?A"
  have A: "0 < ?A" "and ?A (?A - 1) = 0" by (simp_all add: SLAB_SIZE_ALIGNMENT_def)
  have "al + (raw + (?A - 1)) mod ?A = raw + (?A - 1)" unfolding al_def by (rule div_mult_mod_eq)
  moreover have "(raw + (?A - 1)) mod ?A < ?A" by (rule mod_less_divisor [OF A(1)])
  ultimately have b: "raw \<le> al" "al < raw + ?A" using A(1) by linarith+
  have "?A dvd al" by (simp add: al_def)
  note al = this b
  have fresh: "mp_bytes st x = None" if "raw \<le> x" "x < raw + 2 * ?A" for x
    using assms(2) that unfolding os_fresh_def mp_used_def by fastforce
  let ?m1 = "map_region (mp_bytes st) raw (?A * 2) 0"
  let ?m2 = "if al - raw > 0 then unmap_region ?m1 raw (al - raw) else ?m1"
  let ?m3 = "if ?A * 2 - ?A - (al - raw) > 0 then unmap_region ?m2 (al + ?A) (?A * 2 - ?A - (al - raw)) else ?m2"
  have "?m3 x = map_region (mp_bytes st) al ?A 0 x" for x
    using al(2,3) fresh [of x] by (auto simp: map_region_def unmap_region_def)
  then have m3: "?m3 = map_region (mp_bytes st) al ?A 0" ..
  have "alignment_to_slab_size a ?A st = (Some al, st\<lparr>mp_bytes := map_region (mp_bytes st) al ?A 0\<rparr>)"
    unfolding alignment_to_slab_size_def assms(1) option.case Let_def al_def [symmetric] m3 A(2) by simp
  then show ?thesis using al by auto
qed

lemma map_region_dom: "dom (map_region m a n v) = dom m \<union> {a..<a + n}"
  by (auto simp: map_region_def dom_def)

lemma unmap_region_dom: "dom (unmap_region m a n) = dom m - {a..<a + n}"
  by (auto simp: unmap_region_def dom_def)

text \<open>What a successful \<open>add_pool\<close> leaves behind.\<close>

definition grown :: "mp_state \<Rightarrow> pool_g \<Rightarrow> nat \<Rightarrow> mp_state \<Rightarrow> bool" where
  "grown st G c st' \<longleftrightarrow> (\<exists>G'. pool_ok st' G' \<and> live st' G' = live st G \<and> g_on G' EMPTY c \<noteq> [] \<and>
     (\<forall>x \<in> dom (mp_bytes st). mp_bytes st' x = mp_bytes st x))"

lemma pool_add_grown:
  assumes P: "pool_ok st G" and s: "mp_slabs st s = None" "slab_ok m' c s sl (all_blocks c (slab_mem sl))" and c: "c < CLASS_COUNT"
    and r: "{slab_mem sl..<slab_mem sl + region_size c} \<inter> mp_used st = {}" and m: "\<And>x. x \<in> dom (mp_bytes st) \<Longrightarrow> m' x = mp_bytes st x"
  shows "\<exists>st2. slab_insert EMPTY c s (slab_put st s sl m') = Some st2 \<and> grown st G c (upd_pool (count_empty 1) c st2)"
proof -
  obtain st2 where "slab_insert EMPTY c s (slab_put st s sl m') = Some st2" "pool_ok (upd_pool (count_empty 1) c st2) (g_new c s (slab_mem sl) G)"
    "live st2 (g_new c s (slab_mem sl) G) = live st G" "mp_bytes st2 = m'" using pool_add [OF P s c r m] by blast
  then show ?thesis using m unfolding grown_def
    by (intro exI [of _ st2] conjI exI [of _ "g_new c s (slab_mem sl) G"]) (simp_all add: g_new_def g_ins_def)
qed

lemma add_pool_with_header_ok:
  assumes P: "pool_ok st G" and os: "os_ok a n st" and c: "c < CLASS_COUNT" "hdr_class c"
  shows "add_pool_with_header a c st = Some (-2, st) \<and> (os_malloc a = None \<or> os_mmap a = None) \<or> (\<exists>st'. add_pool_with_header a c st = Some (0, st') \<and> grown st G c st')"
proof (cases "os_malloc a = None \<or> os_mmap a = None")
  case True
  then show ?thesis by (auto simp: add_pool_with_header_def split: option.splits)
next
  case False
  then obtain slab region where a: "os_malloc a = Some slab" "os_mmap a = Some region" by auto
  have f: "os_fresh st slab n" "SLAB_T_SIZE \<le> n" "os_fresh st region (2 * SLAB_SIZE_ALIGNMENT)" using os a by (simp_all add: os_ok_def)
  have rs: "region_size c = slab_classes ! c" "first_block c = 0" "block_count c = slab_classes ! c div size_classes ! c" using c(2) by (simp_all add: class_defs)
  have bs: "block_size (mp_classes st ! c) = size_classes ! c" using P c by (simp add: pool_ok_def pool_core_def counts_ok_def)
  let ?m = "map_region (mp_bytes st) region (slab_classes ! c) 0"
  have lim: "region + region_size c \<le> 2 ^ 64" using f(3) class_facts(6) [OF c(1)] by (simp add: os_fresh_def)
  obtain m' where m': "link_blocks (size_classes ! c) (block_count c - 1) region ?m = Some m'" "dom m' = dom ?m"
    "\<forall>x. x < region \<or> region + region_size c \<le> x \<longrightarrow> m' x = ?m x" "free_chain m' region (all_blocks c region)"
    using link_all [OF c(1), of region ?m] lim rs by (auto simp: map_region_dom)
  let ?sl = "zero_slab\<lparr>slab_mem := region, total_blocks := int (block_count c), free_blocks := int (block_count c), slab_magic := 0, free_list := region\<rparr>"
  have r: "{region..<region + region_size c} \<inter> mp_used st = {}" using f(3) class_facts(6) [OF c(1)] unfolding os_fresh_def by fastforce
  have "slab_ok m' c slab ?sl (all_blocks c (slab_mem ?sl))"
    using all_blocks_props [OF c(1), of region] m'(2,4) c(2) f(1,2) lim f(3) rs
    by (auto simp: slab_ok_def map_region_dom os_fresh_def SLAB_T_SIZE_def)
  moreover have "m' x = mp_bytes st x" if "x \<in> dom (mp_bytes st)" for x
  proof -
    have "x \<notin> {region..<region + region_size c}" using r that by (auto simp: mp_used_def)
    then show ?thesis using m'(3) rs(1) by (auto simp: map_region_def)
  qed
  ultimately obtain st2 where "slab_insert EMPTY c slab (slab_put st slab ?sl m') = Some st2" "grown st G c (upd_pool (count_empty 1) c st2)"
    using pool_add_grown [OF P os_fresh_slab [OF f(1,2)] _ c(1), of m' ?sl] r by auto
  then show ?thesis using m'(1) bs rs(3) a by (simp add: add_pool_with_header_def Let_def)
qed

lemma add_pool_without_header_ok:
  assumes P: "pool_ok st G" and os: "os_ok a n st" and c: "c < CLASS_COUNT" "\<not> hdr_class c"
  shows "add_pool_without_header a c st = Some (-2, st) \<and> os_mmap a = None \<or> (\<exists>st'. add_pool_without_header a c st = Some (0, st') \<and> grown st G c st')"
proof (cases "os_mmap a")
  case None
  then show ?thesis by (simp add: add_pool_without_header_def alignment_to_slab_size_def)
next
  case (Some raw)
  let ?A = SLAB_SIZE_ALIGNMENT
  have f: "os_fresh st raw (2 * ?A)" using os Some by (simp add: os_ok_def)
  obtain al where al: "alignment_to_slab_size a ?A st = (Some al, st\<lparr>mp_bytes := map_region (mp_bytes st) al ?A 0\<rparr>)"
    "?A dvd al" "raw \<le> al" "al + ?A \<le> raw + 2 * ?A" using align_ok [OF Some f] by blast
  have up: "ALIGN_UP SLAB_T_SIZE = SLAB_T_SIZE" by (simp add: ALIGN_UP_def SLAB_T_SIZE_def)
  have rs: "region_size c = ?A" "first_block c = SLAB_T_SIZE" "block_count c = (?A - SLAB_T_SIZE) div size_classes ! c" using c(2) by (simp_all add: class_defs)
  let ?m = "unmap_region (map_region (mp_bytes st) al ?A 0) al SLAB_T_SIZE"
  have lim: "al + region_size c \<le> 2 ^ 64" using f al(4) rs(1) by (simp add: os_fresh_def)
  have dm: "{al + first_block c..<al + region_size c} \<subseteq> dom ?m" unfolding rs by (auto simp: map_region_dom unmap_region_dom)
  obtain m' where m': "link_blocks (size_classes ! c) (block_count c - 1) (al + SLAB_T_SIZE) ?m = Some m'" "dom m' = dom ?m"
    "\<forall>x. x < al + SLAB_T_SIZE \<or> al + ?A \<le> x \<longrightarrow> m' x = ?m x" "free_chain m' (al + SLAB_T_SIZE) (all_blocks c al)"
    using link_all [OF c(1) dm lim] unfolding rs(1,2) by blast
  let ?sl = "zero_slab\<lparr>slab_classid := c, slab_magic := SLAB_MAGIC, slab_mem := al, total_blocks := int (block_count c), free_blocks := int (block_count c), free_list := al + SLAB_T_SIZE\<rparr>"
  have sub: "{al..<al + ?A} \<subseteq> {raw..<raw + 2 * ?A}" using al(3,4) by auto
  then have r: "{al..<al + region_size c} \<inter> mp_used st = {}" using f unfolding rs(1) os_fresh_def by blast
  have pos: "0 < al" "al < 2 ^ 64" using f al(3) lim rs(1) by (auto simp: os_fresh_def SLAB_SIZE_ALIGNMENT_def)
  have no: "mp_slabs st al = None"
  proof (rule ccontr)
    assume "mp_slabs st al \<noteq> None"
    then have "al \<in> mp_used st" by (auto simp: mp_used_def SLAB_T_SIZE_def)
    moreover have "al \<in> {al..<al + region_size c}" using rs(1) by (simp add: SLAB_SIZE_ALIGNMENT_def)
    ultimately show False using r by blast
  qed
  have "{al + first_block c..<al + region_size c} \<subseteq> dom m'" using dm m'(2) by simp
  then have "slab_ok m' c al ?sl (all_blocks c (slab_mem ?sl))"
    using all_blocks_props [OF c(1), of al] m'(4) c(2) pos lim al(2) by (auto simp: slab_ok_def)
  moreover have "m' x = mp_bytes st x" if "x \<in> dom (mp_bytes st)" for x
  proof -
    have "x \<notin> {al..<al + ?A}" using r that rs(1) by (auto simp: mp_used_def)
    then show ?thesis using m'(3) by (auto simp: map_region_def unmap_region_def SLAB_T_SIZE_def SLAB_SIZE_ALIGNMENT_def)
  qed
  ultimately obtain st2 where "slab_insert EMPTY c al (slab_put st al ?sl m') = Some st2" "grown st G c (upd_pool (count_empty 1) c st2)"
    using pool_add_grown [OF P no _ c(1), of m' ?sl] r by auto
  then show ?thesis using m'(1) rs(3) al(1) up by (simp add: add_pool_without_header_def Let_def)
qed

lemma add_pool_ok:
  assumes "pool_ok st G" "os_ok a n st" "c < CLASS_COUNT"
  shows "add_pool a c st = Some (-3, st) \<and> (os_malloc a = None \<or> os_mmap a = None) \<or> (\<exists>st'. add_pool a c st = Some (0, st') \<and> grown st G c st')"
  using add_pool_with_header_ok [OF assms] add_pool_without_header_ok [OF assms] by (auto simp: add_pool_def hdr_class_def not_le)

text \<open>A slab with a free block, on the list of the partly used ones.\<close>

definition slab_ready :: "mp_state \<Rightarrow> pool_g \<Rightarrow> nat \<Rightarrow> nat \<Rightarrow> mp_state \<Rightarrow> bool" where
  "slab_ready st G c s st' \<longleftrightarrow> (\<exists>G' sl. pool_core st' G' \<and> lists_ok st' G' {s} \<and> live st' G' = live st G \<and> mp_slabs st' s = Some sl \<and>
     g_lst G' s = PARTIAL \<and> g_cls G' s = c \<and> g_fr G' s \<noteq> [] \<and> 0 < s \<and> (\<forall>x \<in> dom (mp_bytes st). mp_bytes st' x = mp_bytes st x))"

lemma take_empty_ok:
  assumes P: "pool_ok st G" and c: "c < CLASS_COUNT" "g_on G EMPTY c \<noteq> []"
  shows "\<exists>s st'. take_empty c st = Some (s, st') \<and> slab_ready st G c s st'"
proof -
  have L: "links_ok st G {}" and core: "pool_core st G" and I: "lists_ok st G {}" using P by (simp_all add: pool_ok_def pool_core_def)
  define s where "s = hd (g_on G EMPTY c)"
  have h: "empty_slabs (mp_classes st ! c) = s" using dll_head [OF links_okD(1) [OF L c(1), of EMPTY]] c(2) by (simp add: s_def)
  have m: "s \<in> set (g_on G EMPTY c)" using c(2) by (simp add: s_def)
  then obtain sl where sl: "mp_slabs st s = Some sl" "0 < s" using dll_mem [OF links_okD(1) [OF L c(1), of EMPTY]] by fastforce
  have g: "g_lst G s = EMPTY" "g_cls G s = c" using links_ok_on [OF L c(1) m] by auto
  have "length (g_fr G s) = block_count c" using I sl(1) g by (fastforce simp: lists_ok_def)
  then have fr: "g_fr G s \<noteq> []" using class_facts(2) [OF c(1)] by auto
  have "lists_ok st G {s}" using I by (simp add: lists_ok_def)
  from core_move [OF core this sl(1) g, of PARTIAL] obtain st1 st2 where
    st: "slab_remove EMPTY c s st = Some st1" "slab_insert PARTIAL c s st1 = Some st2" "mp_bytes st2 = mp_bytes st"
      "pool_core (upd_pool (count_empty (-1)) c st2) (g_move PARTIAL s G)" "lists_ok st2 (g_move PARTIAL s G) {s}"
      "live st2 (g_move PARTIAL s G) = live st G" "\<exists>sl'. mp_slabs st2 s = Some sl'" by (auto simp: list_shift_def)
  have "slab_ready st G c s (upd_pool (count_empty (-1)) c st2)"
    using st(3-7) sl(2) fr g unfolding slab_ready_def by (intro exI [of _ "g_move PARTIAL s G"]) auto
  then show ?thesis using st(1,2) h by (simp add: take_empty_def)
qed

lemma slab_malloc_ok:
  assumes P: "pool_ok st G" and os: "os_ok a n st" and c: "c < CLASS_COUNT"
  shows "slab_malloc a c st = Some (0, st) \<and> (os_malloc a = None \<or> os_mmap a = None) \<or> (\<exists>s st'. slab_malloc a c st = Some (s, st') \<and> slab_ready st G c s st')"
proof -
  have L: "links_ok st G {}" and core: "pool_core st G" and I: "lists_ok st G {}" using P by (simp_all add: pool_ok_def pool_core_def)
  note hd = dll_head [OF links_okD(1) [OF L c]]
  consider "g_on G PARTIAL c \<noteq> []" | "g_on G PARTIAL c = []" "g_on G EMPTY c \<noteq> []" | "g_on G PARTIAL c = []" "g_on G EMPTY c = []" by blast
  then show ?thesis
  proof cases
    case 1
    define s where "s = hd (g_on G PARTIAL c)"
    have m: "s \<in> set (g_on G PARTIAL c)" using 1 by (simp add: s_def)
    then obtain sl where sl: "mp_slabs st s = Some sl" "0 < s" using dll_mem [OF links_okD(1) [OF L c, of PARTIAL]] by fastforce
    have g: "g_lst G s = PARTIAL" "g_cls G s = c" using links_ok_on [OF L c m] by auto
    have "list_ok PARTIAL c (length (g_fr G s))" using I sl(1) g by (fastforce simp: lists_ok_def)
    moreover have "lists_ok st G {s}" using I by (simp add: lists_ok_def)
    ultimately have "slab_ready st G c s st" unfolding slab_ready_def using core sl g by (intro exI [of _ G]) auto
    moreover have "partial_slabs (mp_classes st ! c) = s" using hd [of PARTIAL] 1 by (simp add: s_def)
    ultimately show ?thesis using sl(2) c by (simp add: slab_malloc_def Let_def)
  next
    case 2
    have "empty_slabs (mp_classes st ! c) \<noteq> 0" using hd [of EMPTY] 2 dll_mem [OF links_okD(1) [OF L c, of EMPTY], of "hd (g_on G EMPTY c)"] by simp
    then show ?thesis using take_empty_ok [OF P c 2(2)] hd [of PARTIAL] 2(1) c by (simp add: slab_malloc_def Let_def)
  next
    case 3
    then have run: "slab_malloc a c st = do { (r, st) \<leftarrow> add_pool a c st; if r \<noteq> 0 then Some (0, st) else take_empty c st }"
      using hd [of PARTIAL] hd [of EMPTY] c by (simp add: slab_malloc_def Let_def)
    from add_pool_ok [OF P os c] show ?thesis
    proof
      assume "\<exists>st'. add_pool a c st = Some (0, st') \<and> grown st G c st'"
      then obtain st' G' where st': "add_pool a c st = Some (0, st')" "pool_ok st' G'" "live st' G' = live st G" "g_on G' EMPTY c \<noteq> []"
        "\<forall>x \<in> dom (mp_bytes st). mp_bytes st' x = mp_bytes st x" by (auto simp: grown_def)
      from take_empty_ok [OF st'(2) c st'(4)] obtain s st'' where s: "take_empty c st' = Some (s, st'')" "slab_ready st' G' c s st''" by blast
      have "slab_ready st G c s st''" using s(2) st'(3,5) unfolding slab_ready_def by (metis domD domI)
      then show ?thesis using s(1) st'(1) run by simp
    qed (use run in simp)
  qed
qed

subsection \<open>Allocation\<close>

lemma live_vs_block:
  assumes P: "pool_core st G" and q: "(q, k) \<in> live st G" and s: "mp_slabs st s = Some sl" "g_cls G s = c"
    and b: "b \<in> block_set c (slab_mem sl)" "(q, k) \<noteq> (b + head_room c, size_classes ! c - head_room c)"
  shows "{q..<q + k} \<inter> {b..<b + size_classes ! c} = {}"
proof -
  have C: "content_ok st G" using P by (simp add: pool_core_def)
  have c: "c < CLASS_COUNT" using core_class [OF P s(1)] s(2) by simp
  have br: "{b..<b + size_classes ! c} \<subseteq> slab_region G s sl" using block_bounds [OF b(1) c] s(2) by (auto simp: slab_region_def)
  from q consider t tl where "mp_slabs st t = Some tl" "(q, k) \<in> slab_live G t tl" | a n where "mp_chunks st a = Some n" "q = a + HEADER_SIZE" "k = n - HEADER_SIZE"
    by (auto simp: live_def)
  then show ?thesis
  proof cases
    case 1
    from slab_live_in [OF P 1] obtain b' where b': "b' \<in> block_set (g_cls G t) (slab_mem tl)" "q = b' + head_room (g_cls G t)"
      "q + k = b' + size_classes ! g_cls G t" "{b'..<b' + size_classes ! g_cls G t} \<subseteq> slab_region G t tl" by blast
    then have qr: "{q..<q + k} \<subseteq> {b'..<b' + size_classes ! g_cls G t}" by auto
    show ?thesis
    proof (cases "t = s")
      case True
      then have "tl = sl" "b' \<noteq> b" using 1 s b(2) b' by (auto simp: slab_live_def)
      then show ?thesis using block_apart [of b' c "slab_mem sl" b] b' b(1) True s(2) by auto
    next
      case False
      then show ?thesis using content_okD(2) [OF C 1(1) s(1)] b'(4) qr br by blast
    qed
  next
    case 2
    then have "{q..<q + k} \<subseteq> {a..<a + n}" using content_okD(3) [OF C 2(1)] by (auto simp: chunk_ok_def)
    then show ?thesis using content_okD(4) [OF C 2(1) s(1)] br by blast
  qed
qed

lemma live_dom:
  assumes P: "pool_core st G" and q: "(q, k) \<in> live st G"
  shows "{q..<q + k} \<subseteq> dom (mp_bytes st)"
proof -
  have C: "content_ok st G" using P by (simp add: pool_core_def)
  from q consider t tl where "mp_slabs st t = Some tl" "(q, k) \<in> slab_live G t tl" | a n where "mp_chunks st a = Some n" "q = a + HEADER_SIZE" "k = n - HEADER_SIZE"
    by (auto simp: live_def)
  then show ?thesis
  proof cases
    case 1
    from slab_live_in [OF P 1] obtain b where b: "b \<in> block_set (g_cls G t) (slab_mem tl)" "q = b + head_room (g_cls G t)" "q + k = b + size_classes ! g_cls G t" by blast
    have D: "{slab_mem tl + first_block (g_cls G t)..<slab_mem tl + region_size (g_cls G t)} \<subseteq> dom (mp_bytes st)"
      using content_okD(1) [OF C 1(1)] by (simp add: slab_ok_def)
    show ?thesis by (rule order_trans [OF _ D]) (use block_bounds [OF b(1) core_class [OF P 1(1)]] b(2,3) in auto)
  next
    case 2
    have D: "{a..<a + n} \<subseteq> dom (mp_bytes st)" "HEADER_SIZE < n" using content_okD(3) [OF C 2(1)] by (simp_all add: chunk_ok_def)
    show ?thesis by (rule order_trans [OF _ D(1)]) (use 2 D(2) in auto)
  qed
qed

lemma free_length:
  assumes "slab_ok m c s sl free" "c < CLASS_COUNT"
  shows "length free \<le> block_count c"
proof -
  have "card (set free) \<le> card (block_set c (slab_mem sl))" using assms card_block_set(1) [OF assms(2)] by (intro card_mono) (auto simp: slab_ok_def)
  then show ?thesis using assms distinct_card [of free] card_block_set(2) [OF assms(2)] by (simp add: slab_ok_def)
qed

lemma upd_pool_0 [simp]: "upd_pool (count_empty 0) c st = st"
  by (simp add: upd_pool_def)

lemma slab_used_up_ok:
  assumes P: "pool_core st G" "lists_ok st G {s}" and s: "mp_slabs st s = Some sl" "g_lst G s = PARTIAL" "g_cls G s = c" "length (g_fr G s) < block_count c"
  shows "\<exists>st' G'. slab_used_up c s st = Some st' \<and> pool_ok st' G' \<and> live st' G' = live st G \<and> mp_bytes st' = mp_bytes st"
proof -
  have "content_ok st G" using P(1) by (simp add: pool_core_def)
  from content_okD(1) [OF this s(1)] have fb: "free_blocks sl = int (length (g_fr G s))" by (simp add: slab_ok_def)
  show ?thesis
  proof (cases "g_fr G s = []")
    case True
    from core_move [OF P s(1-3), of FULL] obtain st1 st2 where
      "slab_remove PARTIAL c s st = Some st1" "slab_insert FULL c s st1 = Some st2" "mp_bytes st2 = mp_bytes st"
      "pool_core st2 (g_move FULL s G)" "lists_ok st2 (g_move FULL s G) {}" "live st2 (g_move FULL s G) = live st G" using True by (auto simp: list_shift_def)
    then show ?thesis using fb s(1) True by (auto simp: slab_used_up_def pool_ok_def intro!: exI [of _ "g_move FULL s G"])
  next
    case False
    then have "lists_ok st G {}" using P(2) s by (auto simp: lists_ok_def)
    then show ?thesis using fb s(1) False P(1) by (auto simp: slab_used_up_def pool_ok_def intro!: exI [of _ G])
  qed
qed

lemma write_header_ok:
  assumes d: "{h..<h + HEADER_SIZE} \<subseteq> dom m" and v: "c < CLASS_COUNT" "s < 2 ^ 64" "size_classes ! c < 2 ^ 64"
  shows "\<exists>m'. write_header h c BLOCK_FLAG s (size_classes ! c) m = Some m' \<and> header_ok m' h c s \<and> dom m' = dom m \<and> (\<forall>x. x < h \<or> h + HEADER_SIZE \<le> x \<longrightarrow> m' x = m x)"
proof -
  have sub: "{h + i..<h + i + n} \<subseteq> dom m" if "i + n \<le> HEADER_SIZE" for i n by (rule order_trans [OF _ d]) (use that in auto)
  obtain m1 where m1: "store_le 1 m (h + 4) c = Some m1" using store_le_defined [OF sub, of 4 1] by (auto simp: HEADER_SIZE_def)
  note d1 = store_le_dom [OF m1]
  obtain m2 where m2: "store_le 1 m1 (h + 5) BLOCK_FLAG = Some m2" using store_le_defined [OF sub [folded d1], of 5 1] by (auto simp: HEADER_SIZE_def)
  note d2 = store_le_dom [OF m2, unfolded d1]
  obtain m3 where m3: "store_le 8 m2 (h + 8) s = Some m3" using store_le_defined [OF sub [folded d2], of 8 8] by (auto simp: HEADER_SIZE_def)
  note d3 = store_le_dom [OF m3, unfolded d2]
  obtain m4 where m4: "store_le 4 m3 h BLOCK_MAGIC = Some m4" using store_le_defined [OF sub [folded d3], of 0 4] by (auto simp: HEADER_SIZE_def)
  note d4 = store_le_dom [OF m4, unfolded d3]
  obtain m5 where m5: "store_le 8 m4 (h + 16) (size_classes ! c) = Some m5" using store_le_defined [OF sub [folded d4], of 16 8] by (auto simp: HEADER_SIZE_def)
  note d5 = store_le_dom [OF m5, unfolded d4]
  have "load_le 1 m1 (h + 4) = Some c" "load_le 1 m2 (h + 5) = Some BLOCK_FLAG" "load_le 8 m3 (h + 8) = Some s" "load_le 4 m4 h = Some BLOCK_MAGIC"
    "load_le 8 m5 (h + 16) = Some (size_classes ! c)"
    using load_store_same [OF m1] load_store_same [OF m2] load_store_same [OF m3] load_store_same [OF m4] load_store_same [OF m5] v
    by (simp_all add: CLASS_COUNT_def BLOCK_FLAG_def BLOCK_MAGIC_def del: load_le.simps One_nat_def)
  then have "header_ok m5 h c s" unfolding header_ok_def
    by (simp add: load_store_other [OF m5] load_store_other [OF m4] load_store_other [OF m3] load_store_other [OF m2] del: load_le.simps One_nat_def)
  moreover have "m5 x = m x" if "x < h \<or> h + HEADER_SIZE \<le> x" for x
    using that store_le_other [OF m1, of x] store_le_other [OF m2, of x] store_le_other [OF m3, of x] store_le_other [OF m4, of x] store_le_other [OF m5, of x]
    by (auto simp: HEADER_SIZE_def)
  ultimately show ?thesis using m1 m2 m3 m4 m5 d5 by (auto simp: write_header_def simp del: store_le.simps)
qed

text \<open>The outcome of a request for \<open>sz\<close> bytes: a new block, apart from everything in use, whose contents stay.\<close>

definition untouched :: "(nat \<times> nat) set \<Rightarrow> mp_state \<Rightarrow> mp_state \<Rightarrow> bool" where
  "untouched A st st' \<longleftrightarrow> (\<forall>(q, k) \<in> A. \<forall>x \<in> {q..<q + k}. mp_bytes st' x = mp_bytes st x)"

lemma untouchedI: "(\<And>q k x. (q, k) \<in> A \<Longrightarrow> x \<in> {q..<q + k} \<Longrightarrow> mp_bytes st' x = mp_bytes st x) \<Longrightarrow> untouched A st st'"
  unfolding untouched_def by blast

definition allocated :: "mp_state \<Rightarrow> pool_g \<Rightarrow> nat \<Rightarrow> nat \<Rightarrow> mp_state \<Rightarrow> bool" where
  "allocated st G sz p st' \<longleftrightarrow> 0 < p \<and> (\<exists>G' r. pool_ok st' G' \<and> sz \<le> r \<and> (p, r) \<notin> live st G \<and> live st' G' = insert (p, r) (live st G)) \<and>
     untouched (live st G) st st'"

lemma slab_pop_ok:
  assumes "pool_core st G" "mp_slabs st s = Some sl" "g_fr G s = b # bs"
  shows "\<exists>nx. load_le 8 (mp_bytes st) b = Some nx \<and> slab_pop s st = Some (b, st\<lparr>mp_slabs := (mp_slabs st)(s \<mapsto> sl\<lparr>free_list := nx\<rparr>)\<rparr>)"
proof -
  have "content_ok st G" using assms(1) by (simp add: pool_core_def)
  from content_okD(1) [OF this assms(2)] have "free_chain (mp_bytes st) (free_list sl) (b # bs)" using assms(3) by (simp add: slab_ok_def)
  then show ?thesis using assms(2) by (auto simp: slab_pop_def upd_slab_def)
qed

lemma ready_block:
  assumes R: "slab_ready st G c s st1" and P: "pool_core st G" and sz: "sz + head_room c \<le> size_classes ! c"
    and wr: "\<And>b m. {b..<b + head_room c} \<subseteq> dom m \<Longrightarrow> \<exists>m'. hw b m = Some m' \<and> dom m' = dom m \<and> (hdr_class c \<longrightarrow> header_ok m' b c s) \<and>
      (\<forall>x. x < b \<or> b + head_room c \<le> x \<longrightarrow> m' x = m x)"
  shows "\<exists>b st2 m st3 st4. slab_pop s st1 = Some (b, st2) \<and> hw b (mp_bytes st2) = Some m \<and>
    upd_slab (\<lambda>s. s\<lparr>free_blocks := free_blocks s - 1\<rparr>) s (st2\<lparr>mp_bytes := m\<rparr>) = Some st3 \<and> slab_used_up c s st3 = Some st4 \<and> allocated st G sz (b + head_room c) st4"
proof -
  obtain G1 sl where G1: "pool_core st1 G1" "lists_ok st1 G1 {s}" "live st1 G1 = live st G" "mp_slabs st1 s = Some sl" "g_lst G1 s = PARTIAL" "g_cls G1 s = c"
    "g_fr G1 s \<noteq> []" "\<forall>x \<in> dom (mp_bytes st). mp_bytes st1 x = mp_bytes st x" using R by (auto simp: slab_ready_def)
  obtain b bs where fr: "g_fr G1 s = b # bs" using G1(7) by (cases "g_fr G1 s") auto
  obtain nx where nx: "load_le 8 (mp_bytes st1) b = Some nx" "slab_pop s st1 = Some (b, st1\<lparr>mp_slabs := (mp_slabs st1)(s \<mapsto> sl\<lparr>free_list := nx\<rparr>)\<rparr>)"
    using slab_pop_ok [OF G1(1,4) fr] by blast
  have c: "c < CLASS_COUNT" using core_class [OF G1(1,4)] G1(6) by simp
  have C: "content_ok st1 G1" using G1(1) by (simp add: pool_core_def)
  note ok = content_okD(1) [OF C G1(4), unfolded G1(6) fr]
  have b: "b \<in> block_set c (slab_mem sl)" "0 < b" using ok block_bounds(1) [of b c "slab_mem sl", OF _ c] by (auto simp: slab_ok_def)
  have hr: "head_room c < size_classes ! c" using class_facts(1,7) [OF c] by (auto simp: head_room_def)
  have D: "{slab_mem sl + first_block c..<slab_mem sl + region_size c} \<subseteq> dom (mp_bytes st1)" using ok by (simp add: slab_ok_def)
  have "{b..<b + head_room c} \<subseteq> dom (mp_bytes st1)" by (rule order_trans [OF _ D]) (use block_bounds [OF b(1) c] hr in auto)
  then obtain m where m: "hw b (mp_bytes st1) = Some m" "dom m = dom (mp_bytes st1)" "hdr_class c \<longrightarrow> header_ok m b c s"
    "\<forall>x. x < b \<or> b + head_room c \<le> x \<longrightarrow> m x = mp_bytes st1 x" using wr by blast
  let ?sl = "sl\<lparr>free_list := nx, free_blocks := free_blocks sl - 1\<rparr>"
  let ?st3 = "slab_put st1 s ?sl m" and ?G3 = "g_free_put G1 s bs"
  have t: "pool_core ?st3 ?G3" "lists_ok ?st3 ?G3 {s}" "live ?st3 ?G3 = insert (b + head_room c, size_classes ! c - head_room c) (live st G)"
    "(b + head_room c, size_classes ! c - head_room c) \<notin> live st G"
    using take_block [OF G1(1,2,4) fr G1(6) nx(1), of m] m(2,3,4) G1(3) by auto
  have "length bs < block_count c" using free_length [OF ok c] by simp
  then obtain st4 G4 where st4: "slab_used_up c s ?st3 = Some st4" "pool_ok st4 G4" "live st4 G4 = live ?st3 ?G3" "mp_bytes st4 = m"
    using slab_used_up_ok [OF t(1,2), of ?sl c] G1(5,6) by auto
  have u: "untouched (live st G) st st4"
  proof -
    have "mp_bytes st4 x = mp_bytes st x" if q: "(q, k) \<in> live st G" "x \<in> {q..<q + k}" for q k x
    proof -
      have "{q..<q + k} \<inter> {b..<b + size_classes ! c} = {}" by (rule live_vs_block [OF G1(1) _ G1(4,6) b(1)]) (use q(1) t(4) G1(3) in auto)
      then have "x < b \<or> b + head_room c \<le> x" using q(2) hr by fastforce
      moreover have "x \<in> dom (mp_bytes st)" using live_dom [OF P q(1)] q(2) by blast
      ultimately show ?thesis using st4(4) m(4) G1(8) by metis
    qed
    then show ?thesis by (rule untouchedI)
  qed
  have "allocated st G sz (b + head_room c) st4" unfolding allocated_def
    using b(2) st4(2,3) t(3,4) sz u by (intro conjI exI [of _ G4] exI [of _ "size_classes ! c - head_room c"]) auto
  moreover have "upd_slab (\<lambda>s. s\<lparr>free_blocks := free_blocks s - 1\<rparr>) s (st1\<lparr>mp_slabs := (mp_slabs st1)(s \<mapsto> sl\<lparr>free_list := nx\<rparr>), mp_bytes := m\<rparr>) = Some ?st3"
    by (simp add: upd_slab_def)
  ultimately show ?thesis using nx(2) m(1) st4(1) by (intro exI conjI) simp_all
qed

lemma class_small_all: "\<forall>c < CLASS_COUNT. hdr_class c \<longleftrightarrow> 10 < c"
  unfolding all_classes class_upt by (simp add: class_defs size_classes_def)

lemma class_sizes_facts: "size_classes ! 10 = 128" "size_classes ! 34 = 8192"
  by (simp_all add: size_classes_def)

lemma get_class_id_ok:
  assumes "0 < sz" "sz \<le> LARGE_THRESHOLD"
  shows "\<exists>c. get_class_id sz = Some c \<and> c < CLASS_COUNT \<and> sz \<le> size_classes ! c \<and> (hdr_class c \<longleftrightarrow> ALIGNMENT_THRESHOLD < sz)"
proof -
  have ex: "\<exists>i \<in> set [0..<CLASS_COUNT]. sz \<le> size_classes ! i"
    using assms(2) class_sizes_facts by (intro bexI [of _ 34]) (simp_all add: LARGE_THRESHOLD_def CLASS_COUNT_def)
  then obtain c where c: "get_class_id sz = Some c" unfolding get_class_id_def by (metis find_None_iff not_None_eq)
  then have f: "c < CLASS_COUNT" "sz \<le> size_classes ! c" "\<forall>j < c. \<not> sz \<le> size_classes ! j" by (auto simp: get_class_id_def find_Some_iff)
  have "hdr_class c \<longleftrightarrow> ALIGNMENT_THRESHOLD < sz"
  proof
    assume "hdr_class c"
    then have "10 < c" using class_small_all f(1) by blast
    then show "ALIGNMENT_THRESHOLD < sz" using f(3) class_sizes_facts by (auto simp: ALIGNMENT_THRESHOLD_def)
  qed (use f(2) in \<open>simp add: hdr_class_def\<close>)
  then show ?thesis using c f by blast
qed

definition refused :: "os_ans \<Rightarrow> bool" where
  "refused a \<longleftrightarrow> os_malloc a = None \<or> os_mmap a = None"

lemma block_with_header_ok:
  assumes P: "pool_ok st G" and os: "os_ok a n st" and sz: "ALIGNMENT_THRESHOLD < sz" "sz \<le> LARGE_THRESHOLD"
  shows "block_with_header a sz st = Some (0, st) \<and> refused a \<or> (\<exists>p st'. block_with_header a sz st = Some (p, st') \<and> allocated st G (sz - HEADER_SIZE) p st')"
proof -
  have "0 < sz" using sz by simp
  then obtain c where c: "get_class_id sz = Some c" "c < CLASS_COUNT" "sz \<le> size_classes ! c" "hdr_class c" using get_class_id_ok [OF _ sz(2)] sz(1) by blast
  have hr: "head_room c = HEADER_SIZE" using c(4) by (simp add: head_room_def)
  have core: "pool_core st G" using P by (simp add: pool_ok_def)
  from slab_malloc_ok [OF P os c(2)] show ?thesis
  proof
    assume "\<exists>s st1. slab_malloc a c st = Some (s, st1) \<and> slab_ready st G c s st1"
    then obtain s st1 where s: "slab_malloc a c st = Some (s, st1)" "slab_ready st G c s st1" by blast
    then have s0: "s \<noteq> 0" "s < 2 ^ 64" using content_okD(1) by (auto simp: slab_ready_def pool_core_def slab_ok_def)
    have w: "size_classes ! c < 2 ^ 64" using class_facts(4) [OF c(2)] by simp
    have "\<exists>b st2 m st3 st4. slab_pop s st1 = Some (b, st2) \<and> write_header b c BLOCK_FLAG s (size_classes ! c) (mp_bytes st2) = Some m \<and>
      upd_slab (\<lambda>s. s\<lparr>free_blocks := free_blocks s - 1\<rparr>) s (st2\<lparr>mp_bytes := m\<rparr>) = Some st3 \<and> slab_used_up c s st3 = Some st4 \<and>
      allocated st G (sz - HEADER_SIZE) (b + head_room c) st4"
    proof (rule ready_block [OF s(2) core])
      show "sz - HEADER_SIZE + head_room c \<le> size_classes ! c" using hr c(3) sz(1) by (simp add: ALIGNMENT_THRESHOLD_def HEADER_SIZE_def)
    next
      fix b :: nat and m :: bytes assume "{b..<b + head_room c} \<subseteq> dom m"
      then have "{b..<b + HEADER_SIZE} \<subseteq> dom m" by (simp add: hr)
      from write_header_ok [OF this c(2) s0(2) w] obtain m' where "write_header b c BLOCK_FLAG s (size_classes ! c) m = Some m'" "header_ok m' b c s"
        "dom m' = dom m" "\<forall>x. x < b \<or> b + HEADER_SIZE \<le> x \<longrightarrow> m' x = m x" by blast
      then show "\<exists>m'. write_header b c BLOCK_FLAG s (size_classes ! c) m = Some m' \<and> dom m' = dom m \<and> (hdr_class c \<longrightarrow> header_ok m' b c s) \<and>
          (\<forall>x. x < b \<or> b + head_room c \<le> x \<longrightarrow> m' x = m x)" unfolding hr by (intro exI [of _ m']) simp
    qed
    then show ?thesis using s(1) s0 c(1) hr by (auto simp: block_with_header_def)
  qed (use c(1) in \<open>simp add: block_with_header_def refused_def\<close>)
qed

lemma block_without_header_ok:
  assumes P: "pool_ok st G" and os: "os_ok a n st" and sz: "0 < sz" "sz \<le> ALIGNMENT_THRESHOLD"
  shows "block_without_header a sz st = Some (0, st) \<and> refused a \<or> (\<exists>p st'. block_without_header a sz st = Some (p, st') \<and> allocated st G sz p st')"
proof -
  have "sz \<le> LARGE_THRESHOLD" using sz by (simp add: ALIGNMENT_THRESHOLD_def LARGE_THRESHOLD_def)
  then obtain c where c: "get_class_id sz = Some c" "c < CLASS_COUNT" "sz \<le> size_classes ! c" "\<not> hdr_class c" using get_class_id_ok [OF sz(1)] sz(2) by fastforce
  have hr: "head_room c = 0" using c(4) by (simp add: head_room_def)
  have core: "pool_core st G" using P by (simp add: pool_ok_def)
  from slab_malloc_ok [OF P os c(2)] show ?thesis
  proof
    assume "\<exists>s st1. slab_malloc a c st = Some (s, st1) \<and> slab_ready st G c s st1"
    then obtain s st1 where s: "slab_malloc a c st = Some (s, st1)" "slab_ready st G c s st1" by blast
    then have s0: "s \<noteq> 0" by (auto simp: slab_ready_def)
    have "\<exists>b st2 m st3 st4. slab_pop s st1 = Some (b, st2) \<and> (\<lambda>b m. Some m) b (mp_bytes st2) = Some m \<and>
      upd_slab (\<lambda>s. s\<lparr>free_blocks := free_blocks s - 1\<rparr>) s (st2\<lparr>mp_bytes := m\<rparr>) = Some st3 \<and> slab_used_up c s st3 = Some st4 \<and> allocated st G sz (b + head_room c) st4"
      by (rule ready_block [OF s(2) core]) (use hr c(3,4) in auto)
    then show ?thesis using s(1) s0 c(1) hr by (auto simp: block_without_header_def)
  qed (use c(1) in \<open>simp add: block_without_header_def refused_def\<close>)
qed

lemma content_add_chunk:
  assumes C: "content_ok st G" and cl: "\<And>s sl. mp_slabs st s = Some sl \<Longrightarrow> g_cls G s < CLASS_COUNT"
    and h: "{h..<h + n} \<inter> mp_used st = {}" "chunk_ok m' h n" and m: "\<And>x. x \<in> dom (mp_bytes st) \<Longrightarrow> m' x = mp_bytes st x"
  shows "content_ok (st\<lparr>mp_bytes := m', mp_chunks := (mp_chunks st)(h \<mapsto> n)\<rparr>) G"
proof -
  let ?ch = "(mp_chunks st)(h \<mapsto> n)"
  have d: "dom (mp_bytes st) \<subseteq> dom m'" using m by fastforce
  have used: "{a..<a + k} \<subseteq> mp_used st" if "mp_chunks st a = Some k" for a k
    using content_okD(3) [OF C that] by (auto simp: chunk_ok_def mp_used_def)
  have "slab_ok m' (g_cls G s) s sl (g_fr G s)" if s: "mp_slabs st s = Some sl" for s sl
    by (rule slab_ok_frame [OF content_okD(1) [OF C s]]) (use m d meta_dom [OF content_okD(1) [OF C s] cl [OF s]] in blast)+
  moreover have "chunk_ok m' a k" if a: "?ch a = Some k" for a k
  proof (cases "a = h")
    case False
    then have a': "mp_chunks st a = Some k" using a by simp
    have sub: "{a..<a + k} \<subseteq> dom (mp_bytes st)" "HEADER_SIZE < k" using content_okD(3) [OF C a'] by (simp_all add: chunk_ok_def)
    show ?thesis
    proof (rule chunk_ok_frame [OF content_okD(3) [OF C a']])
      fix y assume "a \<le> y" "y < a + HEADER_SIZE"
      then have "y \<in> {a..<a + k}" using sub(2) by simp
      then show "m' y = mp_bytes st y" using sub(1) m by blast
    qed (use d in blast)
  qed (use a h(2) in simp)
  moreover have "{a..<a + k} \<inter> slab_region G s sl = {}" if x: "?ch a = Some k" "mp_slabs st s = Some sl" for a k s sl
  proof (cases "a = h")
    case True
    then have "k = n" using x(1) by simp
    then show ?thesis using region_used [OF C x(2)] h(1) unfolding True by blast
  next
    case False
    then have "mp_chunks st a = Some k" using x(1) by simp
    then show ?thesis by (rule content_okD(4) [OF C _ x(2)])
  qed
  moreover have "{a..<a + k} \<inter> {b..<b + j} = {}" if x: "?ch a = Some k" "?ch b = Some j" "a \<noteq> b" for a k b j
  proof -
    have old: "mp_chunks st y = Some i" if "?ch y = Some i" "y \<noteq> h" for y i using that by simp
    have new: "i = n" if "?ch h = Some i" for i using that by simp
    consider (1) "a = h" "b \<noteq> h" | (2) "b = h" "a \<noteq> h" | (3) "a \<noteq> h" "b \<noteq> h" using x(3) by blast
    then show ?thesis
    proof cases
      case 1
      then show ?thesis using used [OF old [OF x(2)]] new x(1) h(1) by blast
    next
      case 2
      then show ?thesis using used [OF old [OF x(1)]] new x(2) h(1) by blast
    next
      case 3
      then show ?thesis using content_okD(5) [OF C old [OF x(1)] old [OF x(2)] x(3)] by blast
    qed
  qed
  ultimately show ?thesis using content_okD(2) [OF C] unfolding content_ok_def by auto
qed

lemma block_large_ok:
  assumes P: "pool_ok st G" and os: "os_ok a n st" "n = max SLAB_T_SIZE k" and sz: "sz + HEADER_SIZE \<le> k" "0 < sz"
  shows "block_large a k sz st = Some (0, st) \<and> refused a \<or> (\<exists>p st'. block_large a k sz st = Some (p, st') \<and> allocated st G sz p st')"
proof (cases "os_malloc a")
  case None
  then show ?thesis by (simp add: block_large_def refused_def)
next
  case (Some h)
  have L: "links_ok st G {}" and C: "content_ok st G" and core: "pool_core st G" and I: "lists_ok st G {}" and N: "counts_ok st G"
    using P by (simp_all add: pool_ok_def pool_core_def)
  have f: "os_fresh st h n" using os Some by (simp add: os_ok_def)
  have "{h..<h + k} \<subseteq> {h..<h + n}" using os(2) by auto
  then have fr: "{h..<h + k} \<inter> mp_used st = {}" "0 < h" using f unfolding os_fresh_def by blast+
  have hk: "h \<in> {h..<h + k}" "h + HEADER_SIZE \<in> {h..<h + k}" using sz by auto
  let ?m = "map_region (mp_bytes st) h k (os_junk a)"
  have dm: "dom ?m = dom (mp_bytes st) \<union> {h..<h + k}" by (rule map_region_dom)
  have sub: "{h + i..<h + i + j} \<subseteq> dom ?m" if "i + j \<le> HEADER_SIZE" for i j unfolding dm using that sz(1) by auto
  obtain m1 where m1: "store_le 1 ?m (h + 5) BLOCK_FLAG_LARGE = Some m1" using store_le_defined [OF sub, of 5 1] by (auto simp: HEADER_SIZE_def)
  note d1 = store_le_dom [OF m1]
  obtain m2 where m2: "store_le 4 m1 h BLOCK_MAGIC = Some m2" using store_le_defined [OF sub [folded d1], of 0 4] by (auto simp: HEADER_SIZE_def)
  note d2 = store_le_dom [OF m2, unfolded d1]
  obtain m3 where m3: "store_le 8 m2 (h + 8) 0 = Some m3" using store_le_defined [OF sub [folded d2], of 8 8] by (auto simp: HEADER_SIZE_def)
  note d3 = store_le_dom [OF m3, unfolded d2]
  obtain m4 where m4: "store_le 8 m3 (h + 16) sz = Some m4" using store_le_defined [OF sub [folded d3], of 16 8] by (auto simp: HEADER_SIZE_def)
  note d4 = store_le_dom [OF m4, unfolded d3 dm]
  have "load_le 1 m1 (h + 5) = Some BLOCK_FLAG_LARGE" "load_le 4 m2 h = Some BLOCK_MAGIC"
    using load_store_same [OF m1] load_store_same [OF m2] by (simp_all add: BLOCK_FLAG_LARGE_def BLOCK_MAGIC_def del: load_le.simps One_nat_def)
  then have "load_le 1 m4 (h + 5) = Some BLOCK_FLAG_LARGE" "load_le 4 m4 h = Some BLOCK_MAGIC"
    by (simp_all add: load_store_other [OF m4] load_store_other [OF m3] load_store_other [OF m2] del: load_le.simps One_nat_def)
  then have ch: "chunk_ok m4 h k" using fr(2) sz d4 by (simp add: chunk_ok_def del: load_le.simps)
  have keep: "m4 x = mp_bytes st x" if "x \<in> dom (mp_bytes st)" for x
  proof -
    have "x \<notin> {h..<h + k}" using fr(1) that by (auto simp: mp_used_def)
    then have x: "x < h \<or> h + HEADER_SIZE \<le> x" "?m x = mp_bytes st x" using sz(1) by (auto simp: map_region_def)
    then show ?thesis using store_le_other [OF m1, of x] store_le_other [OF m2, of x] store_le_other [OF m3, of x] store_le_other [OF m4, of x]
      by (auto simp: HEADER_SIZE_def)
  qed
  let ?st = "st\<lparr>mp_bytes := m4, mp_chunks := (mp_chunks st)(h \<mapsto> k)\<rparr>"
  have no: "mp_chunks st h = None"
  proof (rule ccontr)
    assume "mp_chunks st h \<noteq> None"
    then obtain j where "mp_chunks st h = Some j" by blast
    then have "{h..<h + j} \<subseteq> dom (mp_bytes st)" "h \<in> {h..<h + j}" using content_okD(3) [OF C, of h j] by (auto simp: chunk_ok_def)
    then have "h \<in> mp_used st" unfolding mp_used_def by blast
    then show False using fr(1) hk(1) by blast
  qed
  have "pool_ok ?st G" using content_add_chunk [OF C core_class [OF core] fr(1) ch keep] L N I
    by (simp add: pool_ok_def pool_core_def links_ok_def counts_ok_def lists_ok_def)
  moreover have "(\<exists>b j. mp_chunks ?st b = Some j \<and> x = (b + HEADER_SIZE, j - HEADER_SIZE)) \<longleftrightarrow>
      x = (h + HEADER_SIZE, k - HEADER_SIZE) \<or> (\<exists>b j. mp_chunks st b = Some j \<and> x = (b + HEADER_SIZE, j - HEADER_SIZE))" for x
  proof -
    have e: "mp_chunks ?st b = Some j \<longleftrightarrow> b = h \<and> j = k \<or> mp_chunks st b = Some j" for b j using no by auto
    show ?thesis unfolding e by blast
  qed
  then have "live ?st G = insert (h + HEADER_SIZE, k - HEADER_SIZE) (live st G)" unfolding live_def by auto
  moreover have "(h + HEADER_SIZE, k - HEADER_SIZE) \<notin> live st G"
  proof
    assume "(h + HEADER_SIZE, k - HEADER_SIZE) \<in> live st G"
    then have "{h + HEADER_SIZE..<h + HEADER_SIZE + (k - HEADER_SIZE)} \<subseteq> dom (mp_bytes st)" by (rule live_dom [OF core])
    moreover have "h + HEADER_SIZE \<in> {h + HEADER_SIZE..<h + HEADER_SIZE + (k - HEADER_SIZE)}" using sz by simp
    ultimately have "h + HEADER_SIZE \<in> mp_used st" unfolding mp_used_def by blast
    then show False using fr(1) hk(2) by blast
  qed
  moreover have "untouched (live st G) st ?st" unfolding untouched_def using live_dom [OF core] keep by (auto simp: subset_iff)
  ultimately have "allocated st G sz (h + HEADER_SIZE) ?st" unfolding allocated_def using sz fr(2) by (intro conjI exI [of _ G] exI [of _ "k - HEADER_SIZE"]) auto
  moreover have "block_large a k sz st = Some (h + HEADER_SIZE, ?st)" using Some m1 m2 m3 m4 by (simp add: block_large_def del: store_le.simps)
  ultimately show ?thesis by blast
qed

lemma ALIGN_UP_bounds:
  assumes "x < 2 ^ 63"
  shows "x \<le> ALIGN_UP x" "ALIGN_UP x \<le> x + 7"
proof -
  have "ALIGN_UP x = (x + 7) div 8 * 8" using assms by (simp add: ALIGN_UP_def)
  moreover have "(x + 7) div 8 * 8 + (x + 7) mod 8 = x + 7" by (rule div_mult_mod_eq)
  moreover have "(x + 7) mod 8 < 8" by simp
  ultimately show "x \<le> ALIGN_UP x" "ALIGN_UP x \<le> x + 7" by linarith+
qed

lemma allocated_mono: "allocated st G k p st' \<Longrightarrow> sz \<le> k \<Longrightarrow> allocated st G sz p st'"
  unfolding allocated_def using order_trans by blast

text \<open>The size of the memory that one request asks \<open>malloc\<close> for, at most.\<close>

definition os_size :: "nat \<Rightarrow> nat" where
  "os_size sz = max SLAB_T_SIZE (ALIGN_UP (sz + HEADER_SIZE))"

lemma mp_malloc_ok:
  assumes P: "pool_ok st G" and sz: "0 < sz" "sz < 2 ^ 62" and os: "os_ok a (os_size sz) st"
  shows "mp_malloc a sz st = Some (0, st) \<and> refused a \<or> (\<exists>p st'. mp_malloc a sz st = Some (p, st') \<and> allocated st G sz p st')"
proof (cases "ALIGN_UP sz \<le> ALIGNMENT_THRESHOLD")
  case True
  have b: "sz \<le> ALIGN_UP sz" using ALIGN_UP_bounds [of sz] sz by simp
  then have "0 < ALIGN_UP sz" using sz by simp
  from block_without_header_ok [OF P os this True] show ?thesis using True sz allocated_mono [OF _ b] by (auto simp: mp_malloc_def)
next
  case False
  have b: "sz \<le> ALIGN_UP sz" "ALIGN_UP sz \<le> sz + 7" using ALIGN_UP_bounds [of sz] sz by simp_all
  define k where "k = ALIGN_UP (sz + HEADER_SIZE)"
  have k: "sz + HEADER_SIZE \<le> k" using ALIGN_UP_bounds(1) [of "sz + HEADER_SIZE"] sz by (simp add: k_def HEADER_SIZE_def)
  have run: "mp_malloc a sz st = (if k > LARGE_THRESHOLD then block_large a k sz st else block_with_header a k st)"
    using False sz by (simp add: mp_malloc_def k_def HEADER_SIZE_def Let_def)
  show ?thesis
  proof (cases "k > LARGE_THRESHOLD")
    case True
    have "os_size sz = max SLAB_T_SIZE k" by (simp add: os_size_def k_def)
    then show ?thesis using block_large_ok [OF P os _ k sz(1)] run True by simp
  next
    case le: False
    have t: "ALIGNMENT_THRESHOLD < k" using False b k by (simp add: ALIGNMENT_THRESHOLD_def HEADER_SIZE_def)
    have "sz \<le> k - HEADER_SIZE" using k by simp
    then show ?thesis using block_with_header_ok [OF P os t] le run allocated_mono by (auto simp: not_less)
  qed
qed

subsection \<open>Release\<close>

lemma load_mp_byte:
  assumes "{x..<x + n} \<subseteq> dom (mp_bytes st)"
  shows "load_le n (mp_byte st) x = load_le n (mp_bytes st) x"
proof (rule load_le_cong)
  fix i assume "i < n"
  then have "x + i \<in> dom (mp_bytes st)" using assms by (intro subsetD [OF assms]) simp
  then show "mp_byte st (x + i) = mp_bytes st (x + i)" by (auto simp: mp_byte_def)
qed

text \<open>The memory of an unused slab is given back.\<close>

lemma links_drop:
  assumes "links_ok st G {s}"
  shows "links_ok (drop_slab s base n st) G {}"
proof (rule links_okI)
  fix l c assume c: "c < CLASS_COUNT"
  have "s \<notin> set (g_on G l c)" using links_ok_on [OF assms c, of s l] by blast
  then have "dll (mp_slabs (drop_slab s base n st)) 0 (list_head l (mp_classes st ! c)) (g_on G l c)"
    using links_okD(1) [OF assms c, of l] by (subst dll_cong [of _ _ "mp_slabs st"]) (auto simp: drop_slab_def)
  then show "dll (mp_slabs (drop_slab s base n st)) 0 (list_head l (mp_classes (drop_slab s base n st) ! c)) (g_on G l c) \<and> distinct (g_on G l c)"
    using links_okD(2) [OF assms c, of l] by (simp add: drop_slab_def)
next
  fix l c x assume "c < CLASS_COUNT" "x \<in> set (g_on G l c)"
  then show "g_lst G x = l \<and> g_cls G x = c \<and> x \<notin> {}" using links_ok_on [OF assms] by simp
next
  fix x xl assume "mp_slabs (drop_slab s base n st) x = Some xl"
  then show "g_cls G x < CLASS_COUNT \<and> x \<in> set (g_on G (g_lst G x) (g_cls G x))"
    using links_ok_slab [OF assms, of x xl] by (auto simp: drop_slab_def split: if_splits)
qed (use assms in \<open>simp add: links_ok_def drop_slab_def\<close>)

lemma content_drop:
  assumes C: "content_ok st G" and s: "mp_slabs st s = Some sl" and cl: "\<And>s sl. mp_slabs st s = Some sl \<Longrightarrow> g_cls G s < CLASS_COUNT"
  shows "content_ok (drop_slab s (slab_mem sl) (region_size (g_cls G s)) st) G"
proof -
  let ?m = "unmap_region (mp_bytes st) (slab_mem sl) (region_size (g_cls G s))"
  have off: "?m x = mp_bytes st x" if "x \<notin> slab_region G s sl" for x using that by (auto simp: unmap_region_def slab_region_def)
  have d: "dom (mp_bytes st) - slab_region G s sl \<subseteq> dom ?m" by (auto simp: unmap_region_dom slab_region_def)
  have "slab_ok ?m (g_cls G x) x xl (g_fr G x)" if x: "mp_slabs st x = Some xl" "x \<noteq> s" for x xl
  proof -
    note ok = content_okD(1) [OF C x(1)]
    have r: "slab_region G x xl \<inter> slab_region G s sl = {}" by (rule content_okD(2) [OF C x(1) s x(2)])
    have "slab_meta (g_cls G x) (slab_mem xl) (g_fr G x) \<subseteq> slab_region G x xl"
      unfolding slab_region_def by (rule slab_meta_region [OF cl [OF x(1)]]) (use ok in \<open>simp add: slab_ok_def\<close>)
    then show ?thesis by (intro slab_ok_frame [OF ok off]) (use r d in \<open>unfold slab_region_def, blast\<close>)+
  qed
  moreover have "chunk_ok ?m a n" if a: "mp_chunks st a = Some n" for a n
  proof (rule chunk_ok_frame [OF content_okD(3) [OF C a] off])
    fix y assume "a \<le> y" "y < a + HEADER_SIZE"
    then have "y \<in> {a..<a + n}" using content_okD(3) [OF C a] by (auto simp: chunk_ok_def)
    then show "y \<notin> slab_region G s sl" using content_okD(4) [OF C a s] by blast
  next
    show "dom (mp_bytes st) \<inter> {a..<a + n} \<subseteq> dom ?m" using content_okD(4) [OF C a s] d by blast
  qed
  ultimately show ?thesis using content_okD(2,4,5) [OF C] unfolding content_ok_def drop_slab_def by (auto split: if_splits)
qed

lemma pool_drop:
  assumes P: "pool_core st G" "lists_ok st G {s}" and s: "mp_slabs st s = Some sl" "g_lst G s = PARTIAL" "g_cls G s = c" and all: "length (g_fr G s) = block_count c"
  shows "\<exists>st1 G'. slab_remove PARTIAL c s st = Some st1 \<and> pool_ok (drop_slab s (slab_mem sl) (region_size c) st1) G' \<and>
    live (drop_slab s (slab_mem sl) (region_size c) st1) G' = live st G \<and> mp_bytes st1 = mp_bytes st"
proof -
  have L: "links_ok st G {}" and C: "content_ok st G" and N: "counts_ok st G" using P(1) by (simp_all add: pool_core_def)
  have c: "c < CLASS_COUNT" using core_class [OF P(1) s(1)] s(3) by simp
  from slab_remove_ok [OF L _ _ s(2,3)] s(1) obtain st1 where
    st1: "slab_remove PARTIAL c s st = Some st1" "links_ok st1 (g_del s G) {s}" "same_content st st1" by auto
  obtain sl1 where sl1: "mp_slabs st1 s = Some sl1" "unlinked sl1 = unlinked sl" using same_content_slab' [OF st1(3) s(1)] by blast
  let ?G = "g_del s G" and ?st = "drop_slab s (slab_mem sl) (region_size c) st1"
  have g: "g_cls ?G = g_cls G" "g_fr ?G = g_fr G" "g_lst ?G = g_lst G" by (simp_all add: g_del_def)
  have C1: "content_ok st1 ?G" by (rule content_same [OF C st1(3) g(1,2)])
  have cls1: "g_cls ?G x < CLASS_COUNT" if "mp_slabs st1 x = Some xl" for x xl
    using same_content_slab [OF st1(3) that] core_class [OF P(1)] g(1) by auto
  have "content_ok ?st ?G" using content_drop [OF C1 sl1(1) cls1] unlinked_fields [OF sl1(2)] g(1) s(3) by simp
  moreover have "links_ok ?st ?G {}" by (rule links_drop [OF st1(2)])
  moreover have "counts_ok ?st ?G"
  proof -
    have "s \<notin> set (g_on G EMPTY c')" if "c' < CLASS_COUNT" for c' using links_ok_on [OF L that, of s EMPTY] s(2) by auto
    then have "g_on ?G EMPTY c' = g_on G EMPTY c'" if "c' < CLASS_COUNT" for c' using that by (simp add: g_del_def remove1_idem)
    then show ?thesis using N st1(3) by (simp add: counts_ok_def same_content_def drop_slab_def)
  qed
  moreover have "lists_ok ?st ?G {}" unfolding lists_ok_def g
  proof (intro allI impI)
    fix x xl assume "mp_slabs ?st x = Some xl"
    then have x: "x \<noteq> s" "mp_slabs st1 x = Some xl" by (auto simp: drop_slab_def split: if_splits)
    then show "list_ok (g_lst G x) (g_cls G x) (length (g_fr G x))" using P(2) same_content_slab [OF st1(3) x(2)] by (auto simp: lists_ok_def)
  qed
  moreover have "live ?st ?G = live st G"
  proof -
    have "distinct (g_fr G s)" "set (g_fr G s) \<subseteq> block_set c (slab_mem sl)" using content_okD(1) [OF C s(1)] s(3) by (simp_all add: slab_ok_def)
    then have "set (g_fr G s) = block_set c (slab_mem sl)"
      using card_subset_eq [OF card_block_set(1) [OF c]] card_block_set(2) [OF c, of "slab_mem sl"] all distinct_card by metis
    then have "slab_live ?G s sl1 = {}" using s(3) unlinked_fields [OF sl1(2)] by (simp add: slab_live_def g)
    then have "live ?st ?G = live st1 ?G" unfolding live_split [OF sl1(1), of ?G] by (auto simp: live_def drop_slab_def)
    also have "\<dots> = live st G" by (rule same_live [OF st1(3) g(1,2)])
    finally show ?thesis .
  qed
  ultimately show ?thesis using st1(1,3) by (auto simp: pool_ok_def pool_core_def same_content_def intro!: exI [of _ ?G])
qed

lemma slab_free_ok:
  assumes P: "pool_core st G" "lists_ok st G {s}" and s: "mp_slabs st s = Some sl" "g_cls G s = c" "g_fr G s = b # fr" "list_ok (g_lst G s) c (length fr)"
    and n: "n = (if hdr_class c then region_size c else SLAB_SIZE_ALIGNMENT)"
  shows "\<exists>st' G'. slab_free c s n st = Some st' \<and> pool_ok st' G' \<and> live st' G' = live st G \<and>
    (\<forall>x. mp_bytes st' x \<noteq> None \<longrightarrow> mp_bytes st' x = mp_bytes st x)"
proof -
  have c: "c < CLASS_COUNT" using core_class [OF P(1) s(1)] s(2) by simp
  have C: "content_ok st G" and N: "counts_ok st G" using P(1) by (simp_all add: pool_core_def)
  note ok = content_okD(1) [OF C s(1), unfolded s(2,3)]
  have fb: "free_blocks sl = 1 + int (length fr)" "total_blocks sl = int (block_count c)" using ok by (simp_all add: slab_ok_def)
  have le: "length fr < block_count c" using free_length [OF ok c] by simp
  have bc: "2 \<le> block_count c" by (rule class_facts(2) [OF c])
  have rn: "n = region_size c" using n by (simp add: region_size_def)
  have drop: "(if slab_magic sl = SLAB_MAGIC then drop_slab s (slab_mem sl) SLAB_SIZE_ALIGNMENT st1 else drop_slab s (slab_mem sl) n st1) = drop_slab s (slab_mem sl) (region_size c) st1" for st1
    using ok rn by (auto simp: slab_ok_def region_size_def SLAB_MAGIC_def split: if_splits)
  have lo: "lists_ok st G {} \<longleftrightarrow> list_ok (g_lst G s) c (Suc (length fr))" using P(2) s by (auto simp: lists_ok_def)
  consider "g_lst G s = FULL" | "g_lst G s = PARTIAL" using s(4) le by (cases "g_lst G s") auto
  then show ?thesis
  proof cases
    case 1
    then have fr0: "fr = []" using s(4) by simp
    from core_move [OF P s(1) 1 s(2), of PARTIAL] obtain st1 st2 sl' where
      st: "slab_remove FULL c s st = Some st1" "slab_insert PARTIAL c s st1 = Some st2" "mp_bytes st2 = mp_bytes st" "pool_core st2 (g_move PARTIAL s G)"
        "lists_ok st2 (g_move PARTIAL s G) {}" "live st2 (g_move PARTIAL s G) = live st G" "mp_slabs st2 s = Some sl'" "unlinked sl' = unlinked sl"
      using s(3) fr0 bc by (auto simp: list_shift_def)
    have "free_blocks sl' \<noteq> total_blocks sl'" using unlinked_fields [OF st(8)] fb fr0 bc by simp
    then have "slab_free c s n st = Some st2" using s(1) fb fr0 st(1,2,7) by (simp add: slab_free_def)
    then show ?thesis using st(3-6) by (auto simp: pool_ok_def intro!: exI [of _ "g_move PARTIAL s G"])
  next
    case 2
    then have fr1: "0 < length fr" using s(4) by simp
    show ?thesis
    proof (cases "Suc (length fr) = block_count c")
      case False
      then have "slab_free c s n st = Some st" using s(1) fb fr1 by (simp add: slab_free_def)
      moreover have "pool_ok st G" using P(1) lo 2 False le by (simp add: pool_ok_def)
      ultimately show ?thesis by (auto intro!: exI [of _ G])
    next
      case all: True
      show ?thesis
      proof (cases "empty_slab_count (mp_classes st ! c) \<ge> MAX_EMPTY_SLABS")
        case True
        from pool_drop [OF P s(1) 2 s(2)] all s(3) obtain st1 G' where st1: "slab_remove PARTIAL c s st = Some st1" "pool_ok (drop_slab s (slab_mem sl) (region_size c) st1) G'"
          "live (drop_slab s (slab_mem sl) (region_size c) st1) G' = live st G" "mp_bytes st1 = mp_bytes st" by auto
        have "slab_free c s n st = Some (drop_slab s (slab_mem sl) (region_size c) st1)"
          using s(1) fb fr1 all True st1(1) drop by (simp add: slab_free_def)
        moreover have "mp_bytes (drop_slab s (slab_mem sl) (region_size c) st1) x \<noteq> None \<longrightarrow> mp_bytes (drop_slab s (slab_mem sl) (region_size c) st1) x = mp_bytes st x" for x
          using st1(4) by (simp add: drop_slab_def unmap_region_def)
        ultimately show ?thesis using st1(2,3) by blast
      next
        case False
        from core_move [OF P s(1) 2 s(2), of EMPTY] obtain st1 st2 where
          st: "slab_remove PARTIAL c s st = Some st1" "slab_insert EMPTY c s st1 = Some st2" "mp_bytes st2 = mp_bytes st"
            "pool_core (upd_pool (count_empty 1) c st2) (g_move EMPTY s G)" "lists_ok st2 (g_move EMPTY s G) {}" "live st2 (g_move EMPTY s G) = live st G"
          using s(3) all by (auto simp: list_shift_def)
        have "slab_free c s n st = Some (upd_pool (count_empty 1) c st2)" using s(1) fb fr1 all False st(1,2) by (simp add: slab_free_def)
        then show ?thesis using st(3-6) by (auto simp: pool_ok_def intro!: exI [of _ "g_move EMPTY s G"])
      qed
    qed
  qed
qed

definition released :: "mp_state \<Rightarrow> pool_g \<Rightarrow> nat \<times> nat \<Rightarrow> mp_state \<Rightarrow> bool" where
  "released st G x st' \<longleftrightarrow> (\<exists>G'. pool_ok st' G' \<and> live st' G' = live st G - {x}) \<and> untouched (live st G - {x}) st st'"

text \<open>A block of a slab is pushed and the slab is sorted in again; \<open>m1\<close> is the memory after the header was cleared.\<close>

lemma push_free_ok:
  assumes P: "pool_ok st G" and s: "mp_slabs st s = Some sl" "g_cls G s = c" and b: "b \<in> block_set c (slab_mem sl) - set (g_fr G s)"
    and m1: "dom m1 = dom (mp_bytes st)" "\<And>x. x < b \<or> b + 8 \<le> x \<Longrightarrow> m1 x = mp_bytes st x" and n: "n = (if hdr_class c then region_size c else SLAB_SIZE_ALIGNMENT)"
  shows "\<exists>st2 st'. slab_push b s (st\<lparr>mp_bytes := m1\<rparr>) = Some st2 \<and> slab_free c s n st2 = Some st' \<and> (\<exists>sl'. mp_slabs st2 s = Some sl' \<and> slab_classid sl' = slab_classid sl) \<and>
    released st G (b + head_room c, size_classes ! c - head_room c) st'"
proof -
  have core: "pool_core st G" and I: "lists_ok st G {}" and C: "content_ok st G" using P by (simp_all add: pool_ok_def pool_core_def)
  have c: "c < CLASS_COUNT" using core_class [OF core s(1)] s(2) by simp
  note ok = content_okD(1) [OF C s(1), unfolded s(2)]
  have D: "{slab_mem sl + first_block c..<slab_mem sl + region_size c} \<subseteq> dom m1" using ok m1(1) by (simp add: slab_ok_def)
  have bb: "slab_mem sl + first_block c \<le> b" "b + size_classes ! c \<le> slab_mem sl + region_size c" using block_bounds [of b, OF _ c] b by auto
  have "{b..<b + 8} \<subseteq> dom m1" by (rule order_trans [OF _ D]) (use bb class_facts(1) [OF c] in auto)
  then obtain m2 where m2: "store_le 8 m1 b (free_list sl) = Some m2" using store_le_defined by blast
  have fl: "free_list sl < 2 ^ 64"
  proof (cases "g_fr G s")
    case (Cons h t)
    then have "h \<in> block_set c (slab_mem sl)" "free_list sl = h" using ok by (auto simp: slab_ok_def)
    then show ?thesis using block_bounds(2) [of h c "slab_mem sl", OF _ c] ok class_facts(1) [OF c] by (auto simp: slab_ok_def)
  qed (use ok in \<open>simp add: slab_ok_def\<close>)
  have ld: "load_le 8 m2 b = Some (free_list sl)" using load_store_same [OF m2] fl by simp
  have off: "m2 x = mp_bytes st x" if "x < b \<or> b + 8 \<le> x" for x using store_le_other [OF m2, of x] m1(2) [of x] that by auto
  have dm: "dom m2 = dom (mp_bytes st)" using store_le_dom [OF m2] m1(1) by simp
  let ?sl = "sl\<lparr>free_list := b, free_blocks := free_blocks sl + 1\<rparr>"
  let ?st2 = "slab_put st s ?sl m2" and ?G2 = "g_free_put G s (b # g_fr G s)"
  note r = return_block [OF core I s b ld off dm]
  have "list_ok (g_lst G s) c (length (g_fr G s))" using I s by (fastforce simp: lists_ok_def)
  then obtain st' G' where f: "slab_free c s n ?st2 = Some st'" "pool_ok st' G'" "live st' G' = live ?st2 ?G2" "\<forall>x. mp_bytes st' x \<noteq> None \<longrightarrow> mp_bytes st' x = m2 x"
    using slab_free_ok [OF r(1,2), of ?sl c b "g_fr G s" n] s(2) n by auto
  have lv: "live st' G' = live st G - {(b + head_room c, size_classes ! c - head_room c)}" using f(3) r(3) by simp
  have "mp_bytes st' x = mp_bytes st x" if q: "(q, k) \<in> live st G - {(b + head_room c, size_classes ! c - head_room c)}" "x \<in> {q..<q + k}" for q k x
  proof -
    have "{q..<q + k} \<inter> {b..<b + size_classes ! c} = {}" by (rule live_vs_block [OF core _ s]) (use q(1) b in auto)
    then have "x < b \<or> b + 8 \<le> x" using q(2) class_facts(1) [OF c] by fastforce
    moreover have "{q..<q + k} \<subseteq> dom (mp_bytes st')" by (rule live_dom [of st' G']) (use f(2) q(1) lv in \<open>simp_all add: pool_ok_def\<close>)
    then have "mp_bytes st' x \<noteq> None" using q(2) by blast
    ultimately show ?thesis using f(4) off [of x] by simp
  qed
  then have "untouched (live st G - {(b + head_room c, size_classes ! c - head_room c)}) st st'" by (rule untouchedI)
  then have "released st G (b + head_room c, size_classes ! c - head_room c) st'" using f(2) lv by (auto simp: released_def)
  moreover have "slab_push b s (st\<lparr>mp_bytes := m1\<rparr>) = Some ?st2" using s(1) m2 by (simp add: slab_push_def upd_slab_def)
  ultimately show ?thesis using f(1) by (intro exI [of _ ?st2] exI [of _ st']) simp
qed

text \<open>The pool tells the blocks with a header from the others by the four bytes that would be its magic number.  In front of a block
  without a header these bytes belong to other blocks: they must not spell the number.\<close>

definition not_forged :: "mp_state \<Rightarrow> nat \<Rightarrow> bool" where
  "not_forged st p \<longleftrightarrow> load_le 4 (mp_byte st) (p - HEADER_SIZE) \<noteq> Some BLOCK_MAGIC"

lemma slab_of_block:
  assumes ok: "slab_ok m c s sl fr" "c < CLASS_COUNT" "\<not> hdr_class c" and b: "b \<in> block_set c (slab_mem sl)"
  shows "s + SLAB_T_SIZE \<le> b" "b < s + SLAB_SIZE_ALIGNMENT" "\<And>x. s \<le> x \<Longrightarrow> x < s + SLAB_SIZE_ALIGNMENT \<Longrightarrow> ptr_to_slab x = s"
proof -
  have s: "slab_mem sl = s" "SLAB_SIZE_ALIGNMENT dvd s" using ok(1,3) by (simp_all add: slab_ok_def)
  show "s + SLAB_T_SIZE \<le> b" "b < s + SLAB_SIZE_ALIGNMENT"
    using block_bounds [OF b ok(2)] class_facts(1) [OF ok(2)] ok(3) s(1) by (simp_all add: first_block_def region_size_def)
  fix x assume x: "s \<le> x" "x < s + SLAB_SIZE_ALIGNMENT"
  obtain k where k: "s = SLAB_SIZE_ALIGNMENT * k" using s(2) by blast
  have "x div SLAB_SIZE_ALIGNMENT = k" by (rule div_nat_eqI) (use x k in \<open>auto simp: algebra_simps\<close>)
  then show "ptr_to_slab x = s" by (simp add: ptr_to_slab_def k)
qed

lemma front_defined:
  assumes C: "content_ok st G" and s: "mp_slabs st s = Some sl" "g_cls G s = c" "c < CLASS_COUNT" "\<not> hdr_class c" and b: "b \<in> block_set c (slab_mem sl)"
  shows "\<exists>v. load_le 4 (mp_byte st) (b - HEADER_SIZE) = Some v"
proof (rule load_le_defined)
  fix i assume i: "i < (4 :: nat)"
  define y where "y = b - HEADER_SIZE + i"
  note ok = content_okD(1) [OF C s(1), unfolded s(2)]
  note so = slab_of_block [OF ok s(3,4) b]
  have x: "s \<le> y" "y < s + SLAB_SIZE_ALIGNMENT" using so(1,2) i by (simp_all add: y_def SLAB_T_SIZE_def HEADER_SIZE_def)
  have "mp_byte st y \<noteq> None"
  proof (cases "y < s + SLAB_T_SIZE")
    case True
    then have "y - s < SLAB_T_SIZE" using x(1) by simp
    then show ?thesis using so(3) [OF x] s(1) by (cases "mp_bytes st y") (simp_all add: mp_byte_def)
  next
    case False
    have "slab_mem sl = s" using ok s(4) by (simp add: slab_ok_def)
    moreover have "{slab_mem sl + first_block c..<slab_mem sl + region_size c} \<subseteq> dom (mp_bytes st)" using ok unfolding slab_ok_def by blast
    ultimately have "{s + SLAB_T_SIZE..<s + SLAB_SIZE_ALIGNMENT} \<subseteq> dom (mp_bytes st)" using s(4) by (simp add: first_block_def region_size_def)
    then have "y \<in> dom (mp_bytes st)" by (rule subsetD) (use False x in simp)
    then show ?thesis by (auto simp: mp_byte_def)
  qed
  then show "mp_byte st (b - HEADER_SIZE + i) \<noteq> None" by (simp add: y_def)
qed

lemma free_small:
  assumes P: "pool_ok st G" and s: "mp_slabs st s = Some sl" "g_cls G s = c" "\<not> hdr_class c" and b: "b \<in> block_set c (slab_mem sl) - set (g_fr G s)" and nf: "not_forged st b"
  shows "\<exists>st'. mp_free b st = Some st' \<and> released st G (b, size_classes ! c) st'"
proof -
  have core: "pool_core st G" and C: "content_ok st G" using P by (simp_all add: pool_ok_def pool_core_def)
  have c: "c < CLASS_COUNT" using core_class [OF core s(1)] s(2) by simp
  note ok = content_okD(1) [OF C s(1), unfolded s(2)]
  note so = slab_of_block [OF ok c s(3)]
  have b': "b \<in> block_set c (slab_mem sl)" using b by simp
  have sp: "ptr_to_slab b = s" using so [OF b'] by (simp add: SLAB_T_SIZE_def)
  have ss: "0 < s" "slab_magic sl = SLAB_MAGIC" "slab_classid sl = c" using ok s(3) by (simp_all add: slab_ok_def)
  obtain v where v: "load_le 4 (mp_byte st) (b - HEADER_SIZE) = Some v" "v \<noteq> BLOCK_MAGIC"
    using front_defined [OF C s(1,2) c s(3) b'] nf s(1) sp by (auto simp: not_forged_def)
  have n: "SLAB_SIZE_ALIGNMENT = (if hdr_class c then region_size c else SLAB_SIZE_ALIGNMENT)" using s(3) by simp
  have hr: "head_room c = 0" using s(3) by (simp add: head_room_def)
  obtain st2 st' sl' where st: "slab_push b s (st\<lparr>mp_bytes := mp_bytes st\<rparr>) = Some st2" "slab_free c s SLAB_SIZE_ALIGNMENT st2 = Some st'"
    "mp_slabs st2 s = Some sl'" "slab_classid sl' = slab_classid sl" "released st G (b, size_classes ! c) st'"
    using push_free_ok [OF P s(1,2) b refl refl n] hr by auto
  have "0 < b" using so(1) [OF b'] by (simp add: SLAB_T_SIZE_def)
  moreover have "slab_free_without_header b s st = Some st'" using st(1-4) ss(3) by (simp add: slab_free_without_header_def)
  ultimately have "mp_free b st = Some st'" using v sp s(1) ss by (simp add: mp_free_def Let_def)
  then show ?thesis using st(5) by blast
qed

lemma free_with_header:
  assumes P: "pool_ok st G" and s: "mp_slabs st s = Some sl" "g_cls G s = c" "hdr_class c" and b: "b \<in> block_set c (slab_mem sl) - set (g_fr G s)"
  shows "\<exists>st'. mp_free (b + HEADER_SIZE) st = Some st' \<and> released st G (b + HEADER_SIZE, size_classes ! c - HEADER_SIZE) st'"
proof -
  have core: "pool_core st G" and C: "content_ok st G" using P by (simp_all add: pool_ok_def pool_core_def)
  have c: "c < CLASS_COUNT" using core_class [OF core s(1)] s(2) by simp
  note ok = content_okD(1) [OF C s(1), unfolded s(2)]
  have h: "header_ok (mp_bytes st) b c s" using ok s(3) b by (simp add: slab_ok_def)
  have sz: "HEADER_SIZE < size_classes ! c" by (rule class_facts(7) [OF c s(3)])
  have D: "{slab_mem sl + first_block c..<slab_mem sl + region_size c} \<subseteq> dom (mp_bytes st)" using ok by (simp add: slab_ok_def)
  have bb: "slab_mem sl + first_block c \<le> b" "b + size_classes ! c \<le> slab_mem sl + region_size c" using block_bounds [of b, OF _ c] b by auto
  have sub: "{b + i..<b + i + k} \<subseteq> dom (mp_bytes st)" if "i + k \<le> HEADER_SIZE" for i k by (rule order_trans [OF _ D]) (use that bb sz in auto)
  have ld: "load_le k (mp_byte st) (b + i) = load_le k (mp_bytes st) (b + i)" if "i + k \<le> HEADER_SIZE" for i k by (rule load_mp_byte [OF sub [OF that]])
  obtain m1 where m1: "store_le 4 (mp_bytes st) b 0 = Some m1" using store_le_defined [OF sub [of 0 4]] by (auto simp: HEADER_SIZE_def)
  have l1: "load_le 1 m1 (b + 4) = Some c" "load_le 8 m1 (b + 8) = Some s"
    using h load_store_other [OF m1, of "b + 4" 1] load_store_other [OF m1, of "b + 8" 8] by (simp_all add: header_ok_def del: load_le.simps One_nat_def)
  have off: "m1 x = mp_bytes st x" if "x < b \<or> b + 8 \<le> x" for x using store_le_other [OF m1, of x] that by auto
  have n: "slab_classes ! c = (if hdr_class c then region_size c else SLAB_SIZE_ALIGNMENT)" using s(3) by (simp add: region_size_def)
  have hr: "head_room c = HEADER_SIZE" using s(3) by (simp add: head_room_def)
  obtain st2 st' where st: "slab_push b s (st\<lparr>mp_bytes := m1\<rparr>) = Some st2" "slab_free c s (slab_classes ! c) st2 = Some st'"
    "released st G (b + HEADER_SIZE, size_classes ! c - HEADER_SIZE) st'"
    using push_free_ok [OF P s(1,2) b store_le_dom [OF m1] off n] hr by auto
  have "slab_free_with_header b st = Some st'" using m1 l1 st(1,2) by (simp add: slab_free_with_header_def del: load_le.simps store_le.simps One_nat_def)
  moreover have "bad_header b st = Some False"
    using h ld [of 4 1] ld [of 8 8] s(1) c ok by (simp add: bad_header_def header_ok_def HEADER_SIZE_def slab_ok_def del: load_le.simps One_nat_def)
  moreover have "load_le 4 (mp_byte st) b = Some BLOCK_MAGIC" "load_le 1 (mp_byte st) (b + 5) = Some BLOCK_FLAG"
    using h ld [of 0 4] ld [of 5 1] by (simp_all add: header_ok_def HEADER_SIZE_def del: load_le.simps One_nat_def)
  ultimately have "mp_free (b + HEADER_SIZE) st = Some st'"
    by (simp add: mp_free_def HEADER_SIZE_def BLOCK_FLAG_def BLOCK_FLAG_LARGE_def Let_def del: load_le.simps One_nat_def)
  then show ?thesis using st(3) by blast
qed

lemma free_large:
  assumes P: "pool_ok st G" and a: "mp_chunks st a = Some n"
  shows "\<exists>st'. mp_free (a + HEADER_SIZE) st = Some st' \<and> released st G (a + HEADER_SIZE, n - HEADER_SIZE) st'"
proof -
  have L: "links_ok st G {}" and C: "content_ok st G" and core: "pool_core st G" and I: "lists_ok st G {}" and N: "counts_ok st G"
    using P by (simp_all add: pool_ok_def pool_core_def)
  note ok = content_okD(3) [OF C a]
  have D: "{a..<a + n} \<subseteq> dom (mp_bytes st)" "HEADER_SIZE < n" using ok by (simp_all add: chunk_ok_def)
  have sub: "{a + i..<a + i + k} \<subseteq> dom (mp_bytes st)" if "i + k \<le> HEADER_SIZE" for i k by (rule order_trans [OF _ D(1)]) (use that D(2) in auto)
  have ld: "load_le k (mp_byte st) (a + i) = load_le k (mp_bytes st) (a + i)" if "i + k \<le> HEADER_SIZE" for i k by (rule load_mp_byte [OF sub [OF that]])
  have l: "load_le 4 (mp_byte st) a = Some BLOCK_MAGIC" "load_le 1 (mp_byte st) (a + 5) = Some BLOCK_FLAG_LARGE"
    using ok ld [of 0 4] ld [of 5 1] by (simp_all add: chunk_ok_def HEADER_SIZE_def del: load_le.simps One_nat_def)
  obtain m1 where m1: "store_le 4 (mp_bytes st) a 0 = Some m1" using store_le_defined [OF sub [of 0 4]] by (auto simp: HEADER_SIZE_def)
  let ?m = "unmap_region m1 a n"
  let ?st = "st\<lparr>mp_bytes := ?m, mp_chunks := (mp_chunks st)(a := None)\<rparr>"
  have run: "mp_free (a + HEADER_SIZE) st = Some ?st" using l m1 a by (simp add: mp_free_def HEADER_SIZE_def Let_def del: load_le.simps store_le.simps One_nat_def)
  have off: "?m x = mp_bytes st x" if "x \<notin> {a..<a + n}" for x using store_le_other [OF m1, of x] that D(2) by (auto simp: unmap_region_def HEADER_SIZE_def)
  have d: "dom (mp_bytes st) - {a..<a + n} \<subseteq> dom ?m" using store_le_dom [OF m1] by (simp add: unmap_region_dom)
  have "slab_ok ?m (g_cls G x) x xl (g_fr G x)" if x: "mp_slabs st x = Some xl" for x xl
  proof -
    note okx = content_okD(1) [OF C x]
    have "slab_meta (g_cls G x) (slab_mem xl) (g_fr G x) \<subseteq> slab_region G x xl"
      unfolding slab_region_def by (rule slab_meta_region [OF core_class [OF core x]]) (use okx in \<open>simp add: slab_ok_def\<close>)
    then show ?thesis by (intro slab_ok_frame [OF okx off]) (use content_okD(4) [OF C a x] d in \<open>unfold slab_region_def, blast\<close>)+
  qed
  moreover have "chunk_ok ?m b k" if b: "mp_chunks st b = Some k" "b \<noteq> a" for b k
  proof (rule chunk_ok_frame [OF content_okD(3) [OF C b(1)] off])
    fix y assume "b \<le> y" "y < b + HEADER_SIZE"
    then have "y \<in> {b..<b + k}" using content_okD(3) [OF C b(1)] by (auto simp: chunk_ok_def)
    then show "y \<notin> {a..<a + n}" using content_okD(5) [OF C b(1) a b(2)] by blast
  next
    show "dom (mp_bytes st) \<inter> {b..<b + k} \<subseteq> dom ?m" using content_okD(5) [OF C b(1) a b(2)] d by blast
  qed
  ultimately have "content_ok ?st G" using content_okD(2,4,5) [OF C] unfolding content_ok_def by (auto split: if_splits)
  then have p: "pool_ok ?st G" using L N I by (simp add: pool_ok_def pool_core_def links_ok_def counts_ok_def lists_ok_def)
  have e: "(a + HEADER_SIZE, n - HEADER_SIZE) \<notin> slab_live G x xl" if "mp_slabs st x = Some xl" for x xl
    using slab_entry_only(2) [OF core that] a by blast
  have ch: "mp_chunks ?st b = Some j \<longleftrightarrow> b \<noteq> a \<and> mp_chunks st b = Some j" for b j by simp
  have "(\<exists>b j. mp_chunks ?st b = Some j \<and> x = (b + HEADER_SIZE, j - HEADER_SIZE)) \<longleftrightarrow>
      (\<exists>b j. mp_chunks st b = Some j \<and> x = (b + HEADER_SIZE, j - HEADER_SIZE)) \<and> x \<noteq> (a + HEADER_SIZE, n - HEADER_SIZE)" for x
  proof -
    have "b = a \<longleftrightarrow> x = (a + HEADER_SIZE, n - HEADER_SIZE)" if "mp_chunks st b = Some j" "x = (b + HEADER_SIZE, j - HEADER_SIZE)" for b j
      using that a by auto
    then show ?thesis unfolding ch by blast
  qed
  note chunks = this
  have "x \<in> live ?st G \<longleftrightarrow> x \<in> live st G \<and> x \<noteq> (a + HEADER_SIZE, n - HEADER_SIZE)" for x
  proof -
    have "(\<exists>s sl. mp_slabs st s = Some sl \<and> x \<in> slab_live G s sl) \<Longrightarrow> x \<noteq> (a + HEADER_SIZE, n - HEADER_SIZE)" using e by blast
    moreover have m: "mp_slabs ?st = mp_slabs st" by simp
    ultimately show ?thesis unfolding live_def mem_Collect_eq chunks m by argo
  qed
  then have "live ?st G = live st G - {(a + HEADER_SIZE, n - HEADER_SIZE)}" by blast
  moreover have "untouched (live st G - {(a + HEADER_SIZE, n - HEADER_SIZE)}) st ?st"
  proof (rule untouchedI)
    fix q k x assume q: "(q, k) \<in> live st G - {(a + HEADER_SIZE, n - HEADER_SIZE)}" "x \<in> {q..<q + k}"
    then have "{q..<q + k} \<subseteq> dom ?m" using live_dom [of ?st G q k] p calculation by (simp add: pool_ok_def)
    then have "?m x \<noteq> None" using q(2) by blast
    then show "mp_bytes ?st x = mp_bytes st x" using off [of x] by (cases "x \<in> {a..<a + n}") (auto simp: unmap_region_def)
  qed
  ultimately show ?thesis using run p by (auto simp: released_def intro!: exI [of _ G])
qed

lemma mp_free_ok:
  assumes P: "pool_ok st G" and p: "(p, r) \<in> live st G" and nf: "r \<le> ALIGNMENT_THRESHOLD \<Longrightarrow> not_forged st p"
  shows "\<exists>st'. mp_free p st = Some st' \<and> released st G (p, r) st'"
proof -
  have core: "pool_core st G" using P by (simp add: pool_ok_def)
  from p consider s sl where "mp_slabs st s = Some sl" "(p, r) \<in> slab_live G s sl" | a n where "mp_chunks st a = Some n" "p = a + HEADER_SIZE" "r = n - HEADER_SIZE"
    by (auto simp: live_def)
  then show ?thesis
  proof cases
    case 1
    then obtain b where b: "b \<in> block_set (g_cls G s) (slab_mem sl) - set (g_fr G s)" "p = b + head_room (g_cls G s)" "r = size_classes ! g_cls G s - head_room (g_cls G s)"
      by (auto simp: slab_live_def)
    show ?thesis
    proof (cases "hdr_class (g_cls G s)")
      case True
      then show ?thesis using free_with_header [OF P 1(1) refl True b(1)] b(2,3) by (simp add: head_room_def)
    next
      case False
      then have "p = b" "r = size_classes ! g_cls G s" "r \<le> ALIGNMENT_THRESHOLD" using b by (simp_all add: head_room_def hdr_class_def)
      then show ?thesis using free_small [OF P 1(1) refl False b(1)] nf by simp
    qed
  next
    case 2
    then show ?thesis using free_large [OF P 2(1)] by simp
  qed
qed

subsection \<open>The client's own writes\<close>

text \<open>The bytes of a block in use belong to its client: neither a link nor a header is among them.\<close>

lemma live_vs_free:
  assumes P: "pool_core st G" and q: "(q, k) \<in> live st G" and s: "mp_slabs st s = Some sl" "g_cls G s = c" and b: "b \<in> set (g_fr G s)"
  shows "{q..<q + k} \<inter> {b..<b + size_classes ! c} = {}"
proof -
  have C: "content_ok st G" using P by (simp add: pool_core_def)
  have c: "c < CLASS_COUNT" using core_class [OF P s(1)] s(2) by simp
  have bs: "b \<in> block_set c (slab_mem sl)" using content_okD(1) [OF C s(1)] b s(2) by (auto simp: slab_ok_def)
  have "(q, k) \<noteq> (b + head_room c, size_classes ! c - head_room c)"
  proof
    assume e: "(q, k) = (b + head_room c, size_classes ! c - head_room c)"
    have "0 < k" by (rule live_nonempty [OF P q])
    then have qr: "q \<in> slab_region G s sl" "q \<in> {q..<q + k}" using block_bounds [OF bs c] e s(2) by (auto simp: slab_region_def)
    from q consider t tl where "mp_slabs st t = Some tl" "(q, k) \<in> slab_live G t tl" | a n where "mp_chunks st a = Some n" "q = a + HEADER_SIZE" "k = n - HEADER_SIZE"
      by (auto simp: live_def)
    then show False
    proof cases
      case 1
      then obtain b' where b': "b' \<in> set (g_fr G t) \<longrightarrow> False" "q = b' + head_room (g_cls G t)" by (auto simp: slab_live_def)
      have "q \<in> slab_region G t tl" using slab_live_in [OF P 1] qr(2) by fastforce
      then have "t = s" using content_okD(2) [OF C 1(1) s(1)] qr(1) by blast
      then show False using b' b e s(2) by simp
    next
      case 2
      then have "q \<in> {a..<a + n}" using content_okD(3) [OF C 2(1)] by (auto simp: chunk_ok_def)
      then show False using content_okD(4) [OF C 2(1) s(1)] qr(1) by blast
    qed
  qed
  then show ?thesis by (rule live_vs_block [OF P q s bs])
qed

lemma live_not_meta:
  assumes P: "pool_core st G" and q: "(q, k) \<in> live st G" "x \<in> {q..<q + k}" and s: "mp_slabs st s = Some sl"
  shows "x \<notin> slab_meta (g_cls G s) (slab_mem sl) (g_fr G s)"
proof -
  have c: "g_cls G s < CLASS_COUNT" by (rule core_class [OF P s])
  have "x \<notin> {b..<b + 8}" if "b \<in> set (g_fr G s)" for b
    using live_vs_free [OF P q(1) s refl that] q(2) class_facts(1) [OF c] by auto
  moreover have "x \<notin> {b..<b + head_room (g_cls G s)}" if b: "b \<in> block_set (g_cls G s) (slab_mem sl)" for b
  proof (cases "(q, k) = (b + head_room (g_cls G s), size_classes ! g_cls G s - head_room (g_cls G s))")
    case True
    then show ?thesis using q(2) by auto
  next
    case False
    have "head_room (g_cls G s) \<le> size_classes ! g_cls G s" using class_facts(7) [OF c] by (auto simp: head_room_def)
    then show ?thesis using live_vs_block [OF P q(1) s refl b False] q(2) by auto
  qed
  ultimately show ?thesis unfolding slab_meta_def by blast
qed

lemma live_not_header:
  assumes P: "pool_core st G" and q: "(q, k) \<in> live st G" "x \<in> {q..<q + k}" and a: "mp_chunks st a = Some n"
  shows "x \<notin> {a..<a + HEADER_SIZE}"
proof -
  have C: "content_ok st G" using P by (simp add: pool_core_def)
  have h: "HEADER_SIZE < n" using content_okD(3) [OF C a] by (simp add: chunk_ok_def)
  from q(1) consider t tl where "mp_slabs st t = Some tl" "(q, k) \<in> slab_live G t tl" | a' n' where "mp_chunks st a' = Some n'" "q = a' + HEADER_SIZE" "k = n' - HEADER_SIZE"
    by (auto simp: live_def)
  then show ?thesis
  proof cases
    case 1
    have "{q..<q + k} \<subseteq> slab_region G t tl" using slab_live_in [OF P 1] by fastforce
    then show ?thesis using content_okD(4) [OF C a 1(1)] q(2) h by (auto simp: disjoint_iff)
  next
    case 2
    show ?thesis
    proof (cases "a' = a")
      case True
      then show ?thesis using 2 q(2) by auto
    next
      case False
      have "x \<in> {a'..<a' + n'}" using 2 q(2) by auto
      moreover have "{a..<a + HEADER_SIZE} \<subseteq> {a..<a + n}" using h by auto
      ultimately show ?thesis using content_okD(5) [OF C 2(1) a False] by blast
    qed
  qed
qed

lemma live_bytes: "live (st\<lparr>mp_bytes := m\<rparr>) G = live st G"
  by (simp add: live_def)

lemma client_write:
  assumes P: "pool_ok st G" and p: "(p, r) \<in> live st G" and m: "dom m = dom (mp_bytes st)" "\<And>x. x \<notin> {p..<p + r} \<Longrightarrow> m x = mp_bytes st x"
  shows "pool_ok (st\<lparr>mp_bytes := m\<rparr>) G"
proof -
  have L: "links_ok st G {}" and C: "content_ok st G" and core: "pool_core st G" and I: "lists_ok st G {}" and N: "counts_ok st G"
    using P by (simp_all add: pool_ok_def pool_core_def)
  have "slab_ok m (g_cls G s) s sl (g_fr G s)" if s: "mp_slabs st s = Some sl" for s sl
    by (rule slab_ok_frame [OF content_okD(1) [OF C s] m(2)]) (use live_not_meta [OF core p _ s] m(1) in blast)+
  moreover have "chunk_ok m a n" if a: "mp_chunks st a = Some n" for a n
    by (rule chunk_ok_frame [OF content_okD(3) [OF C a] m(2)]) (use live_not_header [OF core p _ a] m(1) in auto)
  ultimately have "content_ok (st\<lparr>mp_bytes := m\<rparr>) G" using content_okD(2,4,5) [OF C] unfolding content_ok_def by simp
  then show ?thesis using L N I by (simp add: pool_ok_def pool_core_def links_ok_def counts_ok_def lists_ok_def)
qed

subsection \<open>Creation\<close>

definition no_slabs :: pool_g where
  "no_slabs = \<lparr>g_on = \<lambda>l c. [], g_cls = \<lambda>s. 0, g_lst = \<lambda>s. EMPTY, g_fr = \<lambda>s. []\<rparr>"

lemma mp_create_ok:
  assumes "mp_slabs st = Map.empty" "mp_chunks st = Map.empty"
  shows "pool_ok (mp_create st) no_slabs" "live (mp_create st) no_slabs = {}"
proof -
  have "list_head l \<lparr>block_size = n, empty_slab_count = 0, partial_slabs = 0, full_slabs = 0, empty_slabs = 0\<rparr> = 0" for l n by (cases l) simp_all
  then show "pool_ok (mp_create st) no_slabs" using assms
    by (simp add: pool_ok_def pool_core_def links_ok_def content_ok_def counts_ok_def lists_ok_def mp_create_def no_slabs_def)
  show "live (mp_create st) no_slabs = {}" using assms by (simp add: live_def mp_create_def)
qed

subsection \<open>The pool as a heap of disjoint blocks\<close>

text \<open>What a client sees: its blocks by address, with the bytes it may use.  \<open>heap_rep\<close> relates this heap to a state of the
  pool; the pool may have given more bytes than were asked for.\<close>

type_synonym heap = "nat \<rightharpoonup> nat list"

definition heap_rep :: "mp_state \<Rightarrow> heap \<Rightarrow> bool" where
  "heap_rep st H \<longleftrightarrow> (\<exists>G. pool_ok st G \<and> fst ` live st G = dom H \<and>
     (\<forall>p bs r. H p = Some bs \<longrightarrow> (p, r) \<in> live st G \<longrightarrow> length bs \<le> r) \<and>
     (\<forall>p bs i. H p = Some bs \<longrightarrow> i < length bs \<longrightarrow> mp_bytes st (p + i) = Some (bs ! i)))"

text \<open>The client's access to a byte.\<close>

definition mp_peek :: "mp_state \<Rightarrow> nat \<Rightarrow> nat" where
  "mp_peek st x = (case mp_bytes st x of Some v \<Rightarrow> v | None \<Rightarrow> 0)"

definition mp_poke :: "nat \<Rightarrow> nat \<Rightarrow> mp_state \<Rightarrow> mp_state option" where
  "mp_poke x v st = (case mp_bytes st x of Some _ \<Rightarrow> Some (st\<lparr>mp_bytes := (mp_bytes st)(x \<mapsto> v)\<rparr>) | None \<Rightarrow> None)"

text \<open>What the system promises for a request, and what the client owes at a release: the four bytes that a header would
  begin with do not hold the magic number by accident.\<close>

definition mp_request :: "os_ans \<Rightarrow> nat \<Rightarrow> mp_state \<Rightarrow> bool" where
  "mp_request a n st \<longleftrightarrow> 0 < n \<and> n < 2 ^ 62 \<and> os_ok a (os_size n) st"

definition mp_release :: "nat \<Rightarrow> nat \<Rightarrow> mp_state \<Rightarrow> bool" where
  "mp_release p n st \<longleftrightarrow> (n \<le> ALIGNMENT_THRESHOLD \<longrightarrow> not_forged st p)"

lemma heap_rep_block:
  assumes "heap_rep st H" "H p = Some bs"
  obtains G r where "pool_ok st G" "(p, r) \<in> live st G" "length bs \<le> r" "fst ` live st G = dom H"
    "\<And>p bs r. H p = Some bs \<Longrightarrow> (p, r) \<in> live st G \<Longrightarrow> length bs \<le> r"
    "\<And>p bs i. H p = Some bs \<Longrightarrow> i < length bs \<Longrightarrow> mp_bytes st (p + i) = Some (bs ! i)"
proof -
  obtain G where G: "pool_ok st G" "fst ` live st G = dom H" "\<forall>p bs r. H p = Some bs \<longrightarrow> (p, r) \<in> live st G \<longrightarrow> length bs \<le> r"
    "\<forall>p bs i. H p = Some bs \<longrightarrow> i < length bs \<longrightarrow> mp_bytes st (p + i) = Some (bs ! i)" using assms(1) unfolding heap_rep_def by blast
  have "p \<in> fst ` live st G" using G(2) assms(2) by blast
  then obtain r where "(p, r) \<in> live st G" by force
  then show thesis using that [OF G(1)] G(2,3,4) assms(2) by blast
qed

lemma mp_create_heap: "mp_slabs st = Map.empty \<Longrightarrow> mp_chunks st = Map.empty \<Longrightarrow> heap_rep (mp_create st) Map.empty"
  unfolding heap_rep_def using mp_create_ok [of st] by (intro exI [of _ no_slabs]) simp

lemma heap_rep_apart:
  assumes R: "heap_rep st H" and H: "H p = Some bs" "H q = Some cs" "p \<noteq> q"
  shows "{p..<p + length bs} \<inter> {q..<q + length cs} = {}"
proof -
  obtain G r where G: "pool_ok st G" "(p, r) \<in> live st G" "length bs \<le> r" "fst ` live st G = dom H"
    "\<And>p bs r. H p = Some bs \<Longrightarrow> (p, r) \<in> live st G \<Longrightarrow> length bs \<le> r" by (rule heap_rep_block [OF R H(1)]) blast
  have "q \<in> fst ` live st G" using G(4) H(2) by blast
  then obtain k where k: "(q, k) \<in> live st G" by force
  have "{p..<p + r} \<inter> {q..<q + k} = {}" by (rule live_apart [OF _ G(2) k]) (use G(1) H(3) in \<open>simp_all add: pool_ok_def\<close>)
  moreover have "{p..<p + length bs} \<subseteq> {p..<p + r}" "{q..<q + length cs} \<subseteq> {q..<q + k}" using G(3) G(5) [OF H(2) k] by auto
  ultimately show ?thesis by blast
qed

lemma mp_malloc_heap:
  assumes R: "heap_rep st H" and n: "mp_request a n st"
  shows "\<exists>p st'. mp_malloc a n st = Some (p, st') \<and> (if p = 0 then refused a \<and> st' = st else H p = None \<and> heap_rep st' (H(p \<mapsto> map (\<lambda>i. mp_peek st' (p + i)) [0..<n])))"
proof -
  obtain G where G: "pool_ok st G" "fst ` live st G = dom H" "\<And>p bs r. H p = Some bs \<Longrightarrow> (p, r) \<in> live st G \<Longrightarrow> length bs \<le> r"
    "\<And>p bs i. H p = Some bs \<Longrightarrow> i < length bs \<Longrightarrow> mp_bytes st (p + i) = Some (bs ! i)" using R unfolding heap_rep_def by blast
  have "mp_malloc a n st = Some (0, st) \<and> refused a \<or> (\<exists>p st'. mp_malloc a n st = Some (p, st') \<and> allocated st G n p st')"
    by (rule mp_malloc_ok [OF G(1)]) (use n in \<open>simp_all add: mp_request_def\<close>)
  then consider "mp_malloc a n st = Some (0, st)" "refused a" | p st' where "mp_malloc a n st = Some (p, st')" "allocated st G n p st'" by blast
  then show ?thesis
  proof cases
    case 2
    obtain G' r where A: "0 < p" "pool_ok st' G'" "n \<le> r" "(p, r) \<notin> live st G" "live st' G' = insert (p, r) (live st G)" "untouched (live st G) st st'"
      using 2(2) unfolding allocated_def by blast
    have core: "pool_core st' G'" using A(2) by (simp add: pool_ok_def)
    have new: "H p = None"
    proof (rule ccontr)
      assume "H p \<noteq> None"
      then obtain k where "(p, k) \<in> live st G" using G(2) by force
      moreover from this have "k = r" using live_unique [OF core] A(5) by blast
      ultimately show False using A(4) by blast
    qed
    have only: "k = r" if "(p, k) \<in> live st' G'" for k using live_unique [OF core that] A(5) by blast
    have old: "mp_bytes st' (q + i) = Some (cs ! i)" if q: "H q = Some cs" "i < length cs" for q cs i
    proof -
      obtain k where k: "(q, k) \<in> live st G" using q(1) G(2) by force
      then have "q + i \<in> {q..<q + k}" using G(3) [OF q(1) k] q(2) by simp
      then show ?thesis using A(6) k G(4) [OF q] unfolding untouched_def by fastforce
    qed
    have b: "mp_bytes st' (p + i) = Some (mp_peek st' (p + i))" if "i < n" for i
    proof -
      have "p + i \<in> dom (mp_bytes st')" by (rule subsetD [OF live_dom [OF core, of p r]]) (use A(3,5) that in auto)
      then show ?thesis by (auto simp: mp_peek_def)
    qed
    have "heap_rep st' (H(p \<mapsto> map (\<lambda>i. mp_peek st' (p + i)) [0..<n]))" unfolding heap_rep_def
    proof (intro exI [of _ G'] conjI allI impI)
      show "fst ` live st' G' = dom (H(p \<mapsto> map (\<lambda>i. mp_peek st' (p + i)) [0..<n]))" using A(5) G(2) by simp
      show "length bs \<le> k" if "(H(p \<mapsto> map (\<lambda>i. mp_peek st' (p + i)) [0..<n])) q = Some bs" "(q, k) \<in> live st' G'" for q bs k
      proof (cases "q = p")
        case True
        then show ?thesis using that only [of k] A(3) by auto
      next
        case False
        then have "H q = Some bs" "(q, k) \<in> live st G" using that A(5) by simp_all
        then show ?thesis by (rule G(3))
      qed
      show "mp_bytes st' (q + i) = Some (bs ! i)" if "(H(p \<mapsto> map (\<lambda>i. mp_peek st' (p + i)) [0..<n])) q = Some bs" "i < length bs" for q bs i
      proof (cases "q = p")
        case True
        then show ?thesis using that b [of i] by auto
      next
        case False
        then show ?thesis using that old [of q bs i] by simp
      qed
    qed (rule A(2))
    then show ?thesis using 2(1) A(1) new by auto
  qed auto
qed

lemma mp_free_heap:
  assumes R: "heap_rep st H" and H: "H p = Some bs" and f: "mp_release p (length bs) st"
  shows "\<exists>st'. mp_free p st = Some st' \<and> heap_rep st' (H(p := None))"
proof -
  obtain G r where G: "pool_ok st G" "(p, r) \<in> live st G" "length bs \<le> r" "fst ` live st G = dom H"
    "\<And>p bs r. H p = Some bs \<Longrightarrow> (p, r) \<in> live st G \<Longrightarrow> length bs \<le> r"
    "\<And>p bs i. H p = Some bs \<Longrightarrow> i < length bs \<Longrightarrow> mp_bytes st (p + i) = Some (bs ! i)" by (rule heap_rep_block [OF R H]) blast
  have core: "pool_core st G" using G(1) by (simp add: pool_ok_def)
  obtain st' where st': "mp_free p st = Some st'" "released st G (p, r) st'" using mp_free_ok [OF G(1,2)] f G(3) by (auto simp: mp_release_def)
  then obtain G' where G': "pool_ok st' G'" "live st' G' = live st G - {(p, r)}" "untouched (live st G - {(p, r)}) st st'" unfolding released_def by blast
  have only: "(q, k) \<in> live st' G' \<longleftrightarrow> (q, k) \<in> live st G \<and> q \<noteq> p" for q k
    using live_unique [OF core G(2), of k] by (cases "q = p") (auto simp: G'(2) G(2))
  have "heap_rep st' (H(p := None))" unfolding heap_rep_def
  proof (intro exI [of _ G'] conjI allI impI)
    have f: "q \<in> fst ` A \<longleftrightarrow> (\<exists>k. (q, k) \<in> A)" for q and A :: "(nat \<times> nat) set" by force
    have "q \<in> fst ` live st' G' \<longleftrightarrow> q \<in> fst ` live st G \<and> q \<noteq> p" for q unfolding f only by simp
    then show "fst ` live st' G' = dom (H(p := None))" unfolding G(4) by (intro set_eqI) (simp add: domIff)
    show "length cs \<le> k" if "(H(p := None)) q = Some cs" "(q, k) \<in> live st' G'" for q cs k
      by (rule G(5) [of q]) (use that only [of q k] in \<open>simp_all split: if_splits\<close>)
    show "mp_bytes st' (q + i) = Some (cs ! i)" if q: "(H(p := None)) q = Some cs" "i < length cs" for q cs i
    proof -
      have q': "H q = Some cs" "q \<noteq> p" using q(1) by (auto split: if_splits)
      obtain k where k: "(q, k) \<in> live st G" using q'(1) G(4) by force
      then have "q + i \<in> {q..<q + k}" "(q, k) \<in> live st G - {(p, r)}" using G(5) [OF q'(1) k] q(2) q'(2) by simp_all
      then show ?thesis using G'(3) G(6) [OF q'(1) q(2)] unfolding untouched_def by fastforce
    qed
  qed (rule G'(1))
  then show ?thesis using st'(1) by blast
qed

lemma mp_poke_heap:
  assumes R: "heap_rep st H" and H: "H p = Some bs" "i < length bs"
  shows "\<exists>st'. mp_poke (p + i) v st = Some st' \<and> heap_rep st' (H(p \<mapsto> bs[i := v]))"
proof -
  obtain G r where G: "pool_ok st G" "(p, r) \<in> live st G" "length bs \<le> r" "fst ` live st G = dom H"
    "\<And>p bs r. H p = Some bs \<Longrightarrow> (p, r) \<in> live st G \<Longrightarrow> length bs \<le> r"
    "\<And>p bs i. H p = Some bs \<Longrightarrow> i < length bs \<Longrightarrow> mp_bytes st (p + i) = Some (bs ! i)" by (rule heap_rep_block [OF R H(1)]) blast
  let ?m = "(mp_bytes st)(p + i \<mapsto> v)" and ?H = "H(p \<mapsto> bs[i := v])"
  let ?st = "st\<lparr>mp_bytes := ?m\<rparr>"
  have x: "mp_bytes st (p + i) = Some (bs ! i)" by (rule G(6) [OF H])
  have "pool_ok ?st G" by (rule client_write [OF G(1,2)]) (use x H(2) G(3) in auto)
  moreover have "length cs \<le> k" if "?H q = Some cs" "(q, k) \<in> live st G" for q cs k
    using that G(5) [of q _ k] H(1) by (cases "q = p") auto
  moreover have "?m (q + j) = Some (cs ! j)" if q: "?H q = Some cs" "j < length cs" for q cs j
  proof (cases "q = p")
    case True
    then show ?thesis using q G(6) [of p bs j] H(1) by (cases "j = i") auto
  next
    case False
    then have q': "H q = Some cs" using q(1) by simp
    have "q + j \<noteq> p + i" using heap_rep_apart [OF R q' H(1) False] q(2) H(2) by (auto simp: disjoint_iff)
    then show ?thesis using G(6) [OF q' q(2)] by simp
  qed
  moreover have "fst ` live st G = dom ?H" using G(4) H(1) by auto
  ultimately have "heap_rep ?st ?H" unfolding heap_rep_def live_bytes by (intro exI [of _ G] conjI allI impI) simp_all
  then show ?thesis using x by (simp add: mp_poke_def)
qed

subsection \<open>Clients of an allocator\<close>

text \<open>What a client of an allocator does: it asks for blocks, gives them back and writes to them.\<close>

datatype 'a heap_op = Malloc 'a nat | Free nat | Store nat nat nat

text \<open>One operation on a state and the client's own record of its blocks and their bytes.  A client gives back and writes only what
  it has; another operation does nothing.\<close>

fun heap_do :: "('a \<Rightarrow> nat \<Rightarrow> 's \<Rightarrow> (nat \<times> 's) option) \<Rightarrow> (nat \<Rightarrow> 's \<Rightarrow> 's option) \<Rightarrow> (nat \<Rightarrow> nat \<Rightarrow> 's \<Rightarrow> 's option) \<Rightarrow> ('s \<Rightarrow> nat \<Rightarrow> nat) \<Rightarrow>
    'a heap_op \<Rightarrow> 's \<times> heap \<Rightarrow> ('s \<times> heap) option" where
  "heap_do alloc release poke peek (Malloc a n) (st, H) = do {
     (p, st) \<leftarrow> alloc a n st;
     Some (st, if p = 0 then H else H(p \<mapsto> map (\<lambda>i. peek st (p + i)) [0..<n])) }"
| "heap_do alloc release poke peek (Free p) (st, H) =
     (case H p of None \<Rightarrow> Some (st, H) | Some bs \<Rightarrow> do { st \<leftarrow> release p st; Some (st, H(p := None)) })"
| "heap_do alloc release poke peek (Store p i v) (st, H) =
     (case H p of
        None \<Rightarrow> Some (st, H)
      | Some bs \<Rightarrow> if i < length bs then do { st \<leftarrow> poke (p + i) v st; Some (st, H(p \<mapsto> bs[i := v])) } else Some (st, H))"

text \<open>What the environment owes at an operation.\<close>

fun heap_may :: "('a \<Rightarrow> nat \<Rightarrow> 's \<Rightarrow> bool) \<Rightarrow> (nat \<Rightarrow> nat \<Rightarrow> 's \<Rightarrow> bool) \<Rightarrow> 'a heap_op \<Rightarrow> 's \<times> heap \<Rightarrow> bool" where
  "heap_may request releasable (Malloc a n) (st, H) = request a n st"
| "heap_may request releasable (Free p) (st, H) = (case H p of None \<Rightarrow> True | Some bs \<Rightarrow> releasable p (length bs) st)"
| "heap_may request releasable (Store p i v) (st, H) = True"

fun heap_run :: "('a \<Rightarrow> nat \<Rightarrow> 's \<Rightarrow> (nat \<times> 's) option) \<Rightarrow> (nat \<Rightarrow> 's \<Rightarrow> 's option) \<Rightarrow> (nat \<Rightarrow> nat \<Rightarrow> 's \<Rightarrow> 's option) \<Rightarrow> ('s \<Rightarrow> nat \<Rightarrow> nat) \<Rightarrow>
    'a heap_op list \<Rightarrow> 's \<times> heap \<Rightarrow> ('s \<times> heap) option" where
  "heap_run alloc release poke peek [] s = Some s"
| "heap_run alloc release poke peek (oper # ops) s = do { s \<leftarrow> heap_do alloc release poke peek oper s; heap_run alloc release poke peek ops s }"

fun heap_fair :: "('a heap_op \<Rightarrow> 's \<times> heap \<Rightarrow> bool) \<Rightarrow> ('a heap_op \<Rightarrow> 's \<times> heap \<Rightarrow> ('s \<times> heap) option) \<Rightarrow> 'a heap_op list \<Rightarrow> 's \<times> heap \<Rightarrow> bool" where
  "heap_fair may step [] s = True"
| "heap_fair may step (oper # ops) s = (may oper s \<and> (case step oper s of Some s' \<Rightarrow> heap_fair may step ops s' | None \<Rightarrow> True))"

locale allocator =
  fixes rep :: "'s \<Rightarrow> heap \<Rightarrow> bool"
    and alloc :: "'a \<Rightarrow> nat \<Rightarrow> 's \<Rightarrow> (nat \<times> 's) option"
    and release :: "nat \<Rightarrow> 's \<Rightarrow> 's option"
    and poke :: "nat \<Rightarrow> nat \<Rightarrow> 's \<Rightarrow> 's option"
    and peek :: "'s \<Rightarrow> nat \<Rightarrow> nat"
    and request :: "'a \<Rightarrow> nat \<Rightarrow> 's \<Rightarrow> bool"
    and releasable :: "nat \<Rightarrow> nat \<Rightarrow> 's \<Rightarrow> bool"
  assumes alloc_law: "rep st H \<Longrightarrow> request a n st \<Longrightarrow> \<exists>p st'. alloc a n st = Some (p, st') \<and>
      (if p = 0 then rep st' H else H p = None \<and> rep st' (H(p \<mapsto> map (\<lambda>i. peek st' (p + i)) [0..<n])))"
    and release_law: "rep st H \<Longrightarrow> H p = Some bs \<Longrightarrow> releasable p (length bs) st \<Longrightarrow> \<exists>st'. release p st = Some st' \<and> rep st' (H(p := None))"
    and poke_law: "rep st H \<Longrightarrow> H p = Some bs \<Longrightarrow> i < length bs \<Longrightarrow> \<exists>st'. poke (p + i) v st = Some st' \<and> rep st' (H(p \<mapsto> bs[i := v]))"
    and peek_law: "rep st H \<Longrightarrow> H p = Some bs \<Longrightarrow> i < length bs \<Longrightarrow> peek st (p + i) = bs ! i"
    and apart_law: "rep st H \<Longrightarrow> H p = Some bs \<Longrightarrow> H q = Some cs \<Longrightarrow> p \<noteq> q \<Longrightarrow> {p..<p + length bs} \<inter> {q..<q + length cs} = {}"
begin

lemma op_safe:
  assumes "rep st H" "heap_may request releasable oper (st, H)"
  shows "\<exists>st' H'. heap_do alloc release poke peek oper (st, H) = Some (st', H') \<and> rep st' H'"
proof (cases oper)
  case (Malloc a n)
  then obtain p st' where "alloc a n st = Some (p, st')" "if p = 0 then rep st' H else H p = None \<and> rep st' (H(p \<mapsto> map (\<lambda>i. peek st' (p + i)) [0..<n]))"
    using alloc_law [OF assms(1), of a n] assms(2) by auto
  then show ?thesis using Malloc by (cases "p = 0") auto
next
  case (Free p)
  then show ?thesis using assms release_law [OF assms(1), of p] by (cases "H p") fastforce+
next
  case (Store p i v)
  then show ?thesis using assms(1) poke_law [OF assms(1), of p _ i v] by (cases "H p") fastforce+
qed

lemma contents:
  assumes "rep st H" "H p = Some bs"
  shows "map (\<lambda>i. peek st (p + i)) [0..<length bs] = bs"
  by (rule nth_equalityI) (use peek_law [OF assms] in simp_all)

lemma run_safe:
  assumes "rep (fst s) (snd s)" "heap_fair (heap_may request releasable) (heap_do alloc release poke peek) ops s"
  shows "\<exists>st' H'. heap_run alloc release poke peek ops s = Some (st', H') \<and> rep st' H'"
  using assms
proof (induction ops arbitrary: s)
  case Nil
  then show ?case by (cases s) simp
next
  case (Cons oper ops)
  obtain st' H' where "heap_do alloc release poke peek oper s = Some (st', H')" "rep st' H'"
    using op_safe [of "fst s" "snd s" oper] Cons.prems by auto
  then show ?case using Cons.IH [of "(st', H')"] Cons.prems(2) by simp
qed

end

interpretation mpool: allocator heap_rep mp_malloc mp_free mp_poke mp_peek mp_request mp_release
proof unfold_locales
  fix st H a n assume R: "heap_rep st H" "mp_request a n st"
  obtain p st' where "mp_malloc a n st = Some (p, st')"
    "if p = 0 then refused a \<and> st' = st else H p = None \<and> heap_rep st' (H(p \<mapsto> map (\<lambda>i. mp_peek st' (p + i)) [0..<n]))"
    using mp_malloc_heap [OF R] by blast
  then show "\<exists>p st'. mp_malloc a n st = Some (p, st') \<and>
      (if p = 0 then heap_rep st' H else H p = None \<and> heap_rep st' (H(p \<mapsto> map (\<lambda>i. mp_peek st' (p + i)) [0..<n])))"
    using R(1) by (intro exI [of _ p] exI [of _ st']) (cases "p = 0"; simp)
next
  fix st H p i and bs :: "nat list" assume H: "heap_rep st H" "H p = Some bs" "i < length bs"
  then have "mp_bytes st (p + i) = Some (bs ! i)" unfolding heap_rep_def by blast
  then show "mp_peek st (p + i) = bs ! i" by (simp add: mp_peek_def)
qed (fact mp_free_heap mp_poke_heap heap_rep_apart)+

abbreviation mp_run :: "os_ans heap_op list \<Rightarrow> mp_state \<times> heap \<Rightarrow> (mp_state \<times> heap) option" where
  "mp_run \<equiv> heap_run mp_malloc mp_free mp_poke mp_peek"

abbreviation mp_fair :: "os_ans heap_op list \<Rightarrow> mp_state \<times> heap \<Rightarrow> bool" where
  "mp_fair \<equiv> heap_fair (heap_may mp_request mp_release) (heap_do mp_malloc mp_free mp_poke mp_peek)"


definition pool_unused :: mp_state where
  "pool_unused = \<lparr>mp_classes = [], mp_slabs = Map.empty, mp_bytes = Map.empty, mp_chunks = Map.empty\<rparr>"

definition os_page :: os_ans where
  "os_page = \<lparr>os_malloc = Some 4096, os_mmap = Some 1048576, os_junk = 0\<rparr>"

lemma pool_unused_request:
  assumes "0 < n" "n < 100000"
  shows "mp_request os_page n (mp_create pool_unused)"
proof -
  have "mp_used (mp_create pool_unused) = {}" by (simp add: mp_used_def mp_create_def pool_unused_def)
  moreover have "ALIGN_UP (n + HEADER_SIZE) \<le> n + 31" using ALIGN_UP_bounds(2) [of "n + HEADER_SIZE"] assms by (simp add: HEADER_SIZE_def)
  ultimately show ?thesis using assms
    by (simp add: mp_request_def os_ok_def os_fresh_def os_size_def os_page_def SLAB_T_SIZE_def SLAB_SIZE_ALIGNMENT_def)
qed


subsection \<open>Reallocation\<close>

text \<open>The capacity the pool reads for a block: the size of the class, also where a header takes the first bytes of it.\<close>

lemma capacity_with_header:
  assumes P: "pool_ok st G" and s: "mp_slabs st s = Some sl" "g_cls G s = c" "hdr_class c" and b: "b \<in> block_set c (slab_mem sl) - set (g_fr G s)"
  shows "old_capacity (b + HEADER_SIZE) st = Some (Some (size_classes ! c))"
proof -
  have core: "pool_core st G" and C: "content_ok st G" using P by (simp_all add: pool_ok_def pool_core_def)
  have c: "c < CLASS_COUNT" using core_class [OF core s(1)] s(2) by simp
  note ok = content_okD(1) [OF C s(1), unfolded s(2)]
  have h: "header_ok (mp_bytes st) b c s" using ok s(3) b by (simp add: slab_ok_def)
  have D: "{slab_mem sl + first_block c..<slab_mem sl + region_size c} \<subseteq> dom (mp_bytes st)" using ok by (simp add: slab_ok_def)
  have bb: "slab_mem sl + first_block c \<le> b" "b + size_classes ! c \<le> slab_mem sl + region_size c" using block_bounds [of b, OF _ c] b by auto
  have "{b + i..<b + i + k} \<subseteq> dom (mp_bytes st)" if "i + k \<le> HEADER_SIZE" for i k
    by (rule order_trans [OF _ D]) (use that bb class_facts(7) [OF c s(3)] in auto)
  then have ld: "load_le k (mp_byte st) (b + i) = load_le k (mp_bytes st) (b + i)" if "i + k \<le> HEADER_SIZE" for i k using that by (intro load_mp_byte) blast
  have "bad_header b st = Some False"
    using h ld [of 4 1] ld [of 8 8] s(1) c ok by (simp add: bad_header_def header_ok_def HEADER_SIZE_def slab_ok_def del: load_le.simps One_nat_def)
  then show ?thesis using h ld [of 0 4] ld [of 5 1] ld [of 16 8]
    by (simp add: old_capacity_def header_ok_def HEADER_SIZE_def BLOCK_FLAG_def BLOCK_FLAG_LARGE_def Let_def del: load_le.simps One_nat_def)
qed

lemma capacity_without_header:
  assumes P: "pool_ok st G" and s: "mp_slabs st s = Some sl" "g_cls G s = c" "\<not> hdr_class c" and b: "b \<in> block_set c (slab_mem sl) - set (g_fr G s)" and nf: "not_forged st b"
  shows "old_capacity b st = Some (Some (size_classes ! c))"
proof -
  have core: "pool_core st G" and C: "content_ok st G" using P by (simp_all add: pool_ok_def pool_core_def)
  have c: "c < CLASS_COUNT" using core_class [OF core s(1)] s(2) by simp
  note ok = content_okD(1) [OF C s(1), unfolded s(2)]
  have B: "b \<in> block_set c (slab_mem sl)" using b by simp
  have "ptr_to_slab b = s" using slab_of_block [OF ok c s(3) B] by simp
  moreover obtain v where "load_le 4 (mp_byte st) (b - HEADER_SIZE) = Some v" using front_defined [OF C s(1,2) c s(3) B] by blast
  ultimately show ?thesis using nf s(1,3) c ok by (simp add: old_capacity_def not_forged_def Let_def slab_ok_def del: load_le.simps)
qed

text \<open>Where the new size fits the block, it stays.\<close>

lemma header_room: "\<forall>c < CLASS_COUNT. hdr_class c \<longrightarrow> ALIGNMENT_THRESHOLD + HEADER_SIZE < size_classes ! c"
  unfolding all_classes class_upt by (simp add: class_defs size_classes_def)

lemma realloc_small_stays:
  assumes P: "pool_ok st G" and p: "(p, r) \<in> live st G" "r \<le> ALIGNMENT_THRESHOLD" and small: "mp_chunks st (p - HEADER_SIZE) = None"
    and nf: "not_forged st p" and sz: "0 < sz" "sz \<le> r"
  shows "mp_realloc a p sz st = Some (p, st)"
proof -
  obtain s sl where s: "mp_slabs st s = Some sl" "(p, r) \<in> slab_live G s sl" using p(1) small by (auto simp: live_def)
  then obtain b where b: "b \<in> block_set (g_cls G s) (slab_mem sl) - set (g_fr G s)" "p = b + head_room (g_cls G s)" "r = size_classes ! g_cls G s - head_room (g_cls G s)"
    by (auto simp: slab_live_def)
  have "g_cls G s < CLASS_COUNT" using core_class [OF _ s(1)] P by (simp add: pool_ok_def)
  then have h: "\<not> hdr_class (g_cls G s)" using header_room b(3) p(2) by (fastforce simp: head_room_def)
  have "0 < p" using block_bounds [of b "g_cls G s" "slab_mem sl"] b h content_okD(1) [of st G s sl] P s(1) core_class [of st G s sl]
    by (auto simp: pool_ok_def pool_core_def slab_ok_def head_room_def)
  then show ?thesis using capacity_without_header [OF P s(1) refl h b(1)] nf b(2,3) h sz by (simp add: mp_realloc_def head_room_def)
qed

lemma header_block:
  assumes "(p, r) \<in> live st G" "ALIGNMENT_THRESHOLD < r" "mp_chunks st (p - HEADER_SIZE) = None"
  obtains s sl b where "mp_slabs st s = Some sl" "hdr_class (g_cls G s)" "b \<in> block_set (g_cls G s) (slab_mem sl) - set (g_fr G s)"
    "p = b + HEADER_SIZE" "r = size_classes ! g_cls G s - HEADER_SIZE"
proof -
  obtain s sl where s: "mp_slabs st s = Some sl" "(p, r) \<in> slab_live G s sl" using assms(1,3) by (auto simp: live_def)
  then obtain b where b: "b \<in> block_set (g_cls G s) (slab_mem sl) - set (g_fr G s)" "p = b + head_room (g_cls G s)" "r = size_classes ! g_cls G s - head_room (g_cls G s)"
    by (auto simp: slab_live_def)
  moreover have h: "hdr_class (g_cls G s)" using b(3) assms(2) by (simp add: hdr_class_def head_room_def split: if_splits)
  ultimately show thesis using that [OF s(1) h b(1)] by (simp add: head_room_def)
qed

text \<open>C14: \<open>mp_realloc\<close> compares the new size with the size in the header, which is that of the whole block including the header.
  A block with header has \<open>r\<close> bytes for its owner, but a request for up to 24 bytes more is answered with the same
  address and an unchanged pool: the caller is told that it has bytes which are the header or the link of the next block, or lie behind the mapping.\<close>

theorem realloc_short:
  assumes "pool_ok st G" "(p, r) \<in> live st G" "ALIGNMENT_THRESHOLD < r" "mp_chunks st (p - HEADER_SIZE) = None" "r < sz" "sz \<le> r + HEADER_SIZE"
  shows "mp_realloc a p sz st = Some (p, st) \<and> (\<forall>k. (p, k) \<in> live st G \<longrightarrow> k < sz)"
proof -
  obtain s sl b where b: "mp_slabs st s = Some sl" "hdr_class (g_cls G s)" "b \<in> block_set (g_cls G s) (slab_mem sl) - set (g_fr G s)"
    "p = b + HEADER_SIZE" "r = size_classes ! g_cls G s - HEADER_SIZE" by (rule header_block [OF assms(2-4)])
  have core: "pool_core st G" using assms(1) by (simp add: pool_ok_def)
  have "sz \<le> size_classes ! g_cls G s" using b(5) assms(6) class_facts(7) [OF core_class [OF core b(1)] b(2)] by simp
  then have "mp_realloc a p sz st = Some (p, st)" using capacity_with_header [OF assms(1) b(1) refl b(2,3)] b(4) assms(5)
    by (simp add: mp_realloc_def HEADER_SIZE_def)
  moreover have "k = r" if "(p, k) \<in> live st G" for k by (rule live_unique [OF core that assms(2)])
  ultimately show ?thesis using assms(5) by blast
qed

text \<open>Only large blocks are allocations of the C library.\<close>

lemma upd_slab_chunks: "upd_slab f s st = Some st' \<Longrightarrow> mp_chunks st' = mp_chunks st"
  by (auto simp: upd_slab_def split: bind_splits)

lemma slab_list_chunks:
  "LIST_INSERT h s st = Some (h', st') \<Longrightarrow> mp_chunks st' = mp_chunks st" "LIST_REMOVE h s st = Some (h', st') \<Longrightarrow> mp_chunks st' = mp_chunks st"
  by (auto simp: LIST_INSERT_def LIST_REMOVE_def dest!: upd_slab_chunks split: bind_splits if_splits)

lemma slab_move_chunks:
  "slab_insert l c s st = Some st' \<Longrightarrow> mp_chunks st' = mp_chunks st" "slab_remove l c s st = Some st' \<Longrightarrow> mp_chunks st' = mp_chunks st"
  by (auto simp: slab_insert_def slab_remove_def upd_pool_def dest!: slab_list_chunks split: bind_splits)

lemma take_empty_chunks: "take_empty c st = Some (s, st') \<Longrightarrow> mp_chunks st' = mp_chunks st"
  by (auto simp: take_empty_def upd_pool_def Let_def dest!: slab_move_chunks split: bind_splits)

lemma add_pool_chunks:
  assumes "add_pool a c st = Some (x, st')"
  shows "mp_chunks st' = mp_chunks st"
proof -
  have "mp_chunks (snd (alignment_to_slab_size a n st)) = mp_chunks st" for n
    by (simp add: alignment_to_slab_size_def Let_def split: option.splits)
  then have a: "alignment_to_slab_size a n st = (y, t) \<Longrightarrow> mp_chunks t = mp_chunks st" for n y t by (metis snd_conv)
  have "add_pool_without_header a c st = Some (y, t) \<Longrightarrow> mp_chunks t = mp_chunks st" for y t
    by (auto simp: add_pool_without_header_def upd_pool_def Let_def dest!: a slab_move_chunks split: bind_splits prod.splits option.splits)
  moreover have "add_pool_with_header a c st = Some (y, t) \<Longrightarrow> mp_chunks t = mp_chunks st" for y t
    by (auto simp: add_pool_with_header_def upd_pool_def Let_def dest!: slab_move_chunks split: bind_splits option.splits)
  ultimately show ?thesis using assms by (auto simp: add_pool_def split: bind_splits if_splits)
qed

lemma slab_malloc_chunks: "slab_malloc a c st = Some (s, st') \<Longrightarrow> mp_chunks st' = mp_chunks st"
  by (auto simp: slab_malloc_def Let_def dest!: add_pool_chunks take_empty_chunks split: bind_splits if_splits)

lemma block_with_header_chunks: "block_with_header a n st = Some (p, st') \<Longrightarrow> mp_chunks st' = mp_chunks st"
  by (auto simp: block_with_header_def slab_pop_def slab_used_up_def dest!: slab_malloc_chunks slab_move_chunks upd_slab_chunks split: option.splits bind_splits if_splits)

theorem realloc_short_witness:
  "\<exists>st G p r. pool_ok st G \<and> (p, r) \<in> live st G \<and> mp_realloc os_page p (r + HEADER_SIZE) st = Some (p, st) \<and> (\<forall>k. (p, k) \<in> live st G \<longrightarrow> k < r + HEADER_SIZE)"
proof -
  have "pool_ok (mp_create pool_unused) no_slabs" by (rule mp_create_ok) (simp_all add: pool_unused_def)
  moreover have "mp_request os_page 200 (mp_create pool_unused)" by (rule pool_unused_request) simp_all
  moreover have "\<not> refused os_page" by (simp add: refused_def os_page_def)
  ultimately obtain p st where st: "mp_malloc os_page 200 (mp_create pool_unused) = Some (p, st)" "allocated (mp_create pool_unused) no_slabs 200 p st"
    using mp_malloc_ok [of "mp_create pool_unused" no_slabs 200 os_page] unfolding mp_request_def by auto
  then obtain G r where G: "pool_ok st G" "(p, r) \<in> live st G" "200 \<le> r" unfolding allocated_def by blast
  have "mp_malloc os_page 200 (mp_create pool_unused) = block_with_header os_page 224 (mp_create pool_unused)"
    by (simp add: mp_malloc_def ALIGN_UP_def ALIGNMENT_THRESHOLD_def HEADER_SIZE_def LARGE_THRESHOLD_def)
  then have "mp_chunks st = mp_chunks (mp_create pool_unused)" using st(1) by (metis block_with_header_chunks)
  then have "mp_chunks st (p - HEADER_SIZE) = None" by (simp add: mp_create_def pool_unused_def)
  then have "mp_realloc os_page p (r + HEADER_SIZE) st = Some (p, st) \<and> (\<forall>k. (p, k) \<in> live st G \<longrightarrow> k < r + HEADER_SIZE)"
    using G(3) by (intro realloc_short [OF G(1,2)]) (simp_all add: ALIGNMENT_THRESHOLD_def HEADER_SIZE_def)
  then show ?thesis using G(1,2) by blast
qed

subsection \<open>Destruction\<close>

text \<open>The slabs of \<open>A\<close> are given back, with their regions.\<close>

definition gone :: "pool_g \<Rightarrow> nat set \<Rightarrow> mp_state \<Rightarrow> mp_state \<Rightarrow> bool" where
  "gone G A st st' \<longleftrightarrow> mp_slabs st' = mp_slabs st |` (- A) \<and> mp_chunks st' = mp_chunks st \<and>
     (\<forall>x. mp_bytes st' x = (if \<exists>s \<in> A. \<exists>sl. mp_slabs st s = Some sl \<and> x \<in> slab_region G s sl then None else mp_bytes st x))"

lemma gone_none: "mp_slabs st' = mp_slabs st \<Longrightarrow> mp_chunks st' = mp_chunks st \<Longrightarrow> mp_bytes st' = mp_bytes st \<Longrightarrow> gone G {} st st'"
  by (simp add: gone_def restrict_map_def)

lemma gone_trans:
  assumes "gone G A st st1" "gone G B st1 st2"
  shows "gone G (A \<union> B) st st2"
proof -
  have s: "mp_slabs st1 = mp_slabs st |` (- A)" using assms(1) by (simp add: gone_def)
  have "mp_slabs st2 = mp_slabs st |` (- (A \<union> B))" using assms(2) s by (simp add: gone_def restrict_map_def fun_eq_iff)
  moreover have "mp_slabs st1 t = Some sl \<longleftrightarrow> t \<notin> A \<and> mp_slabs st t = Some sl" for t sl unfolding s by (simp add: restrict_map_def)
  ultimately show ?thesis using assms unfolding gone_def by auto
qed

lemma gone_pool: "gone G A st st' \<Longrightarrow> gone G A st (upd_pool f c st')"
  by (simp add: gone_def upd_pool_def)

lemma gone_one: "mp_slabs st s = Some sl \<Longrightarrow> g_cls G s = c \<Longrightarrow> gone G {s} st (drop_slab s (slab_mem sl) (region_size c) st)"
  by (auto simp: gone_def drop_slab_def unmap_region_def slab_region_def restrict_map_def fun_eq_iff)

text \<open>The loop over a list of slabs ends.\<close>

lemma mp_free_slab_ok:
  assumes "dll (mp_slabs st) prv p xs" "distinct xs" "\<And>s. s \<in> set xs \<Longrightarrow> g_cls G s = c"
  shows "\<exists>st'. mp_free_slab p c st = Some st' \<and> mp_classes st' = mp_classes st \<and> gone G (set xs) st st'"
  using assms
proof (induction xs arbitrary: prv p st)
  case Nil
  then show ?case by (simp add: mp_free_slab.simps gone_none)
next
  case (Cons y ys)
  then obtain sl where y: "p = y" "y \<noteq> 0" "mp_slabs st y = Some sl" "dll (mp_slabs st) y (slab_next sl) ys" "y \<notin> set ys" "distinct ys" by auto
  let ?st = "drop_slab y (slab_mem sl) (region_size c) st"
  have n: "(if size_classes ! c > ALIGNMENT_THRESHOLD then slab_classes ! c else SLAB_SIZE_ALIGNMENT) = region_size c"
    by (simp add: region_size_def hdr_class_def)
  have "dll (mp_slabs ?st) y (slab_next sl) ys = dll (mp_slabs st) y (slab_next sl) ys"
    by (rule dll_cong) (use y(5) in \<open>auto simp: drop_slab_def\<close>)
  then obtain st' where st': "mp_free_slab (slab_next sl) c ?st = Some st'" "mp_classes st' = mp_classes ?st" "gone G (set ys) ?st st'"
    using Cons.IH [of ?st y "slab_next sl"] y(4,6) Cons.prems(3) by auto
  have "mp_free_slab p c st = mp_free_slab (slab_next sl) c ?st" by (subst mp_free_slab.simps) (simp add: y(1-3) n)
  moreover have "gone G (set (y # ys)) st st'" using gone_trans [OF gone_one [OF y(3)] st'(3)] Cons.prems(3) by simp
  ultimately show ?case using st'(1,2) by (auto simp: drop_slab_def)
qed

lemma dll_gone: "gone G A st st' \<Longrightarrow> A \<inter> set xs = {} \<Longrightarrow> dll (mp_slabs st) prv p xs \<Longrightarrow> dll (mp_slabs st') prv p xs"
  by (subst dll_cong [of xs "mp_slabs st'" "mp_slabs st"]) (auto simp: gone_def restrict_map_def)

lemma links_lists:
  assumes "links_ok st G {}" "c < CLASS_COUNT"
  shows "distinct (g_on G l c)" "dll (mp_slabs st) 0 (list_head l (mp_classes st ! c)) (g_on G l c)" "s \<in> set (g_on G l c) \<Longrightarrow> g_cls G s = c"
    "d < CLASS_COUNT \<Longrightarrow> l \<noteq> k \<or> c \<noteq> d \<Longrightarrow> set (g_on G l c) \<inter> set (g_on G k d) = {}"
proof -
  have *: "\<And>l c s. c < CLASS_COUNT \<Longrightarrow> s \<in> set (g_on G l c) \<Longrightarrow> g_lst G s = l \<and> g_cls G s = c" using assms(1) unfolding links_ok_def by blast
  show "d < CLASS_COUNT \<Longrightarrow> l \<noteq> k \<or> c \<noteq> d \<Longrightarrow> set (g_on G l c) \<inter> set (g_on G k d) = {}" using * [OF assms(2), of _ l] * [of d _ k] by blast
  show "s \<in> set (g_on G l c) \<Longrightarrow> g_cls G s = c" using * [OF assms(2), of s l] by blast
qed (use assms in \<open>simp_all add: links_ok_def\<close>)

definition class_slabs :: "pool_g \<Rightarrow> nat \<Rightarrow> nat set" where
  "class_slabs G c = set (g_on G EMPTY c) \<union> set (g_on G FULL c) \<union> set (g_on G PARTIAL c)"

lemma mp_destroy_class_ok:
  assumes L: "links_ok st0 G {}" and c: "c < CLASS_COUNT" "c < length (mp_classes st)" and D: "\<And>l. dll (mp_slabs st) 0 (list_head l (mp_classes st ! c)) (g_on G l c)"
  shows "\<exists>st'. mp_destroy_class c st = Some st' \<and> gone G (class_slabs G c) st st' \<and>
    mp_classes st' = (mp_classes st)[c := \<lparr>block_size = block_size (mp_classes st ! c), empty_slab_count = 0, partial_slabs = 0, full_slabs = 0, empty_slabs = 0\<rparr>]"
proof -
  note G = links_lists [OF L c(1)]
  have freed: "\<exists>t'. mp_free_slab h c t = Some t' \<and> mp_classes t' = mp_classes t \<and> gone G (set (g_on G l c)) t t'"
    if "dll (mp_slabs t) 0 h (g_on G l c)" for t h l by (rule mp_free_slab_ok [OF that G(1)]) (rule G(3))
  obtain st1 where 1: "mp_free_slab (empty_slabs (mp_classes st ! c)) c st = Some st1" "mp_classes st1 = mp_classes st" "gone G (set (g_on G EMPTY c)) st st1"
    using freed [OF D [of EMPTY]] by auto
  let ?st1 = "upd_pool (list_head_put EMPTY 0) c st1"
  note g1 = gone_pool [OF 1(3), of "list_head_put EMPTY 0" c]
  have c1: "mp_classes ?st1 ! c = (mp_classes st ! c)\<lparr>empty_slabs := 0\<rparr>" using c(2) 1(2) by (simp add: upd_pool_def)
  have "dll (mp_slabs ?st1) 0 (full_slabs (mp_classes ?st1 ! c)) (g_on G FULL c)"
    using dll_gone [OF g1 G(4) [OF c(1)] D [of FULL]] c1 by simp
  from freed [OF this] obtain st2 where 2: "mp_free_slab (full_slabs (mp_classes ?st1 ! c)) c ?st1 = Some st2" "mp_classes st2 = mp_classes ?st1"
    "gone G (set (g_on G FULL c)) ?st1 st2" by blast
  let ?st2 = "upd_pool (list_head_put FULL 0) c st2"
  note g2 = gone_pool [OF gone_trans [OF g1 2(3)], of "list_head_put FULL 0" c]
  have c2: "mp_classes ?st2 ! c = (mp_classes st ! c)\<lparr>empty_slabs := 0, full_slabs := 0\<rparr>" using c(2) 1(2) 2(2) c1 by (simp add: upd_pool_def)
  have "(set (g_on G EMPTY c) \<union> set (g_on G FULL c)) \<inter> set (g_on G PARTIAL c) = {}"
    using G(4) [OF c(1), of EMPTY PARTIAL] G(4) [OF c(1), of FULL PARTIAL] by auto
  from dll_gone [OF g2 this D [of PARTIAL, simplified]] have "dll (mp_slabs ?st2) 0 (partial_slabs (mp_classes ?st2 ! c)) (g_on G PARTIAL c)" using c2 by simp
  from freed [OF this] obtain st3 where 3: "mp_free_slab (partial_slabs (mp_classes ?st2 ! c)) c ?st2 = Some st3" "mp_classes st3 = mp_classes ?st2"
    "gone G (set (g_on G PARTIAL c)) ?st2 st3" by blast
  let ?st' = "upd_pool (\<lambda>p. p\<lparr>empty_slab_count := 0\<rparr>) c (upd_pool (list_head_put PARTIAL 0) c st3)"
  have "gone G (class_slabs G c) st ?st'" using gone_pool [OF gone_pool [OF gone_trans [OF g2 3(3)]]] by (simp add: class_slabs_def)
  moreover have "mp_destroy_class c st = Some ?st'" using 1(1) 2(1) 3(1) by (simp add: mp_destroy_class_def Let_def)
  moreover have "mp_classes ?st' = (mp_classes st)[c := \<lparr>block_size = block_size (mp_classes st ! c), empty_slab_count = 0, partial_slabs = 0, full_slabs = 0, empty_slabs = 0\<rparr>]"
    using c(2) 1(2) 2(2) 3(2) by (cases "mp_classes st ! c") (simp add: upd_pool_def)
  ultimately show ?thesis by blast
qed

definition cleared :: "nat \<Rightarrow> mem_pool_t" where
  "cleared c = \<lparr>block_size = size_classes ! c, empty_slab_count = 0, partial_slabs = 0, full_slabs = 0, empty_slabs = 0\<rparr>"

lemma mp_destroy_prefix:
  assumes P: "pool_core st G" and n: "n \<le> CLASS_COUNT"
  shows "\<exists>st'. fold (\<lambda>c r. do { st \<leftarrow> r; mp_destroy_class c st }) [0..<n] (Some st) = Some st' \<and> gone G (\<Union>c < n. class_slabs G c) st st' \<and>
    mp_classes st' = map cleared [0..<n] @ drop n (mp_classes st)"
  using n
proof (induction n)
  case 0
  then show ?case by (simp add: gone_none)
next
  case (Suc n)
  have L: "links_ok st G {}" and N: "counts_ok st G" using P by (simp_all add: pool_core_def)
  obtain st1 where 1: "fold (\<lambda>c r. do { st \<leftarrow> r; mp_destroy_class c st }) [0..<n] (Some st) = Some st1" "gone G (\<Union>c < n. class_slabs G c) st st1"
    "mp_classes st1 = map cleared [0..<n] @ drop n (mp_classes st)" using Suc by auto
  have n: "n < CLASS_COUNT" "n < length (mp_classes st)" using Suc.prems L by (simp_all add: links_ok_def)
  have c: "mp_classes st1 ! n = mp_classes st ! n" "n < length (mp_classes st1)" using 1(3) n(2) by (simp_all add: nth_append)
  have D: "dll (mp_slabs st1) 0 (list_head l (mp_classes st1 ! n)) (g_on G l n)" for l
  proof (rule dll_gone [OF 1(2)])
    have "class_slabs G d \<inter> set (g_on G l n) = {}" if "d < n" for d
      using links_lists(4) [OF L, of d n _ l] that n(1) unfolding class_slabs_def by fastforce
    then show "(\<Union>c < n. class_slabs G c) \<inter> set (g_on G l n) = {}" by blast
    show "dll (mp_slabs st) 0 (list_head l (mp_classes st1 ! n)) (g_on G l n)" unfolding c by (rule links_lists(2) [OF L n(1)])
  qed
  obtain st2 where 2: "mp_destroy_class n st1 = Some st2" "gone G (class_slabs G n) st1 st2"
    "mp_classes st2 = (mp_classes st1)[n := cleared n]"
    using mp_destroy_class_ok [OF L n(1) c(2) D] N n(1) unfolding cleared_def c counts_ok_def by auto
  have "mp_classes st2 = map cleared [0..<Suc n] @ drop (Suc n) (mp_classes st)" unfolding 2(3) 1(3)
    using n(2) by (simp add: list_update_append Cons_nth_drop_Suc [symmetric])
  moreover have "gone G (\<Union>c < Suc n. class_slabs G c) st st2" using gone_trans [OF 1(2) 2(2)] by (simp add: lessThan_Suc Un_commute)
  moreover have "fold (\<lambda>c r. do { st \<leftarrow> r; mp_destroy_class c st }) [0..<Suc n] (Some st) = Some st2" using 1(1) 2(1) by simp
  ultimately show ?case by blast
qed

lemma all_class_slabs:
  assumes "pool_core st G" "mp_slabs st s = Some sl"
  shows "s \<in> (\<Union>c < CLASS_COUNT. class_slabs G c)"
proof -
  have "g_cls G s < CLASS_COUNT" "s \<in> set (g_on G (g_lst G s) (g_cls G s))" using assms by (auto simp: pool_core_def links_ok_def)
  then show ?thesis by (cases "g_lst G s") (auto simp: class_slabs_def)
qed

lemma mp_destroy_gone:
  assumes P: "pool_core st G"
  shows "\<exists>st'. mp_destroy st = Some st' \<and> mp_slabs st' = Map.empty \<and> mp_chunks st' = mp_chunks st \<and> mp_classes st' = map cleared [0..<CLASS_COUNT] \<and>
    (\<forall>x. mp_bytes st' x = (if \<exists>s sl. mp_slabs st s = Some sl \<and> x \<in> slab_region G s sl then None else mp_bytes st x))"
proof -
  obtain st' where st': "mp_destroy st = Some st'" "gone G (\<Union>c < CLASS_COUNT. class_slabs G c) st st'"
    "mp_classes st' = map cleared [0..<CLASS_COUNT] @ drop CLASS_COUNT (mp_classes st)" using mp_destroy_prefix [OF P order_refl] unfolding mp_destroy_def by blast
  note all = all_class_slabs [OF P]
  have "mp_slabs st' s = None" for s using st'(2) all [of s] by (cases "mp_slabs st s") (auto simp: gone_def restrict_map_def)
  moreover have "length (mp_classes st) = CLASS_COUNT" using P by (simp add: pool_core_def links_ok_def)
  moreover have "(\<exists>s \<in> \<Union>c < CLASS_COUNT. class_slabs G c. \<exists>sl. mp_slabs st s = Some sl \<and> x \<in> slab_region G s sl) \<longleftrightarrow>
      (\<exists>s sl. mp_slabs st s = Some sl \<and> x \<in> slab_region G s sl)" for x using all by blast
  ultimately show ?thesis using st' unfolding gone_def by (intro exI [of _ st']) auto
qed

text \<open>C13: \<open>mp_destroy\<close> always returns: the lists it walks through end.  It gives every slab and every byte of their regions back to the
  system, touches nothing else and leaves a pool with no slabs that can be used again.  Large blocks are not slabs, and stay with their owners.\<close>

theorem destroy_releases:
  assumes "pool_ok st G"
  shows "\<exists>st'. mp_destroy st = Some st' \<and> mp_slabs st' = Map.empty \<and> pool_ok st' no_slabs \<and>
    live st' no_slabs = {(a + HEADER_SIZE, n - HEADER_SIZE) | a n. mp_chunks st a = Some n} \<and>
    (\<forall>x. mp_bytes st' x = (if \<exists>s sl. mp_slabs st s = Some sl \<and> x \<in> slab_region G s sl then None else mp_bytes st x))"
proof -
  have core: "pool_core st G" and C: "content_ok st G" using assms by (simp_all add: pool_ok_def pool_core_def)
  obtain st' where st': "mp_destroy st = Some st'" "mp_slabs st' = Map.empty" "mp_chunks st' = mp_chunks st" "mp_classes st' = map cleared [0..<CLASS_COUNT]"
    "\<And>x. mp_bytes st' x = (if \<exists>s sl. mp_slabs st s = Some sl \<and> x \<in> slab_region G s sl then None else mp_bytes st x)" using mp_destroy_gone [OF core] by blast
  have "chunk_ok (mp_bytes st') a n" if a: "mp_chunks st a = Some n" for a n
  proof -
    have keep: "mp_bytes st' x = mp_bytes st x" if x: "x \<in> {a..<a + n}" for x
    proof -
      have "\<not> (\<exists>s sl. mp_slabs st s = Some sl \<and> x \<in> slab_region G s sl)" using content_okD(4) [OF C a] x by blast
      then show ?thesis unfolding st'(5) by (rule if_not_P)
    qed
    have "HEADER_SIZE < n" using content_okD(3) [OF C a] by (simp add: chunk_ok_def)
    then show ?thesis by (intro chunk_ok_frame [OF content_okD(3) [OF C a]] keep) (use keep in auto)
  qed
  then have "content_ok st' no_slabs" using st'(2,3) content_okD(5) [OF C] unfolding content_ok_def by simp
  moreover have "list_head l (cleared c) = 0" for l c by (cases l) (simp_all add: cleared_def)
  ultimately have "pool_ok st' no_slabs" using st'(2,4)
    by (simp add: pool_ok_def pool_core_def links_ok_def counts_ok_def lists_ok_def no_slabs_def cleared_def)
  moreover have "live st' no_slabs = {(a + HEADER_SIZE, n - HEADER_SIZE) | a n. mp_chunks st a = Some n}" unfolding live_def st'(2,3) by auto
  ultimately show ?thesis using st'(1,2,5) by blast
qed

theorem destroy_releases_witness:
  "\<exists>st G st'. pool_ok st G \<and> live st G \<noteq> {} \<and> mp_destroy st = Some st' \<and> mp_slabs st' = Map.empty \<and> pool_ok st' no_slabs"
proof -
  have "pool_ok (mp_create pool_unused) no_slabs" by (rule mp_create_ok) (simp_all add: pool_unused_def)
  moreover have "mp_request os_page 200 (mp_create pool_unused)" by (rule pool_unused_request) simp_all
  moreover have "\<not> refused os_page" by (simp add: refused_def os_page_def)
  ultimately obtain p st where "allocated (mp_create pool_unused) no_slabs 200 p st"
    using mp_malloc_ok [of "mp_create pool_unused" no_slabs 200 os_page] unfolding mp_request_def by auto
  then obtain G r where "pool_ok st G" "(p, r) \<in> live st G" unfolding allocated_def by blast
  then show ?thesis using destroy_releases [of st G] by blast
qed

end
