(* ===== verification/Spec2Isabelle.thy ===== *)
theory Spec2Isabelle
  imports Kvs_Agent Kvs_Recovery Kvs_Safety Kvs_Mempool_Proof
begin

text \<open>
  Verification of lidis, a key-value store in C (sources under \<^verbatim>\<open>src/\<close>).

  \<^bold>\<open>The program.\<close>  A coroutine server (\<^verbatim>\<open>kvs-server/ntyco.c\<close>) reads requests from its clients, recognises the
  frames of two protocols (\<^verbatim>\<open>kvs-protocol/kvs_protocol.c\<close>) and hands each to the command layer
  (\<^verbatim>\<open>kvstore.c\<close>), which looks the command up, calls one of four storage engines (\<^verbatim>\<open>kvs-engine/\<close>: array,
  red-black tree, hash table over XXH3, skip list), writes the reply, and appends a successful write to the log
  (\<^verbatim>\<open>kvs-module/kvs_log.c\<close>).  \<open>SAVE\<close> dumps the engines from a forked child (\<^verbatim>\<open>kvs-module/kvs_save.c\<close>); at start
  the dump is loaded and the log is replayed over it.  A slave asks its master for a snapshot
  (\<^verbatim>\<open>kvs-module/kvs_sync.c\<close>); from then on an agent process (\<^verbatim>\<open>kvs-ebpf/\<close>) that captures what the master
  receives relays the writes to it.  The memory of the store comes from a slab allocator
  (\<^verbatim>\<open>kvs-mempool/kvs_mempool.c\<close>).

  \<^bold>\<open>Conventions of the model.\<close>  A C function is a HOL function of the same name; helper functions that stand for
  a loop or a branch of it are named after it.  \<open>None\<close> of an option result is undefined behaviour (an access
  outside a buffer, a NULL dereference, signed overflow) or a loop that does not end; C's error returns are
  integers, as in the code.  A \<open>char *\<close> argument is a \<open>string option\<close>, \<open>None\<close> being NULL.  What the environment
  decides (whether an allocation succeeds, the content of fresh memory, random bits, how many bytes a
  \<open>send\<close> or \<open>recv\<close> transfers, when the kernel carries out an asynchronous write) is an argument: the record \<open>env\<close>
  and the records whose names end in \<open>_ans\<close>.  No theorem fixes these answers unless it says so.

  \<^bold>\<open>Theories.\<close>
  \<^item> \<open>Kvs_Prelude\<close>: C strings, decimal numbers, checked buffers, the environment.  \<open>Kv_Spec\<close>: the contract of a
    storage engine as locales, \<open>kv_engine\<close> (a finite map behind \<open>set\<close>, \<open>get\<close>, \<open>del\<close>, \<open>mod\<close>, \<open>exist\<close> with their result
    codes) and \<open>kv_engine_atomic\<close> (a failing allocation changes nothing).
  \<^item> \<open>Kvs_Array\<close>, \<open>Kvs_Hash\<close> (with \<open>Xxhash\<close>), \<open>Kvs_Skiplist\<close>, \<open>Kvs_Rbtree\<close> (with \<open>Kvs_Rbtree_Proof\<close>,
    \<open>Kvs_Rbtree_Delete\<close>, \<open>Kvs_Rbtree_Engine\<close>): the engines, each with its invariant and the interpretation of the
    contract; the skip list and the tree keep their pointers, as addresses in a store of nodes.  \<open>Kvs_Engines\<close> puts
    the four side by side as the globals of the server and interprets the contract for the family.
  \<^item> \<open>Kvs_Protocol\<close>: recognising, splitting and building frames; safe on every input for KVSP, round trips for
    both protocols, and the inputs on which the RESP splitter leaves its buffers.
  \<^item> \<open>Kvs_Config\<close>: \<open>kvs_config_init\<close>.  \<open>Kvs_Log\<close>: the log and \<open>kvs_file_read\<close>, which feeds a file frame by frame to
    a handler; the locale \<open>frame_handler\<close> is its interface, interpreted by the loader of dumps (\<open>Kvs_Save\<close>) and by
    the command layer (\<open>Kvs_Store\<close>).
  \<^item> \<open>Kvs_Save\<close>: the dump through \<open>io_uring\<close>, its loading, and the state machine of the forked children.
  \<^item> \<open>Kvs_Server\<close>: the reader of a connection; the locale \<open>reply_handler\<close> is what it needs of the command layer.
  \<^item> \<open>Kvs_Sync\<close>: the full synchronisation, both ends.
  \<^item> \<open>Kvs_Store\<close>: the command layer and the start of the program; the specification of every request (\<open>kv_req\<close>,
    \<open>req_maps\<close>, \<open>req_reply\<close>) and the proof that the code implements it; the interpretations \<open>srv\<close> and \<open>replay\<close>.
  \<^item> \<open>Kvs_Safety\<close>: the same code on arbitrary requests.  \<open>Kvs_Recovery\<close>: histories of requests and their replay.
  \<^item> \<open>Kvs_Agent_DS\<close>, \<open>Kvs_Agent\<close>: the agent's table of slaves and byte ring (locale \<open>msg_queue\<close>), its handlers, and
    the two threads that share the ring.
  \<^item> \<open>Kvs_Mempool\<close>: the memory pool over byte-addressed memory, \<open>mp_create\<close> to \<open>mp_destroy\<close>, with the lemmas on its
    doubly linked lists and size classes.  \<open>Kvs_Mempool_Proof\<close>: its invariant \<open>pool_ok\<close>, the blocks in use (\<open>live\<close>), and the
    locale \<open>allocator\<close> of what a client relies on, interpreted on \<open>mp_malloc\<close> and \<open>mp_free\<close> (\<open>mpool\<close>).  The other theories
    take an allocation as an answer of the environment, which covers whatever the pool answers.
  \<^item> This theory: what a restart restores.

  \<^bold>\<open>What is shown.\<close>  Each engine refines the map of its contract on every branch, including missing keys, full
  tables and failed allocations (\<open>array_write_refines\<close>, \<open>hash_writes_refine\<close>, \<open>skiplist_writes_refine\<close>,
  \<open>rbtree_writes_refine\<close>, and the \<open>atomic\<close> lemmas).  A request gets the specified reply (\<open>command_refines\<close>), a
  stream of requests gets the stream of replies however the network cuts either (\<open>server_answers_stream\<close>), and any
  bytes in a KVSP frame are handled but for two described cases (\<open>request_type\<close>).  The log has the right
  content whatever the order of its writes (\<open>log_order_independent\<close>); a dump is complete and loads back
  (\<open>save_load_roundtrip\<close>); a restart ends with the maps the server had (\<open>crash_recovery\<close>); a slave gets the pairs of
  its master (\<open>full_sync_copies\<close>), and the agent relays the writes in order (\<open>agent_relays_stream\<close>).  The blocks of
  the memory pool never overlap and keep what their owner wrote, whatever the order of requests and releases
  (\<open>pool_history_safe\<close>), and its destruction ends and gives everything back (\<open>destroy_releases\<close>).  The lemmas of
  kind error state where the code leaves its buffers or drops data.

  \<^bold>\<open>Bounds.\<close>  Recursion that is not structural has a termination proof; the loops whose end depends on the
  environment or on the shape of a linked structure (\<open>send_loop\<close>, \<open>sendfile_loop\<close>, \<open>save_wait\<close>, \<open>mp_free_slab\<close>, the walks of the pointer
  structures) are \<open>partial_function (option)\<close>, and the theorems prove that they return.  \<open>server_reader\<close>
  recurses over the list of the chunks it receives.  \<open>WBUF_LIMIT\<close> (1 GiB) bounds the reply buffer so that
  doubling it stays an \<open>int\<close>; \<open>INT_MAX\<close> bounds the files, because \<open>kvs_file_read\<close> counts in \<open>int\<close>.
  Requests to the memory pool are below \<open>2 ^ 62\<close> bytes, so that rounding up does not wrap; the addresses are those of a
  64-bit machine.

  \<^bold>\<open>Not modelled.\<close>  The accept loop and the socket setup of \<^verbatim>\<open>ntyco.c\<close> and \<open>kvs_connect_to_remote\<close>'s address
  handling are calls of the kernel and of the NtyCo library.  \<^verbatim>\<open>reactor.c\<close> and \<^verbatim>\<open>proactor.c\<close> are alternative
  servers that the build selects against (\<open>NETWORK_SELECT\<close>) and whose handler type is not the one of the command
  layer.  \<^verbatim>\<open>rdma_com.c\<close> and the branches of \<^verbatim>\<open>kvs_sync.c\<close> that call it are not compiled in and consist of calls of the
  RDMA libraries.  Of \<^verbatim>\<open>xxhash.h\<close> only the scalar \<open>XXH3_64bits\<close> is used; XXH32, XXH64, XXH128, the
  streaming interface and the SIMD kernels are not reached.  The vendored NtyCo library, its samples and the test
  clients are not part of the store.  Of the agent the loading of the BPF program is a call of libbpf; the two
  probes are modelled by what they deliver.
\<close>

section \<open>Recovery\<close>


definition init_ans0 :: init_ans where
  "init_ans0 = \<lparr>ia_conf = None, ia_eng = env0, ia_array = replicate KVS_ARRAY_SIZE array_null_item, ia_hash = (\<lambda>_. Some []), ia_save_env = env0,
     ia_save_stat = True, ia_save_map = True, ia_load = (\<lambda>_. env0), ia_log_env = env0, ia_log_open = 3, ia_log_stat = True, ia_log_map = True,
     ia_cmds = (\<lambda>_. cmd_env0)\<rparr>"

text \<open>The state at the start of the process, with the log file on the disk.\<close>

definition restart0 :: "string \<Rightarrow> kvs_store \<Rightarrow> kvs_server" where
  "restart0 f s = \<lparr>global_config = conf0, kv_store = s, kv_log = \<lparr>fd_log = -1, ring_log_inited = 0, global_log_offset = 0, in_flight = [], log_file = f\<rparr>,
     kv_save = save_state0, is_recovering = 1, is_full_sync = 0, direct = []\<rparr>"


end
